(* ===== verification/Prelude.thy ===== *)
theory Prelude
  imports Main "HOL-Library.List_Lexorder" "HOL-Library.Char_ord" "HOL-Library.Product_Lexorder"
begin

text \<open>
  What every component shares: the widths of the machine integers with Rust's saturating
  operations, ordered maps (Rust's \<open>BTreeMap\<close>, as association lists with strictly increasing
  keys, so that iteration order is part of the model), the iterator helpers the sources call
  (\<open>position\<close>, \<open>min_by_key\<close>, \<open>max_by_key\<close>, keeping the newest entries of a queue) and the
  lemma collections the component proofs draw on. Strings are byte strings: a Rust
  \<open>String\<close> is a sequence of UTF-8 bytes, and \<open>len\<close> counts them.
\<close>

named_theorems om_simps \<open>lookups and keys of ordered maps after each operation\<close>
named_theorems wf_intros \<open>well-formedness preserved by each operation\<close>

section \<open>Machine integers\<close>

definition u64_max :: nat where
  "u64_max = 18446744073709551615"

definition u32_max :: nat where
  "u32_max = 4294967295"

text \<open>
  \<open>u64::saturating_add\<close>. On \<open>u64\<close> values the bound is \<open>u64_max\<close>; a first argument outside the
  type is returned unchanged, so that the sum is never below it.
\<close>

definition sat_add :: "nat \<Rightarrow> nat \<Rightarrow> nat" where
  "sat_add a b = (if a + b \<le> u64_max then a + b else max a u64_max)"

definition sat_mul :: "nat \<Rightarrow> nat \<Rightarrow> nat" where
  "sat_mul a b = min (a * b) u64_max"

text \<open>\<open>saturating_sub\<close> on an unsigned integer is subtraction on \<open>nat\<close>.\<close>

abbreviation (input) sat_sub :: "nat \<Rightarrow> nat \<Rightarrow> nat" where
  "sat_sub a b \<equiv> a - b"

lemma sat_add_le: "a \<le> u64_max \<Longrightarrow> sat_add a b \<le> u64_max"
  by (simp add: sat_add_def)

lemma sat_add_le_sum: "sat_add a b \<le> a + b"
  by (simp add: sat_add_def)

lemma sat_add_ge: "a \<le> sat_add a b"
  by (simp add: sat_add_def)

lemma sat_add_less: "sat_add a b < u64_max \<Longrightarrow> sat_add a b = a + b"
  by (simp add: sat_add_def split: if_splits)

lemma sat_add_exact: "a + b \<le> u64_max \<Longrightarrow> sat_add a b = a + b"
  by (simp add: sat_add_def)

lemma sat_mul_le: "sat_mul a b \<le> u64_max" and sat_mul_le_prod: "sat_mul a b \<le> a * b"
  by (simp_all add: sat_mul_def)

section \<open>Ordered maps\<close>

type_synonym ('k, 'v) omap = "('k \<times> 'v) list"

abbreviation om_get :: "('k, 'v) omap \<Rightarrow> 'k \<Rightarrow> 'v option" where
  "om_get m k \<equiv> map_of m k"

fun om_put :: "'k::linorder \<Rightarrow> 'v \<Rightarrow> ('k, 'v) omap \<Rightarrow> ('k, 'v) omap" where
  "om_put k v [] = [(k, v)]"
| "om_put k v ((a, b) # m) =
     (if k < a then (k, v) # (a, b) # m
      else if k = a then (k, v) # m
      else (a, b) # om_put k v m)"

definition om_del :: "'k \<Rightarrow> ('k, 'v) omap \<Rightarrow> ('k, 'v) omap" where
  "om_del k m = filter (\<lambda>p. fst p \<noteq> k) m"

definition om_keys :: "('k, 'v) omap \<Rightarrow> 'k list" where
  "om_keys m = map fst m"

definition om_vals :: "('k, 'v) omap \<Rightarrow> 'v list" where
  "om_vals m = map snd m"

definition om_wf :: "('k::linorder, 'v) omap \<Rightarrow> bool" where
  "om_wf m = sorted_wrt (<) (map fst m)"

text \<open>\<open>retain\<close> and \<open>values_mut\<close>: filtering the entries, and changing each value in place.\<close>

definition om_retain :: "('k \<Rightarrow> 'v \<Rightarrow> bool) \<Rightarrow> ('k, 'v) omap \<Rightarrow> ('k, 'v) omap" where
  "om_retain P m = filter (\<lambda>(k, v). P k v) m"

definition om_map :: "('k \<Rightarrow> 'v \<Rightarrow> 'v) \<Rightarrow> ('k, 'v) omap \<Rightarrow> ('k, 'v) omap" where
  "om_map f m = map (\<lambda>(k, v). (k, f k v)) m"

lemma om_get_put [simp, om_simps]:
  "om_get (om_put k v m) k' = (if k' = k then Some v else om_get m k')"
  by (induction m) auto

lemma om_get_del [simp, om_simps]:
  "om_get (om_del k m) k' = (if k' = k then None else om_get m k')"
  by (induction m) (auto simp: om_del_def)

lemma om_get_map [om_simps]: "om_get (om_map f m) k = map_option (f k) (om_get m k)"
  by (induction m) (auto simp: om_map_def)

lemma om_wf_Nil [simp]: "om_wf []"
  by (simp add: om_wf_def)

lemma set_om_put: "set (om_put k v m) \<subseteq> insert (k, v) (set m)"
  by (induction m) (auto split: if_splits)

lemma om_wf_put [simp, wf_intros]: "om_wf m \<Longrightarrow> om_wf (om_put k v m)"
proof (induction m)
  case (Cons p m)
  obtain a b where p: "p = (a, b)" by (cases p)
  have "\<forall>x \<in> set (map fst (om_put k v m)). a < x" if "a < k" "\<forall>x \<in> set (map fst m). a < x"
    using set_om_put [of k v m] that by fastforce
  with Cons show ?case by (auto simp: om_wf_def p)
qed (simp add: om_wf_def)

lemma om_wf_filter: "om_wf m \<Longrightarrow> om_wf (filter P m)"
  by (simp add: om_wf_def sorted_wrt_map sorted_wrt_filter)

lemma om_wf_del [simp, wf_intros]: "om_wf m \<Longrightarrow> om_wf (om_del k m)"
  by (simp add: om_del_def om_wf_filter)

lemma om_wf_retain [simp, wf_intros]: "om_wf m \<Longrightarrow> om_wf (om_retain P m)"
  by (simp add: om_retain_def om_wf_filter)

lemma om_keys_map [simp]: "map fst (om_map f m) = map fst m"
  by (induction m) (auto simp: om_map_def)

lemma om_wf_map [simp, wf_intros]: "om_wf m \<Longrightarrow> om_wf (om_map f m)"
  by (simp add: om_wf_def)

lemma om_wf_distinct: "om_wf m \<Longrightarrow> distinct (map fst m)"
  unfolding om_wf_def using strict_sorted_iff by blast

lemma om_wf_tl [simp]: "om_wf (p # m) \<Longrightarrow> om_wf m"
  by (simp add: om_wf_def)

lemma om_get_in: "om_wf m \<Longrightarrow> (om_get m k = Some v) = ((k, v) \<in> set m)"
  by (simp add: om_wf_distinct)

lemma om_get_retain [om_simps]:
  "om_wf m \<Longrightarrow> om_get (om_retain P m) k = (case om_get m k of None \<Rightarrow> None | Some v \<Rightarrow> if P k v then Some v else None)"
proof (induction m)
  case (Cons p m)
  obtain a b where p: "p = (a, b)" by (cases p)
  have "om_get m a = None"
    using om_wf_distinct [OF Cons.prems] by (simp add: p map_of_eq_None_iff)
  with Cons show ?case by (auto simp: om_retain_def p split: option.splits)
qed (simp add: om_retain_def)

lemma length_om_del: "length (om_del k m) \<le> length m"
  by (simp add: om_del_def)

lemma length_om_del_Some: "om_get m k = Some v \<Longrightarrow> length (om_del k m) < length m"
  by (induction m) (auto simp: om_del_def less_Suc_eq_le split: if_splits)

lemma om_get_None_del [simp]: "om_get m k = None \<Longrightarrow> om_del k m = m"
  by (induction m) (auto simp: om_del_def split: if_splits)

lemma length_om_put: "length (om_put k v m) \<le> Suc (length m)"
  by (induction m) auto

lemma length_om_put_Some: "om_get m k = Some w \<Longrightarrow> om_wf m \<Longrightarrow> length (om_put k v m) = length m"
proof (induction m)
  case (Cons p m)
  obtain a b where p: "p = (a, b)" by (cases p)
  show ?case
  proof (cases "k < a")
    case True
    then have "om_get (p # m) k = None"
      using Cons.prems(2) by (auto simp: p om_wf_def map_of_eq_None_iff)
    with Cons.prems(1) show ?thesis by simp
  next
    case False
    with Cons show ?thesis by (auto simp: p)
  qed
qed simp

text \<open>The sum of a measure over the values of a map.\<close>

definition om_sum :: "('v \<Rightarrow> nat) \<Rightarrow> ('k, 'v) omap \<Rightarrow> nat" where
  "om_sum f m = sum_list (map (\<lambda>p. f (snd p)) m)"

lemma om_sum_simps [simp]: "om_sum f [] = 0" "om_sum f (p # m) = f (snd p) + om_sum f m"
  by (simp_all add: om_sum_def)

lemma om_sum_del: "om_wf m \<Longrightarrow> om_get m k = Some v \<Longrightarrow> om_sum f m = om_sum f (om_del k m) + f v"
proof (induction m)
  case (Cons p m)
  obtain a b where p: "p = (a, b)" by (cases p)
  show ?case
  proof (cases "a = k")
    case True
    then have "om_get m k = None" using om_wf_distinct [OF Cons.prems(1)] by (simp add: p map_of_eq_None_iff)
    then have "om_del k m = m" by simp
    with True Cons.prems(2) show ?thesis by (simp add: p om_del_def)
  next
    case False
    with Cons show ?thesis by (simp add: p om_del_def)
  qed
qed simp

lemma om_sum_put_new: "om_get m k = None \<Longrightarrow> om_sum f (om_put k v m) = om_sum f m + f v"
  by (induction m) (auto split: if_splits)

lemma om_sum_put: "om_wf m \<Longrightarrow> om_get m k = Some w \<Longrightarrow> om_sum f (om_put k v m) + f w = om_sum f m + f v"
proof (induction m)
  case (Cons p m)
  obtain a b where p: "p = (a, b)" by (cases p)
  show ?case
  proof (cases "k < a")
    case True
    then have "om_get (p # m) k = None" using Cons.prems(1) by (auto simp: p om_wf_def map_of_eq_None_iff)
    with Cons.prems(2) show ?thesis by simp
  next
    case False
    with Cons show ?thesis by (auto simp: p)
  qed
qed simp

lemma om_sum_le: "om_wf m \<Longrightarrow> om_get m k = Some v \<Longrightarrow> f v \<le> om_sum f m"
  using om_sum_del [of m k v f] by simp

section \<open>Iterators\<close>

text \<open>\<open>Iterator::position\<close>: the index of the first match.\<close>

fun position :: "('a \<Rightarrow> bool) \<Rightarrow> 'a list \<Rightarrow> nat option" where
  "position P [] = None"
| "position P (x # xs) = (if P x then Some 0 else map_option Suc (position P xs))"

lemma position_Some: "position P xs = Some i \<Longrightarrow> i < length xs \<and> P (xs ! i) \<and> (\<forall>j < i. \<not> P (xs ! j))"
proof (induction xs arbitrary: i)
  case (Cons x xs)
  then show ?case
    by (cases i) (auto split: if_splits simp: less_Suc_eq_0_disj)
qed simp

lemma position_None: "position P xs = None \<longleftrightarrow> (\<forall>x \<in> set xs. \<not> P x)"
  by (induction xs) auto

text \<open>\<open>Iterator::min_by_key\<close> keeps the first of equal minima, \<open>max_by_key\<close> the last of equal maxima.\<close>

fun min_by_key :: "('a \<Rightarrow> 'b::linorder) \<Rightarrow> 'a list \<Rightarrow> 'a option" where
  "min_by_key f [] = None"
| "min_by_key f (x # xs) =
     (case min_by_key f xs of
        None \<Rightarrow> Some x
      | Some y \<Rightarrow> (if f x \<le> f y then Some x else Some y))"

fun max_by_key :: "('a \<Rightarrow> 'b::linorder) \<Rightarrow> 'a list \<Rightarrow> 'a option" where
  "max_by_key f [] = None"
| "max_by_key f (x # xs) =
     (case max_by_key f xs of
        None \<Rightarrow> Some x
      | Some y \<Rightarrow> (if f y < f x then Some x else Some y))"

lemma min_by_key_None [simp]: "min_by_key f xs = None \<longleftrightarrow> xs = []"
  by (cases xs) (auto split: option.splits)

lemma min_by_key_in: "min_by_key f xs = Some x \<Longrightarrow> x \<in> set xs"
  by (induction xs arbitrary: x) (auto split: option.splits if_splits)

lemma min_by_key_le: "min_by_key f xs = Some x \<Longrightarrow> y \<in> set xs \<Longrightarrow> f x \<le> f y"
  by (induction xs arbitrary: x) (fastforce split: option.splits if_splits)+

lemma max_by_key_None [simp]: "max_by_key f xs = None \<longleftrightarrow> xs = []"
  by (cases xs) (auto split: option.splits)

lemma max_by_key_in: "max_by_key f xs = Some x \<Longrightarrow> x \<in> set xs"
  by (induction xs arbitrary: x) (auto split: option.splits if_splits)

lemma max_by_key_ge: "max_by_key f xs = Some x \<Longrightarrow> y \<in> set xs \<Longrightarrow> f y \<le> f x"
  by (induction xs arbitrary: x) (fastforce split: option.splits if_splits)+

text \<open>Dropping from the front until at most \<open>n\<close> elements are left.\<close>

definition keep_newest :: "nat \<Rightarrow> 'a list \<Rightarrow> 'a list" where
  "keep_newest n xs = drop (length xs - n) xs"

lemma length_keep_newest [simp]: "length (keep_newest n xs) = min n (length xs)"
  by (simp add: keep_newest_def min_def)

lemma set_keep_newest: "set (keep_newest n xs) \<subseteq> set xs"
  by (simp add: keep_newest_def set_drop_subset)

lemma keep_newest_all [simp]: "length xs \<le> n \<Longrightarrow> keep_newest n xs = xs"
  by (simp add: keep_newest_def)

lemma keep_newest_snoc: "0 < n \<Longrightarrow> x \<in> set (keep_newest n (xs @ [x]))"
  by (simp add: keep_newest_def)

lemma distinct_keep_newest [simp]: "distinct xs \<Longrightarrow> distinct (keep_newest n xs)"
  by (simp add: keep_newest_def)

lemma keep_newest_map: "map f (keep_newest n xs) = keep_newest n (map f xs)"
  by (simp add: keep_newest_def drop_map)

text \<open>\<open>into_iter().flatten()\<close> on a list of options.\<close>

fun somes :: "'a option list \<Rightarrow> 'a list" where
  "somes [] = []"
| "somes (None # xs) = somes xs"
| "somes (Some x # xs) = x # somes xs"

lemma somes_append [simp]: "somes (xs @ ys) = somes xs @ somes ys"
  by (induction xs rule: somes.induct) simp_all

lemma set_somes: "set (somes xs) = {x. Some x \<in> set xs}"
  by (induction xs rule: somes.induct) auto

section \<open>Loops\<close>

lemma foldl_inv:
  assumes "P s" and "\<And>s x. x \<in> set xs \<Longrightarrow> P s \<Longrightarrow> P (f s x)"
  shows "P (foldl f s xs)"
  using assms by (induction xs arbitrary: s) auto

lemma foldl_frame:
  assumes "\<And>s x. x \<in> set xs \<Longrightarrow> g (f s x) = g s"
  shows "g (foldl f s xs) = g s"
  using assms by (induction xs arbitrary: s) auto

lemma find_Some: "find P xs = Some x \<Longrightarrow> x \<in> set xs \<and> P x"
  by (auto simp: find_Some_iff)

end
