(* ===== verification/Connection.thy ===== *)
theory Connection
  imports Prelude Complex_Main
begin

text \<open>
  \<open>crates/client-core/src/connection.rs\<close>: the connection reducer, one pure function from a state
  and a connectivity event to the next state and its effects. Random jitter and its fraction are
  rationals; the rounding of the two floating-point products before \<open>floor\<close> is not modelled.
  The runtime's two timers (retry and visibility check) are added in the last section, which
  interprets the effects as the host does.
\<close>

section \<open>Configuration and state\<close>

definition RECONNECT_BASE_MS :: nat where "RECONNECT_BASE_MS = 2000"
definition RECONNECT_MAX_MS :: nat where "RECONNECT_MAX_MS = 30000"
definition RECONNECT_JITTER_FRACTION :: rat where "RECONNECT_JITTER_FRACTION = 1 / 4"
definition VISIBILITY_DEBOUNCE_MS :: nat where "VISIBILITY_DEBOUNCE_MS = 500"
definition DECRYPT_FAILURE_THRESHOLD :: nat where "DECRYPT_FAILURE_THRESHOLD = 3"
definition HEARTBEAT_STALE_AFTER_MS :: nat where "HEARTBEAT_STALE_AFTER_MS = 150000"

record ReconnectConfig =
  rc_base_ms :: nat
  rc_max_ms :: nat
  rc_jitter_fraction :: rat
  rc_heartbeat_stale_after_ms :: nat
  rc_connect_deadline_ms :: nat

definition DEFAULT_RECONNECT_CONFIG :: ReconnectConfig where
  "DEFAULT_RECONNECT_CONFIG =
     \<lparr>rc_base_ms = RECONNECT_BASE_MS, rc_max_ms = RECONNECT_MAX_MS, rc_jitter_fraction = RECONNECT_JITTER_FRACTION,
      rc_heartbeat_stale_after_ms = HEARTBEAT_STALE_AFTER_MS, rc_connect_deadline_ms = 45000\<rparr>"

definition TOR_RECONNECT_CONFIG :: ReconnectConfig where
  "TOR_RECONNECT_CONFIG =
     \<lparr>rc_base_ms = 8000, rc_max_ms = 60000, rc_jitter_fraction = RECONNECT_JITTER_FRACTION,
      rc_heartbeat_stale_after_ms = 240000, rc_connect_deadline_ms = 90000\<rparr>"

datatype ConnectionStatus = CsIdle | CsConnecting | CsConnected | CsWaitingRetry | CsOffline | CsStopped

datatype Presence = PrLive | PrStale | PrOffline

record ConnectionState =
  cn_status :: ConnectionStatus
  cn_attempt :: nat
  cn_online :: bool
  cn_visible :: bool
  cn_hidden_pending :: bool
  cn_last_connected_at :: "nat option"
  cn_decrypt_failures :: nat
  cn_needs_pairing_check :: bool
  cn_heartbeats :: "(string, nat) omap"

definition initial_connection_state :: ConnectionState where
  "initial_connection_state =
     \<lparr>cn_status = CsIdle, cn_attempt = 0, cn_online = True, cn_visible = True, cn_hidden_pending = False,
      cn_last_connected_at = None, cn_decrypt_failures = 0, cn_needs_pairing_check = False, cn_heartbeats = []\<rparr>"

datatype ConnectionEvent =
    ConnectRequested | DisconnectRequested | EvOnline | EvOffline | Visibility bool | VisibilitySettled
  | Resume | SocketOpen nat | SocketClose "rat option" | RetryDue | HeartbeatReceived string nat | DecryptFailure

datatype ConnectionEffect =
    OpenSocket | CloseSocket | ScheduleRetry nat | CancelRetry | ScheduleVisibilityCheck nat
  | CancelVisibilityCheck | RefreshAndReconcile | ResumeReconcile

section \<open>The reducer\<close>

text \<open>\<open>1u64.checked_shl(attempt)\<close> is \<open>None\<close> from 64 on.\<close>

definition backoff_delay_ms :: "nat \<Rightarrow> rat \<Rightarrow> ReconnectConfig \<Rightarrow> nat" where
  "backoff_delay_ms attempt random config =
     (let factor = (if attempt < 64 then 2 ^ attempt else u64_max);
          base = min (sat_mul (rc_base_ms config) factor) (rc_max_ms config);
          r = max 0 (min 1 random);
          jitter = nat \<lfloor>r * of_nat base * rc_jitter_fraction config\<rfloor>
      in base + jitter)"

definition CONNECT_EFFECTS :: "ConnectionEffect list" where
  "CONNECT_EFFECTS = [CancelRetry, OpenSocket]"

fun connection_reducer ::
  "ConnectionState \<Rightarrow> ConnectionEvent \<Rightarrow> ReconnectConfig \<Rightarrow> ConnectionState \<times> ConnectionEffect list" where
  "connection_reducer state ConnectRequested config =
     (if cn_status state = CsConnected \<or> cn_status state = CsConnecting then (state, [])
      else if \<not> cn_online state then (state\<lparr>cn_status := CsOffline, cn_attempt := 0\<rparr>, [])
      else (state\<lparr>cn_status := CsConnecting, cn_attempt := 0\<rparr>, CONNECT_EFFECTS))"
| "connection_reducer state DisconnectRequested config =
     (state\<lparr>cn_status := CsStopped, cn_hidden_pending := False\<rparr>, [CancelRetry, CancelVisibilityCheck, CloseSocket])"
| "connection_reducer state EvOnline config =
     (let next = state\<lparr>cn_online := True\<rparr> in
      if cn_status state \<in> {CsConnected, CsConnecting, CsStopped, CsIdle} then (next, [])
      else (next\<lparr>cn_status := CsConnecting, cn_attempt := 0\<rparr>, CONNECT_EFFECTS))"
| "connection_reducer state EvOffline config =
     (if cn_status state = CsStopped \<or> cn_status state = CsIdle then (state\<lparr>cn_online := False\<rparr>, [])
      else (state\<lparr>cn_online := False, cn_status := CsOffline, cn_attempt := 0\<rparr>, [CancelRetry, CloseSocket]))"
| "connection_reducer state (Visibility True) config =
     (let effects = (if cn_hidden_pending state then [CancelVisibilityCheck] else []);
          next = state\<lparr>cn_visible := True, cn_hidden_pending := False\<rparr>
      in if cn_online state \<and> (cn_status state = CsWaitingRetry \<or> cn_status state = CsIdle)
         then (next\<lparr>cn_status := CsConnecting, cn_attempt := 0\<rparr>, effects @ CONNECT_EFFECTS)
         else (next, effects))"
| "connection_reducer state (Visibility False) config =
     (if cn_hidden_pending state then (state, [])
      else (state\<lparr>cn_hidden_pending := True\<rparr>, [ScheduleVisibilityCheck VISIBILITY_DEBOUNCE_MS]))"
| "connection_reducer state VisibilitySettled config =
     (if \<not> cn_hidden_pending state then (state, [])
      else (state\<lparr>cn_visible := False, cn_hidden_pending := False\<rparr>, []))"
| "connection_reducer state Resume config =
     (if cn_status state = CsConnected then (state, [ResumeReconcile])
      else if cn_status state = CsStopped \<or> \<not> cn_online state then (state, [])
      else (state\<lparr>cn_status := CsConnecting, cn_attempt := 0\<rparr>, CONNECT_EFFECTS))"
| "connection_reducer state (SocketOpen at_ms) config =
     (if cn_status state = CsStopped then (state, [])
      else (state\<lparr>cn_status := CsConnected, cn_attempt := 0, cn_last_connected_at := Some at_ms\<rparr>,
            [CancelRetry, RefreshAndReconcile]))"
| "connection_reducer state (SocketClose random) config =
     (if cn_status state \<in> {CsStopped, CsOffline, CsIdle} then (state, [])
      else if \<not> cn_online state then (state\<lparr>cn_status := CsOffline, cn_attempt := 0\<rparr>, [CancelRetry])
      else (let delay_ms = backoff_delay_ms (cn_attempt state) (case random of None \<Rightarrow> 0 | Some r \<Rightarrow> r) config
            in (state\<lparr>cn_status := CsWaitingRetry, cn_attempt := cn_attempt state + 1\<rparr>, [ScheduleRetry delay_ms])))"
| "connection_reducer state RetryDue config =
     (if cn_status state \<noteq> CsWaitingRetry \<or> \<not> cn_online state then (state, [])
      else (state\<lparr>cn_status := CsConnecting\<rparr>, [OpenSocket]))"
| "connection_reducer state (HeartbeatReceived machine at_ms) config =
     (state\<lparr>cn_heartbeats := om_put machine at_ms (cn_heartbeats state)\<rparr>, [])"
| "connection_reducer state DecryptFailure config =
     (let decrypt_failures = cn_decrypt_failures state + 1
      in (state\<lparr>cn_decrypt_failures := decrypt_failures,
            cn_needs_pairing_check := (cn_needs_pairing_check state \<or> DECRYPT_FAILURE_THRESHOLD \<le> decrypt_failures)\<rparr>, []))"

section \<open>Presence\<close>

definition presence_of :: "ConnectionState \<Rightarrow> string \<Rightarrow> nat \<Rightarrow> nat \<Rightarrow> Presence" where
  "presence_of state machine_pubkey now stale_after_ms =
     (if cn_status state \<noteq> CsConnected then PrOffline
      else case om_get (cn_heartbeats state) machine_pubkey of
             None \<Rightarrow> PrOffline
           | Some at_ms \<Rightarrow> (if now - at_ms \<le> stale_after_ms then PrLive else PrStale))"

definition heartbeats_all_stale :: "ConnectionState \<Rightarrow> nat \<Rightarrow> nat \<Rightarrow> bool" where
  "heartbeats_all_stale state now stale_after_ms =
     (if cn_status state \<noteq> CsConnected then False
      else case cn_last_connected_at state of
             None \<Rightarrow> False
           | Some opened \<Rightarrow>
               (if now - opened \<le> stale_after_ms then False
                else if cn_heartbeats state = [] then False
                else list_all (\<lambda>at_ms. stale_after_ms < now - at_ms) (om_vals (cn_heartbeats state))))"

section \<open>The host's timers\<close>

text \<open>
  \<open>apply\<close> of \<open>crates/client-runtime/src/runtime.rs\<close> keeps one retry timer and one visibility timer
  and carries the effects out in order. The events \<open>RetryDue\<close> and \<open>VisibilitySettled\<close> come from the
  armed timer, which is then gone (\<open>fired\<close>), or from elsewhere: a keepalive probe, or the queued
  message of a timer cancelled since.
\<close>

record host =
  h_state :: ConnectionState
  h_retry :: bool
  h_visibility :: bool

fun carry_out :: "ConnectionEffect \<Rightarrow> host \<Rightarrow> host" where
  "carry_out (ScheduleRetry d) h = h\<lparr>h_retry := True\<rparr>"
| "carry_out CancelRetry h = h\<lparr>h_retry := False\<rparr>"
| "carry_out (ScheduleVisibilityCheck d) h = h\<lparr>h_visibility := True\<rparr>"
| "carry_out CancelVisibilityCheck h = h\<lparr>h_visibility := False\<rparr>"
| "carry_out _ h = h"

definition host_step :: "ReconnectConfig \<Rightarrow> bool \<Rightarrow> ConnectionEvent \<Rightarrow> host \<Rightarrow> host" where
  "host_step config fired e h =
     (let h1 = (if fired \<and> e = RetryDue then h\<lparr>h_retry := False\<rparr>
                else if fired \<and> e = VisibilitySettled then h\<lparr>h_visibility := False\<rparr> else h);
          (state, effects) = connection_reducer (h_state h) e config
      in fold carry_out effects (h1\<lparr>h_state := state\<rparr>))"

definition host_start :: host where
  "host_start = \<lparr>h_state = initial_connection_state, h_retry = False, h_visibility = False\<rparr>"

inductive host_reach :: "ReconnectConfig \<Rightarrow> host \<Rightarrow> bool" for config where
  start: "host_reach config host_start"
| event: "host_reach config h \<Longrightarrow> host_reach config (host_step config fired e h)"

definition host_inv :: "host \<Rightarrow> bool" where
  "host_inv h = (let s = h_state h in
     (cn_status s = CsWaitingRetry \<longrightarrow> h_retry h) \<and> (cn_hidden_pending s \<longrightarrow> h_visibility h)
     \<and> (cn_status s = CsOffline \<longrightarrow> \<not> cn_online s)
     \<and> (cn_status s = CsWaitingRetry \<or> cn_status s = CsConnecting \<longrightarrow> cn_online s)
     \<and> (DECRYPT_FAILURE_THRESHOLD \<le> cn_decrypt_failures s \<longleftrightarrow> cn_needs_pairing_check s))"

lemma host_inv_step:
  assumes "host_inv h"
  shows "host_inv (host_step config fired e h)"
  using assms
  by (cases "(h_state h, e, config)" rule: connection_reducer.cases)
     (simp_all add: host_inv_def host_step_def Let_def CONNECT_EFFECTS_def, auto)

lemma host_inv_reach: "host_reach config h \<Longrightarrow> host_inv h"
proof (induction rule: host_reach.induct)
  case start
  show ?case by (simp add: host_inv_def host_start_def initial_connection_state_def DECRYPT_FAILURE_THRESHOLD_def Let_def)
qed (rule host_inv_step)

section \<open>Properties\<close>

text \<open>C30: The connection is never stuck: whoever waits for a retry is online and has the retry timer
  armed, whose firing opens a socket; a pending hide has its debounce timer armed; \<open>Offline\<close> and
  \<open>Connecting\<close> agree with the network; the pairing warning is up exactly from the third decrypt failure on.\<close>

theorem connection_never_stuck:
  assumes "host_reach config h"
  shows "(cn_status (h_state h) = CsWaitingRetry \<longrightarrow> h_retry h \<and> cn_online (h_state h)
        \<and> snd (connection_reducer (h_state h) RetryDue config) = [OpenSocket])
    \<and> (cn_hidden_pending (h_state h) \<longrightarrow> h_visibility h)
    \<and> (cn_status (h_state h) = CsOffline \<longrightarrow> \<not> cn_online (h_state h))
    \<and> (cn_status (h_state h) = CsConnecting \<longrightarrow> cn_online (h_state h))
    \<and> (3 \<le> cn_decrypt_failures (h_state h) \<longleftrightarrow> cn_needs_pairing_check (h_state h))"
  using host_inv_reach [OF assms] by (auto simp: host_inv_def Let_def DECRYPT_FAILURE_THRESHOLD_def)

definition sample_waiting :: host where
  "sample_waiting = host_step DEFAULT_RECONNECT_CONFIG False (SocketClose None)
     (host_step DEFAULT_RECONNECT_CONFIG False ConnectRequested host_start)"

theorem connection_never_stuck_witness:
  "host_reach DEFAULT_RECONNECT_CONFIG sample_waiting \<and> cn_status (h_state sample_waiting) = CsWaitingRetry \<and> h_retry sample_waiting"
proof -
  have "host_reach DEFAULT_RECONNECT_CONFIG sample_waiting"
    unfolding sample_waiting_def by (intro host_reach.event host_reach.start)
  moreover have "cn_status (h_state sample_waiting) = CsWaitingRetry"
    by (simp add: sample_waiting_def host_step_def host_start_def initial_connection_state_def CONNECT_EFFECTS_def Let_def)
  ultimately show ?thesis using connection_never_stuck [of DEFAULT_RECONNECT_CONFIG sample_waiting] by simp
qed

lemma healthy_socket:
  "(CloseSocket \<in> set (snd (connection_reducer s e config)) \<longrightarrow> e = DisconnectRequested \<or> e = EvOffline)
    \<and> (cn_status s = CsConnected \<longrightarrow> cn_status (fst (connection_reducer s e config)) = CsConnected
        \<or> e = DisconnectRequested \<or> e = EvOffline \<or> (\<exists>r. e = SocketClose r))"
  by (cases "(s, e, config)" rule: connection_reducer.cases) (auto simp: CONNECT_EFFECTS_def Let_def)

lemma connect_reconciles:
  assumes "cn_status s \<noteq> CsConnected" "connection_reducer s e config = (s', es)" "cn_status s' = CsConnected"
  shows "\<exists>at_ms. e = SocketOpen at_ms \<and> es = [CancelRetry, RefreshAndReconcile] \<and> cn_attempt s' = 0
    \<and> cn_last_connected_at s' = Some at_ms"
  using assms by (cases "(s, e, config)" rule: connection_reducer.cases) (auto simp: Let_def split: if_splits)

text \<open>A healthy socket is only given up by an explicit disconnect or a lost network: no other
  event closes it, and nothing but those and the socket's own close ends \<open>Connected\<close>; hiding, showing
  or resuming the app and failing to decrypt never do. And every connection that comes up is reconciled: the
  status turns \<open>Connected\<close> only on an opened socket, with a fresh attempt counter, the open's time recorded,
  the retry cancelled and a refresh asked for.\<close>

lemma socket_kept_and_reconciled:
  "(CloseSocket \<in> set (snd (connection_reducer s e config)) \<longrightarrow> e = DisconnectRequested \<or> e = EvOffline)
    \<and> (cn_status s = CsConnected \<longrightarrow> cn_status (fst (connection_reducer s e config)) = CsConnected
        \<or> e = DisconnectRequested \<or> e = EvOffline \<or> (\<exists>r. e = SocketClose r))
    \<and> (cn_status s \<noteq> CsConnected \<and> cn_status (fst (connection_reducer s e config)) = CsConnected \<longrightarrow>
        (\<exists>at_ms. e = SocketOpen at_ms \<and> snd (connection_reducer s e config) = [CancelRetry, RefreshAndReconcile]
          \<and> cn_attempt (fst (connection_reducer s e config)) = 0
          \<and> cn_last_connected_at (fst (connection_reducer s e config)) = Some at_ms))"
  using healthy_socket [of s e config] connect_reconciles [of s e config] by (cases "connection_reducer s e config") auto

lemma backoff_base_mono:
  assumes "a \<le> b"
  shows "sat_mul x (if a < 64 then 2 ^ a else u64_max) \<le> sat_mul x (if b < 64 then 2 ^ b else u64_max)"
proof -
  have "(2::nat) ^ a \<le> u64_max" if "a < 64" for a
  proof -
    have "(2::nat) ^ a \<le> 2 ^ 63" using that by (intro power_increasing) auto
    then show ?thesis by (simp add: u64_max_def)
  qed
  moreover have "(2::nat) ^ a \<le> 2 ^ b" using assms by (intro power_increasing) auto
  ultimately have "(if a < 64 then 2 ^ a else u64_max) \<le> (if b < 64 then 2 ^ b else u64_max)" using assms by auto
  then show ?thesis unfolding sat_mul_def by (intro min.mono mult_le_mono2 order_refl)
qed

lemma jitter_mono:
  fixes r f :: rat
  assumes "m \<le> n" "0 \<le> r" "0 \<le> f"
  shows "m + nat \<lfloor>r * of_nat m * f\<rfloor> \<le> n + nat \<lfloor>r * of_nat n * f\<rfloor>"
proof -
  have "r * of_nat m * f \<le> r * of_nat n * f" using assms by (intro mult_right_mono mult_left_mono) auto
  then show ?thesis using assms(1) by (intro add_mono nat_mono floor_mono)
qed

text \<open>The backoff starts at the base, never exceeds the cap by more than the jitter fraction of it,
  and grows with the attempt.\<close>

lemma backoff_bounded:
  assumes "rc_base_ms config \<le> rc_max_ms config" "rc_max_ms config \<le> u64_max" "0 \<le> rc_jitter_fraction config"
  shows "rc_base_ms config \<le> backoff_delay_ms attempt random config
    \<and> backoff_delay_ms attempt random config \<le> rc_max_ms config + nat \<lfloor>of_nat (rc_max_ms config) * rc_jitter_fraction config\<rfloor>
    \<and> backoff_delay_ms attempt random config \<le> backoff_delay_ms (attempt + 1) random config"
proof (intro conjI)
  let ?f = "rc_jitter_fraction config" and ?max = "rc_max_ms config"
  let ?r = "max 0 (min 1 random)"
  let ?base = "\<lambda>a. min (sat_mul (rc_base_ms config) (if a < 64 then 2 ^ a else u64_max)) ?max"
  have eq: "backoff_delay_ms a random config = ?base a + nat \<lfloor>?r * of_nat (?base a) * ?f\<rfloor>" for a
    unfolding backoff_delay_ms_def Let_def by (rule refl)
  have "rc_base_ms config \<le> ?base attempt"
    using assms(1,2) by (auto simp: sat_mul_def u64_max_def)
  then show "rc_base_ms config \<le> backoff_delay_ms attempt random config" unfolding eq by linarith
  have "?base attempt + nat \<lfloor>?r * of_nat (?base attempt) * ?f\<rfloor> \<le> ?max + nat \<lfloor>?r * of_nat ?max * ?f\<rfloor>"
    using assms(3) by (intro jitter_mono) auto
  also have "\<dots> \<le> ?max + nat \<lfloor>of_nat ?max * ?f\<rfloor>"
  proof -
    have "?r * of_nat ?max * ?f \<le> 1 * of_nat ?max * ?f" using assms(3) by (intro mult_right_mono) auto
    then show ?thesis by (intro add_left_mono nat_mono floor_mono) simp
  qed
  finally show "backoff_delay_ms attempt random config \<le> ?max + nat \<lfloor>of_nat ?max * ?f\<rfloor>" unfolding eq .
  show "backoff_delay_ms attempt random config \<le> backoff_delay_ms (attempt + 1) random config"
    unfolding eq using assms(3) backoff_base_mono [of attempt "attempt + 1"] by (intro jitter_mono min.mono) auto
qed

text \<open>Dead subscriptions are found without a reconnect loop: the check fires only when no machine is
  live or freshly connected, and after every opened socket it stays quiet for a whole stale window.\<close>

lemma stale_check_guarded:
  "(heartbeats_all_stale s now w \<longrightarrow> cn_status s = CsConnected \<and> presence_of s m now w \<noteq> PrLive)
    \<and> (cn_status s \<noteq> CsStopped \<and> now - opened \<le> w \<longrightarrow>
        \<not> heartbeats_all_stale (fst (connection_reducer s (SocketOpen opened) config)) now w)"
proof (intro conjI impI)
  assume stale: "heartbeats_all_stale s now w"
  then show "cn_status s = CsConnected" by (auto simp: heartbeats_all_stale_def split: if_splits)
  have "list_all (\<lambda>at_ms. w < now - at_ms) (om_vals (cn_heartbeats s))"
    using stale by (auto simp: heartbeats_all_stale_def split: if_splits option.splits)
  then show "presence_of s m now w \<noteq> PrLive"
    by (auto simp: presence_of_def list_all_iff om_vals_def split: option.splits dest!: map_of_SomeD)
qed (simp add: heartbeats_all_stale_def)

end
