(* ===== verification/Outbox.thy ===== *)
theory Outbox
  imports Prelude
begin

text \<open>
  \<open>crates/client-core/src/stores/outbox.rs\<close>: the life of everything the user sends, from pending
  to published to confirmed or failed, with the retention cap. The JSON text of the stored list
  (\<open>serde_json\<close>) is given by the parameters \<open>print\<close> and \<open>parse\<close>; a parsed array element that is
  no item is \<open>None\<close>.
\<close>

section \<open>State\<close>

definition OUTBOX_CONFIRM_TIMEOUT_MS :: nat where "OUTBOX_CONFIRM_TIMEOUT_MS = 30000"
definition MAX_OUTBOX_ITEMS :: nat where "MAX_OUTBOX_ITEMS = 200"

datatype OutboxItemState = ObPending | ObPublished | ObConfirmed | ObFailed

fun is_resolved :: "OutboxItemState \<Rightarrow> bool" where
  "is_resolved st = (st = ObConfirmed \<or> st = ObFailed)"

fun is_unresolved :: "OutboxItemState \<Rightarrow> bool" where
  "is_unresolved st = (st = ObPending \<or> st = ObPublished)"

record OutboxItem =
  ob_id :: string
  ob_machine :: string
  ob_session_id :: string
  ob_text :: string
  ob_state :: OutboxItemState
  ob_created_at :: nat
  ob_published_at :: "nat option"
  ob_confirmed_at :: "nat option"
  ob_failed_at :: "nat option"
  ob_error :: "string option"
  ob_attempts :: nat
  ob_attempt_started_at :: "nat option"

type_synonym outbox_items = "(string, OutboxItem) omap"

record OutboxState =
  ox_items :: outbox_items
  ox_confirm_timeout_ms :: nat
  ox_max_items :: nat

definition serialize_outbox :: "(OutboxItem list \<Rightarrow> string) \<Rightarrow> outbox_items \<Rightarrow> string" where
  "serialize_outbox print items = print (om_vals items)"

definition hydrate_outbox :: "(string \<Rightarrow> OutboxItem option list option) \<Rightarrow> string option \<Rightarrow> outbox_items" where
  "hydrate_outbox parse raw =
     (case raw of
        None \<Rightarrow> []
      | Some text \<Rightarrow>
          (case parse text of
             None \<Rightarrow> []
           | Some items \<Rightarrow>
               foldl (\<lambda>m i. om_put (ob_id i) i m) [] (filter (\<lambda>i. ob_id i \<noteq> []) (somes items))))"

definition outbox_new :: "outbox_items \<Rightarrow> OutboxState" where
  "outbox_new items = \<lparr>ox_items = items, ox_confirm_timeout_ms = OUTBOX_CONFIRM_TIMEOUT_MS, ox_max_items = MAX_OUTBOX_ITEMS\<rparr>"

definition ox_item :: "OutboxState \<Rightarrow> string \<Rightarrow> OutboxItem option" where
  "ox_item x i = om_get (ox_items x) i"

definition items_for :: "OutboxState \<Rightarrow> string \<Rightarrow> string \<Rightarrow> OutboxItem list" where
  "items_for x machine session_id =
     sort_key ob_created_at
       (filter (\<lambda>i. ob_machine i = machine \<and> ob_session_id i = session_id) (om_vals (ox_items x)))"

definition forget_session :: "string \<Rightarrow> string \<Rightarrow> OutboxState \<Rightarrow> bool \<times> OutboxState" where
  "forget_session machine session_id x =
     (let items = om_retain (\<lambda>_ i. \<not> (ob_machine i = machine \<and> ob_session_id i = session_id)) (ox_items x)
      in (length items \<noteq> length (ox_items x), x\<lparr>ox_items := items\<rparr>))"

definition forget_machine :: "string \<Rightarrow> OutboxState \<Rightarrow> bool \<times> OutboxState" where
  "forget_machine machine x =
     (let items = om_retain (\<lambda>_ i. ob_machine i \<noteq> machine) (ox_items x)
      in (length items \<noteq> length (ox_items x), x\<lparr>ox_items := items\<rparr>))"

definition unresolved :: "OutboxState \<Rightarrow> OutboxItem list" where
  "unresolved x = filter (\<lambda>i. is_unresolved (ob_state i)) (om_vals (ox_items x))"

definition new_input :: "string \<Rightarrow> string \<Rightarrow> string \<Rightarrow> string \<Rightarrow> nat \<Rightarrow> OutboxItem" where
  "new_input i machine session_id txt now =
     \<lparr>ob_id = i, ob_machine = machine, ob_session_id = session_id, ob_text = txt, ob_state = ObPending,
      ob_created_at = now, ob_published_at = None, ob_confirmed_at = None, ob_failed_at = None,
      ob_error = None, ob_attempts = 0, ob_attempt_started_at = None\<rparr>"

section \<open>Insertion with retention\<close>

text \<open>The eviction loop: \<open>victims\<close> oldest first, until nothing is in excess.\<close>

fun evict :: "(nat \<times> string) list \<Rightarrow> nat \<Rightarrow> outbox_items \<Rightarrow> outbox_items" where
  "evict [] excess items = items"
| "evict ((created, i) # victims) excess items =
     (if excess = 0 then items else evict victims (excess - 1) (om_del i items))"

definition outbox_put :: "OutboxItem \<Rightarrow> OutboxState \<Rightarrow> OutboxState" where
  "outbox_put item x =
     (let items = om_put (ob_id item) item (ox_items x) in
      if length items \<le> ox_max_items x then x\<lparr>ox_items := items\<rparr>
      else
        let victims = sort (map (\<lambda>i. (ob_created_at i, ob_id i))
              (filter (\<lambda>i. is_resolved (ob_state i) \<and> ob_id i \<noteq> ob_id item) (om_vals items)))
        in x\<lparr>ox_items := evict victims (length items - ox_max_items x) items\<rparr>)"

section \<open>Transitions\<close>

definition begin_publish :: "OutboxItem \<Rightarrow> OutboxState \<Rightarrow> OutboxItem \<times> OutboxState" where
  "begin_publish item x =
     (let item1 = item\<lparr>ob_state := ObPending, ob_attempts := ob_attempts item + 1, ob_error := None, ob_failed_at := None\<rparr>
      in (item1, outbox_put item1 x))"

definition settle_publish :: "string \<Rightarrow> bool \<Rightarrow> string option \<Rightarrow> nat \<Rightarrow> OutboxState \<Rightarrow> OutboxItem option \<times> OutboxState" where
  "settle_publish i accepted error now x =
     (case om_get (ox_items x) i of
        None \<Rightarrow> (None, x)
      | Some current \<Rightarrow>
          (if is_resolved (ob_state current) then (Some current, x)
           else
             (let next = (if accepted then current\<lparr>ob_state := ObPublished, ob_published_at := Some now\<rparr>
                else current\<lparr>ob_state := ObFailed, ob_failed_at := Some now,
                       ob_error := Some (case error of None \<Rightarrow> ''no relay accepted the event'' | Some e \<Rightarrow> e)\<rparr>)
              in (Some next, outbox_put next x))))"

definition confirm :: "string \<Rightarrow> nat \<Rightarrow> OutboxState \<Rightarrow> OutboxState" where
  "confirm i now x =
     (case om_get (ox_items x) i of
        None \<Rightarrow> x
      | Some item \<Rightarrow>
          (if ob_state item \<noteq> ObConfirmed
           then outbox_put (item\<lparr>ob_state := ObConfirmed, ob_confirmed_at := Some now, ob_error := None\<rparr>) x
           else x))"

definition fail_input :: "string \<Rightarrow> string \<Rightarrow> nat \<Rightarrow> OutboxState \<Rightarrow> OutboxState" where
  "fail_input i reason now x =
     (case om_get (ox_items x) i of
        None \<Rightarrow> x
      | Some item \<Rightarrow>
          (if \<not> is_resolved (ob_state item)
           then outbox_put (item\<lparr>ob_state := ObFailed, ob_failed_at := Some now, ob_error := Some reason\<rparr>) x
           else x))"

definition mark_retry :: "string \<Rightarrow> nat \<Rightarrow> OutboxState \<Rightarrow> OutboxItem option \<times> OutboxState" where
  "mark_retry i now x =
     (case om_get (ox_items x) i of
        None \<Rightarrow> (None, x)
      | Some item \<Rightarrow>
          (if ob_state item \<noteq> ObFailed then (None, x)
           else (let (item1, x1) = begin_publish (item\<lparr>ob_published_at := None, ob_attempt_started_at := Some now\<rparr>) x
                 in (Some item1, x1))))"

definition started_at :: "OutboxItem \<Rightarrow> nat" where
  "started_at i =
     (case ob_published_at i of
        Some t \<Rightarrow> t
      | None \<Rightarrow> (case ob_attempt_started_at i of Some t \<Rightarrow> t | None \<Rightarrow> ob_created_at i))"

definition timed_out :: "nat \<Rightarrow> OutboxItem \<Rightarrow> OutboxItem" where
  "timed_out now item =
     item\<lparr>ob_state := ObFailed, ob_failed_at := Some now,
       ob_error := Some (if ob_state item = ObPublished then ''no ack from bridge'' else ''publish timed out'')\<rparr>"

definition sweep_due :: "nat \<Rightarrow> nat \<Rightarrow> OutboxItem \<Rightarrow> bool" where
  "sweep_due timeout now i = (is_unresolved (ob_state i) \<and> timeout \<le> now - started_at i)"

definition sweep :: "nat \<Rightarrow> OutboxState \<Rightarrow> OutboxState" where
  "sweep now x =
     foldl (\<lambda>x1 item. outbox_put (timed_out now item) x1) x
       (filter (sweep_due (ox_confirm_timeout_ms x) now) (om_vals (ox_items x)))"

section \<open>Retention\<close>

definition outbox_ok :: "OutboxState \<Rightarrow> bool" where
  "outbox_ok x = (om_wf (ox_items x) \<and> (\<forall>i it. om_get (ox_items x) i = Some it \<longrightarrow> ob_id it = i))"

lemma evict_get: "om_get (evict vs n items) i = (if i \<in> snd ` set (take n vs) then None else om_get items i)"
proof (induction vs n items rule: evict.induct)
  case (2 created j vs n items)
  then show ?case by (cases n) auto
qed simp

lemma om_wf_evict [simp]: "om_wf items \<Longrightarrow> om_wf (evict vs n items)"
  by (induction vs n items rule: evict.induct) auto

lemma length_om_del_eq: "om_wf m \<Longrightarrow> om_get m k = Some v \<Longrightarrow> length (om_del k m) = length m - 1"
proof (induction m)
  case (Cons p m)
  obtain a b where p: "p = (a, b)" by (cases p)
  show ?case
  proof (cases "a = k")
    case True
    then have "om_get m k = None" using om_wf_distinct [OF Cons.prems(1)] by (simp add: p map_of_eq_None_iff)
    with True show ?thesis by (simp add: p om_del_def) (metis om_get_None_del om_del_def)
  next
    case False
    then have "m \<noteq> []" using Cons.prems(2) by (auto simp: p)
    moreover have "length (om_del k m) = length m - 1" using Cons False by (simp add: p)
    ultimately show ?thesis using False by (cases m) (auto simp: p om_del_def)
  qed
qed simp

lemma evict_length:
  assumes "om_wf items" "distinct (map snd vs)" "\<forall>v \<in> set vs. om_get items (snd v) \<noteq> None"
  shows "length (evict vs n items) = length items - min n (length vs)"
  using assms
proof (induction vs n items rule: evict.induct)
  case (2 created j vs n items)
  show ?case
  proof (cases n)
    case (Suc n')
    have "\<forall>v \<in> set vs. om_get (om_del j items) (snd v) \<noteq> None" using 2(3,4) by (auto simp: image_iff)
    then have "length (evict vs n' (om_del j items)) = length (om_del j items) - min n' (length vs)"
      using 2 Suc by simp
    moreover have "length (om_del j items) = length items - 1" using length_om_del_eq 2(2,4) by fastforce
    ultimately show ?thesis using Suc by simp
  qed simp
qed simp

text \<open>The items an insertion may evict, oldest first.\<close>

definition victims :: "OutboxItem \<Rightarrow> outbox_items \<Rightarrow> (nat \<times> string) list" where
  "victims item items = sort (map (\<lambda>i. (ob_created_at i, ob_id i))
     (filter (\<lambda>i. is_resolved (ob_state i) \<and> ob_id i \<noteq> ob_id item) (om_vals items)))"

definition evicted :: "OutboxItem \<Rightarrow> OutboxState \<Rightarrow> string set" where
  "evicted item x = (let items = om_put (ob_id item) item (ox_items x) in
     snd ` set (take (length items - ox_max_items x) (victims item items)))"

lemma outbox_put_unfold:
  "outbox_put item x = x\<lparr>ox_items := evict (victims item (om_put (ob_id item) item (ox_items x)))
     (length (om_put (ob_id item) item (ox_items x)) - ox_max_items x) (om_put (ob_id item) item (ox_items x))\<rparr>"
proof -
  have "evict vs 0 items = items" for vs items by (cases vs) auto
  then show ?thesis by (simp add: outbox_put_def victims_def Let_def)
qed

lemma outbox_put_get:
  "om_get (ox_items (outbox_put item x)) i =
     (if i \<in> evicted item x then None else if i = ob_id item then Some item else om_get (ox_items x) i)"
  by (simp add: outbox_put_unfold evict_get evicted_def Let_def)

lemma victims_mem:
  assumes "outbox_ok x" "v \<in> set (victims item (om_put (ob_id item) item (ox_items x)))"
  shows "\<exists>it. om_get (ox_items x) (snd v) = Some it \<and> is_resolved (ob_state it) \<and> snd v \<noteq> ob_id item \<and> fst v = ob_created_at it"
proof -
  let ?items = "om_put (ob_id item) item (ox_items x)"
  obtain k it where it: "(k, it) \<in> set ?items" "is_resolved (ob_state it)" "ob_id it \<noteq> ob_id item"
    "v = (ob_created_at it, ob_id it)"
    using assms(2) by (auto simp: victims_def om_vals_def)
  have "om_get ?items k = Some it" using it(1) assms(1) om_get_in [of ?items] by (simp add: outbox_ok_def)
  then have "k = ob_id it \<and> om_get (ox_items x) k = Some it"
    using assms(1) it(3) by (auto simp: outbox_ok_def split: if_splits)
  with it show ?thesis by auto
qed

lemma evicted_resolved:
  assumes "outbox_ok x" "i \<in> evicted item x"
  shows "\<exists>it. om_get (ox_items x) i = Some it \<and> is_resolved (ob_state it) \<and> i \<noteq> ob_id item"
  using assms victims_mem [OF assms(1), of _ item] by (fastforce simp: evicted_def Let_def dest!: in_set_takeD)

lemma outbox_ok_put [wf_intros]: "outbox_ok x \<Longrightarrow> outbox_ok (outbox_put item x)"
  unfolding outbox_ok_def using outbox_put_get [of item x]
  by (auto simp: outbox_put_unfold split: if_splits)

lemma outbox_put_fields [simp]:
  "ox_max_items (outbox_put item x) = ox_max_items x" "ox_confirm_timeout_ms (outbox_put item x) = ox_confirm_timeout_ms x"
  by (simp_all add: outbox_put_unfold)

lemma evicted_under_cap:
  "length (om_put (ob_id item) item (ox_items x)) \<le> ox_max_items x \<Longrightarrow> evicted item x = {}"
  by (simp add: evicted_def Let_def)

text \<open>What is left is within the cap, or holds nothing an insertion may drop.\<close>

lemma victims_distinct:
  assumes "outbox_ok x"
  shows "distinct (map snd (victims item (om_put (ob_id item) item (ox_items x))))"
proof -
  let ?items = "om_put (ob_id item) item (ox_items x)"
  have ok: "ob_id it = k" if "(k, it) \<in> set ?items" for k it
    using assms that om_get_in [of ?items k it] by (auto simp: outbox_ok_def split: if_splits)
  have "map ob_id (om_vals ?items) = map fst ?items" using ok by (auto simp: om_vals_def)
  then have "distinct (map ob_id (filter P (om_vals ?items)))" for P
    using assms om_wf_distinct [of ?items] by (metis distinct_map_filter om_wf_put outbox_ok_def)
  then have "distinct (map snd (map (\<lambda>i. (ob_created_at i, ob_id i)) (filter P (om_vals ?items))))" for P
    by (simp add: comp_def)
  moreover have "distinct (map snd (sort ps)) = distinct (map snd ps)" for ps :: "(nat \<times> string) list"
    by (simp only: distinct_map set_sort distinct_sort)
  ultimately show ?thesis by (simp only: victims_def)
qed

lemma outbox_put_length:
  assumes "outbox_ok x"
  shows "length (ox_items (outbox_put item x)) \<le> ox_max_items x
    \<or> (\<forall>i it. om_get (ox_items (outbox_put item x)) i = Some it \<longrightarrow> i = ob_id item \<or> is_unresolved (ob_state it))"
proof -
  let ?items = "om_put (ob_id item) item (ox_items x)" and ?vs = "victims item (om_put (ob_id item) item (ox_items x))"
  let ?n = "length ?items - ox_max_items x"
  have "\<forall>v \<in> set ?vs. om_get ?items (snd v) \<noteq> None" using victims_mem [OF assms, of _ item] by fastforce
  then have len: "length (ox_items (outbox_put item x)) = length ?items - min ?n (length ?vs)"
    using assms evict_length [OF _ victims_distinct [OF assms, of item], of _ ?n]
    by (simp add: outbox_put_unfold outbox_ok_def)
  show ?thesis
  proof (cases "?n \<le> length ?vs")
    case False
    have "i = ob_id item \<or> is_unresolved (ob_state it)" if it: "om_get (ox_items (outbox_put item x)) i = Some it" for i it
    proof (rule ccontr)
      assume no: "\<not> (i = ob_id item \<or> is_unresolved (ob_state it))"
      then have res: "is_resolved (ob_state it)" by (cases "ob_state it") auto
      have get: "om_get ?items i = Some it" "i \<notin> evicted item x" using it no by (auto simp: outbox_put_get split: if_splits)
      then have "(i, it) \<in> set ?items" using assms om_get_in [of ?items] by (simp add: outbox_ok_def)
      moreover have "ob_id it = i" using get(1) no assms by (auto simp: outbox_ok_def)
      ultimately have "(ob_created_at it, i) \<in> set ?vs" using res no by (force simp: victims_def om_vals_def)
      then have "i \<in> evicted item x" using False by (force simp: evicted_def Let_def)
      with get(2) show False by simp
    qed
    then show ?thesis by blast
  next
    case True
    with len have "length (ox_items (outbox_put item x)) \<le> ox_max_items x" by linarith
    then show ?thesis ..
  qed
qed

lemma evicted_oldest:
  assumes "outbox_ok x" "i \<in> evicted item x" "om_get (ox_items (outbox_put item x)) j = Some jt"
    and "is_resolved (ob_state jt)" "j \<noteq> ob_id item" "om_get (ox_items x) i = Some it"
  shows "(ob_created_at it, i) \<le> (ob_created_at jt, j)"
proof -
  let ?items = "om_put (ob_id item) item (ox_items x)"
  let ?vs = "victims item ?items" and ?n = "length ?items - ox_max_items x"
  obtain v where v: "v \<in> set (take ?n ?vs)" "snd v = i" using assms(2) by (auto simp: evicted_def Let_def)
  then have "fst v = ob_created_at it" using victims_mem [OF assms(1) in_set_takeD [OF v(1)]] assms(6) by auto
  with v(2) have "v = (ob_created_at it, i)" by (metis prod.collapse)
  moreover have j: "om_get ?items j = Some jt" "j \<notin> evicted item x" using assms(3,5) by (auto simp: outbox_put_get split: if_splits)
  moreover have "(ob_created_at jt, j) \<in> set ?vs"
  proof -
    have "(j, jt) \<in> set ?items" using j(1) assms(1) om_get_in [of ?items] by (simp add: outbox_ok_def)
    moreover have "ob_id jt = j" using j(1) assms(1,5) by (auto simp: outbox_ok_def)
    ultimately show ?thesis using assms(4,5) by (force simp: victims_def om_vals_def)
  qed
  then have "(ob_created_at jt, j) \<in> set (drop ?n ?vs)"
    using j(2) by (metis (no_types, lifting) UnE append_take_drop_id evicted_def image_eqI set_append snd_conv)
  moreover have "sorted (take ?n ?vs @ drop ?n ?vs)" by (simp add: victims_def)
  ultimately show ?thesis using v(1) unfolding sorted_append by blast
qed

section \<open>The sweep\<close>

lemma outbox_put_frame:
  assumes "outbox_ok x" "i \<noteq> ob_id item"
  shows "om_get (ox_items (outbox_put item x)) i = om_get (ox_items x) i
    \<or> om_get (ox_items (outbox_put item x)) i = None \<and> (\<exists>it. om_get (ox_items x) i = Some it \<and> is_resolved (ob_state it))"
  using assms evicted_resolved [OF assms(1), of i item] by (auto simp: outbox_put_get)

lemma outbox_put_written: "outbox_ok x \<Longrightarrow> om_get (ox_items (outbox_put item x)) (ob_id item) = Some item"
  using evicted_resolved [of x "ob_id item" item] by (auto simp: outbox_put_get)

lemma timed_out_id [simp]: "ob_id (timed_out now it) = ob_id it" "ob_state (timed_out now it) = ObFailed"
  by (simp_all add: timed_out_def)

definition time_out_all :: "nat \<Rightarrow> OutboxItem list \<Rightarrow> OutboxState \<Rightarrow> OutboxState" where
  "time_out_all now ds x = foldl (\<lambda>x1 d. outbox_put (timed_out now d) x1) x ds"

lemma time_out_all_simps [simp]:
  "time_out_all now [] x = x" "time_out_all now (d # ds) x = time_out_all now ds (outbox_put (timed_out now d) x)"
  by (simp_all add: time_out_all_def)

lemma outbox_ok_time_out_all [wf_intros]: "outbox_ok x \<Longrightarrow> outbox_ok (time_out_all now ds x)"
  by (induction ds arbitrary: x) (auto intro: outbox_ok_put)

text \<open>Items the sweep does not write: unresolved ones stay, resolved ones stay or are evicted.\<close>

lemma time_out_others:
  assumes "outbox_ok x" "i \<notin> ob_id ` set ds"
  shows "om_get (ox_items (time_out_all now ds x)) i = om_get (ox_items x) i
    \<or> om_get (ox_items (time_out_all now ds x)) i = None \<and> (\<exists>it. om_get (ox_items x) i = Some it \<and> is_resolved (ob_state it))"
  using assms
proof (induction ds arbitrary: x)
  case (Cons d ds)
  let ?y = "outbox_put (timed_out now d) x"
  have "om_get (ox_items ?y) i = om_get (ox_items x) i
      \<or> om_get (ox_items ?y) i = None \<and> (\<exists>it. om_get (ox_items x) i = Some it \<and> is_resolved (ob_state it))"
    using Cons.prems by (intro outbox_put_frame) auto
  moreover have "outbox_ok ?y" by (rule outbox_ok_put [OF Cons.prems(1)])
  ultimately show ?case using Cons.IH [of ?y] Cons.prems(2) by auto
qed simp

text \<open>Items it does write are failed, or evicted after that.\<close>

lemma time_out_written:
  assumes "outbox_ok x" "distinct (map ob_id ds)" "d \<in> set ds"
    and "\<forall>e \<in> set ds. om_get (ox_items x) (ob_id e) = Some e \<and> is_unresolved (ob_state e)"
  shows "om_get (ox_items (time_out_all now ds x)) (ob_id d) = None
    \<or> om_get (ox_items (time_out_all now ds x)) (ob_id d) = Some (timed_out now d)"
  using assms
proof (induction ds arbitrary: x)
  case (Cons e ds)
  let ?y = "outbox_put (timed_out now e) x"
  have ok: "outbox_ok ?y" by (rule outbox_ok_put [OF Cons.prems(1)])
  have fresh: "ob_id e \<notin> ob_id ` set ds" using Cons.prems(2) by simp
  show ?case
  proof (cases "d = e")
    case True
    then show ?thesis
      using time_out_others [OF ok fresh, of now] outbox_put_written [OF Cons.prems(1), of "timed_out now e"] by auto
  next
    case False
    then have d: "d \<in> set ds" using Cons.prems(3) by simp
    have "om_get (ox_items ?y) (ob_id f) = Some f \<and> is_unresolved (ob_state f)" if "f \<in> set ds" for f
    proof -
      have "ob_id f \<noteq> ob_id e" using fresh that by (metis imageI)
      then show ?thesis
        using outbox_put_frame [OF Cons.prems(1), of "ob_id f" "timed_out now e"] Cons.prems(4) that by fastforce
    qed
    then show ?thesis using Cons.IH [OF ok _ d] Cons.prems(2) by simp
  qed
qed simp

text \<open>Within the cap nothing is evicted: a written item replaces itself.\<close>

lemma time_out_all_cap:
  assumes "outbox_ok x" "\<forall>e \<in> set ds. om_get (ox_items x) (ob_id e) \<noteq> None" "length (ox_items x) \<le> ox_max_items x"
    and "om_get (ox_items x) i \<noteq> None"
  shows "om_get (ox_items (time_out_all now ds x)) i \<noteq> None"
  using assms
proof (induction ds arbitrary: x)
  case (Cons d ds)
  let ?y = "outbox_put (timed_out now d) x"
  obtain v where "om_get (ox_items x) (ob_id d) = Some v" using Cons.prems(2) by auto
  then have len: "length (om_put (ob_id d) (timed_out now d) (ox_items x)) = length (ox_items x)"
    using Cons.prems(1) by (intro length_om_put_Some) (auto simp: outbox_ok_def)
  then have "evicted (timed_out now d) x = {}" using Cons.prems(3) by (intro evicted_under_cap) simp
  then have "om_get (ox_items x) j \<noteq> None \<Longrightarrow> om_get (ox_items ?y) j \<noteq> None" for j by (simp add: outbox_put_get)
  moreover have "length (ox_items ?y) \<le> ox_max_items ?y" using len Cons.prems(3) by (simp add: outbox_put_def)
  ultimately show ?case using Cons.IH [OF outbox_ok_put [OF Cons.prems(1)]] Cons.prems(2,4) by simp
qed simp

text \<open>The items the sweep picks.\<close>

lemma items_known:
  assumes "outbox_ok x" "it \<in> set (om_vals (ox_items x))"
  shows "om_get (ox_items x) (ob_id it) = Some it"
proof -
  obtain k where "(k, it) \<in> set (ox_items x)" using assms(2) by (auto simp: om_vals_def)
  then have "om_get (ox_items x) k = Some it" using assms(1) by (simp add: outbox_ok_def om_get_in)
  with assms(1) show ?thesis by (auto simp: outbox_ok_def)
qed

lemma items_ids:
  assumes "outbox_ok x"
  shows "map ob_id (om_vals (ox_items x)) = map fst (ox_items x)"
proof -
  have "ob_id it = k" if "(k, it) \<in> set (ox_items x)" for k it
    using assms that by (auto simp: outbox_ok_def simp flip: om_get_in)
  then show ?thesis by (auto simp: om_vals_def)
qed

lemma items_distinct: "outbox_ok x \<Longrightarrow> distinct (map ob_id (filter P (om_vals (ox_items x))))"
  by (rule distinct_map_filter) (simp add: items_ids outbox_ok_def om_wf_distinct)

lemma item_in_vals: "outbox_ok x \<Longrightarrow> om_get (ox_items x) i = Some it \<Longrightarrow> it \<in> set (om_vals (ox_items x)) \<and> ob_id it = i"
  by (force simp: outbox_ok_def om_vals_def om_get_in)

lemma sweep_unfold: "sweep now x = time_out_all now (filter (sweep_due (ox_confirm_timeout_ms x) now) (om_vals (ox_items x))) x"
  by (simp add: sweep_def time_out_all_def)

lemma sweep_due_item:
  assumes "outbox_ok x" "om_get (ox_items x) i = Some it" "sweep_due (ox_confirm_timeout_ms x) now it"
  shows "om_get (ox_items (sweep now x)) i = None \<or> om_get (ox_items (sweep now x)) i = Some (timed_out now it)"
proof -
  have "it \<in> set (om_vals (ox_items x))" "ob_id it = i" using item_in_vals [OF assms(1,2)] by auto
  moreover have "\<forall>e \<in> set (filter (sweep_due (ox_confirm_timeout_ms x) now) (om_vals (ox_items x))).
      om_get (ox_items x) (ob_id e) = Some e \<and> is_unresolved (ob_state e)"
    using items_known [OF assms(1)] by (simp add: sweep_due_def)
  ultimately show ?thesis
    using time_out_written [OF assms(1) items_distinct [OF assms(1)]] assms(3) by (auto simp: sweep_unfold)
qed

lemma sweep_other_item:
  assumes "outbox_ok x" "om_get (ox_items x) i = Some it" "\<not> sweep_due (ox_confirm_timeout_ms x) now it"
  shows "om_get (ox_items (sweep now x)) i = Some it
    \<or> om_get (ox_items (sweep now x)) i = None \<and> is_resolved (ob_state it)"
proof -
  have "i \<notin> ob_id ` set (filter (sweep_due (ox_confirm_timeout_ms x) now) (om_vals (ox_items x)))"
    using items_known [OF assms(1)] assms(2,3) by auto
  from time_out_others [OF assms(1) this, of now] assms(2) show ?thesis by (auto simp: sweep_unfold)
qed

lemma sweep_none:
  assumes "outbox_ok x" "om_get (ox_items x) i = None"
  shows "om_get (ox_items (sweep now x)) i = None"
proof -
  have "i \<notin> ob_id ` set (filter (sweep_due (ox_confirm_timeout_ms x) now) (om_vals (ox_items x)))"
    using items_known [OF assms(1)] assms(2) by auto
  from time_out_others [OF assms(1) this, of now] assms(2) show ?thesis by (auto simp: sweep_unfold)
qed

section \<open>Steps\<close>

text \<open>Everything that happens to an outbox; a new input comes under an id the outbox does not hold.\<close>

inductive outbox_step :: "OutboxState \<Rightarrow> OutboxState \<Rightarrow> bool" where
  send: "om_get (ox_items x) i = None \<Longrightarrow> outbox_step x (snd (begin_publish (new_input i m sid txt now) x))"
| settle: "outbox_step x (snd (settle_publish i accepted err now x))"
| confirm: "outbox_step x (confirm i now x)"
| fail: "outbox_step x (fail_input i reason now x)"
| retry: "outbox_step x (snd (mark_retry i now x))"
| sweep: "outbox_step x (sweep now x)"
| forget_session: "outbox_step x (snd (forget_session m sid x))"
| forget_machine: "outbox_step x (snd (forget_machine m x))"

text \<open>The moves of one item: a confirmed item stays so; a failed one is retried or confirmed by a late ack.\<close>

fun may_move :: "OutboxItemState \<Rightarrow> OutboxItemState \<Rightarrow> bool" where
  "may_move ObPending b = True"
| "may_move ObPublished b = (b \<noteq> ObPending)"
| "may_move ObConfirmed b = (b = ObConfirmed)"
| "may_move ObFailed b = (b \<noteq> ObPublished)"

lemma may_move_simps [simp]:
  "may_move a a" "may_move a ObConfirmed" "may_move a ObFailed \<longleftrightarrow> a \<noteq> ObConfirmed"
  by (cases a; simp)+

text \<open>Why an item may be gone: it was resolved, or the sweep of an outbox over its cap failed it and dropped it at once, or
  its session or its machine was forgotten.\<close>

definition gone_ok :: "OutboxState \<Rightarrow> OutboxState \<Rightarrow> OutboxItem \<Rightarrow> bool" where
  "gone_ok x y it = (is_resolved (ob_state it)
     \<or> (\<exists>now. y = sweep now x \<and> sweep_due (ox_confirm_timeout_ms x) now it \<and> ox_max_items x < length (ox_items x))
     \<or> y = snd (forget_session (ob_machine it) (ob_session_id it) x) \<or> y = snd (forget_machine (ob_machine it) x))"

definition keeps :: "OutboxItem \<Rightarrow> OutboxItem \<Rightarrow> bool" where
  "keeps it it' = (ob_text it' = ob_text it \<and> ob_created_at it' = ob_created_at it
     \<and> ob_machine it' = ob_machine it \<and> ob_session_id it' = ob_session_id it)"

text \<open>A write that moves its item the allowed way, or enters a new one, moves every item so.\<close>

definition moves_ok :: "OutboxState \<Rightarrow> OutboxState \<Rightarrow> bool" where
  "moves_ok x y = (\<forall>i it. om_get (ox_items x) i = Some it \<longrightarrow>
     (om_get (ox_items y) i = None \<longrightarrow> gone_ok x y it)
     \<and> (\<forall>it'. om_get (ox_items y) i = Some it' \<longrightarrow> may_move (ob_state it) (ob_state it') \<and> keeps it it'))"

lemma moves_ok_refl [simp]: "moves_ok x x"
  by (simp add: moves_ok_def keeps_def)

lemma moves_ok_put:
  assumes "outbox_ok x" "\<And>it. om_get (ox_items x) (ob_id item) = Some it \<Longrightarrow>
    may_move (ob_state it) (ob_state item) \<and> keeps it item"
  shows "moves_ok x (outbox_put item x)"
  unfolding moves_ok_def
proof (intro allI impI)
  fix i it assume it: "om_get (ox_items x) i = Some it"
  show "(om_get (ox_items (outbox_put item x)) i = None \<longrightarrow> gone_ok x (outbox_put item x) it)
     \<and> (\<forall>it'. om_get (ox_items (outbox_put item x)) i = Some it' \<longrightarrow> may_move (ob_state it) (ob_state it') \<and> keeps it it')"
  proof (cases "i = ob_id item")
    case True
    with assms it outbox_put_written [OF assms(1), of item] show ?thesis by simp
  next
    case False
    from outbox_put_frame [OF assms(1) False] it show ?thesis by (elim disjE) (simp_all add: gone_ok_def keeps_def)
  qed
qed

lemma outbox_get_id: "outbox_ok x \<Longrightarrow> om_get (ox_items x) i = Some it \<Longrightarrow> ob_id it = i"
  by (simp add: outbox_ok_def)

lemma outbox_ok_forget: "outbox_ok x \<Longrightarrow> outbox_ok (snd (forget_session m sid x))" "outbox_ok x \<Longrightarrow> outbox_ok (snd (forget_machine m x))"
  by (auto simp: outbox_ok_def forget_session_def forget_machine_def om_get_retain Let_def split: if_splits option.splits)

lemma outbox_step_ok: "outbox_step x y \<Longrightarrow> outbox_ok x \<Longrightarrow> outbox_ok y"
  by (induction rule: outbox_step.induct)
     (auto simp: begin_publish_def settle_publish_def confirm_def fail_input_def mark_retry_def sweep_unfold Let_def outbox_ok_forget
       intro: outbox_ok_put outbox_ok_time_out_all split: option.split)

lemma sweep_keeps_within_cap:
  assumes "outbox_ok x" "length (ox_items x) \<le> ox_max_items x" "om_get (ox_items x) i \<noteq> None"
  shows "om_get (ox_items (sweep now x)) i \<noteq> None"
  unfolding sweep_unfold using assms items_known [OF assms(1)] by (intro time_out_all_cap) auto

lemma timed_out_keeps [simp]: "ob_text (timed_out now it) = ob_text it" "ob_created_at (timed_out now it) = ob_created_at it"
  "ob_machine (timed_out now it) = ob_machine it" "ob_session_id (timed_out now it) = ob_session_id it"
  by (simp_all add: timed_out_def)

lemma moves_ok_sweep:
  assumes "outbox_ok x"
  shows "moves_ok x (sweep now x)"
  unfolding moves_ok_def
proof (intro allI impI)
  fix i it assume it: "om_get (ox_items x) i = Some it"
  have gone: "om_get (ox_items (sweep now x)) i = None \<longrightarrow> ox_max_items x < length (ox_items x)"
    using sweep_keeps_within_cap [OF assms, of i now] it by (cases "length (ox_items x) \<le> ox_max_items x") auto
  show "(om_get (ox_items (sweep now x)) i = None \<longrightarrow> gone_ok x (sweep now x) it)
     \<and> (\<forall>it'. om_get (ox_items (sweep now x)) i = Some it' \<longrightarrow> may_move (ob_state it) (ob_state it') \<and> keeps it it')"
  proof (cases "sweep_due (ox_confirm_timeout_ms x) now it")
    case True
    then have "may_move (ob_state it) ObFailed" by (auto simp: sweep_due_def)
    with gone True sweep_due_item [OF assms it True] show ?thesis by (auto simp: gone_ok_def keeps_def)
  next
    case False
    with sweep_other_item [OF assms it False] show ?thesis by (auto simp: gone_ok_def keeps_def)
  qed
qed

lemma moves_ok_forget:
  assumes "outbox_ok x"
  shows "moves_ok x (snd (forget_session m sid x))" "moves_ok x (snd (forget_machine m x))"
  using assms by (auto simp: moves_ok_def gone_ok_def keeps_def forget_session_def forget_machine_def outbox_ok_def om_get_retain Let_def split: if_splits option.splits)

lemma outbox_step_moves:
  assumes "outbox_step x y" "outbox_ok x"
  shows "moves_ok x y"
  using assms
proof (cases rule: outbox_step.cases)
  case (settle i accepted err now)
  show ?thesis
  proof (cases "om_get (ox_items x) i")
    case (Some it)
    with assms(2) have "ob_id it = i" by (rule outbox_get_id)
    with Some settle assms(2) show ?thesis
      by (cases "ob_state it") (auto simp: settle_publish_def keeps_def Let_def intro!: moves_ok_put)
  qed (simp add: settle settle_publish_def)
next
  case (retry i now)
  then show ?thesis
    using assms(2) outbox_get_id [OF assms(2), of i]
    by (auto simp: mark_retry_def begin_publish_def keeps_def Let_def intro!: moves_ok_put split: option.split)
qed (use assms(2) outbox_get_id [OF assms(2)] in
    \<open>auto simp: begin_publish_def new_input_def confirm_def fail_input_def keeps_def Let_def moves_ok_sweep moves_ok_forget
       intro!: moves_ok_put split: option.split\<close>)

section \<open>Storage\<close>

lemma om_put_last: "\<forall>p \<in> set m. fst p < k \<Longrightarrow> om_put k v m = m @ [(k, v)]"
  by (induction m) (auto simp: not_less_iff_gr_or_eq)

lemma foldl_om_put:
  assumes "om_wf (m @ items)"
  shows "foldl (\<lambda>m p. om_put (fst p) (snd p) m) m items = m @ items"
  using assms
proof (induction items arbitrary: m)
  case (Cons p items)
  have "\<forall>q \<in> set m. fst q < fst p" using Cons.prems by (auto simp: om_wf_def sorted_wrt_append)
  then have "om_put (fst p) (snd p) m = m @ [p]" by (simp add: om_put_last)
  with Cons show ?case by simp
qed simp

lemma foldl_items:
  assumes "outbox_ok x"
  shows "foldl (\<lambda>m i. om_put (ob_id i) i m) [] (om_vals (ox_items x)) = ox_items x"
proof -
  have ids: "ob_id (snd p) = fst p" if "p \<in> set (ox_items x)" for p
    using assms that by (metis om_get_in outbox_ok_def prod.collapse)
  have "foldl (\<lambda>m i. om_put (ob_id i) i m) m (map snd ps) = foldl (\<lambda>m p. om_put (fst p) (snd p) m) m ps"
    if "\<forall>p \<in> set ps. ob_id (snd p) = fst p" for m ps
    using that by (induction ps arbitrary: m) auto
  from this [of "ox_items x" "[]"] ids have "foldl (\<lambda>m i. om_put (ob_id i) i m) [] (om_vals (ox_items x))
      = foldl (\<lambda>m p. om_put (fst p) (snd p) m) [] (ox_items x)" by (simp add: om_vals_def)
  then show ?thesis using foldl_om_put [of "[]" "ox_items x"] assms by (simp add: outbox_ok_def)
qed

lemma somes_map_Some [simp]: "somes (map Some xs) = xs"
  by (induction xs) auto

section \<open>Properties\<close>

text \<open>C29: Nothing sent vanishes without a cause: whatever happens to the outbox, an item keeps its text, its session and its
  place in time and moves only along its life cycle (confirmed is final, a failed one is retried or confirmed by a
  late ack). An item that goes was resolved, or its session or its machine was forgotten, or, where the outbox was
  over its cap, the sweep failed it for its timeout and dropped it at once. So an unresolved item goes only when the
  user removed its session or machine, or in that one sweep.\<close>

theorem outbox_life_cycle:
  assumes "outbox_step x y" "outbox_ok x" "om_get (ox_items x) i = Some it"
  shows "outbox_ok y
    \<and> (om_get (ox_items y) i = None \<longrightarrow> is_resolved (ob_state it)
         \<or> y = snd (forget_session (ob_machine it) (ob_session_id it) x) \<or> y = snd (forget_machine (ob_machine it) x)
         \<or> (\<exists>now. y = sweep now x \<and> sweep_due (ox_confirm_timeout_ms x) now it \<and> ox_max_items x < length (ox_items x)))
    \<and> (\<forall>it'. om_get (ox_items y) i = Some it' \<longrightarrow> may_move (ob_state it) (ob_state it')
         \<and> ob_text it' = ob_text it \<and> ob_created_at it' = ob_created_at it
         \<and> ob_machine it' = ob_machine it \<and> ob_session_id it' = ob_session_id it)"
  using outbox_step_moves [OF assms(1,2)] outbox_step_ok [OF assms(1,2)] assms(3) unfolding moves_ok_def gone_ok_def keeps_def by blast

definition sample_item :: "string \<Rightarrow> nat \<Rightarrow> OutboxItem" where
  "sample_item i at = new_input i ''m'' ''s'' ''hello'' at"

definition sample_outbox :: OutboxState where
  "sample_outbox = outbox_new [(''a'', sample_item ''a'' 0), (''b'', sample_item ''b'' 40000)]"

lemma sample_outbox_ok: "outbox_ok sample_outbox"
  by (simp add: sample_outbox_def outbox_new_def outbox_ok_def om_wf_def sample_item_def new_input_def)

lemma sample_outbox_get: "om_get (ox_items sample_outbox) ''a'' = Some (sample_item ''a'' 0)"
  "om_get (ox_items sample_outbox) ''b'' = Some (sample_item ''b'' 40000)"
  by (simp_all add: sample_outbox_def outbox_new_def)

text \<open>The sweep fails the older of two unanswered sends and keeps both.\<close>

theorem outbox_life_cycle_witness:
  "outbox_ok (sweep 35000 sample_outbox) \<and> map_option ob_text (om_get (ox_items (sweep 35000 sample_outbox)) ''a'') = Some ''hello''"
proof -
  have "om_get (ox_items (sweep 35000 sample_outbox)) ''a'' \<noteq> None"
    using sweep_keeps_within_cap [OF sample_outbox_ok, of "''a''" 35000] by (simp add: sample_outbox_def outbox_new_def MAX_OUTBOX_ITEMS_def)
  with outbox_life_cycle [OF outbox_step.sweep [of _ 35000] sample_outbox_ok sample_outbox_get(1)] show ?thesis
    by (auto simp: sample_item_def new_input_def)
qed

text \<open>Past the timeout every unanswered send shows as failed with its reason, and no send is failed
  before it had the whole timeout, counted from its publish or from the start of its retry.\<close>

lemma sweep_times_out_exactly:
  assumes "outbox_ok x" "length (ox_items x) \<le> ox_max_items x" "om_get (ox_items x) i = Some it" "is_unresolved (ob_state it)"
  shows "om_get (ox_items (sweep now x)) i =
    Some (if ox_confirm_timeout_ms x \<le> now - started_at it
          then it\<lparr>ob_state := ObFailed, ob_failed_at := Some now,
                 ob_error := Some (if ob_state it = ObPublished then ''no ack from bridge'' else ''publish timed out'')\<rparr>
          else it)"
  using sweep_due_item [OF assms(1,3), of now] sweep_other_item [OF assms(1,3), of now]
    sweep_keeps_within_cap [OF assms(1,2), of i now] assms(3,4)
  by (auto simp: sweep_due_def timed_out_def)

text \<open>Retention: after every write the outbox is within its cap or holds nothing it may drop, the
  written item is there, and what was dropped is older than every resolved item that was kept.\<close>

lemma outbox_retention:
  assumes "outbox_ok x"
  shows "om_get (ox_items (outbox_put item x)) (ob_id item) = Some item
    \<and> (length (ox_items (outbox_put item x)) \<le> ox_max_items x
       \<or> (\<forall>i it. om_get (ox_items (outbox_put item x)) i = Some it \<longrightarrow> i = ob_id item \<or> is_unresolved (ob_state it)))
    \<and> (\<forall>i it j jt. om_get (ox_items x) i = Some it \<and> i \<noteq> ob_id item \<and> om_get (ox_items (outbox_put item x)) i = None
        \<and> om_get (ox_items (outbox_put item x)) j = Some jt \<and> is_resolved (ob_state jt) \<and> j \<noteq> ob_id item
        \<longrightarrow> is_resolved (ob_state it) \<and> (ob_created_at it, i) \<le> (ob_created_at jt, j))"
proof (intro conjI allI impI)
  fix i it j jt
  assume a: "om_get (ox_items x) i = Some it \<and> i \<noteq> ob_id item \<and> om_get (ox_items (outbox_put item x)) i = None
        \<and> om_get (ox_items (outbox_put item x)) j = Some jt \<and> is_resolved (ob_state jt) \<and> j \<noteq> ob_id item"
  then have "i \<in> evicted item x" by (auto simp: outbox_put_get split: if_splits)
  with a show "is_resolved (ob_state it)" "(ob_created_at it, i) \<le> (ob_created_at jt, j)"
    using evicted_resolved [OF assms, of i item] evicted_oldest [OF assms, of i item j jt it] by auto
qed (use outbox_put_written [OF assms] outbox_put_length [OF assms] in blast)+

text \<open>What is persisted is what is loaded: hydrating the serialised outbox gives it back, for any JSON
  text that reads back what it was printed from; missing or unreadable text gives an empty outbox.\<close>

lemma outbox_storage_roundtrip:
  assumes "parse (print (om_vals (ox_items x))) = Some (map Some (om_vals (ox_items x)))" "outbox_ok x" "om_get (ox_items x) [] = None"
  shows "hydrate_outbox parse (Some (serialize_outbox print (ox_items x))) = ox_items x \<and> hydrate_outbox parse None = []"
proof -
  have "\<forall>it \<in> set (om_vals (ox_items x)). ob_id it \<noteq> []"
    using items_known [OF assms(2)] assms(3) by (metis option.distinct(1))
  then have "filter (\<lambda>i. ob_id i \<noteq> []) (om_vals (ox_items x)) = om_vals (ox_items x)" by (simp add: filter_id_conv)
  then show ?thesis using foldl_items [OF assms(2)] by (simp add: hydrate_outbox_def serialize_outbox_def assms(1))
qed

text \<open>The sweep over a full outbox can drop what it just failed: with room for one item, two
  unanswered sends leave one behind and the other is gone without ever having been shown as failed.\<close>

theorem sweep_over_cap_drops_unshown:
  "length (ox_items (sweep 90000 (sample_outbox\<lparr>ox_max_items := 1\<rparr>))) = 1
    \<and> length (unresolved (sample_outbox\<lparr>ox_max_items := 1\<rparr>)) = 2"
  by (simp add: sample_outbox_def outbox_new_def sample_item_def new_input_def sweep_def sweep_due_def om_vals_def
      started_at_def OUTBOX_CONFIRM_TIMEOUT_MS_def outbox_put_def timed_out_def unresolved_def om_del_def Let_def)

end
