(* ===== verification/Chunking.thy ===== *)
theory Chunking
  imports Prelude
begin

text \<open>
  \<open>crates/protocol/src/chunking.rs\<close>: fragmentation of a message too large for one event, and the
  assembler that puts fragments back together. The JSON text of an envelope (\<open>serde_json\<close>) is given
  by the parameters \<open>enc\<close> (\<open>encode_envelope\<close>, from cid, index, count and part) and \<open>json\<close>
  (\<open>from_str\<close> on the whole text). A message is its UTF-8 bytes; \<open>HashMap\<close> iteration order, which
  only breaks ties between groups first seen in the same millisecond, is the order of the keys.
\<close>

section \<open>Envelopes\<close>

definition MAX_EVENT_CONTENT_BYTES :: nat where "MAX_EVENT_CONTENT_BYTES = 65535"
definition NIP44_SAFE_PLAINTEXT_BYTES :: nat where "NIP44_SAFE_PLAINTEXT_BYTES = 40960"
definition CHUNK_ENVELOPE_MARGIN :: nat where "CHUNK_ENVELOPE_MARGIN = 64"
definition CHUNK_MESSAGE_TYPE :: string where "CHUNK_MESSAGE_TYPE = ''chunk''"
definition CHUNK_ASSEMBLY_TTL_MS :: nat where "CHUNK_ASSEMBLY_TTL_MS = 60000"
definition DEFAULT_MAX_OPEN :: nat where "DEFAULT_MAX_OPEN = 64"
definition DEFAULT_MAX_BYTES :: nat where "DEFAULT_MAX_BYTES = 8 * 1024 * 1024"

record ChunkEnvelope =
  ce_kind :: string
  ce_cid :: string
  ce_i :: nat
  ce_n :: nat
  ce_part :: string

type_synonym envelope_enc = "string \<Rightarrow> nat \<Rightarrow> nat \<Rightarrow> string \<Rightarrow> string"
type_synonym envelope_json = "string \<Rightarrow> ChunkEnvelope option"

definition starts_with :: "string \<Rightarrow> string \<Rightarrow> bool" where
  "starts_with pre s = (take (length pre) s = pre)"

definition CHUNK_PREFIX :: string where
  "CHUNK_PREFIX = ''{'' @ [CHR 0x22] @ ''type'' @ [CHR 0x22] @ '':'' @ [CHR 0x22] @ ''chunk'' @ [CHR 0x22]"

definition parse_chunk_envelope :: "envelope_json \<Rightarrow> string \<Rightarrow> ChunkEnvelope option" where
  "parse_chunk_envelope json plaintext =
     (if \<not> starts_with CHUNK_PREFIX plaintext then None
      else case json plaintext of
             None \<Rightarrow> None
           | Some env \<Rightarrow>
               (if ce_kind env \<noteq> CHUNK_MESSAGE_TYPE \<or> ce_cid env = [] \<or> ce_n env < 2 then None else Some env))"

section \<open>Framing\<close>

text \<open>\<open>str::is_char_boundary\<close>: both ends of the text, and every byte that does not continue a character.\<close>

definition continues :: "char \<Rightarrow> bool" where
  "continues c = (128 \<le> (of_char c :: nat) \<and> (of_char c :: nat) < 192)"

definition is_char_boundary :: "string \<Rightarrow> nat \<Rightarrow> bool" where
  "is_char_boundary s k = (k = 0 \<or> k = length s \<or> k < length s \<and> \<not> continues (s ! k))"

text \<open>The loop that snaps an end down to a character boundary.\<close>

fun snap :: "string \<Rightarrow> nat \<Rightarrow> nat \<Rightarrow> nat" where
  "snap s pos stop = (if pos < stop \<and> \<not> is_char_boundary s stop then snap s pos (stop - 1) else stop)"

declare snap.simps [simp del]

text \<open>The slice \<open>json[pos..end]\<close>.\<close>

definition slice :: "string \<Rightarrow> nat \<Rightarrow> nat \<Rightarrow> string" where
  "slice s pos stop = take (stop - pos) (drop pos s)"

text \<open>The binary search for the longest slice whose envelope is within the budget; \<open>lo\<close> starts at 1.\<close>

function search :: "envelope_enc \<Rightarrow> string \<Rightarrow> nat \<Rightarrow> string \<Rightarrow> nat \<Rightarrow> nat \<Rightarrow> nat \<Rightarrow> nat \<Rightarrow> nat" where
  "search enc cid budget s pos lo hi best =
     (if lo \<le> hi \<and> 0 < lo then
        (let mid = (lo + hi) div 2;
             stop = snap s pos (pos + mid);
             taken = stop - pos
         in if taken = 0 then search enc cid budget s pos (mid + 1) hi best
            else if length (enc cid 0 0 (slice s pos stop)) \<le> budget
            then search enc cid budget s pos (mid + 1) hi taken
            else search enc cid budget s pos lo (mid - 1) best)
      else best)"
  by pat_completeness auto
termination
  by (relation "measure (\<lambda>(enc, cid, budget, s, pos, lo, hi, best). hi + 1 - lo)")
     (auto simp: Let_def)

declare search.simps [simp del]

text \<open>The outer loop; \<open>None\<close> is the assertion failure of a budget too small for one character.\<close>

function split_parts :: "envelope_enc \<Rightarrow> string \<Rightarrow> nat \<Rightarrow> string \<Rightarrow> nat \<Rightarrow> string list option" where
  "split_parts enc cid budget s pos =
     (if pos < length s then
        (let best = search enc cid budget s pos 1 (length s - pos) 0 in
         if best = 0 then None
         else map_option (\<lambda>parts. slice s pos (pos + best) # parts) (split_parts enc cid budget s (pos + best)))
      else Some [])"
  by pat_completeness auto
termination
  by (relation "measure (\<lambda>(enc, cid, budget, s, pos). length s - pos)") (auto simp: Let_def)

declare split_parts.simps [simp del]

definition frame_encoded_message :: "envelope_enc \<Rightarrow> string \<Rightarrow> string \<Rightarrow> string list option" where
  "frame_encoded_message enc s cid =
     (if length s \<le> NIP44_SAFE_PLAINTEXT_BYTES then Some [s]
      else map_option (\<lambda>parts. map (\<lambda>(i, part). enc cid i (length parts) part) (enumerate 0 parts))
             (split_parts enc cid (NIP44_SAFE_PLAINTEXT_BYTES - CHUNK_ENVELOPE_MARGIN) s 0))"

section \<open>The assembler\<close>

datatype AssemblerResult = Passthrough | Buffered | Assembled string | Invalid string

record OpenBuffer =
  ob_n :: nat
  ob_parts :: "(nat, string) omap"
  ob_bytes :: nat
  ob_first_seen_at :: nat

record ChunkAssembler =
  ca_ttl_ms :: nat
  ca_max_open :: nat
  ca_max_bytes :: nat
  ca_open :: "(string, OpenBuffer) omap"
  ca_total_bytes :: nat

definition with_limits :: "nat \<Rightarrow> nat \<Rightarrow> nat \<Rightarrow> ChunkAssembler" where
  "with_limits ttl_ms max_open max_bytes =
     \<lparr>ca_ttl_ms = ttl_ms, ca_max_open = max_open, ca_max_bytes = max_bytes, ca_open = [], ca_total_bytes = 0\<rparr>"

definition default_assembler :: ChunkAssembler where
  "default_assembler = with_limits CHUNK_ASSEMBLY_TTL_MS DEFAULT_MAX_OPEN DEFAULT_MAX_BYTES"

definition drop_group :: "string \<Rightarrow> ChunkAssembler \<Rightarrow> ChunkAssembler" where
  "drop_group cid a =
     (case om_get (ca_open a) cid of
        None \<Rightarrow> a
      | Some buf \<Rightarrow> a\<lparr>ca_open := om_del cid (ca_open a), ca_total_bytes := ca_total_bytes a - ob_bytes buf\<rparr>)"

definition evict_oldest :: "string option \<Rightarrow> ChunkAssembler \<Rightarrow> ChunkAssembler" where
  "evict_oldest except_cid a =
     (case min_by_key (\<lambda>(cid, b). ob_first_seen_at b) (filter (\<lambda>(cid, b). Some cid \<noteq> except_cid) (ca_open a)) of
        None \<Rightarrow> a
      | Some (cid, b) \<Rightarrow> drop_group cid a)"

definition sweep_groups :: "nat \<Rightarrow> ChunkAssembler \<Rightarrow> ChunkAssembler" where
  "sweep_groups now_ms a =
     foldl (\<lambda>a1 cid. drop_group cid a1) a
       (map fst (filter (\<lambda>(cid, b). ca_ttl_ms a \<le> now_ms - ob_first_seen_at b) (ca_open a)))"

text \<open>\<open>while total_bytes > max_bytes and open.len() > 1\<close>: each round drops a group. The guard names the
  map's own invariant, which every map of the assembler has.\<close>

lemma evict_other:
  assumes "1 < length (ca_open a)" "om_wf (ca_open a)"
  shows "length (ca_open (evict_oldest (Some cid) a)) < length (ca_open a)"
proof -
  have "\<exists>p \<in> set (ca_open a). fst p \<noteq> cid"
  proof (rule ccontr)
    assume "\<not> ?thesis"
    then have "set (map fst (ca_open a)) \<subseteq> {cid}" by auto
    moreover have "card (set (map fst (ca_open a))) = length (ca_open a)"
      using distinct_card [OF om_wf_distinct [OF assms(2)]] by simp
    ultimately show False using assms(1) card_mono [of "{cid}" "set (map fst (ca_open a))"] by simp
  qed
  then have "filter (\<lambda>(c, b). Some c \<noteq> Some cid) (ca_open a) \<noteq> []" by (force simp: filter_empty_conv)
  then obtain c b where cb: "min_by_key (\<lambda>(cid, b). ob_first_seen_at b) (filter (\<lambda>(c, b). Some c \<noteq> Some cid) (ca_open a)) = Some (c, b)"
    by (metis (no_types, lifting) min_by_key_None not_None_eq surj_pair)
  then have "(c, b) \<in> set (ca_open a)" using min_by_key_in by fastforce
  then have "om_get (ca_open a) c = Some b" using assms(2) by (simp add: om_get_in)
  with cb show ?thesis by (simp add: evict_oldest_def drop_group_def length_om_del_Some)
qed

function evict_loop :: "string \<Rightarrow> ChunkAssembler \<Rightarrow> ChunkAssembler" where
  "evict_loop cid a =
     (if ca_max_bytes a < ca_total_bytes a \<and> 1 < length (ca_open a) \<and> om_wf (ca_open a)
      then evict_loop cid (evict_oldest (Some cid) a) else a)"
  by pat_completeness auto
termination
  by (relation "measure (\<lambda>(cid, a). length (ca_open a))") (auto simp: evict_other)

declare evict_loop.simps [simp del]

definition add_part :: "string \<Rightarrow> nat \<Rightarrow> string \<Rightarrow> ChunkAssembler \<Rightarrow> ChunkAssembler" where
  "add_part cid i part a =
     (case om_get (ca_open a) cid of
        None \<Rightarrow> a
      | Some buf \<Rightarrow>
          (case om_get (ob_parts buf) i of
             Some _ \<Rightarrow> a
           | None \<Rightarrow>
               a\<lparr>ca_open := om_put cid (buf\<lparr>ob_parts := om_put i part (ob_parts buf), ob_bytes := ob_bytes buf + length part\<rparr>) (ca_open a),
                 ca_total_bytes := ca_total_bytes a + length part\<rparr>))"

text \<open>The texts of the errors leave out the numbers the source formats into them.\<close>

definition offer :: "envelope_json \<Rightarrow> string \<Rightarrow> nat \<Rightarrow> ChunkAssembler \<Rightarrow> AssemblerResult \<times> ChunkAssembler" where
  "offer json plaintext now_ms a =
     (let a0 = sweep_groups now_ms a in
      case parse_chunk_envelope json plaintext of
        None \<Rightarrow> (Passthrough, a0)
      | Some env \<Rightarrow>
          (if ce_n env \<le> ce_i env then (Invalid ''chunk index out of range'', a0)
           else
             (let cid = ce_cid env;
                  a1 = (case om_get (ca_open a0) cid of
                          Some buf \<Rightarrow> (if ob_n buf \<noteq> ce_n env then drop_group cid a0 else a0) | None \<Rightarrow> a0);
                  a2 = (case om_get (ca_open a1) cid of
                          Some _ \<Rightarrow> a1
                        | None \<Rightarrow>
                            (let a' = (if ca_max_open a1 \<le> length (ca_open a1) then evict_oldest None a1 else a1)
                             in a'\<lparr>ca_open := om_put cid \<lparr>ob_n = ce_n env, ob_parts = [], ob_bytes = 0, ob_first_seen_at = now_ms\<rparr> (ca_open a')\<rparr>));
                  a3 = add_part cid (ce_i env) (ce_part env) a2;
                  a4 = evict_loop cid a3
              in case om_get (ca_open a4) cid of
                   None \<Rightarrow> (Buffered, a4)
                 | Some buf \<Rightarrow>
                     (if ca_max_bytes a4 < ob_bytes buf then (Invalid ''chunk group exceeds buffered bytes'', drop_group cid a4)
                      else if length (ob_parts buf) < ob_n buf then (Buffered, a4)
                      else (Assembled (concat (om_vals (ob_parts buf))), drop_group cid a4)))))"

section \<open>Framing is exact\<close>

lemma snap_bounds: "pos \<le> stop \<Longrightarrow> pos \<le> snap s pos stop \<and> snap s pos stop \<le> stop
    \<and> (snap s pos stop = pos \<or> is_char_boundary s (snap s pos stop))
    \<and> (\<forall>k. snap s pos stop < k \<and> k \<le> stop \<longrightarrow> \<not> is_char_boundary s k)"
proof (induction s pos stop rule: snap.induct)
  case (1 s pos stop)
  show ?case
  proof (cases "pos < stop \<and> \<not> is_char_boundary s stop")
    case True
    then have "pos \<le> stop - 1" by linarith
    then have IH: "pos \<le> snap s pos (stop - 1) \<and> snap s pos (stop - 1) \<le> stop - 1
      \<and> (snap s pos (stop - 1) = pos \<or> is_char_boundary s (snap s pos (stop - 1)))
      \<and> (\<forall>k. snap s pos (stop - 1) < k \<and> k \<le> stop - 1 \<longrightarrow> \<not> is_char_boundary s k)"
      using 1(1) [OF True] by simp
    have "snap s pos stop = snap s pos (stop - 1)" using True by (subst snap.simps) simp
    moreover have "\<not> is_char_boundary s k" if "snap s pos (stop - 1) < k \<and> k \<le> stop" for k
      using IH True that by (cases "k = stop") auto
    ultimately show ?thesis using IH by auto
  next
    case False
    then have "snap s pos stop = stop" by (subst snap.simps) auto
    with False 1(2) show ?thesis by auto
  qed
qed

text \<open>What the search may return: nothing, or a slice that ends on a boundary and fits.\<close>

definition found :: "envelope_enc \<Rightarrow> string \<Rightarrow> nat \<Rightarrow> string \<Rightarrow> nat \<Rightarrow> nat \<Rightarrow> bool" where
  "found enc cid budget s pos r = (0 < r \<and> pos + r \<le> length s \<and> is_char_boundary s (pos + r)
     \<and> length (enc cid 0 0 (slice s pos (pos + r))) \<le> budget)"

lemma search_found:
  assumes "pos + hi \<le> length s" "best = 0 \<or> found enc cid budget s pos best"
  shows "search enc cid budget s pos lo hi best = 0 \<or> found enc cid budget s pos (search enc cid budget s pos lo hi best)"
  using assms
proof (induction enc cid budget s pos lo hi best rule: search.induct)
  case (1 enc cid budget s pos lo hi best)
  show ?case
  proof (cases "lo \<le> hi \<and> 0 < lo")
    case True
    define mid where "mid = (lo + hi) div 2"
    define stop where "stop = snap s pos (pos + mid)"
    have mid: "0 < mid" "mid \<le> hi" using True by (auto simp: mid_def)
    have stop: "pos \<le> stop" "stop \<le> pos + mid" "stop = pos \<or> is_char_boundary s stop"
      using snap_bounds [of pos "pos + mid" s] by (auto simp: stop_def)
    have eq: "search enc cid budget s pos lo hi best =
      (if stop - pos = 0 then search enc cid budget s pos (mid + 1) hi best
       else if length (enc cid 0 0 (slice s pos stop)) \<le> budget then search enc cid budget s pos (mid + 1) hi (stop - pos)
       else search enc cid budget s pos lo (mid - 1) best)"
      using True by (subst search.simps) (simp add: Let_def mid_def stop_def)
    have "found enc cid budget s pos (stop - pos)" if "stop - pos \<noteq> 0" "length (enc cid 0 0 (slice s pos stop)) \<le> budget"
      using that stop mid 1(4) by (auto simp: found_def)
    moreover have "pos + (mid - 1) \<le> length s" using mid 1(4) by simp
    ultimately show ?thesis
      using 1(1-3) [OF True mid_def stop_def refl] 1(4,5) unfolding eq by (auto split: if_splits)
  next
    case False
    then show ?thesis using 1(5) by (subst (1 2) search.simps) auto
  qed
qed

lemma split_parts_exact:
  "split_parts enc cid budget s pos = Some parts \<Longrightarrow> pos \<le> length s \<Longrightarrow>
    concat parts = drop pos s \<and> (\<forall>p \<in> set parts. p \<noteq> [] \<and> length (enc cid 0 0 p) \<le> budget)"
proof (induction enc cid budget s pos arbitrary: parts rule: split_parts.induct)
  case (1 enc cid budget s pos)
  show ?case
  proof (cases "pos < length s")
    case True
    define best where "best = search enc cid budget s pos 1 (length s - pos) 0"
    from 1(2) True obtain rest where best: "best \<noteq> 0"
      and rest: "split_parts enc cid budget s (pos + best) = Some rest" "parts = slice s pos (pos + best) # rest"
      by (subst (asm) split_parts.simps) (auto simp: Let_def best_def split: if_splits)
    have found: "found enc cid budget s pos best"
      using search_found [of pos "length s - pos" s 0 enc cid budget 1] True best by (simp add: best_def)
    then have IH: "concat rest = drop (pos + best) s \<and> (\<forall>p \<in> set rest. p \<noteq> [] \<and> length (enc cid 0 0 p) \<le> budget)"
      using 1(1) [OF True best_def best rest(1)] by (simp add: found_def)
    have "slice s pos (pos + best) @ drop (pos + best) s = drop pos s"
      by (simp add: slice_def add.commute flip: drop_drop)
    moreover have "slice s pos (pos + best) \<noteq> []" using found by (simp add: slice_def found_def)
    ultimately show ?thesis using IH found by (auto simp: rest(2) found_def)
  next
    case False
    with 1(2,3) show ?thesis by (subst (asm) split_parts.simps) auto
  qed
qed

text \<open>
  What framing relies on of the envelope's JSON text: the index and count are at most twenty digits
  each, a longer part does not make a shorter text, a single character fits, the text carries its
  part, and it reads back as the envelope it was written from.
\<close>

definition codec_ok :: "envelope_enc \<Rightarrow> envelope_json \<Rightarrow> string \<Rightarrow> bool" where
  "codec_ok enc json cid =
     (cid \<noteq> []
      \<and> (\<forall>i n part. i \<le> u64_max \<and> n \<le> u64_max \<longrightarrow>
           length (enc cid i n part) \<le> length (enc cid 0 0 part) + 38
           \<and> starts_with CHUNK_PREFIX (enc cid i n part)
           \<and> json (enc cid i n part) = Some \<lparr>ce_kind = CHUNK_MESSAGE_TYPE, ce_cid = cid, ce_i = i, ce_n = n, ce_part = part\<rparr>)
      \<and> (\<forall>p q. length (enc cid 0 0 p) \<le> length (enc cid 0 0 (p @ q)) \<and> length p \<le> length (enc cid 0 0 p))
      \<and> (\<forall>p. length p \<le> 4 \<longrightarrow> length (enc cid 0 0 p) \<le> NIP44_SAFE_PLAINTEXT_BYTES - CHUNK_ENVELOPE_MARGIN))"

text \<open>UTF-8: a character has at most four bytes.\<close>

definition utf8_text :: "string \<Rightarrow> bool" where
  "utf8_text s = (\<forall>pos < length s. is_char_boundary s pos \<longrightarrow>
     (\<exists>c. 1 \<le> c \<and> c \<le> 4 \<and> pos + c \<le> length s \<and> is_char_boundary s (pos + c)))"

lemma slice_prefix: "c \<le> d \<Longrightarrow> \<exists>q. slice s pos (pos + d) = slice s pos (pos + c) @ q"
  unfolding slice_def by (metis add_diff_cancel_left' append_take_drop_id min_absorb1 take_take)

lemma search_unfold:
  assumes "lo \<le> hi" "0 < lo" "mid = (lo + hi) div 2" "stop = snap s pos (pos + mid)"
  shows "search enc cid b s pos lo hi best =
      (if stop - pos = 0 then search enc cid b s pos (mid + 1) hi best
       else if length (enc cid 0 0 (slice s pos stop)) \<le> b then search enc cid b s pos (mid + 1) hi (stop - pos)
       else search enc cid b s pos lo (mid - 1) best)"
  using assms by (subst search.simps) (simp add: Let_def)

lemma search_keeps: "0 < best \<Longrightarrow> 0 < search enc cid b s pos lo hi best"
proof (induction enc cid b s pos lo hi best rule: search.induct)
  case (1 enc cid b s pos lo hi best)
  show ?case
  proof (cases "lo \<le> hi \<and> 0 < lo")
    case True
    define mid where "mid = (lo + hi) div 2"
    define stop where "stop = snap s pos (pos + mid)"
    note IH = 1(1-3) [OF True mid_def stop_def refl]
    have "search enc cid b s pos lo hi best =
      (if stop - pos = 0 then search enc cid b s pos (mid + 1) hi best
       else if length (enc cid 0 0 (slice s pos stop)) \<le> b then search enc cid b s pos (mid + 1) hi (stop - pos)
       else search enc cid b s pos lo (mid - 1) best)"
      using True by (intro search_unfold mid_def stop_def) auto
    then show ?thesis using IH 1(4) by (auto split: if_splits)
  next
    case False
    then have "search enc cid b s pos lo hi best = best" by (subst search.simps) auto
    with 1(4) show ?thesis by simp
  qed
qed

text \<open>The search finds a slice when some slice \<open>c\<close> fits: a failing probe is longer than it, one without a
  boundary shorter.\<close>

lemma search_progress:
  assumes mono: "\<And>p q. length (enc cid 0 0 p) \<le> length (enc cid 0 0 (p @ q))"
    and "found enc cid b s pos c" "lo \<le> c" "c \<le> hi" "0 < lo"
  shows "0 < search enc cid b s pos lo hi best"
  using assms
proof (induction enc cid b s pos lo hi best rule: search.induct)
  case (1 enc cid b s pos lo hi best)
  define mid where "mid = (lo + hi) div 2"
  define stop where "stop = snap s pos (pos + mid)"
  have lh: "lo \<le> hi \<and> 0 < lo" using 1(6-8) by simp
  note IH = 1(1) [OF lh mid_def stop_def refl] 1(3) [OF lh mid_def stop_def refl]
  have stop: "pos \<le> stop" "stop \<le> pos + mid" "\<forall>k. stop < k \<and> k \<le> pos + mid \<longrightarrow> \<not> is_char_boundary s k"
    using snap_bounds [of pos "pos + mid" s] by (auto simp: stop_def)
  have c: "is_char_boundary s (pos + c)" "length (enc cid 0 0 (slice s pos (pos + c))) \<le> b"
    using 1(5) by (auto simp: found_def)
  have le: "length (enc cid 0 0 (slice s pos (pos + x))) \<le> length (enc cid 0 0 (slice s pos (pos + y)))" if "x \<le> y" for x y
    using slice_prefix [OF that, of s pos] 1(4) by auto
  consider (none) "stop - pos = 0" | (fits) "stop - pos \<noteq> 0" "length (enc cid 0 0 (slice s pos stop)) \<le> b"
    | (fails) "stop - pos \<noteq> 0" "\<not> length (enc cid 0 0 (slice s pos stop)) \<le> b" by blast
  then show ?case
  proof cases
    case none
    have "mid < c"
    proof (rule ccontr)
      assume "\<not> mid < c"
      then have "stop < pos + c \<and> pos + c \<le> pos + mid" using none stop(1) 1(5) by (auto simp: found_def)
      with stop(3) c(1) show False by blast
    qed
    then show ?thesis
      using IH(1) [OF none 1(4,5) _ 1(7)] none by (simp add: search_unfold [OF _ _ mid_def stop_def] lh)
  next
    case fits
    then show ?thesis by (simp add: search_unfold [OF _ _ mid_def stop_def] lh search_keeps)
  next
    case fails
    have "\<not> stop - pos \<le> c" using le [of "stop - pos" c] c(2) fails(2) stop(1) by auto
    then have "c \<le> mid - 1" using stop(2) by linarith
    then show ?thesis
      using IH(2) [OF fails 1(4,5,6)] fails 1(8) by (simp add: search_unfold [OF _ _ mid_def stop_def] lh)
  qed
qed

lemma split_parts_total:
  assumes "codec_ok enc json cid" "utf8_text s"
  shows "is_char_boundary s pos \<Longrightarrow> split_parts enc cid (NIP44_SAFE_PLAINTEXT_BYTES - CHUNK_ENVELOPE_MARGIN) s pos \<noteq> None"
proof (induction "length s - pos" arbitrary: pos rule: less_induct)
  case less
  let ?b = "NIP44_SAFE_PLAINTEXT_BYTES - CHUNK_ENVELOPE_MARGIN"
  show ?case
  proof (cases "pos < length s")
    case True
    then obtain c where c: "1 \<le> c" "c \<le> 4" "pos + c \<le> length s" "is_char_boundary s (pos + c)"
      using assms(2) less(2) by (auto simp: utf8_text_def)
    let ?best = "search enc cid ?b s pos 1 (length s - pos) 0"
    have "length (slice s pos (pos + c)) \<le> 4" using c by (simp add: slice_def)
    then have fit: "found enc cid ?b s pos c" using c assms(1) by (simp add: found_def codec_ok_def)
    have pos: "0 < ?best"
      using assms(1) c True by (intro search_progress [OF _ fit]) (auto simp: codec_ok_def)
    then have found: "found enc cid ?b s pos ?best"
      using search_found [of pos "length s - pos" s 0 enc cid ?b 1] True by simp
    moreover have "length s - (pos + ?best) < length s - pos" using pos True by linarith
    ultimately have "split_parts enc cid ?b s (pos + ?best) \<noteq> None"
      using less(1) [of "pos + ?best"] unfolding found_def by blast
    with True pos show ?thesis by (subst split_parts.simps) (simp add: Let_def)
  qed (subst split_parts.simps, simp)
qed

text \<open>Together: framing never fails, every frame fits an event, and the parts put the message together.\<close>

lemma frame_parts:
  assumes "codec_ok enc json cid" "utf8_text s" "NIP44_SAFE_PLAINTEXT_BYTES < length s" "length s \<le> u64_max"
  shows "\<exists>parts. frame_encoded_message enc s cid = Some (map (\<lambda>(i, part). enc cid i (length parts) part) (enumerate 0 parts))
    \<and> concat parts = s \<and> 2 \<le> length parts \<and> length parts \<le> u64_max
    \<and> (\<forall>(i, part) \<in> set (enumerate 0 parts). length (enc cid i (length parts) part) \<le> NIP44_SAFE_PLAINTEXT_BYTES)"
proof -
  let ?b = "NIP44_SAFE_PLAINTEXT_BYTES - CHUNK_ENVELOPE_MARGIN"
  obtain parts where parts: "split_parts enc cid ?b s 0 = Some parts"
    using split_parts_total [OF assms(1,2), of 0] by (auto simp: is_char_boundary_def)
  note exact = split_parts_exact [OF parts]
  have "length ps \<le> length (concat ps)" if "\<forall>p \<in> set ps. p \<noteq> []" for ps :: "string list"
    using that
  proof (induction ps)
    case (Cons p ps)
    then have "1 \<le> length p" by (cases p) auto
    with Cons show ?case by simp
  qed simp
  then have "length parts \<le> length s" using exact by (metis drop0 le0)
  then have n: "length parts \<le> u64_max" using assms(4) by simp
  have len: "length part \<le> ?b" if "part \<in> set parts" for part
  proof -
    have "length part \<le> length (enc cid 0 0 part)" using assms(1) by (simp add: codec_ok_def)
    also have "\<dots> \<le> ?b" using exact that by simp
    finally show ?thesis .
  qed
  have "2 \<le> length parts"
  proof (rule ccontr)
    assume "\<not> ?thesis"
    then consider "parts = []" | p where "parts = [p]" by (cases parts; cases "tl parts") auto
    then show False using exact assms(3) len by cases (auto simp: NIP44_SAFE_PLAINTEXT_BYTES_def CHUNK_ENVELOPE_MARGIN_def)
  qed
  moreover have "length (enc cid i (length parts) part) \<le> NIP44_SAFE_PLAINTEXT_BYTES" if "(i, part) \<in> set (enumerate 0 parts)" for i part
  proof -
    have "i < length parts" "part \<in> set parts" using that by (auto simp: in_set_enumerate_eq)
    then have "length (enc cid i (length parts) part) \<le> length (enc cid 0 0 part) + 38" "length (enc cid 0 0 part) \<le> ?b"
      using assms(1) n exact by (auto simp: codec_ok_def)
    then show ?thesis by (simp add: NIP44_SAFE_PLAINTEXT_BYTES_def CHUNK_ENVELOPE_MARGIN_def)
  qed
  ultimately show ?thesis using parts exact n assms(3) by (auto simp: frame_encoded_message_def)
qed

section \<open>The assembler's invariant\<close>

text \<open>Every open group is incomplete, its indexes are in range and its byte count is that of its parts;
  the total is that of the groups.\<close>

definition group_ok :: "OpenBuffer \<Rightarrow> bool" where
  "group_ok b = (om_wf (ob_parts b) \<and> ob_bytes b = om_sum length (ob_parts b)
     \<and> (\<forall>i p. om_get (ob_parts b) i = Some p \<longrightarrow> i < ob_n b))"

definition assembler_ok :: "ChunkAssembler \<Rightarrow> bool" where
  "assembler_ok a = (om_wf (ca_open a) \<and> ca_total_bytes a = om_sum ob_bytes (ca_open a)
     \<and> (\<forall>cid b. om_get (ca_open a) cid = Some b \<longrightarrow> group_ok b))"

definition within_limits :: "ChunkAssembler \<Rightarrow> bool" where
  "within_limits a = (ca_total_bytes a \<le> ca_max_bytes a \<and> length (ca_open a) \<le> max 1 (ca_max_open a))"

lemma drop_group_fields [simp]:
  "ca_ttl_ms (drop_group cid a) = ca_ttl_ms a" "ca_max_open (drop_group cid a) = ca_max_open a"
  "ca_max_bytes (drop_group cid a) = ca_max_bytes a"
  "om_get (ca_open (drop_group cid a)) c = (if c = cid then None else om_get (ca_open a) c)"
  by (auto simp: drop_group_def split: option.split)

lemma drop_group_shrinks: "length (ca_open (drop_group cid a)) \<le> length (ca_open a)" "ca_total_bytes (drop_group cid a) \<le> ca_total_bytes a"
  by (auto simp: drop_group_def length_om_del split: option.split)

lemma assembler_ok_drop [wf_intros]:
  assumes "assembler_ok a"
  shows "assembler_ok (drop_group cid a)"
proof (cases "om_get (ca_open a) cid")
  case (Some b)
  then have "om_sum ob_bytes (ca_open a) = om_sum ob_bytes (om_del cid (ca_open a)) + ob_bytes b"
    using assms by (intro om_sum_del) (auto simp: assembler_ok_def)
  with assms Some show ?thesis by (auto simp: drop_group_def assembler_ok_def)
qed (use assms in \<open>simp add: drop_group_def\<close>)

lemma evict_oldest_cases: "evict_oldest e a = a \<or> (\<exists>cid. Some cid \<noteq> e \<and> evict_oldest e a = drop_group cid a)"
proof (cases "min_by_key (\<lambda>(cid, b). ob_first_seen_at b) (filter (\<lambda>(cid, b). Some cid \<noteq> e) (ca_open a))")
  case (Some p)
  then have "Some (fst p) \<noteq> e" using min_by_key_in [OF Some] by auto
  with Some show ?thesis by (cases p) (auto simp: evict_oldest_def)
qed (simp add: evict_oldest_def)

lemma assembler_ok_evict [wf_intros]: "assembler_ok a \<Longrightarrow> assembler_ok (evict_oldest e a)"
  using evict_oldest_cases [of e a] by (auto intro: assembler_ok_drop)

lemma evict_fields [simp]:
  "ca_ttl_ms (evict_oldest e a) = ca_ttl_ms a" "ca_max_open (evict_oldest e a) = ca_max_open a"
  "ca_max_bytes (evict_oldest e a) = ca_max_bytes a"
  using evict_oldest_cases [of e a] by auto

lemma evict_keeps: "om_get (ca_open (evict_oldest (Some cid) a)) cid = om_get (ca_open a) cid"
  using evict_oldest_cases [of "Some cid" a] by auto

lemma evict_shrinks: "length (ca_open (evict_oldest e a)) \<le> length (ca_open a)" "ca_total_bytes (evict_oldest e a) \<le> ca_total_bytes a"
  using evict_oldest_cases [of e a] drop_group_shrinks by auto

lemma evict_any:
  assumes "ca_open a \<noteq> []" "om_wf (ca_open a)"
  shows "length (ca_open (evict_oldest None a)) < length (ca_open a)"
proof -
  obtain c b where cb: "min_by_key (\<lambda>(cid, b). ob_first_seen_at b) (ca_open a) = Some (c, b)"
    using assms(1) by (metis (no_types, lifting) min_by_key_None not_None_eq surj_pair)
  then have "(c, b) \<in> set (ca_open a)" by (rule min_by_key_in)
  then have "om_get (ca_open a) c = Some b" using assms(2) by (simp add: om_get_in)
  with cb show ?thesis by (simp add: evict_oldest_def drop_group_def length_om_del_Some case_prod_beta)
qed

text \<open>The eviction loop keeps the group being filled and brings the total under the cap, or leaves it alone.\<close>

lemma evict_loop_props:
  assumes "assembler_ok a"
  shows "assembler_ok (evict_loop cid a) \<and> om_get (ca_open (evict_loop cid a)) cid = om_get (ca_open a) cid
    \<and> ca_max_bytes (evict_loop cid a) = ca_max_bytes a \<and> ca_max_open (evict_loop cid a) = ca_max_open a
    \<and> ca_ttl_ms (evict_loop cid a) = ca_ttl_ms a \<and> length (ca_open (evict_loop cid a)) \<le> length (ca_open a)
    \<and> (ca_total_bytes (evict_loop cid a) \<le> ca_max_bytes a \<or> length (ca_open (evict_loop cid a)) \<le> 1)"
  using assms
proof (induction cid a rule: evict_loop.induct)
  case (1 cid a)
  show ?case
  proof (cases "ca_max_bytes a < ca_total_bytes a \<and> 1 < length (ca_open a) \<and> om_wf (ca_open a)")
    case True
    then have "evict_loop cid a = evict_loop cid (evict_oldest (Some cid) a)" by (subst evict_loop.simps) simp
    then show ?thesis
      using 1(1) [OF True assembler_ok_evict [OF 1(2)]] evict_keeps [of cid a] evict_shrinks(1) [of "Some cid" a] by auto
  next
    case False
    then have "evict_loop cid a = a" by (subst evict_loop.simps) auto
    moreover have "om_wf (ca_open a)" using 1(2) by (simp add: assembler_ok_def)
    ultimately show ?thesis using False 1(2) by auto
  qed
qed

lemma sweep_groups_props:
  assumes "assembler_ok a"
  shows "assembler_ok (sweep_groups now a) \<and> ca_max_bytes (sweep_groups now a) = ca_max_bytes a
    \<and> ca_max_open (sweep_groups now a) = ca_max_open a \<and> ca_ttl_ms (sweep_groups now a) = ca_ttl_ms a
    \<and> length (ca_open (sweep_groups now a)) \<le> length (ca_open a) \<and> ca_total_bytes (sweep_groups now a) \<le> ca_total_bytes a"
  unfolding sweep_groups_def
  by (rule foldl_inv [where P = "\<lambda>x. assembler_ok x \<and> ca_max_bytes x = ca_max_bytes a \<and> ca_max_open x = ca_max_open a
      \<and> ca_ttl_ms x = ca_ttl_ms a \<and> length (ca_open x) \<le> length (ca_open a) \<and> ca_total_bytes x \<le> ca_total_bytes a"])
     (use assms in \<open>auto intro: assembler_ok_drop order_trans [OF drop_group_shrinks(1)] order_trans [OF drop_group_shrinks(2)]\<close>)

lemma sweep_groups_get:
  assumes "assembler_ok a"
  shows "om_get (ca_open (sweep_groups now a)) cid = (case om_get (ca_open a) cid of None \<Rightarrow> None
    | Some b \<Rightarrow> if ca_ttl_ms a \<le> now - ob_first_seen_at b then None else Some b)"
proof -
  have fold: "om_get (ca_open (foldl (\<lambda>a1 cid. drop_group cid a1) x cids)) cid = (if cid \<in> set cids then None else om_get (ca_open x) cid)"
    for x cids by (induction cids arbitrary: x) auto
  have "cid \<in> set (map fst (filter (\<lambda>(cid, b). ca_ttl_ms a \<le> now - ob_first_seen_at b) (ca_open a)))
    \<longleftrightarrow> (\<exists>b. om_get (ca_open a) cid = Some b \<and> ca_ttl_ms a \<le> now - ob_first_seen_at b)"
    using assms by (force simp: assembler_ok_def om_get_in)
  then show ?thesis unfolding sweep_groups_def fold by (auto split: option.split)
qed

section \<open>Offering a fragment\<close>

text \<open>The steps of \<open>offer\<close> for a fragment in range: the group it belongs to is found or opened, the part
  added, the caps enforced, and the group closed when it is complete.\<close>

definition new_group :: "nat \<Rightarrow> nat \<Rightarrow> OpenBuffer" where
  "new_group n now = \<lparr>ob_n = n, ob_parts = [], ob_bytes = 0, ob_first_seen_at = now\<rparr>"

definition open_group :: "string \<Rightarrow> nat \<Rightarrow> nat \<Rightarrow> ChunkAssembler \<Rightarrow> ChunkAssembler" where
  "open_group cid n now a =
     (let a1 = (case om_get (ca_open a) cid of Some buf \<Rightarrow> (if ob_n buf \<noteq> n then drop_group cid a else a) | None \<Rightarrow> a)
      in case om_get (ca_open a1) cid of
           Some _ \<Rightarrow> a1
         | None \<Rightarrow> (let a' = (if ca_max_open a1 \<le> length (ca_open a1) then evict_oldest None a1 else a1)
                    in a'\<lparr>ca_open := om_put cid (new_group n now) (ca_open a')\<rparr>))"

definition close_group :: "string \<Rightarrow> ChunkAssembler \<Rightarrow> AssemblerResult \<times> ChunkAssembler" where
  "close_group cid a =
     (case om_get (ca_open a) cid of
        None \<Rightarrow> (Buffered, a)
      | Some buf \<Rightarrow>
          (if ca_max_bytes a < ob_bytes buf then (Invalid ''chunk group exceeds buffered bytes'', drop_group cid a)
           else if length (ob_parts buf) < ob_n buf then (Buffered, a)
           else (Assembled (concat (om_vals (ob_parts buf))), drop_group cid a)))"

lemma offer_fragment:
  assumes "parse_chunk_envelope json p = Some env" "ce_i env < ce_n env"
  shows "offer json p now a = close_group (ce_cid env)
    (evict_loop (ce_cid env) (add_part (ce_cid env) (ce_i env) (ce_part env)
      (open_group (ce_cid env) (ce_n env) now (sweep_groups now a))))"
proof -
  have "\<not> ce_n env \<le> ce_i env" using assms(2) by simp
  then show ?thesis
    unfolding offer_def open_group_def close_group_def new_group_def Let_def assms(1) option.case by (simp only: if_False)
qed

lemma offer_other:
  "parse_chunk_envelope json p = None \<Longrightarrow> offer json p now a = (Passthrough, sweep_groups now a)"
  "parse_chunk_envelope json p = Some env \<Longrightarrow> ce_n env \<le> ce_i env
    \<Longrightarrow> offer json p now a = (Invalid ''chunk index out of range'', sweep_groups now a)"
  by (simp_all add: offer_def Let_def)

text \<open>The group a fragment goes to.\<close>

definition group_for :: "string \<Rightarrow> nat \<Rightarrow> nat \<Rightarrow> ChunkAssembler \<Rightarrow> OpenBuffer" where
  "group_for cid n now a = (case om_get (ca_open a) cid of
     Some b \<Rightarrow> (if ob_n b = n then b else new_group n now) | None \<Rightarrow> new_group n now)"

lemma group_ok_new [simp]: "group_ok (new_group n now)"
  by (simp add: group_ok_def new_group_def)

lemma insert_group:
  assumes "assembler_ok a" "om_get (ca_open a) cid = None"
  shows "assembler_ok (a\<lparr>ca_open := om_put cid (new_group n now) (ca_open a)\<rparr>)"
  using assms om_sum_put_new [OF assms(2), of ob_bytes "new_group n now"]
  by (auto simp: assembler_ok_def) (simp add: new_group_def)

lemma open_group_room:
  assumes "assembler_ok a" "om_get (ca_open a) cid = None" "within_limits a"
  defines "a' \<equiv> (if ca_max_open a \<le> length (ca_open a) then evict_oldest None a else a)"
  shows "assembler_ok a'" "om_get (ca_open a') cid = None" "length (om_put cid v (ca_open a')) \<le> max 1 (ca_max_open a)"
    "ca_total_bytes a' \<le> ca_total_bytes a" "ca_max_bytes a' = ca_max_bytes a" "ca_max_open a' = ca_max_open a"
    "ca_ttl_ms a' = ca_ttl_ms a"
proof -
  show "assembler_ok a'" using assms(1) by (simp add: a'_def assembler_ok_evict)
  show "om_get (ca_open a') cid = None" using assms(2) evict_oldest_cases [of None a] by (auto simp: a'_def)
  have "length (ca_open a') < max 1 (ca_max_open a)"
  proof (cases "ca_max_open a \<le> length (ca_open a) \<and> ca_open a \<noteq> []")
    case True
    then show ?thesis
      using evict_any [of a] assms(1,3) by (auto simp: a'_def within_limits_def assembler_ok_def)
  next
    case False
    then show ?thesis using evict_shrinks(1) [of None a] by (auto simp: a'_def)
  qed
  then show "length (om_put cid v (ca_open a')) \<le> max 1 (ca_max_open a)"
    using length_om_put [of cid v "ca_open a'"] by linarith
qed (simp_all add: a'_def evict_shrinks)

lemma within_limits_drop: "within_limits a \<Longrightarrow> within_limits (drop_group cid a)"
  using drop_group_shrinks [of cid a] by (auto simp: within_limits_def)

lemma open_group_props:
  assumes "assembler_ok a" "within_limits a"
  shows "assembler_ok (open_group cid n now a) \<and> within_limits (open_group cid n now a)
    \<and> om_get (ca_open (open_group cid n now a)) cid = Some (group_for cid n now a)
    \<and> ca_max_bytes (open_group cid n now a) = ca_max_bytes a \<and> ca_ttl_ms (open_group cid n now a) = ca_ttl_ms a"
proof (cases "\<exists>b. om_get (ca_open a) cid = Some b \<and> ob_n b = n")
  case True
  then have "open_group cid n now a = a" by (auto simp: open_group_def Let_def)
  with True assms show ?thesis by (auto simp: group_for_def)
next
  case False
  define a1 where "a1 = (if om_get (ca_open a) cid = None then a else drop_group cid a)"
  define a' where "a' = (if ca_max_open a1 \<le> length (ca_open a1) then evict_oldest None a1 else a1)"
  have a1: "assembler_ok a1" "om_get (ca_open a1) cid = None" "within_limits a1"
    using assms by (auto simp: a1_def assembler_ok_drop within_limits_drop)
  note room = open_group_room [OF a1, folded a'_def]
  have "open_group cid n now a = a'\<lparr>ca_open := om_put cid (new_group n now) (ca_open a')\<rparr>"
    using False a1(2) by (auto simp: open_group_def a1_def a'_def Let_def split: option.split)
  moreover have "group_for cid n now a = new_group n now" using False by (auto simp: group_for_def split: option.split)
  moreover have "ca_max_bytes a1 = ca_max_bytes a" "ca_ttl_ms a1 = ca_ttl_ms a" "ca_total_bytes a1 \<le> ca_total_bytes a"
    by (simp_all add: a1_def drop_group_shrinks)
  ultimately show ?thesis
    using insert_group [OF room(1,2), of n now] room(3-7) a1(3) by (auto simp: within_limits_def)
qed

text \<open>Adding a part changes its group only, and the group keeps the first part it got for an index.\<close>

definition with_part :: "nat \<Rightarrow> string \<Rightarrow> OpenBuffer \<Rightarrow> OpenBuffer" where
  "with_part i part b = (if om_get (ob_parts b) i = None
     then b\<lparr>ob_parts := om_put i part (ob_parts b), ob_bytes := ob_bytes b + length part\<rparr> else b)"

lemma with_part_simps [simp]: "ob_n (with_part i part b) = ob_n b" "ob_first_seen_at (with_part i part b) = ob_first_seen_at b"
  by (simp_all add: with_part_def)

lemma group_ok_with_part: "group_ok b \<Longrightarrow> i < ob_n b \<Longrightarrow> group_ok (with_part i part b)"
  by (auto simp: group_ok_def with_part_def om_sum_put_new)

lemma add_part_props:
  assumes "assembler_ok a" "om_get (ca_open a) cid = Some b" "i < ob_n b"
  shows "assembler_ok (add_part cid i part a) \<and> om_get (ca_open (add_part cid i part a)) cid = Some (with_part i part b)
    \<and> length (ca_open (add_part cid i part a)) = length (ca_open a)
    \<and> ca_max_bytes (add_part cid i part a) = ca_max_bytes a \<and> ca_max_open (add_part cid i part a) = ca_max_open a
    \<and> ca_ttl_ms (add_part cid i part a) = ca_ttl_ms a"
proof (cases "om_get (ob_parts b) i")
  case None
  let ?b = "with_part i part b"
  have wf: "om_wf (ca_open a)" using assms(1) by (simp add: assembler_ok_def)
  have eq: "add_part cid i part a = a\<lparr>ca_open := om_put cid ?b (ca_open a), ca_total_bytes := ca_total_bytes a + length part\<rparr>"
    using None assms(2) by (simp add: add_part_def with_part_def)
  have "om_sum ob_bytes (om_put cid ?b (ca_open a)) + ob_bytes b = om_sum ob_bytes (ca_open a) + ob_bytes ?b"
    by (rule om_sum_put [OF wf assms(2)])
  then have "ca_total_bytes a + length part = om_sum ob_bytes (om_put cid ?b (ca_open a))"
    using assms(1) None by (simp add: assembler_ok_def with_part_def)
  moreover have "group_ok ?b" using assms by (intro group_ok_with_part) (auto simp: assembler_ok_def)
  ultimately show ?thesis
    using assms(1) length_om_put_Some [OF assms(2) wf] by (auto simp: eq assembler_ok_def)
qed (use assms in \<open>auto simp: add_part_def with_part_def\<close>)

lemma close_group_props:
  assumes "assembler_ok a" "om_get (ca_open a) cid = Some b" "length (ca_open a) \<le> max 1 (ca_max_open a)"
    and "ca_total_bytes a \<le> ca_max_bytes a \<or> length (ca_open a) \<le> 1"
  shows "assembler_ok (snd (close_group cid a)) \<and> within_limits (snd (close_group cid a))
    \<and> ca_ttl_ms (snd (close_group cid a)) = ca_ttl_ms a \<and> ca_max_bytes (snd (close_group cid a)) = ca_max_bytes a
    \<and> (if ca_max_bytes a < ob_bytes b
       then (\<exists>e. fst (close_group cid a) = Invalid e) \<and> om_get (ca_open (snd (close_group cid a))) cid = None
       else if length (ob_parts b) < ob_n b
       then fst (close_group cid a) = Buffered \<and> om_get (ca_open (snd (close_group cid a))) cid = Some b
       else fst (close_group cid a) = Assembled (concat (om_vals (ob_parts b)))
         \<and> om_get (ca_open (snd (close_group cid a))) cid = None)"
proof -
  have alone: "ca_total_bytes a = ob_bytes b" if "length (ca_open a) \<le> 1"
  proof -
    have "ca_open a = [(cid, b)]" using that assms(2) by (cases "ca_open a") (auto split: if_splits)
    with assms(1) show ?thesis by (simp add: assembler_ok_def)
  qed
  have "ca_total_bytes (drop_group cid a) \<le> ca_max_bytes a"
    using assms(4) alone drop_group_shrinks(2) [of cid a] assms(2) by (auto simp: drop_group_def)
  moreover have "length (ca_open (drop_group cid a)) \<le> max 1 (ca_max_open a)"
    using assms(3) drop_group_shrinks(1) [of cid a] by linarith
  moreover have "ca_total_bytes a \<le> ca_max_bytes a" if "\<not> ca_max_bytes a < ob_bytes b"
    using assms(4) alone that by auto
  ultimately show ?thesis
    using assms by (auto simp: close_group_def within_limits_def assembler_ok_drop)
qed

lemma offer_step:
  assumes "assembler_ok a" "within_limits a" "parse_chunk_envelope json p = Some env" "ce_i env < ce_n env"
    and b: "b = with_part (ce_i env) (ce_part env) (group_for (ce_cid env) (ce_n env) now (sweep_groups now a))"
  shows "assembler_ok (snd (offer json p now a)) \<and> within_limits (snd (offer json p now a))
    \<and> ca_ttl_ms (snd (offer json p now a)) = ca_ttl_ms a \<and> ca_max_bytes (snd (offer json p now a)) = ca_max_bytes a
    \<and> (if ca_max_bytes a < ob_bytes b
       then (\<exists>e. fst (offer json p now a) = Invalid e) \<and> om_get (ca_open (snd (offer json p now a))) (ce_cid env) = None
       else if length (ob_parts b) < ob_n b
       then fst (offer json p now a) = Buffered \<and> om_get (ca_open (snd (offer json p now a))) (ce_cid env) = Some b
       else fst (offer json p now a) = Assembled (concat (om_vals (ob_parts b)))
         \<and> om_get (ca_open (snd (offer json p now a))) (ce_cid env) = None)"
proof -
  let ?cid = "ce_cid env"
  define a0 where "a0 = sweep_groups now a"
  define a2 where "a2 = open_group ?cid (ce_n env) now a0"
  define a3 where "a3 = add_part ?cid (ce_i env) (ce_part env) a2"
  define a4 where "a4 = evict_loop ?cid a3"
  have a0: "assembler_ok a0" "within_limits a0" "ca_max_bytes a0 = ca_max_bytes a" "ca_ttl_ms a0 = ca_ttl_ms a"
    using sweep_groups_props [OF assms(1), of now] assms(2) by (auto simp: a0_def within_limits_def)
  have a2: "assembler_ok a2" "within_limits a2" "om_get (ca_open a2) ?cid = Some (group_for ?cid (ce_n env) now a0)"
    "ca_max_bytes a2 = ca_max_bytes a" "ca_ttl_ms a2 = ca_ttl_ms a"
    using open_group_props [OF a0(1,2), of ?cid "ce_n env" now] a0(3,4) by (auto simp: a2_def)
  have n: "ob_n (group_for ?cid (ce_n env) now a0) = ce_n env" by (auto simp: group_for_def new_group_def split: option.split)
  have a3: "assembler_ok a3" "om_get (ca_open a3) ?cid = Some b" "length (ca_open a3) = length (ca_open a2)"
    "ca_max_bytes a3 = ca_max_bytes a" "ca_max_open a3 = ca_max_open a2" "ca_ttl_ms a3 = ca_ttl_ms a"
    using add_part_props [OF a2(1,3), of "ce_i env" "ce_part env"] assms(4) n a2(4,5) b by (auto simp: a3_def a0_def)
  have a4: "assembler_ok a4" "om_get (ca_open a4) ?cid = Some b" "length (ca_open a4) \<le> max 1 (ca_max_open a4)"
    "ca_total_bytes a4 \<le> ca_max_bytes a4 \<or> length (ca_open a4) \<le> 1" "ca_max_bytes a4 = ca_max_bytes a" "ca_ttl_ms a4 = ca_ttl_ms a"
    using evict_loop_props [OF a3(1), of ?cid] a3 a2(2) by (auto simp: a4_def within_limits_def)
  have "offer json p now a = close_group ?cid a4"
    by (simp add: offer_fragment [OF assms(3,4)] a4_def a3_def a2_def a0_def)
  then show ?thesis using close_group_props [OF a4(1-4)] a4(5,6) by simp
qed

lemma offer_keeps:
  assumes "assembler_ok a" "within_limits a"
  shows "assembler_ok (snd (offer json p now a)) \<and> within_limits (snd (offer json p now a))"
proof (cases "parse_chunk_envelope json p")
  case None
  then show ?thesis
    using sweep_groups_props [OF assms(1), of now] assms(2) by (auto simp: offer_other(1) within_limits_def)
next
  case (Some env)
  show ?thesis
  proof (cases "ce_i env < ce_n env")
    case True
    then show ?thesis using offer_step [OF assms Some True refl] by blast
  next
    case False
    then show ?thesis
      using sweep_groups_props [OF assms(1), of now] assms(2) Some by (auto simp: offer_other(2) within_limits_def)
  qed
qed

section \<open>Reassembly\<close>

text \<open>A map with exactly the indexes of a list and its elements is the list, numbered.\<close>

lemma full_parts:
  assumes "om_wf m" "\<And>i. om_get m i = (if i < length ps then Some (ps ! i) else None)"
  shows "om_vals m = ps"
proof -
  have keys: "set (map fst m) = {0..<length ps}"
    using assms(2) by (auto simp flip: dom_map_of_conv_image_fst simp: dom_def split: if_splits)
  have "map fst m = [0..<length ps]"
    using assms(1) keys strict_sorted_iff unfolding om_wf_def
    by (intro sorted_distinct_set_unique) (auto simp: strict_sorted_iff)
  then have len: "length m = length ps" and fst: "\<And>k. k < length ps \<Longrightarrow> fst (m ! k) = k"
    by (metis length_map length_upt minus_nat.diff_0, metis (no_types) \<open>map fst m = [0..<length ps]\<close> add_cancel_left_left length_map length_upt minus_nat.diff_0 nth_map nth_upt)
  have "snd (m ! k) = ps ! k" if "k < length ps" for k
  proof -
    have "(k, snd (m ! k)) \<in> set m" using that len fst [OF that] by (metis nth_mem prod.collapse)
    then have "om_get m k = Some (snd (m ! k))" using assms(1) by (simp add: om_get_in)
    with assms(2) that show ?thesis by simp
  qed
  with len show ?thesis by (auto simp: om_vals_def intro: nth_equalityI)
qed

text \<open>A group that holds the parts of the indexes \<open>S\<close>.\<close>

definition holds :: "string list \<Rightarrow> nat set \<Rightarrow> nat \<Rightarrow> OpenBuffer \<Rightarrow> bool" where
  "holds ps S t b = (group_ok b \<and> ob_n b = length ps \<and> ob_first_seen_at b = t \<and> S \<subseteq> {..<length ps}
     \<and> (\<forall>i. om_get (ob_parts b) i = (if i \<in> S then Some (ps ! i) else None)))"

lemma holds_with_part: "holds ps S t b \<Longrightarrow> i < length ps \<Longrightarrow> holds ps (insert i S) t (with_part i (ps ! i) b)"
  using group_ok_with_part [of b i "ps ! i"] by (auto simp: holds_def with_part_def split: if_splits)

lemma holds_length:
  assumes "holds ps S t b"
  shows "length (ob_parts b) = card S"
proof -
  have "set (map fst (ob_parts b)) = S"
    using assms by (auto simp: holds_def simp flip: dom_map_of_conv_image_fst split: if_splits)
  moreover have "distinct (map fst (ob_parts b))" using assms by (simp add: holds_def group_ok_def om_wf_distinct)
  ultimately show ?thesis by (metis distinct_card length_map)
qed

lemma sum_parts:
  assumes "holds ps S t b"
  shows "ob_bytes b \<le> length (concat ps)"
proof -
  have wf: "om_wf (ob_parts b)" and sum: "ob_bytes b = om_sum length (ob_parts b)"
    using assms by (auto simp: holds_def group_ok_def)
  have val: "snd q = ps ! fst q \<and> fst q < length ps" if "q \<in> set (ob_parts b)" for q
    using assms that wf om_get_in [OF wf, of "fst q" "snd q"] by (auto simp: holds_def split: if_splits)
  have "om_sum length (ob_parts b) = sum_list (map (\<lambda>i. length (ps ! i)) (map fst (ob_parts b)))"
    using val by (auto simp: om_sum_def comp_def intro!: arg_cong [where f = sum_list])
  also have "\<dots> = (\<Sum>i \<in> set (map fst (ob_parts b)). length (ps ! i))"
    using om_wf_distinct [OF wf] by (rule sum_list_distinct_conv_sum_set)
  also have "\<dots> \<le> (\<Sum>i \<in> {..<length ps}. length (ps ! i))"
    using val by (intro sum_mono2) auto
  also have "\<dots> = length (concat ps)"
    by (simp add: length_concat sum_list_sum_nth atLeast0LessThan)
  finally show ?thesis by (simp add: sum)
qed

text \<open>An assembler on its way to the message \<open>ps\<close>: well-formed, with room for it, and with a group that
  holds the parts \<open>S\<close> seen since \<open>t0\<close>.\<close>

definition collecting :: "string \<Rightarrow> string list \<Rightarrow> nat \<Rightarrow> nat set \<Rightarrow> ChunkAssembler \<Rightarrow> bool" where
  "collecting cid ps t0 S a = (assembler_ok a \<and> within_limits a \<and> length (concat ps) \<le> ca_max_bytes a
     \<and> (S = {} \<and> om_get (ca_open a) cid = None
        \<or> (\<exists>t b. om_get (ca_open a) cid = Some b \<and> holds ps S t b \<and> t0 \<le> t)))"

definition frame_of :: "envelope_enc \<Rightarrow> string \<Rightarrow> string list \<Rightarrow> nat \<Rightarrow> string" where
  "frame_of enc cid ps i = enc cid i (length ps) (ps ! i)"

lemma parse_frame:
  assumes "codec_ok enc json cid" "2 \<le> length ps" "length ps \<le> u64_max" "i < length ps"
  shows "parse_chunk_envelope json (frame_of enc cid ps i)
    = Some \<lparr>ce_kind = CHUNK_MESSAGE_TYPE, ce_cid = cid, ce_i = i, ce_n = length ps, ce_part = ps ! i\<rparr>"
  using assms by (simp add: parse_chunk_envelope_def frame_of_def codec_ok_def)

lemma holds_new: "holds ps {} now (new_group (length ps) now)"
  by (simp add: holds_def) (simp add: new_group_def)

lemma collecting_group:
  assumes "collecting cid ps t0 S a" "t0 \<le> now" "now < t0 + ca_ttl_ms a"
  shows "\<exists>t. holds ps S t (group_for cid (length ps) now (sweep_groups now a)) \<and> t0 \<le> t"
proof (cases "om_get (ca_open a) cid")
  case None
  then have "S = {}" using assms(1) by (auto simp: collecting_def)
  with None assms(1,2) holds_new show ?thesis
    by (auto simp: group_for_def sweep_groups_get collecting_def)
next
  case (Some b)
  then obtain t where t: "holds ps S t b" "t0 \<le> t" using assms(1) by (auto simp: collecting_def)
  then have "\<not> ca_ttl_ms a \<le> now - ob_first_seen_at b" "ob_n b = length ps" using assms(2,3) by (auto simp: holds_def)
  with Some assms(1) t show ?thesis by (auto simp: group_for_def sweep_groups_get collecting_def)
qed

lemma collecting_offer:
  assumes "collecting cid ps t0 S a" "t0 \<le> now" "now < t0 + ca_ttl_ms a"
    and "codec_ok enc json cid" "2 \<le> length ps" "length ps \<le> u64_max" "i < length ps"
  shows "if insert i S = {..<length ps}
    then fst (offer json (frame_of enc cid ps i) now a) = Assembled (concat ps)
      \<and> om_get (ca_open (snd (offer json (frame_of enc cid ps i) now a))) cid = None
    else fst (offer json (frame_of enc cid ps i) now a) = Buffered
      \<and> collecting cid ps t0 (insert i S) (snd (offer json (frame_of enc cid ps i) now a))"
    and "ca_ttl_ms (snd (offer json (frame_of enc cid ps i) now a)) = ca_ttl_ms a"
proof -
  obtain t where t: "holds ps S t (group_for cid (length ps) now (sweep_groups now a))" "t0 \<le> t"
    using collecting_group [OF assms(1-3)] by blast
  define b where "b = with_part i (ps ! i) (group_for cid (length ps) now (sweep_groups now a))"
  have b: "holds ps (insert i S) t b" unfolding b_def by (rule holds_with_part [OF t(1) assms(7)])
  have ok: "assembler_ok a" "within_limits a" "length (concat ps) \<le> ca_max_bytes a" using assms(1) by (auto simp: collecting_def)
  note step = offer_step [OF ok(1,2) parse_frame [OF assms(4-7)], simplified, OF assms(7) b_def]
  have room: "\<not> ca_max_bytes a < ob_bytes b" using sum_parts [OF b] ok(3) by simp
  have sub: "insert i S \<subseteq> {..<length ps}" using b by (simp add: holds_def)
  show "ca_ttl_ms (snd (offer json (frame_of enc cid ps i) now a)) = ca_ttl_ms a" using step by blast
  show "if insert i S = {..<length ps}
    then fst (offer json (frame_of enc cid ps i) now a) = Assembled (concat ps)
      \<and> om_get (ca_open (snd (offer json (frame_of enc cid ps i) now a))) cid = None
    else fst (offer json (frame_of enc cid ps i) now a) = Buffered
      \<and> collecting cid ps t0 (insert i S) (snd (offer json (frame_of enc cid ps i) now a))"
  proof (cases "insert i S = {..<length ps}")
    case True
    then have "length (ob_parts b) = ob_n b" using holds_length [OF b] b by (simp add: holds_def)
    moreover have "om_vals (ob_parts b) = ps" using b True by (intro full_parts) (auto simp: holds_def group_ok_def)
    ultimately show ?thesis using step room True by simp
  next
    case False
    then have "card (insert i S) < card {..<length ps}" using sub by (intro psubset_card_mono) auto
    then have "length (ob_parts b) < ob_n b" using holds_length [OF b] b by (simp add: holds_def)
    then show ?thesis using step room False b t(2) ok(3) by (auto simp: collecting_def)
  qed
qed

text \<open>Offering a sequence of texts, each with its time.\<close>

fun offer_all :: "envelope_json \<Rightarrow> (string \<times> nat) list \<Rightarrow> ChunkAssembler \<Rightarrow> AssemblerResult list \<times> ChunkAssembler" where
  "offer_all json [] a = ([], a)"
| "offer_all json ((p, now) # offers) a =
     (let (r, a1) = offer json p now a; (rs, a2) = offer_all json offers a1 in (r # rs, a2))"

lemma offer_all_snoc:
  "offer_all json (offers @ [(p, now)]) a =
     (fst (offer_all json offers a) @ [fst (offer json p now (snd (offer_all json offers a)))],
      snd (offer json p now (snd (offer_all json offers a))))"
  by (induction offers arbitrary: a) (auto simp: Let_def case_prod_beta)

lemma collecting_all:
  assumes "collecting cid ps t0 {} a" "codec_ok enc json cid" "2 \<le> length ps" "length ps \<le> u64_max"
    and "\<forall>(i, now) \<in> set sent. i < length ps \<and> t0 \<le> now \<and> now < t0 + ca_ttl_ms a" "fst ` set sent \<subset> {..<length ps}"
    and "r = offer_all json (map (\<lambda>(i, now). (frame_of enc cid ps i, now)) sent) a"
  shows "fst r = replicate (length sent) Buffered \<and> collecting cid ps t0 (fst ` set sent) (snd r) \<and> ca_ttl_ms (snd r) = ca_ttl_ms a"
  using assms
proof (induction sent arbitrary: r rule: rev_induct)
  case (snoc x sent)
  obtain i now where x: "x = (i, now)" by (cases x)
  define r0 where "r0 = offer_all json (map (\<lambda>(i, now). (frame_of enc cid ps i, now)) sent) a"
  have "fst ` set sent \<subset> {..<length ps}" using snoc.prems(6) by auto
  then have IH: "fst r0 = replicate (length sent) Buffered" "collecting cid ps t0 (fst ` set sent) (snd r0)" "ca_ttl_ms (snd r0) = ca_ttl_ms a"
    using snoc.IH [of r0] snoc.prems(1-5) r0_def by auto
  have now: "t0 \<le> now" "now < t0 + ca_ttl_ms (snd r0)" "i < length ps" using snoc.prems(5) IH(3) by (auto simp: x)
  have "insert i (fst ` set sent) \<noteq> {..<length ps}" using snoc.prems(6) by (auto simp: x)
  then show ?case
    using collecting_offer [OF IH(2) now(1,2) snoc.prems(2-4) now(3)] IH(1,3) snoc.prems(7)
    by (simp add: x offer_all_snoc r0_def replicate_append_same flip: replicate_Suc)
qed simp

section \<open>Properties\<close>

lemma map_enumerate_frames: "map (\<lambda>(i, part). enc cid i (length ps) part) (enumerate 0 ps) = map (frame_of enc cid ps) [0..<length ps]"
  by (rule nth_equalityI) (auto simp: frame_of_def nth_enumerate_eq)

text \<open>Framing never fails and every frame fits one event: a small message goes as it is, a large one as
  at least two envelopes whose parts, in order, are the message.\<close>

lemma framing_fits:
  assumes "codec_ok enc json cid" "utf8_text s" "length s \<le> u64_max"
  shows "\<exists>frames. frame_encoded_message enc s cid = Some frames \<and> (\<forall>f \<in> set frames. length f \<le> 40960)
    \<and> (if length s \<le> 40960 then frames = [s]
       else \<exists>ps. frames = map (\<lambda>i. enc cid i (length ps) (ps ! i)) [0..<length ps] \<and> concat ps = s \<and> 2 \<le> length ps)"
proof (cases "length s \<le> NIP44_SAFE_PLAINTEXT_BYTES")
  case True
  then show ?thesis by (simp add: frame_encoded_message_def NIP44_SAFE_PLAINTEXT_BYTES_def)
next
  case False
  then obtain ps where ps: "frame_encoded_message enc s cid = Some (map (\<lambda>(i, part). enc cid i (length ps) part) (enumerate 0 ps))"
    "concat ps = s" "2 \<le> length ps"
    "\<forall>(i, part) \<in> set (enumerate 0 ps). length (enc cid i (length ps) part) \<le> NIP44_SAFE_PLAINTEXT_BYTES"
    using frame_parts [OF assms(1,2) _ assms(3)] by auto
  have "length (enc cid i (length ps) (ps ! i)) \<le> 40960" if "i < length ps" for i
  proof -
    have "(i, ps ! i) \<in> set (enumerate 0 ps)" using that by (simp add: in_set_enumerate_eq)
    with ps(4) show ?thesis by (auto simp: NIP44_SAFE_PLAINTEXT_BYTES_def)
  qed
  moreover have "frame_encoded_message enc s cid = Some (map (\<lambda>i. enc cid i (length ps) (ps ! i)) [0..<length ps])"
    using ps(1) by (simp add: map_enumerate_frames) (simp add: frame_of_def)
  ultimately show ?thesis
    using ps(2,3) False by (intro exI conjI) (auto simp: NIP44_SAFE_PLAINTEXT_BYTES_def)
qed

text \<open>C16: Fragmentation round trip: the frames of a large message, offered in any order and with any
  repetitions within the assembly window, are buffered until the last missing one arrives, which gives
  back exactly the original message; nothing is surfaced before.\<close>

theorem fragments_roundtrip:
  assumes "codec_ok enc json cid" "utf8_text s" "40960 < length s" "length s \<le> u64_max"
    and "assembler_ok a" "within_limits a" "om_get (ca_open a) cid = None" "length s \<le> ca_max_bytes a"
  shows "\<exists>ps. frame_encoded_message enc s cid = Some (map (frame_of enc cid ps) [0..<length ps])
    \<and> (\<forall>sent k now t0. (\<forall>(i, t) \<in> set (sent @ [(k, now)]). t0 \<le> t \<and> t < t0 + ca_ttl_ms a)
        \<and> insert k (fst ` set sent) = {..<length ps} \<and> k \<notin> fst ` set sent
        \<longrightarrow> fst (offer_all json (map (\<lambda>(i, t). (frame_of enc cid ps i, t)) (sent @ [(k, now)])) a)
            = replicate (length sent) Buffered @ [Assembled s])"
proof -
  obtain ps where ps: "frame_encoded_message enc s cid = Some (map (frame_of enc cid ps) [0..<length ps])"
    "concat ps = s" "2 \<le> length ps" "length ps \<le> u64_max"
    using frame_parts [OF assms(1,2) _ assms(4)] assms(3) by (auto simp: map_enumerate_frames NIP44_SAFE_PLAINTEXT_BYTES_def)
  have start: "collecting cid ps t0 {} a" for t0 using assms(5-8) ps(2) by (simp add: collecting_def)
  have "fst (offer_all json (map (\<lambda>(i, t). (frame_of enc cid ps i, t)) (sent @ [(k, now)])) a) = replicate (length sent) Buffered @ [Assembled s]"
    if times: "\<forall>(i, t) \<in> set (sent @ [(k, now)]). t0 \<le> t \<and> t < t0 + ca_ttl_ms a"
      and all: "insert k (fst ` set sent) = {..<length ps}" "k \<notin> fst ` set sent" for sent k now t0
  proof -
    have k: "k < length ps" using all(1) by blast
    have "i < length ps \<and> t0 \<le> t \<and> t < t0 + ca_ttl_ms a" if "(i, t) \<in> set sent" for i t
    proof -
      have "i \<in> insert k (fst ` set sent)" using that by (force simp: image_iff)
      with all(1) times that show ?thesis by auto
    qed
    then have "\<forall>(i, t) \<in> set sent. i < length ps \<and> t0 \<le> t \<and> t < t0 + ca_ttl_ms a" by auto
    moreover have "fst ` set sent \<subset> {..<length ps}" using all by blast
    ultimately have sent: "fst (offer_all json (map (\<lambda>(i, t). (frame_of enc cid ps i, t)) sent) a) = replicate (length sent) Buffered"
      "collecting cid ps t0 (fst ` set sent) (snd (offer_all json (map (\<lambda>(i, t). (frame_of enc cid ps i, t)) sent) a))"
      "ca_ttl_ms (snd (offer_all json (map (\<lambda>(i, t). (frame_of enc cid ps i, t)) sent) a)) = ca_ttl_ms a"
      using collecting_all [OF start assms(1) ps(3,4) _ _ refl] by blast+
    show ?thesis
      using collecting_offer(1) [OF sent(2) _ _ assms(1) ps(3,4) k, of now] times all(1) sent(1,3) ps(2)
      by (simp add: offer_all_snoc)
  qed
  with ps(1) show ?thesis by blast
qed

inductive assembler_reach :: "envelope_json \<Rightarrow> ChunkAssembler \<Rightarrow> bool" for json where
  fresh: "assembler_reach json (with_limits ttl max_open max_bytes)"
| offered: "assembler_reach json a \<Longrightarrow> assembler_reach json (snd (offer json p now a))"

lemma assembler_reach_ok: "assembler_reach json a \<Longrightarrow> assembler_ok a \<and> within_limits a"
proof (induction rule: assembler_reach.induct)
  case (fresh ttl max_open max_bytes)
  show ?case by (simp add: with_limits_def assembler_ok_def within_limits_def)
qed (use offer_keeps in blast)

text \<open>C39: The assembler is bounded whatever it is offered: its buffered bytes are counted exactly and stay
  within the byte cap, and at most the configured number of groups is open.\<close>

theorem assembler_bounded:
  assumes "assembler_reach json a"
  shows "ca_total_bytes a = om_sum ob_bytes (ca_open a) \<and> ca_total_bytes a \<le> ca_max_bytes a
    \<and> length (ca_open a) \<le> max 1 (ca_max_open a)"
  using assembler_reach_ok [OF assms] by (simp add: assembler_ok_def within_limits_def)

theorem assembler_bounded_witness:
  "ca_total_bytes (snd (offer (\<lambda>_. None) ''hello'' 5 default_assembler)) \<le> 8388608"
proof -
  have "assembler_reach (\<lambda>_. None) (snd (offer (\<lambda>_. None) ''hello'' 5 default_assembler))"
    unfolding default_assembler_def by (intro assembler_reach.offered assembler_reach.fresh)
  then have "ca_total_bytes (snd (offer (\<lambda>_. None) ''hello'' 5 default_assembler)) \<le> ca_max_bytes (snd (offer (\<lambda>_. None) ''hello'' 5 default_assembler))"
    using assembler_bounded by blast
  also have "\<dots> = 8388608"
    by (simp add: offer_def parse_chunk_envelope_def sweep_groups_def default_assembler_def with_limits_def DEFAULT_MAX_BYTES_def Let_def)
  finally show ?thesis .
qed

subsection \<open>A codec for the witnesses\<close>

text \<open>A concrete envelope text: the wire prefix, the index and count in eight bytes each, a one-byte cid
  and the part.\<close>

fun le_bytes :: "nat \<Rightarrow> nat \<Rightarrow> string" where
  "le_bytes 0 x = []"
| "le_bytes (Suc k) x = char_of (x mod 256) # le_bytes k (x div 256)"

fun le_value :: "string \<Rightarrow> nat" where
  "le_value [] = 0"
| "le_value (c # cs) = of_char c + 256 * le_value cs"

lemma length_le_bytes [simp]: "length (le_bytes k x) = k"
  by (induction k arbitrary: x) auto

lemma le_value_bytes: "le_value (le_bytes k x) = x mod 256 ^ k"
  by (induction k arbitrary: x) (auto simp: mod_mult2_eq)

definition sample_enc :: envelope_enc where
  "sample_enc cid i n part = CHUNK_PREFIX @ le_bytes 8 i @ le_bytes 8 n @ take 1 (cid @ ''x'') @ part"

definition sample_dec :: envelope_json where
  "sample_dec p = (let q = drop (length CHUNK_PREFIX) p in
     Some \<lparr>ce_kind = CHUNK_MESSAGE_TYPE, ce_cid = take 1 (drop 16 q), ce_i = le_value (take 8 q),
       ce_n = le_value (take 8 (drop 8 q)), ce_part = drop 17 q\<rparr>)"

lemma sample_codec: "codec_ok sample_enc sample_dec ''c''"
proof -
  have "le_value (le_bytes 8 x) = x" if "x \<le> u64_max" for x
    using that by (simp add: le_value_bytes u64_max_def)
  then show ?thesis
    by (simp add: codec_ok_def sample_enc_def sample_dec_def starts_with_def CHUNK_PREFIX_def Let_def
        NIP44_SAFE_PLAINTEXT_BYTES_def CHUNK_ENVELOPE_MARGIN_def)
qed

definition sample_text :: string where
  "sample_text = replicate 50000 (CHR ''a'')"

lemma sample_text_utf8: "utf8_text sample_text"
  unfolding utf8_text_def
proof (intro allI impI exI [where x = 1] conjI)
  fix pos assume "pos < length sample_text"
  then show "is_char_boundary sample_text (pos + 1)" "pos + 1 \<le> length sample_text"
    by (auto simp: sample_text_def is_char_boundary_def continues_def)
qed auto

theorem fragments_roundtrip_witness:
  "\<exists>ps. frame_encoded_message sample_enc sample_text ''c'' = Some (map (frame_of sample_enc ''c'' ps) [0..<length ps])"
  using fragments_roundtrip [OF sample_codec sample_text_utf8, of default_assembler]
  by (auto simp: sample_text_def u64_max_def default_assembler_def with_limits_def assembler_ok_def within_limits_def DEFAULT_MAX_BYTES_def)

end
