(* ===== verification/Ranges.thy ===== *)
theory Ranges
  imports Prelude
begin

text \<open>
  \<open>crates/protocol/src/ranges.rs\<close>: arithmetic on sets of sequence numbers, kept as inclusive
  pairs \<open>(from, to)\<close> of \<open>u64\<close>; a pair with \<open>to < from\<close> is empty. The semantics of a range list
  is the set \<open>seqs\<close> of numbers it covers, and every operation is proved against it. The locale
  \<open>range_algebra\<close> is the interface the sync server and the transcript store rely on; it is
  interpreted on the operations of this file.
\<close>

section \<open>The operations\<close>

type_synonym SeqRange = "nat \<times> nat"

definition norm_step :: "SeqRange list \<Rightarrow> SeqRange \<Rightarrow> SeqRange list" where
  "norm_step out r =
     (case r of (from, to) \<Rightarrow>
        if out \<noteq> [] \<and> from \<le> sat_add (snd (last out)) 1
        then butlast out @ [(fst (last out), max (snd (last out)) to)]
        else out @ [(from, to)])"

definition normalize_ranges :: "SeqRange list \<Rightarrow> SeqRange list" where
  "normalize_ranges ranges =
     foldl norm_step [] (sort_key fst (filter (\<lambda>(a, b). a \<le> b) ranges))"

fun missing_loop :: "SeqRange list \<Rightarrow> nat \<Rightarrow> nat \<Rightarrow> SeqRange list \<Rightarrow> SeqRange list \<times> nat" where
  "missing_loop [] hi cursor out = (out, cursor)"
| "missing_loop ((from, to) # covered) hi cursor out =
     (if to < cursor then missing_loop covered hi cursor out
      else if hi < from then (out, cursor)
      else
        let out' = (if cursor < from then out @ [(cursor, min (from - 1) hi)] else out);
            cursor' = max cursor (sat_add to 1)
        in if hi < cursor' then (out', cursor') else missing_loop covered hi cursor' out')"

definition missing_ranges :: "SeqRange list \<Rightarrow> nat \<Rightarrow> nat \<Rightarrow> SeqRange list" where
  "missing_ranges have lo hi =
     (if hi < lo then []
      else case missing_loop (normalize_ranges have) hi lo [] of
        (out, cursor) \<Rightarrow> if cursor \<le> hi then out @ [(cursor, hi)] else out)"

function chunk_loop :: "nat \<Rightarrow> nat \<Rightarrow> nat \<Rightarrow> SeqRange list" where
  "chunk_loop start to sz =
     (let stop = min (sat_add start (sz - 1)) to
      in (start, stop) # (if to \<le> stop then [] else chunk_loop (stop + 1) to sz))"
  by pat_completeness auto
termination
  by (relation "measure (\<lambda>(start, to, sz). to + 1 - start)")
     (auto simp: min_def sat_add_def split: if_splits)

declare chunk_loop.simps [simp del]

definition chunk_ranges :: "SeqRange list \<Rightarrow> nat \<Rightarrow> SeqRange list" where
  "chunk_ranges ranges sz =
     concat (map (\<lambda>(from, to). chunk_loop from to sz) (normalize_ranges ranges))"

definition union_ranges :: "SeqRange list \<Rightarrow> SeqRange list \<Rightarrow> SeqRange list" where
  "union_ranges a b = normalize_ranges (a @ b)"

definition subtract_ranges :: "SeqRange list \<Rightarrow> SeqRange list \<Rightarrow> SeqRange list" where
  "subtract_ranges a b =
     normalize_ranges (concat (map (\<lambda>(from, to). missing_ranges b from to) (normalize_ranges a)))"

definition range_size :: "SeqRange list \<Rightarrow> nat" where
  "range_size ranges =
     foldl (\<lambda>total (a, b). sat_add total (sat_add (sat_sub b a) 1)) 0 (normalize_ranges ranges)"

definition covers :: "SeqRange list \<Rightarrow> nat \<Rightarrow> nat \<Rightarrow> bool" where
  "covers have lo hi = (missing_ranges have lo hi = [])"

section \<open>Semantics\<close>

text \<open>The numbers a list of ranges covers, and the canonical lists: non-empty ranges in
  increasing order with a gap between neighbours.\<close>

definition seqs :: "SeqRange list \<Rightarrow> nat set" where
  "seqs rs = (\<Union>(a, b) \<in> set rs. {a..b})"

definition canonical :: "SeqRange list \<Rightarrow> bool" where
  "canonical rs = ((\<forall>(a, b) \<in> set rs. a \<le> b) \<and> sorted_wrt (\<lambda>(a, b) (c, d). b + 1 < c) rs)"

definition in_u64 :: "SeqRange list \<Rightarrow> bool" where
  "in_u64 rs = (\<forall>(a, b) \<in> set rs. b \<le> u64_max)"

lemma seqs_simps [simp]:
  "seqs [] = {}" "seqs ((a, b) # rs) = {a..b} \<union> seqs rs" "seqs (rs @ ss) = seqs rs \<union> seqs ss"
  by (auto simp: seqs_def)

lemma seqs_concat: "seqs (concat rss) = (\<Union>rs \<in> set rss. seqs rs)"
  by (induction rss) auto

lemma seqs_concat_map: "seqs (concat (map (\<lambda>(x, y). f x y) rs)) = (\<Union>(x, y) \<in> set rs. seqs (f x y))"
  by (induction rs) auto

lemma seqs_above: "\<forall>(c, d) \<in> set rs. b < c \<Longrightarrow> x \<in> seqs rs \<Longrightarrow> b < x"
  by (fastforce simp: seqs_def)

lemma finite_seqs [simp]: "finite (seqs rs)"
  by (auto simp: seqs_def)

lemma seqs_filter_nonempty: "seqs (filter (\<lambda>(a, b). a \<le> b) rs) = seqs rs"
  by (auto simp: seqs_def)

lemma seqs_sort: "seqs (sort_key f rs) = seqs rs"
  by (simp add: seqs_def)

lemma in_u64_simps [simp]:
  "in_u64 []" "in_u64 ((a, b) # rs) = (b \<le> u64_max \<and> in_u64 rs)" "in_u64 (rs @ ss) = (in_u64 rs \<and> in_u64 ss)"
  by (auto simp: in_u64_def)

lemma canonical_Nil [simp]: "canonical []"
  by (simp add: canonical_def)

lemma canonical_Cons:
  "canonical ((a, b) # rs) \<longleftrightarrow> a \<le> b \<and> (\<forall>(c, d) \<in> set rs. b + 1 < c) \<and> canonical rs"
  by (auto simp: canonical_def)

lemma canonical_snoc:
  "canonical (rs @ [(a, b)]) \<longleftrightarrow> a \<le> b \<and> (\<forall>(c, d) \<in> set rs. d + 1 < a) \<and> canonical rs"
  by (auto simp: canonical_def sorted_wrt_append)

section \<open>Normalisation\<close>

lemma norm_step_snoc:
  "norm_step (out @ [(a, b)]) (c, d) =
     (if c \<le> sat_add b 1 then out @ [(a, max b d)] else out @ [(a, b), (c, d)])"
  by (simp add: norm_step_def)

lemma norm_step_Nil [simp]: "norm_step [] r = [r]"
  by (cases r) (simp add: norm_step_def)

text \<open>What the merge loop keeps: the output so far is canonical, its last range starts no later
  than what is still to come, and it covers what was read.\<close>

lemma norm_foldl:
  assumes "sorted (map fst (rs @ ss))" "\<forall>(a, b) \<in> set ss. a \<le> b" "in_u64 ss"
    and "canonical out" "in_u64 out" "\<forall>(a, b) \<in> set out. \<forall>r \<in> set ss. a \<le> fst r"
  shows "canonical (foldl norm_step out ss) \<and> in_u64 (foldl norm_step out ss)
    \<and> seqs (foldl norm_step out ss) = seqs out \<union> seqs ss"
  using assms
proof (induction ss arbitrary: out rs)
  case Nil
  then show ?case by simp
next
  case (Cons r ss)
  obtain c d where r: "r = (c, d)" by (cases r)
  have step: "canonical (norm_step out r) \<and> in_u64 (norm_step out r)
      \<and> seqs (norm_step out r) = seqs out \<union> {c..d}
      \<and> (\<forall>(a, b) \<in> set (norm_step out r). \<forall>q \<in> set ss. a \<le> fst q)"
  proof (cases out rule: rev_cases)
    case Nil
    with Cons.prems show ?thesis by (auto simp: r canonical_def sorted_append)
  next
    case (snoc init l)
    obtain a b where l: "l = (a, b)" by (cases l)
    note facts = Cons.prems snoc l r
    show ?thesis
    proof (cases "c \<le> sat_add b 1")
      case True
      moreover have "sat_add b 1 \<le> b + 1" by (rule sat_add_le_sum)
      ultimately have "c \<le> b + 1" by simp
      with True facts show ?thesis
        by (auto simp: norm_step_snoc canonical_snoc sorted_append)
    next
      case False
      with facts have "b + 1 < c"
        by (auto simp: sat_add_def split: if_splits)
      with False facts show ?thesis
        by (fastforce simp: norm_step_snoc canonical_def sorted_append sorted_wrt_append)
    qed
  qed
  have "sorted (map fst ((rs @ [r]) @ ss))" "\<forall>(a, b) \<in> set ss. a \<le> b" "in_u64 ss"
    using Cons.prems by (auto simp: r)
  from Cons.IH [OF this] step show ?case by (auto simp: r)
qed

lemma normalize_ranges:
  assumes "in_u64 rs"
  shows "canonical (normalize_ranges rs)" and "in_u64 (normalize_ranges rs)"
    and "seqs (normalize_ranges rs) = seqs rs"
proof -
  let ?ss = "sort_key fst (filter (\<lambda>(a, b). a \<le> b) rs)"
  have "sorted (map fst ([] @ ?ss))" "\<forall>(a, b) \<in> set ?ss. a \<le> b" "in_u64 ?ss"
    using assms by (auto simp: in_u64_def)
  from norm_foldl [OF this, of "[]"]
  show "canonical (normalize_ranges rs)" "in_u64 (normalize_ranges rs)"
    "seqs (normalize_ranges rs) = seqs rs"
    by (simp_all add: normalize_ranges_def seqs_sort seqs_filter_nonempty)
qed

text \<open>A canonical list is determined by what it covers.\<close>

lemma canonical_min:
  assumes "canonical ((a, b) # rs)"
  shows "a \<in> seqs ((a, b) # rs)" and "x \<in> seqs ((a, b) # rs) \<Longrightarrow> a \<le> x"
    and "\<forall>x \<in> {a..b}. x \<in> seqs ((a, b) # rs)" and "Suc b \<notin> seqs ((a, b) # rs)"
  using assms by (auto simp: canonical_Cons seqs_def)

lemma canonical_tail_seqs:
  assumes "canonical ((a, b) # rs)"
  shows "seqs rs = seqs ((a, b) # rs) - {a..b}"
  using assms by (fastforce simp: canonical_Cons seqs_def)

lemma canonical_unique:
  "canonical rs \<Longrightarrow> canonical ss \<Longrightarrow> seqs rs = seqs ss \<Longrightarrow> rs = ss"
proof (induction rs arbitrary: ss)
  case Nil
  then show ?case by (cases ss) (auto simp: canonical_Cons)
next
  case (Cons r rs)
  obtain a b where r: "r = (a, b)" by (cases r)
  show ?case
  proof (cases ss)
    case Nil
    with Cons.prems show ?thesis by (auto simp: r canonical_Cons)
  next
    case (Cons s ss')
    obtain c d where s: "s = (c, d)" by (cases s)
    note can = Cons.prems(1) [unfolded r] \<open>canonical ss\<close> [unfolded Cons s]
    have eq: "seqs ((a, b) # rs) = seqs ((c, d) # ss')"
      using \<open>seqs (r # rs) = seqs ss\<close> by (simp add: r s Cons)
    have "a = c"
      using canonical_min(1,2) [OF can(1)] canonical_min(1,2) [OF can(2)] eq
      by (metis le_antisym)
    moreover have "b = d"
    proof (rule ccontr)
      assume "b \<noteq> d"
      then consider "b < d" | "d < b" by linarith
      then show False
      proof cases
        case 1
        then have "Suc b \<in> {c..d}" using \<open>a = c\<close> can(1) by (simp add: canonical_Cons)
        then show False using canonical_min(3) [OF can(2)] canonical_min(4) [OF can(1)] eq by metis
      next
        case 2
        then have "Suc d \<in> {a..b}" using \<open>a = c\<close> can(2) by (simp add: canonical_Cons)
        then show False using canonical_min(3) [OF can(1)] canonical_min(4) [OF can(2)] eq by metis
      qed
    qed
    moreover have "seqs rs = seqs ss'"
      using canonical_tail_seqs [OF can(1)] canonical_tail_seqs [OF can(2)] eq calculation by metis
    then have "rs = ss'"
      using Cons.IH can by (simp add: canonical_Cons)
    ultimately show ?thesis by (simp add: r s Cons)
  qed
qed

section \<open>Missing ranges\<close>

text \<open>What the gap loop keeps: what it has put out, and what is left above the cursor, is what
  it had put out before and the uncovered part above the old cursor.\<close>

lemma missing_loop:
  assumes "canonical covered" "in_u64 covered" "hi < u64_max" "cursor \<le> hi"
    and "canonical out" "\<forall>(a, b) \<in> set out. b + 1 < cursor"
    and "missing_loop covered hi cursor out = (out', cursor')"
  shows "seqs out' \<union> {cursor'..hi} = seqs out \<union> ({cursor..hi} - seqs covered)"
    and "canonical out'" and "\<forall>(a, b) \<in> set out'. b + 1 < cursor'"
    and "\<forall>(a, b) \<in> set out'. (a, b) \<in> set out \<or> b \<le> hi"
proof -
  have "seqs out' \<union> {cursor'..hi} = seqs out \<union> ({cursor..hi} - seqs covered)
    \<and> canonical out' \<and> (\<forall>(a, b) \<in> set out'. b + 1 < cursor')
    \<and> (\<forall>(a, b) \<in> set out'. (a, b) \<in> set out \<or> b \<le> hi)"
    using assms
  proof (induction covered arbitrary: cursor out)
    case Nil
    then show ?case by auto
  next
    case (Cons r covered)
    obtain f t where r: "r = (f, t)" by (cases r)
    have can: "f \<le> t" "canonical covered" "in_u64 covered" "\<forall>(c, d) \<in> set covered. t + 1 < c"
      using Cons.prems by (auto simp: r canonical_Cons)
    consider (skip) "t < cursor" | (stop) "cursor \<le> t" "hi < f" | (gap) "cursor \<le> t" "f \<le> hi"
      by linarith
    then show ?case
    proof cases
      case skip
      then show ?thesis
        using Cons.IH [of cursor out] Cons.prems can by (auto simp: r)
    next
      case stop
      have "{cursor..hi} - seqs ((f, t) # covered) = {cursor..hi}"
        using stop can(1,4) by (fastforce simp: seqs_def)
      then show ?thesis using stop Cons.prems by (auto simp: r)
    next
      case gap
      let ?out = "if cursor < f then out @ [(cursor, min (f - 1) hi)] else out"
      let ?c = "max cursor (sat_add t 1)"
      have sat: "hi < ?c \<longrightarrow> hi \<le> t" "?c \<le> hi \<longrightarrow> ?c = t + 1" "f < ?c"
        using gap can(1) Cons.prems(2,3) by (auto simp: r sat_add_def max_def split: if_splits)
      have inv: "canonical ?out" "\<forall>(a, b) \<in> set ?out. b + 1 < ?c"
        "\<forall>(a, b) \<in> set ?out. (a, b) \<in> set out \<or> b \<le> hi"
        using Cons.prems(5,6) gap sat(3) by (auto simp: canonical_snoc)
      show ?thesis
      proof (cases "hi < ?c")
        case True
        then have "out' = ?out" "cursor' = ?c"
          using Cons.prems(7) gap by (auto simp: r Let_def)
        moreover have "{cursor..hi} - seqs ((f, t) # covered) = (if cursor < f then {cursor..f - 1} else {})"
          using True sat(1) gap by (auto dest!: seqs_above [OF can(4)])
        ultimately show ?thesis using True gap inv by (auto simp: r)
      next
        case False
        then have "?c = t + 1" using sat(2) by linarith
        moreover have "missing_loop covered hi ?c ?out = (out', cursor')"
          using Cons.prems(7) gap False by (simp add: r Let_def)
        ultimately have "seqs out' \<union> {cursor'..hi} = seqs ?out \<union> ({t + 1..hi} - seqs covered)
            \<and> canonical out' \<and> (\<forall>(a, b) \<in> set out'. b + 1 < cursor')
            \<and> (\<forall>(a, b) \<in> set out'. (a, b) \<in> set ?out \<or> b \<le> hi)"
          using Cons.IH [OF can(2,3) Cons.prems(3) _ inv(1,2)] False by simp
        moreover have "seqs ?out \<union> ({t + 1..hi} - seqs covered) = seqs out \<union> ({cursor..hi} - seqs ((f, t) # covered))"
          using gap can(1) by (auto dest: seqs_above [OF can(4)])
        ultimately show ?thesis using inv(3) by (auto simp: r)
      qed
    qed
  qed
  then show "seqs out' \<union> {cursor'..hi} = seqs out \<union> ({cursor..hi} - seqs covered)"
    "canonical out'" "\<forall>(a, b) \<in> set out'. b + 1 < cursor'"
    "\<forall>(a, b) \<in> set out'. (a, b) \<in> set out \<or> b \<le> hi"
    by auto
qed

lemma missing_ranges:
  assumes "in_u64 have" "hi < u64_max"
  shows "seqs (missing_ranges have lo hi) = {lo..hi} - seqs have"
    and "canonical (missing_ranges have lo hi)"
    and "\<forall>(a, b) \<in> set (missing_ranges have lo hi). b \<le> hi"
proof -
  have "seqs (missing_ranges have lo hi) = {lo..hi} - seqs have \<and> canonical (missing_ranges have lo hi)
    \<and> (\<forall>(a, b) \<in> set (missing_ranges have lo hi). b \<le> hi)"
  proof (cases "hi < lo")
    case False
    obtain out c where res: "missing_loop (normalize_ranges have) hi lo [] = (out, c)"
      by fastforce
    have "seqs out \<union> {c..hi} = seqs [] \<union> ({lo..hi} - seqs have) \<and> canonical out
      \<and> (\<forall>(a, b) \<in> set out. b + 1 < c) \<and> (\<forall>(a, b) \<in> set out. (a, b) \<in> set [] \<or> b \<le> hi)"
      using missing_loop [OF normalize_ranges(1,2) assms(2) _ _ _ res] normalize_ranges(3) assms False
      by simp
    then show ?thesis
      using False res by (auto simp: missing_ranges_def canonical_snoc)
  qed (simp add: missing_ranges_def)
  then show "seqs (missing_ranges have lo hi) = {lo..hi} - seqs have"
    "canonical (missing_ranges have lo hi)" "\<forall>(a, b) \<in> set (missing_ranges have lo hi). b \<le> hi"
    by auto
qed

lemma canonical_seqs_empty: "canonical rs \<Longrightarrow> seqs rs = {} \<longleftrightarrow> rs = []"
  by (cases rs) (auto simp: canonical_Cons)

lemma covers_iff:
  assumes "in_u64 have" "hi < u64_max"
  shows "covers have lo hi \<longleftrightarrow> {lo..hi} \<subseteq> seqs have"
  using canonical_seqs_empty [OF missing_ranges(2) [OF assms, of lo]] missing_ranges(1) [OF assms, of lo]
  by (auto simp: covers_def)

section \<open>Chunks\<close>

lemma chunk_loop:
  assumes "start \<le> to" "to \<le> u64_max" "0 < sz"
  shows "seqs (chunk_loop start to sz) = {start..to}"
    and "\<forall>(a, b) \<in> set (chunk_loop start to sz). start \<le> a \<and> a \<le> b \<and> b \<le> to \<and> b - a < sz"
    and "sorted_wrt (\<lambda>(a, b) (c, d). b < c) (chunk_loop start to sz)"
proof -
  have "seqs (chunk_loop start to sz) = {start..to}
    \<and> (\<forall>(a, b) \<in> set (chunk_loop start to sz). start \<le> a \<and> a \<le> b \<and> b \<le> to \<and> b - a < sz)
    \<and> sorted_wrt (\<lambda>(a, b) (c, d). b < c) (chunk_loop start to sz)"
    using assms
  proof (induction start to sz rule: chunk_loop.induct)
    case (1 start to sz)
    let ?stop = "min (sat_add start (sz - 1)) to"
    have e: "start \<le> ?stop" "?stop - start < sz"
      using "1.prems" sat_add_ge [of start "sz - 1"] sat_add_le_sum [of start "sz - 1"] by auto
    show ?case
    proof (cases "to \<le> ?stop")
      case True
      then show ?thesis using e "1.prems" by (auto simp: chunk_loop.simps [of start to sz] Let_def)
    next
      case False
      then have IH: "seqs (chunk_loop (?stop + 1) to sz) = {?stop + 1..to}
          \<and> (\<forall>(a, b) \<in> set (chunk_loop (?stop + 1) to sz). ?stop + 1 \<le> a \<and> a \<le> b \<and> b \<le> to \<and> b - a < sz)
          \<and> sorted_wrt (\<lambda>(a, b) (c, d). b < c) (chunk_loop (?stop + 1) to sz)"
        using "1.IH" [OF refl] "1.prems" by auto
      moreover have "{start..to} = {start..?stop} \<union> {?stop + 1..to}"
        using e False by auto
      ultimately show ?thesis
        using e False by (fastforce simp: chunk_loop.simps [of start to sz] Let_def)
    qed
  qed
  then show "seqs (chunk_loop start to sz) = {start..to}"
    "\<forall>(a, b) \<in> set (chunk_loop start to sz). start \<le> a \<and> a \<le> b \<and> b \<le> to \<and> b - a < sz"
    "sorted_wrt (\<lambda>(a, b) (c, d). b < c) (chunk_loop start to sz)"
    by auto
qed

lemma chunk_concat:
  assumes "canonical rs" "in_u64 rs" "0 < sz"
  shows "seqs (concat (map (\<lambda>(from, to). chunk_loop from to sz) rs)) = seqs rs
    \<and> (\<forall>(a, b) \<in> set (concat (map (\<lambda>(from, to). chunk_loop from to sz) rs)). a \<le> b \<and> b - a < sz)
    \<and> sorted_wrt (\<lambda>(a, b) (c, d). b < c) (concat (map (\<lambda>(from, to). chunk_loop from to sz) rs))"
  using assms
proof (induction rs)
  case (Cons r rs)
  obtain a b where r: "r = (a, b)" by (cases r)
  have ab: "a \<le> b" "b \<le> u64_max" "0 < sz" "\<forall>(c, d) \<in> set rs. b + 1 < c" "canonical rs" "in_u64 rs"
    using Cons.prems by (auto simp: r canonical_Cons)
  let ?tail = "concat (map (\<lambda>(from, to). chunk_loop from to sz) rs)"
  have IH: "seqs ?tail = seqs rs" "\<forall>(a, b) \<in> set ?tail. a \<le> b \<and> b - a < sz"
    "sorted_wrt (\<lambda>(a, b) (c, d). b < c) ?tail"
    using Cons.IH ab by auto
  have "b < c" if "(c, d) \<in> set ?tail" for c d
  proof -
    have "c \<in> seqs rs"
      using that IH(1,2) by (fastforce simp: seqs_def)
    then show ?thesis using ab(4) by (fastforce simp: seqs_def)
  qed
  then show ?case
    using IH chunk_loop [OF ab(1,2,3)] by (fastforce simp: r sorted_wrt_append)
qed simp

lemmas chunk_ranges = chunk_concat [OF normalize_ranges(1,2), folded chunk_ranges_def]

section \<open>Union, difference, size\<close>

lemma union_ranges:
  assumes "in_u64 a" "in_u64 b"
  shows "seqs (union_ranges a b) = seqs a \<union> seqs b" "canonical (union_ranges a b)" "in_u64 (union_ranges a b)"
  using normalize_ranges [of "a @ b"] assms by (simp_all add: union_ranges_def)

lemma subtract_ranges:
  assumes "in_u64 b" "\<forall>(x, y) \<in> set a. y < u64_max"
  shows "seqs (subtract_ranges a b) = seqs a - seqs b" and "canonical (subtract_ranges a b)"
proof -
  have a: "in_u64 a" using assms(2) by (fastforce simp: in_u64_def)
  have lt: "y < u64_max" if "(x, y) \<in> set (normalize_ranges a)" for x y
  proof -
    have "y \<in> seqs a"
      using that normalize_ranges [OF a] by (fastforce simp: canonical_def seqs_def)
    then show ?thesis using assms(2) by (fastforce simp: seqs_def)
  qed
  let ?out = "concat (map (\<lambda>(from, to). missing_ranges b from to) (normalize_ranges a))"
  have "in_u64 ?out"
    using missing_ranges(3) [OF assms(1) lt] lt by (fastforce simp: in_u64_def)
  moreover have "seqs ?out = (\<Union>(x, y) \<in> set (normalize_ranges a). {x..y} - seqs b)"
    unfolding seqs_concat_map using missing_ranges(1) [OF assms(1) lt] by (intro SUP_cong) auto
  moreover have "(\<Union>(x, y) \<in> set (normalize_ranges a). {x..y} - seqs b) = seqs (normalize_ranges a) - seqs b"
    by (auto simp: seqs_def [of "normalize_ranges a"])
  ultimately show "seqs (subtract_ranges a b) = seqs a - seqs b" "canonical (subtract_ranges a b)"
    using normalize_ranges(1,3) [of ?out] by (simp_all add: subtract_ranges_def normalize_ranges(3) [OF a])
qed

lemma sat_add_min: "a \<le> u64_max \<Longrightarrow> sat_add a b = min (a + b) u64_max"
  by (simp add: sat_add_def)

lemma foldl_size:
  "canonical rs \<Longrightarrow> in_u64 rs \<Longrightarrow> acc \<le> u64_max \<Longrightarrow>
    foldl (\<lambda>total (a, b). sat_add total (sat_add (sat_sub b a) 1)) acc rs = min (acc + card (seqs rs)) u64_max"
proof (induction rs arbitrary: acc)
  case (Cons r rs)
  obtain a b where r: "r = (a, b)" by (cases r)
  have ab: "a \<le> b" "b \<le> u64_max" "\<forall>(c, d) \<in> set rs. b + 1 < c" "canonical rs" "in_u64 rs"
    using Cons.prems by (auto simp: r canonical_Cons)
  have "{a..b} \<inter> seqs rs = {}"
    using ab(3) by (fastforce simp: seqs_def)
  then have "card (seqs (r # rs)) = Suc (b - a) + card (seqs rs)"
    using ab(1) by (simp add: r card_Un_disjoint Suc_diff_le)
  moreover have "b - a \<le> u64_max" using ab by simp
  ultimately show ?case
    using Cons.IH [OF ab(4,5)] Cons.prems(3) by (simp add: r sat_add_min sat_add_le)
qed simp

section \<open>The interface\<close>

text \<open>
  What the sync server and the client's transcript store rely on: operations on coverages with
  a set semantics. \<open>ok\<close> bounds the numbers so that nothing saturates.
\<close>

locale range_algebra =
  fixes denote :: "'r \<Rightarrow> nat set" and ok :: "'r \<Rightarrow> bool"
    and unite :: "'r \<Rightarrow> 'r \<Rightarrow> 'r" and gaps :: "'r \<Rightarrow> nat \<Rightarrow> nat \<Rightarrow> 'r" and none :: "'r \<Rightarrow> bool"
    and limit :: nat
  assumes denote_unite: "ok a \<Longrightarrow> ok b \<Longrightarrow> denote (unite a b) = denote a \<union> denote b"
    and ok_unite: "ok a \<Longrightarrow> ok b \<Longrightarrow> ok (unite a b)"
    and denote_gaps: "ok a \<Longrightarrow> hi < limit \<Longrightarrow> denote (gaps a lo hi) = {lo..hi} - denote a"
    and none_gaps: "ok a \<Longrightarrow> hi < limit \<Longrightarrow> none (gaps a lo hi) \<longleftrightarrow> denote (gaps a lo hi) = {}"
begin

lemma none_iff_covered: "ok a \<Longrightarrow> hi < limit \<Longrightarrow> none (gaps a lo hi) \<longleftrightarrow> {lo..hi} \<subseteq> denote a"
  using denote_gaps none_gaps by blast

lemma delivering_the_gaps_covers:
  assumes "ok a" "ok d" "hi < limit" "denote (gaps a lo hi) \<subseteq> denote d"
  shows "none (gaps (unite a d) lo hi)"
  using assms denote_gaps [OF assms(1,3)] by (auto simp: none_iff_covered ok_unite denote_unite)

lemma undelivered_gap_stays:
  assumes "ok a" "ok d" "hi < limit" "s \<in> denote (gaps a lo hi)" "s \<notin> denote d"
  shows "\<not> none (gaps (unite a d) lo hi)"
  using assms denote_gaps [OF assms(1,3)] by (auto simp: none_iff_covered ok_unite denote_unite)

end

interpretation ranges: range_algebra seqs in_u64 union_ranges missing_ranges "\<lambda>rs. rs = []" u64_max
proof unfold_locales
  fix a b :: "SeqRange list" and lo hi :: nat
  assume a: "in_u64 a"
  show "in_u64 b \<Longrightarrow> seqs (union_ranges a b) = seqs a \<union> seqs b" "in_u64 b \<Longrightarrow> in_u64 (union_ranges a b)"
    using a by (simp_all add: union_ranges)
  assume hi: "hi < u64_max"
  show "seqs (missing_ranges a lo hi) = {lo..hi} - seqs a"
    using a hi by (rule missing_ranges)
  show "(missing_ranges a lo hi = []) = (seqs (missing_ranges a lo hi) = {})"
    using canonical_seqs_empty [OF missing_ranges(2) [OF a hi]] by blast
qed

section \<open>Properties\<close>

text \<open>Normalising any list of \<open>u64\<close> ranges keeps the seqs it covers and gives the one canonical
  list for them: equal coverage means equal output.\<close>

lemma normalize_ranges_canonical:
  assumes "in_u64 rs"
  shows "canonical (normalize_ranges rs) \<and> seqs (normalize_ranges rs) = seqs rs
    \<and> (canonical ss \<and> seqs ss = seqs rs \<longrightarrow> normalize_ranges rs = ss)"
  by (intro conjI impI normalize_ranges(1,3) [OF assms] canonical_unique [OF normalize_ranges(1) [OF assms]])
     (auto simp: normalize_ranges(3) [OF assms])

text \<open>C32: Below the top of \<open>u64\<close>, \<open>missing_ranges\<close> gives exactly the seqs of the interval that are
  not held, as canonical ranges inside the interval.\<close>

theorem missing_ranges_exact:
  assumes "in_u64 held" "hi < u64_max"
  shows "seqs (missing_ranges held lo hi) = {lo..hi} - seqs held \<and> canonical (missing_ranges held lo hi)
    \<and> (covers held lo hi \<longleftrightarrow> {lo..hi} \<subseteq> seqs held)"
  using missing_ranges [OF assms] covers_iff [OF assms] by blast

theorem missing_ranges_exact_witness:
  "seqs (missing_ranges [(2, 3), (7, 20)] 1 9) = {1..9} - seqs [(2, 3), (7, 20)]
    \<and> missing_ranges [(2, 3), (7, 20)] 1 9 = [(1, 1), (4, 6)]"
  using missing_ranges_exact [of "[(2, 3), (7, 20)]" 9 1]
  by (simp add: u64_max_def missing_ranges_def normalize_ranges_def norm_step_def sat_add_def)

text \<open>At the top of \<open>u64\<close> the saturating step past a range does not move: a covered interval that
  ends there is reported as missing its last seq.\<close>

theorem missing_ranges_top_seq: "missing_ranges [(0, u64_max)] 0 u64_max = [(u64_max, u64_max)]"
  by (simp add: missing_ranges_def normalize_ranges_def sat_add_def)

text \<open>Chunking covers exactly the given seqs with disjoint ranges in order, none of more than
  the given number of seqs.\<close>

lemma chunk_ranges_partition:
  assumes "in_u64 rs" "0 < sz"
  shows "seqs (chunk_ranges rs sz) = seqs rs
    \<and> (\<forall>(a, b) \<in> set (chunk_ranges rs sz). a \<le> b \<and> b - a + 1 \<le> sz)
    \<and> sorted_wrt (\<lambda>(a, b) (c, d). b < c) (chunk_ranges rs sz)"
  using chunk_ranges [OF assms(1,1,2)] normalize_ranges(3) [OF assms(1)] by fastforce

text \<open>Union and difference of range lists are union and difference of the seqs they cover, and
  the size of a list is the number of seqs it covers, saturating at the width of \<open>u64\<close>.\<close>

lemma range_set_operations:
  assumes "in_u64 a" "in_u64 b" "\<forall>(x, y) \<in> set a. y < u64_max"
  shows "seqs (union_ranges a b) = seqs a \<union> seqs b \<and> seqs (subtract_ranges a b) = seqs a - seqs b
    \<and> range_size a = min (card (seqs a)) u64_max"
  using union_ranges(1) [OF assms(1,2)] subtract_ranges(1) [OF assms(2,3)]
    foldl_size [OF normalize_ranges(1,2) [OF assms(1)], of 0] normalize_ranges(3) [OF assms(1)]
  by (auto simp: range_size_def)

end
