(* ===== verification/Protocol.thy ===== *)
theory Protocol
  imports Ranges
begin

text \<open>
  The wire data the modelled components exchange: \<open>crates/protocol/src/events.rs\<close>,
  \<open>commands.rs\<close> and \<open>common.rs\<close>. A message struct is a constructor with the struct's fields in
  order. The unions hold the messages the modelled code sends or reads; a transcript entry is
  opaque to it and is represented by its wire text.
\<close>

type_synonym OutputEntry = string

datatype SyncEntry = SyncEntry (se_seq: nat) (se_entry: OutputEntry)

datatype PartialKind = PkText | PkThinking

text \<open>\<open>Subagent {label, parent_call_id}\<close>.\<close>

datatype Subagent = Subagent "string option" "string option"

datatype TerminalEndReason =
    EndExit | EndKilled | EndClosed | EndIdle | EndLimit | EndNotAllowed | EndDisabled
  | EndTransport | EndRestart | EndUnknown

datatype TerminalEventKind =
    EvOpened | EvAttached | EvTakeover | EvClosed | EvExited | EvUnknown

datatype TerminalVia = ViaDirect | ViaOnion | ViaRelay | ViaUnknown

datatype BridgeHostKind = HostCli | HostService

datatype PairAckReason = BadToken | WindowClosed

record TerminalInfo =
  ti_term :: string
  ti_shell :: string
  ti_opened :: nat
  ti_device :: string
  ti_name :: "string option"
  ti_writer :: string
  ti_cols :: nat
  ti_rows :: nat

text \<open>\<open>SessionListMsg\<close>, the heartbeat: the part the modelled code fills in and reads.\<close>

record SessionListMsg =
  sl_machine :: string
  sl_host :: "BridgeHostKind option"
  sl_capabilities :: "string list option"
  sl_folders :: "string list option"
  sl_roots :: "string list option"
  sl_removed_sessions :: "string list option"
  sl_machine_offline :: "bool option"
  sl_terminals :: "TerminalInfo list option"
  sl_rev :: "nat option"

record TerminalExitedMsg =
  te_term :: "string option"
  te_open_id :: "string option"
  te_code :: "int option"
  te_reason :: TerminalEndReason
  te_device :: "string option"

record TerminalEventMsg =
  tv_term :: string
  tv_what :: TerminalEventKind
  tv_device :: string
  tv_name :: "string option"
  tv_via :: TerminalVia
  tv_at :: nat

record TerminalOutputMsg =
  to_term :: string
  to_offset :: nat
  to_data :: string
  to_replay :: "bool option"

record PartialMsg =
  pm_session_id :: string
  pm_key :: string
  pm_entry_type :: PartialKind
  pm_subagent :: "Subagent option"
  pm_offset :: nat
  pm_text :: string

record PairAckMsg =
  pa_machine :: string
  pa_ok :: bool
  pa_reason :: "PairAckReason option"
  pa_relays :: "string list option"
  pa_host :: "BridgeHostKind option"

datatype BridgeToPhone =
    Sessions SessionListMsg
  | Output string nat "OutputEntry list" \<comment> \<open>session id, first seq, entries\<close>
  | Partial PartialMsg
  | SyncBegin string string nat "SeqRange list" \<comment> \<open>session id, sync id, seq high, ranges\<close>
  | SyncChunk string string SeqRange "SyncEntry list" \<comment> \<open>session id, sync id, range, entries\<close>
  | SyncEnd string string "SeqRange list" \<comment> \<open>session id, sync id, delivered ranges\<close>
  | PairAck PairAckMsg
  | TerminalOpened string string string \<comment> \<open>open id, term, shell\<close>
  | TerminalOutput TerminalOutputMsg
  | TerminalInputFrom string nat \<comment> \<open>term, seq\<close>
  | TerminalExited TerminalExitedMsg
  | TerminalEvent TerminalEventMsg
  | WebSignInResult string bool \<comment> \<open>code, signed in\<close>

text \<open>Commands (\<open>crates/protocol/src/commands.rs\<close>).\<close>

record SessionKeyGrant =
  sg_pubkey_hex :: string
  sg_bridge_pubkey_hex :: string
  sg_expires_at :: nat
  sg_replaces :: "string option"
  sg_label :: "string option"

record PairRequestMsg =
  pr_npub :: string
  pr_pubkey_hex :: string
  pr_label :: string
  pr_token :: string
  pr_session_key :: "SessionKeyGrant option"

record TerminalOpenMsg =
  tom_open_id :: string
  tom_cols :: nat
  tom_rows :: nat
  tom_session :: "string option"

record TerminalInputMsg =
  tim_term :: string
  tim_seq :: nat
  tim_data :: string

record PresenceMsg =
  pre_away :: bool
  pre_watching :: "string option"
  pre_watching_terminal :: "string option"

text \<open>
  \<open>PhoneToBridge\<close>: the commands the modelled handlers act on; every other command is named by its
  wire type alone.
\<close>

datatype PhoneToBridge =
    SyncRequest string "SeqRange list" \<comment> \<open>session id, held ranges\<close>
  | SyncAck string "SeqRange list" \<comment> \<open>sync id, ranges\<close>
  | RefreshSessions
  | PairRequest PairRequestMsg
  | SessionKey SessionKeyGrant
  | PresenceCmd PresenceMsg
  | TerminalOpen TerminalOpenMsg
  | TerminalInput TerminalInputMsg
  | TerminalResizeCmd string nat nat \<comment> \<open>term, cols, rows\<close>
  | TerminalReplayCmd string nat \<comment> \<open>term, from\<close>
  | TerminalTakeover string
  | TerminalCloseCmd string
  | OtherCommand string \<comment> \<open>wire type\<close>

end
