(* ===== verification/Io.thy ===== *)
theory Io
  imports Protocol "HOL-Library.Word"
begin

text \<open>
  \<open>crates/bridge-core/src/io.rs\<close> and \<open>out.rs\<close>: the effects the engine returns, in the order it
  decided them, and the buffer every part of the engine writes into, which also remembers what
  each armed timer is for. \<open>Effect\<close> holds the effects the modelled handlers emit.
\<close>

section \<open>Effects\<close>

type_synonym TimerId = nat

text \<open>One copy of a message; inside the engine an empty key stands for every present client.\<close>

record Addressee =
  ad_phone :: string
  ad_key :: string

definition to_identity :: "string \<Rightarrow> Addressee" where
  "to_identity phone = \<lparr>ad_phone = phone, ad_key = []\<rparr>"

datatype Via = ViaRelaySub | ViaDirectSub | ViaOnionSub | ViaPairingSub

datatype TerminalAuditWhat =
    AuOpened | AuAttached | AuTakeover | AuResized | AuClosed | AuExited | AuRefused

record TerminalAuditRecord =
  au_at_ms :: nat
  au_term :: string
  au_what :: TerminalAuditWhat
  au_identity :: string
  au_device :: "string option"
  au_label :: "string option"
  au_via :: "TerminalVia option"
  au_cwd :: "string option"
  au_shell :: "string option"
  au_cols :: "nat option"
  au_rows :: "nat option"
  au_reason :: "TerminalEndReason option"
  au_code :: "int option"
  au_duration_ms :: "nat option"
  au_why :: "string option"

record PendingDevice =
  pd_device :: string
  pd_label :: "string option"
  pd_last_seen_ms :: nat

datatype WatchState = WUnknown | Watching "string option"

fun ws_wants :: "WatchState \<Rightarrow> string \<Rightarrow> bool" where
  "ws_wants WUnknown session = True"
| "ws_wants (Watching watching) session = (watching = Some session)"

fun ws_shows :: "WatchState \<Rightarrow> string \<Rightarrow> bool" where
  "ws_shows (Watching (Some watching)) t = (watching = t)"
| "ws_shows _ t = False"

record PhoneClient =
  pc_key :: SessionKeyGrant
  pc_previous :: "SessionKeyGrant option"
  pc_device :: string
  pc_label :: "string option"
  pc_present_until_ms :: nat
  pc_presumed :: bool
  pc_watch :: WatchState
  pc_watch_terminal :: WatchState

record PairedPhone =
  pp_npub :: string
  pp_pubkey_hex :: string
  pp_label :: string
  pp_paired_at :: string
  pp_clients :: "PhoneClient list"

datatype PairingCloseReason = ClosedPaired | ClosedExpired | ClosedClosed

record PairingWindowInfo =
  pw_url :: string
  pw_display_url :: string
  pw_token :: string
  pw_expires_at_ms :: nat

datatype NotifyLevel = NotifyInfo | NotifyWarn

datatype Effect =
    Publish "Addressee list" BridgeToPhone
  | SetTimer TimerId nat
  | CancelTimer TimerId
  | Resubscribe
  | OpenPairingSubscription nat
  | ClosePairingSubscription
  | PresentPairing PairingWindowInfo
  | PairingClosed PairingCloseReason "PairedPhone option"
  | Notify NotifyLevel string
  | TerminalSpawn string string nat nat \<comment> \<open>term, cwd, cols, rows\<close>
  | TerminalWrite string "8 word list" \<comment> \<open>term, bytes\<close>
  | TerminalResize string nat nat
  | TerminalReplay string nat Addressee
  | TerminalClose string
  | TerminalDevices "PendingDevice list" "string list" \<comment> \<open>pending, live devices\<close>
  | Audit TerminalAuditRecord
  | WebSignedIn string string
  | WebBrowsers Addressee
  | WebBrowserSignOut string Addressee

section \<open>The effect buffer\<close>

datatype TimerKind =
    TkHeartbeat | TkGitPoll | TkRetention
  | TkCard string string
  | TkSyncAck string
  | TkSyncIdle string
  | TkPairingExpiry nat
  | TkTerminalGap string
  | TkTerminalIdle string

record Out =
  effects :: "Effect list"
  timers :: "(TimerId, TimerKind) omap"
  delays :: "(TimerId, nat) omap"
  next_timer :: nat

definition empty_out :: Out where
  "empty_out = \<lparr>effects = [], timers = [], delays = [], next_timer = 0\<rparr>"

definition push :: "Effect \<Rightarrow> Out \<Rightarrow> Out" where
  "push e out = out\<lparr>effects := effects out @ [e]\<rparr>"

definition publish_addressed :: "Addressee list \<Rightarrow> BridgeToPhone \<Rightarrow> Out \<Rightarrow> Out" where
  "publish_addressed to m out = (if to = [] then out else push (Publish to m) out)"

definition publish :: "string list \<Rightarrow> BridgeToPhone \<Rightarrow> Out \<Rightarrow> Out" where
  "publish to m out = publish_addressed (map to_identity to) m out"

definition set_timer :: "nat \<Rightarrow> TimerKind \<Rightarrow> Out \<Rightarrow> TimerId \<times> Out" where
  "set_timer after_ms kind out =
     (let n = next_timer out + 1 in
      (n, push (SetTimer n after_ms)
        (out\<lparr>next_timer := n, timers := om_put n kind (timers out), delays := om_put n after_ms (delays out)\<rparr>)))"

definition cancel_timer :: "TimerId \<Rightarrow> Out \<Rightarrow> Out" where
  "cancel_timer i out =
     (case om_get (timers out) i of
        None \<Rightarrow> out
      | Some _ \<Rightarrow> push (CancelTimer i) (out\<lparr>timers := om_del i (timers out), delays := om_del i (delays out)\<rparr>))"

definition take_timer :: "TimerId \<Rightarrow> Out \<Rightarrow> TimerKind option \<times> Out" where
  "take_timer i out =
     (om_get (timers out) i, out\<lparr>delays := om_del i (delays out), timers := om_del i (timers out)\<rparr>)"

section \<open>The timer book\<close>

text \<open>Timers are numbered past every one set before; an armed one has a number already given.\<close>

definition out_inv :: "Out \<Rightarrow> bool" where
  "out_inv out = (om_wf (timers out) \<and> om_wf (delays out)
     \<and> (\<forall>i k. om_get (timers out) i = Some k \<longrightarrow> i \<le> next_timer out)
     \<and> (\<forall>i. (om_get (timers out) i = None) = (om_get (delays out) i = None)))"

named_theorems out_simps \<open>fields of the buffer after each operation\<close>

lemma push_simps [simp, out_simps]:
  "timers (push e out) = timers out" "delays (push e out) = delays out"
  "next_timer (push e out) = next_timer out" "effects (push e out) = effects out @ [e]"
  by (simp_all add: push_def)

lemma publish_addressed_simps [simp, out_simps]:
  "timers (publish_addressed to m out) = timers out" "delays (publish_addressed to m out) = delays out"
  "next_timer (publish_addressed to m out) = next_timer out"
  "effects (publish_addressed to m out) = effects out @ (if to = [] then [] else [Publish to m])"
  by (simp_all add: publish_addressed_def)

lemma publish_simps [simp, out_simps]:
  "timers (publish to m out) = timers out" "delays (publish to m out) = delays out"
  "next_timer (publish to m out) = next_timer out"
  "effects (publish to m out) = effects out @ (if to = [] then [] else [Publish (map to_identity to) m])"
  by (simp_all add: publish_def)

lemma set_timer_simps [simp, out_simps]:
  "fst (set_timer d k out) = next_timer out + 1"
  "timers (snd (set_timer d k out)) = om_put (next_timer out + 1) k (timers out)"
  "delays (snd (set_timer d k out)) = om_put (next_timer out + 1) d (delays out)"
  "next_timer (snd (set_timer d k out)) = next_timer out + 1"
  "effects (snd (set_timer d k out)) = effects out @ [SetTimer (next_timer out + 1) d]"
  by (simp_all add: set_timer_def Let_def)

lemma cancel_timer_simps [simp, out_simps]:
  "om_get (timers (cancel_timer i out)) j = (if j = i then None else om_get (timers out) j)"
  "next_timer (cancel_timer i out) = next_timer out"
  "effects (cancel_timer i out) = effects out @ (if om_get (timers out) i = None then [] else [CancelTimer i])"
  by (auto simp: cancel_timer_def split: option.splits)

lemma take_timer_simps [simp, out_simps]:
  "fst (take_timer i out) = om_get (timers out) i"
  "om_get (timers (snd (take_timer i out))) j = (if j = i then None else om_get (timers out) j)"
  "next_timer (snd (take_timer i out)) = next_timer out"
  "effects (snd (take_timer i out)) = effects out"
  by (simp_all add: take_timer_def)

lemma out_inv_empty [wf_intros]: "out_inv empty_out"
  by (simp add: out_inv_def empty_out_def)

lemma out_inv_push [wf_intros]: "out_inv out \<Longrightarrow> out_inv (push e out)"
  by (simp add: out_inv_def)

lemma out_inv_publish_addressed [wf_intros]: "out_inv out \<Longrightarrow> out_inv (publish_addressed to m out)"
  by (simp add: out_inv_def)

lemma out_inv_publish [wf_intros]: "out_inv out \<Longrightarrow> out_inv (publish to m out)"
  by (simp add: out_inv_def)

lemma out_inv_set_timer [wf_intros]: "out_inv out \<Longrightarrow> out_inv (snd (set_timer d k out))"
  by (auto simp: out_inv_def le_Suc_eq)

lemma out_inv_cancel_timer [wf_intros]: "out_inv out \<Longrightarrow> out_inv (cancel_timer i out)"
  by (auto simp: out_inv_def cancel_timer_def split: option.splits)

lemma out_inv_take_timer [wf_intros]: "out_inv out \<Longrightarrow> out_inv (snd (take_timer i out))"
  by (auto simp: out_inv_def take_timer_def)

lemma out_inv_fresh: "out_inv out \<Longrightarrow> om_get (timers out) (next_timer out + 1) = None"
  by (cases "om_get (timers out) (next_timer out + 1)") (auto simp: out_inv_def)

text \<open>
  The contract the sync server and the terminals rely on: a set timer is fresh and armed for its
  purpose, cancelling or firing one disarms it, and no other timer changes.
\<close>

locale timer_book =
  fixes armed :: "'o \<Rightarrow> nat \<Rightarrow> 'k option" and inv :: "'o \<Rightarrow> bool"
    and arm :: "nat \<Rightarrow> 'k \<Rightarrow> 'o \<Rightarrow> nat \<times> 'o" and disarm :: "nat \<Rightarrow> 'o \<Rightarrow> 'o"
  assumes arm_fresh: "inv out \<Longrightarrow> armed out (fst (arm d k out)) = None"
    and armed_arm: "inv out \<Longrightarrow> armed (snd (arm d k out)) = (armed out)(fst (arm d k out) \<mapsto> k)"
    and armed_disarm: "armed (disarm i out) = (armed out)(i := None)"
    and inv_arm: "inv out \<Longrightarrow> inv (snd (arm d k out))"
    and inv_disarm: "inv out \<Longrightarrow> inv (disarm i out)"
begin

text \<open>The timers a component owns: those of the kinds \<open>K\<close> that are armed are exactly \<open>own\<close>.\<close>

definition owns :: "('k \<Rightarrow> bool) \<Rightarrow> (nat \<Rightarrow> 'k \<Rightarrow> bool) \<Rightarrow> 'o \<Rightarrow> bool" where
  "owns K own out = (\<forall>i k. K k \<longrightarrow> (armed out i = Some k) = own i k)"

lemma owns_arm:
  assumes "inv out" "owns K own out" "K k"
  shows "owns K (\<lambda>j l. j = fst (arm d k out) \<and> l = k \<or> own j l) (snd (arm d k out))"
  using assms arm_fresh [OF assms(1), of d k] unfolding owns_def armed_arm [OF assms(1)]
  by (metis fun_upd_apply option.distinct(1) option.inject)

lemma owns_disarm: "owns K own out \<Longrightarrow> owns K (\<lambda>j l. j \<noteq> i \<and> own j l) (disarm i out)"
  by (auto simp: owns_def armed_disarm)

lemma owns_cong: "owns K own out \<Longrightarrow> (\<And>i k. K k \<Longrightarrow> own i k = own' i k) \<Longrightarrow> owns K own' out"
  by (simp add: owns_def)

lemma owns_one_kind: "owns K own out \<Longrightarrow> K k \<Longrightarrow> K l \<Longrightarrow> own i k \<Longrightarrow> own i l \<Longrightarrow> k = l"
  by (metis option.inject owns_def)

lemma owns_none: "owns K (\<lambda>i k. False) out \<Longrightarrow> K k \<Longrightarrow> armed out i \<noteq> Some k"
  by (simp add: owns_def)

end

interpretation book: timer_book "\<lambda>out. om_get (timers out)" out_inv set_timer cancel_timer
proof unfold_locales
  fix out :: Out and d i k
  show "om_get (timers (cancel_timer i out)) = (om_get (timers out))(i := None)"
    by (rule ext) simp
  assume "out_inv out"
  then show "om_get (timers out) (fst (set_timer d k out)) = None"
    using out_inv_fresh by simp
  show "om_get (timers (snd (set_timer d k out))) = (om_get (timers out))(fst (set_timer d k out) \<mapsto> k)"
    by (rule ext) simp
  show "out_inv (snd (set_timer d k out))" "out_inv (cancel_timer i out)"
    using \<open>out_inv out\<close> by (rule wf_intros)+
qed

end
