(* ===== verification/Ingest.thy ===== *)
theory Ingest
  imports Protocol
begin

text \<open>
  \<open>crates/bridge-core/src/ingest.rs\<close>: inbound events become decoded commands or are dropped. The
  NIP-44 decryption under the bridge's secret key and the JSON decoder are parameters: \<open>dec peer content\<close>
  is \<open>decrypt_from\<close>, \<open>decode plaintext\<close> is \<open>decode_phone_to_bridge\<close>. The dedup set is a queue of ids
  with their events' times beside a set of the ids.
\<close>

section \<open>State\<close>

record InboundEvent =
  ev_id :: string
  ev_pubkey :: string
  ev_created_at :: nat
  ev_content :: string
  ev_kind :: nat

definition MAX_PROCESSED_IDS :: nat where "MAX_PROCESSED_IDS = 1000"
definition MAX_EVENT_AGE_SECS :: nat where "MAX_EVENT_AGE_SECS = 300"

definition since_for_connect :: "nat \<Rightarrow> nat \<Rightarrow> nat" where
  "since_for_connect last_seen now_secs = (if 0 < last_seen then sat_sub last_seen 5 else sat_sub now_secs 300)"

record Ingest =
  ig_order :: "(string \<times> nat) list"
  ig_seen :: "string set"
  ig_last_seen :: nat

type_synonym decrypt = "string \<Rightarrow> string \<Rightarrow> string option"
type_synonym decoder = "string \<Rightarrow> PhoneToBridge option"

section \<open>Operations\<close>

text \<open>The sum is a \<open>u64\<close> one, which wraps in a release build.\<close>

definition is_stale :: "nat \<Rightarrow> nat \<Rightarrow> bool" where
  "is_stale created_at now_secs = ((created_at + MAX_EVENT_AGE_SECS) mod 2 ^ 64 < now_secs)"

definition mark :: "string \<Rightarrow> nat \<Rightarrow> Ingest \<Rightarrow> bool \<times> Ingest" where
  "mark i t s =
     (if i \<in> ig_seen s then (False, s)
      else
        let s = s\<lparr>ig_seen := insert i (ig_seen s), ig_order := ig_order s @ [(i, t)]\<rparr> in
        if length (ig_order s) > MAX_PROCESSED_IDS
        then (True, s\<lparr>ig_order := tl (ig_order s), ig_seen := ig_seen s - {fst (hd (ig_order s))}\<rparr>)
        else (True, s))"

definition ingest_new :: "nat \<Rightarrow> string list \<Rightarrow> Ingest" where
  "ingest_new last_seen processed =
     foldl (\<lambda>s i. snd (mark i last_seen s))
       \<lparr>ig_order = [], ig_seen = {}, ig_last_seen = last_seen\<rparr>
       (drop (sat_sub (length processed) MAX_PROCESSED_IDS) processed)"

definition processed_ids :: "Ingest \<Rightarrow> string list" where
  "processed_ids s = map fst (ig_order s)"

definition forget_stale :: "nat \<Rightarrow> Ingest \<Rightarrow> Ingest" where
  "forget_stale now_secs s =
     s\<lparr>ig_order := filter (\<lambda>p. \<not> is_stale (snd p) now_secs) (ig_order s),
       ig_seen := ig_seen s - fst ` set (filter (\<lambda>p. is_stale (snd p) now_secs) (ig_order s))\<rparr>"

definition stale :: "InboundEvent \<Rightarrow> nat \<Rightarrow> bool" where
  "stale event now_secs = is_stale (ev_created_at event) now_secs"

text \<open>\<open>find_map\<close>: the first peer whose key opens the payload.\<close>

fun first_open :: "decrypt \<Rightarrow> string \<Rightarrow> string list \<Rightarrow> (string \<times> string) option" where
  "first_open dec content [] = None"
| "first_open dec content (peer # peers) =
     (case dec peer content of
        Some plaintext \<Rightarrow> Some (plaintext, peer)
      | None \<Rightarrow> first_open dec content peers)"

definition open_event :: "decrypt \<Rightarrow> decoder \<Rightarrow> InboundEvent \<Rightarrow> string list \<Rightarrow> (PhoneToBridge \<times> string) option" where
  "open_event dec decode event session_keys =
     (case first_open dec (ev_content event) (session_keys @ [ev_pubkey event]) of
        None \<Rightarrow> None
      | Some (plaintext, key) \<Rightarrow> map_option (\<lambda>msg. (msg, key)) (decode plaintext))"

definition accept :: "decrypt \<Rightarrow> decoder \<Rightarrow> InboundEvent \<Rightarrow> string list \<Rightarrow> nat \<Rightarrow> Ingest
    \<Rightarrow> (PhoneToBridge \<times> string) option \<times> Ingest" where
  "accept dec decode event session_keys now_secs s =
     (if stale event now_secs then (None, s)
      else
        let s = forget_stale now_secs s;
            (new, s) = mark (ev_id event) (ev_created_at event) s
        in if \<not> new then (None, s)
           else case open_event dec decode event session_keys of
               None \<Rightarrow> (None, s)
             | Some opened \<Rightarrow> (Some opened, s\<lparr>ig_last_seen := max (ig_last_seen s) (ev_created_at event)\<rparr>))"

definition accept_live :: "decrypt \<Rightarrow> decoder \<Rightarrow> InboundEvent \<Rightarrow> string list \<Rightarrow> nat \<Rightarrow> Ingest
    \<Rightarrow> (PhoneToBridge \<times> string) option \<times> Ingest" where
  "accept_live dec decode event session_keys now_secs s =
     (if stale event now_secs then (None, s) else (open_event dec decode event session_keys, s))"

definition accept_pairing :: "decrypt \<Rightarrow> decoder \<Rightarrow> InboundEvent \<Rightarrow> nat \<Rightarrow> Ingest
    \<Rightarrow> PairRequestMsg option \<times> Ingest" where
  "accept_pairing dec decode event now_secs s =
     (if is_stale (ev_created_at event) now_secs then (None, s)
      else case dec (ev_pubkey event) (ev_content event) of
        None \<Rightarrow> (None, s)
      | Some plaintext \<Rightarrow>
          let s = forget_stale now_secs s;
              (new, s) = mark (ev_id event) (ev_created_at event) s
          in if \<not> new then (None, s)
             else (case decode plaintext of Some (PairRequest msg) \<Rightarrow> Some msg | _ \<Rightarrow> None, s))"

section \<open>The dedup set\<close>

definition ingest_inv :: "Ingest \<Rightarrow> bool" where
  "ingest_inv s = (distinct (map fst (ig_order s)) \<and> ig_seen s = fst ` set (ig_order s)
     \<and> length (ig_order s) \<le> MAX_PROCESSED_IDS)"

lemma mark_inv: "ingest_inv s \<Longrightarrow> ingest_inv (snd (mark i t s))"
proof -
  assume inv: "ingest_inv s"
  show ?thesis
  proof (cases "i \<in> ig_seen s \<or> length (ig_order s) < MAX_PROCESSED_IDS")
    case True
    with inv show ?thesis by (auto simp: mark_def ingest_inv_def Let_def)
  next
    case False
    with inv obtain p ps where o: "ig_order s = p # ps" by (cases "ig_order s") (auto simp: ingest_inv_def MAX_PROCESSED_IDS_def)
    with inv False show ?thesis by (auto simp: mark_def ingest_inv_def Let_def o image_iff)
  qed
qed

lemma kept_keys:
  assumes "distinct (map fst xs)"
  shows "fst ` set xs - fst ` set (filter P xs) = fst ` set (filter (\<lambda>p. \<not> P p) xs)"
proof (rule Set.set_eqI, rule iffI)
  fix i assume "i \<in> fst ` set xs - fst ` set (filter P xs)"
  then show "i \<in> fst ` set (filter (\<lambda>p. \<not> P p) xs)" by auto
next
  fix i assume "i \<in> fst ` set (filter (\<lambda>p. \<not> P p) xs)"
  then obtain p where p: "p \<in> set xs" "\<not> P p" "i = fst p" by auto
  have "q = p" if "q \<in> set xs" "fst q = fst p" for q
    using assms p(1) that by (simp add: distinct_map inj_on_def)
  then have "i \<notin> fst ` set (filter P xs)" using p by auto
  then show "i \<in> fst ` set xs - fst ` set (filter P xs)" using p by auto
qed

lemma forget_stale_inv:
  assumes inv: "ingest_inv s"
  shows "ingest_inv (forget_stale now s)"
proof -
  let ?P = "\<lambda>p. is_stale (snd p) now"
  have "fst ` set (ig_order s) - fst ` set (filter ?P (ig_order s)) = fst ` set (filter (\<lambda>p. \<not> ?P p) (ig_order s))"
    using inv by (intro kept_keys) (simp add: ingest_inv_def)
  moreover have "length (filter (\<lambda>p. \<not> ?P p) (ig_order s)) \<le> MAX_PROCESSED_IDS"
    using inv length_filter_le order_trans unfolding ingest_inv_def by blast
  ultimately show ?thesis
    using inv by (simp only: forget_stale_def ingest_inv_def) (simp add: distinct_map_filter)
qed

lemma mark_last_seen [simp]: "ig_last_seen (snd (mark i t s)) = ig_last_seen s"
  by (simp add: mark_def Let_def)

lemma forget_stale_last_seen [simp]: "ig_last_seen (forget_stale now s) = ig_last_seen s"
  by (simp add: forget_stale_def)

lemma ingest_new_inv: "ingest_inv (ingest_new last_seen processed) \<and> ig_last_seen (ingest_new last_seen processed) = last_seen"
  unfolding ingest_new_def
  by (rule foldl_inv) (auto simp: mark_inv, simp add: ingest_inv_def)


section \<open>Runs\<close>

text \<open>What happens to the ingest between two deliveries of an event.\<close>

datatype IngestOp =
    OpAccept InboundEvent "string list" nat
  | OpLive InboundEvent "string list" nat
  | OpPairing InboundEvent nat
  | OpForget nat
  | OpRestart \<comment> \<open>the cursor and the ids are stored and loaded again\<close>

fun ingest_op :: "decrypt \<Rightarrow> decoder \<Rightarrow> IngestOp \<Rightarrow> Ingest \<Rightarrow> Ingest" where
  "ingest_op dec decode (OpAccept e ks now) s = snd (accept dec decode e ks now s)"
| "ingest_op dec decode (OpLive e ks now) s = snd (accept_live dec decode e ks now s)"
| "ingest_op dec decode (OpPairing e now) s = snd (accept_pairing dec decode e now s)"
| "ingest_op dec decode (OpForget now) s = forget_stale now s"
| "ingest_op dec decode OpRestart s = ingest_new (ig_last_seen s) (processed_ids s)"

definition ingest_run :: "decrypt \<Rightarrow> decoder \<Rightarrow> IngestOp list \<Rightarrow> Ingest \<Rightarrow> Ingest" where
  "ingest_run dec decode ops s = foldl (\<lambda>s op. ingest_op dec decode op s) s ops"

text \<open>Only these take a slot of the dedup set; keystrokes do not.\<close>

fun takes_slot :: "IngestOp \<Rightarrow> bool" where
  "takes_slot (OpAccept _ _ _) = True"
| "takes_slot (OpPairing _ _) = True"
| "takes_slot _ = False"

fun op_times_ok :: "nat \<Rightarrow> IngestOp \<Rightarrow> bool" where
  "op_times_ok now (OpAccept e _ t) = (t \<le> now \<and> ev_created_at e + 300 < 2 ^ 64)"
| "op_times_ok now (OpLive e _ t) = True"
| "op_times_ok now (OpPairing e t) = (t \<le> now \<and> ev_created_at e + 300 < 2 ^ 64)"
| "op_times_ok now (OpForget t) = (t \<le> now)"
| "op_times_ok now OpRestart = True"

text \<open>
  The event is guarded: its id is in the queue with at most \<open>n\<close> younger ones behind it and a time no
  earlier than its own, or it is too old to act on by \<open>now\<close>.
\<close>

definition guarded :: "InboundEvent \<Rightarrow> nat \<Rightarrow> nat \<Rightarrow> Ingest \<Rightarrow> bool" where
  "guarded e now n s =
     (ingest_inv s \<and> ev_created_at e \<le> ig_last_seen s \<and> ig_last_seen s + 300 < 2 ^ 64
      \<and> (is_stale (ev_created_at e) now
         \<or> (\<exists>xs t ys. ig_order s = xs @ (ev_id e, t) # ys \<and> length ys \<le> n \<and> ev_created_at e \<le> t \<and> t + 300 < 2 ^ 64)))"

lemma is_stale_mono: "is_stale t now \<Longrightarrow> c \<le> t \<Longrightarrow> t + 300 < 2 ^ 64 \<Longrightarrow> now \<le> now' \<Longrightarrow> is_stale c now'"
  by (simp add: is_stale_def MAX_EVENT_AGE_SECS_def)

lemma guarded_forget:
  assumes g: "guarded e now n s" and t: "t \<le> now"
  shows "guarded e now n (forget_stale t s)"
proof (cases "is_stale (ev_created_at e) now")
  case True
  with g show ?thesis by (simp add: guarded_def forget_stale_inv)
next
  case False
  then obtain xs u ys where o: "ig_order s = xs @ (ev_id e, u) # ys" "length ys \<le> n" "ev_created_at e \<le> u" "u + 300 < 2 ^ 64"
    using g by (auto simp: guarded_def)
  have "\<not> is_stale u t" using False is_stale_mono [OF _ o(3,4) t] by blast
  then have "ig_order (forget_stale t s) = filter (\<lambda>p. \<not> is_stale (snd p) t) xs @ (ev_id e, u) # filter (\<lambda>p. \<not> is_stale (snd p) t) ys"
    by (simp add: forget_stale_def o(1))
  moreover have "length (filter (\<lambda>p. \<not> is_stale (snd p) t) ys) \<le> n" using o(2) by (meson length_filter_le order_trans)
  ultimately show ?thesis using g o(3,4) by (auto simp: guarded_def forget_stale_inv)
qed

lemma guarded_mark:
  assumes g: "guarded e now n s" and n: "Suc n < MAX_PROCESSED_IDS"
  shows "guarded e now (Suc n) (snd (mark i t s))"
proof (cases "i \<in> ig_seen s \<or> is_stale (ev_created_at e) now")
  case True
  with g show ?thesis by (auto simp: guarded_def mark_inv) (auto simp: mark_def intro: le_SucI)
next
  case False
  then obtain xs u ys where o: "ig_order s = xs @ (ev_id e, u) # ys" "length ys \<le> n" "ev_created_at e \<le> u" "u + 300 < 2 ^ 64"
    using g by (auto simp: guarded_def)
  have "\<exists>zs. ig_order (snd (mark i t s)) = zs @ (ev_id e, u) # (ys @ [(i, t)])"
  proof (cases "length (ig_order s) < MAX_PROCESSED_IDS")
    case True
    with False o(1) show ?thesis by (simp add: mark_def Let_def)
  next
    case full: False
    then have "xs \<noteq> []" using o(1,2) n by auto
    then obtain x xs' where "xs = x # xs'" by (cases xs) auto
    then show ?thesis using False full o(1) by (simp add: mark_def Let_def)
  qed
  then obtain zs where zs: "ig_order (snd (mark i t s)) = zs @ (ev_id e, u) # (ys @ [(i, t)])" by blast
  show ?thesis unfolding guarded_def
    using g o mark_inv [of s i t] zs
    by (intro conjI disjI2 exI [of _ zs] exI [of _ u] exI [of _ "ys @ [(i, t)]"]) (simp_all add: guarded_def)
qed


lemma mark_all_new:
  assumes "ingest_inv s" "distinct ids" "set ids \<inter> ig_seen s = {}" "length (ig_order s) + length ids \<le> MAX_PROCESSED_IDS"
  shows "ig_order (foldl (\<lambda>s i. snd (mark i t s)) s ids) = ig_order s @ map (\<lambda>i. (i, t)) ids"
  using assms
proof (induction ids arbitrary: s)
  case (Cons i ids)
  have m: "ig_order (snd (mark i t s)) = ig_order s @ [(i, t)]" "ig_seen (snd (mark i t s)) = insert i (ig_seen s)"
    using Cons.prems by (simp_all add: mark_def Let_def)
  have "ig_order (foldl (\<lambda>s i. snd (mark i t s)) (snd (mark i t s)) ids) = ig_order (snd (mark i t s)) @ map (\<lambda>i. (i, t)) ids"
    using Cons.prems m by (intro Cons.IH) (auto simp: mark_inv)
  with m show ?case by simp
qed simp

lemma guarded_restart:
  assumes g: "guarded e now n s"
  shows "guarded e now n (ingest_new (ig_last_seen s) (processed_ids s))"
proof (cases "is_stale (ev_created_at e) now")
  case True
  with g show ?thesis using ingest_new_inv by (simp add: guarded_def)
next
  case False
  let ?t = "ig_last_seen s"
  obtain xs u ys where o: "ig_order s = xs @ (ev_id e, u) # ys" "length ys \<le> n" using False g by (auto simp: guarded_def)
  have inv: "ingest_inv s" using g by (simp add: guarded_def)
  have "ig_order (ingest_new ?t (processed_ids s)) = [] @ map (\<lambda>i. (i, ?t)) (processed_ids s)"
  proof -
    have "length (processed_ids s) \<le> MAX_PROCESSED_IDS" "distinct (processed_ids s)"
      using inv by (simp_all add: ingest_inv_def processed_ids_def)
    then show ?thesis unfolding ingest_new_def
      by (subst mark_all_new) (simp_all add: ingest_inv_def)
  qed
  then have "ig_order (ingest_new ?t (processed_ids s)) = map (\<lambda>p. (fst p, ?t)) xs @ (ev_id e, ?t) # map (\<lambda>p. (fst p, ?t)) ys"
    by (simp add: processed_ids_def o(1))
  then show ?thesis unfolding guarded_def
    using g o(2) ingest_new_inv [of ?t "processed_ids s"]
    by (intro conjI disjI2 exI [of _ "map (\<lambda>p. (fst p, ?t)) xs"] exI [of _ ?t] exI [of _ "map (\<lambda>p. (fst p, ?t)) ys"])
      (simp_all add: guarded_def)
qed

lemma guarded_weaken: "guarded e now n s \<Longrightarrow> n \<le> m \<Longrightarrow> guarded e now m s"
  unfolding guarded_def by (meson order_trans)

lemma guarded_cursor:
  "guarded e now n s \<Longrightarrow> t + 300 < 2 ^ 64 \<Longrightarrow> guarded e now n (s\<lparr>ig_last_seen := max (ig_last_seen s) t\<rparr>)"
  by (auto simp: guarded_def ingest_inv_def)

lemma guarded_op:
  assumes g: "guarded e now n s" and ok: "op_times_ok now op" and n: "(if takes_slot op then Suc n else n) < MAX_PROCESSED_IDS"
  shows "guarded e now (if takes_slot op then Suc n else n) (ingest_op dec decode op s)"
proof (cases op)
  case (OpAccept ev ks t)
  let ?m = "snd (mark (ev_id ev) (ev_created_at ev) (forget_stale t s))"
  have "guarded e now (Suc n) ?m" using guarded_mark [OF guarded_forget [OF g]] ok n OpAccept by simp
  moreover have "guarded e now (Suc n) (?m\<lparr>ig_last_seen := max (ig_last_seen ?m) (ev_created_at ev)\<rparr>)"
    using guarded_cursor [OF calculation] ok OpAccept by simp
  ultimately show ?thesis using guarded_weaken [OF g, of "Suc n"] OpAccept
    by (auto simp: accept_def Let_def split_beta split: option.splits)
next
  case (OpPairing ev t)
  have "guarded e now (Suc n) (snd (mark (ev_id ev) (ev_created_at ev) (forget_stale t s)))"
    using guarded_mark [OF guarded_forget [OF g]] ok n OpPairing by simp
  then show ?thesis using guarded_weaken [OF g, of "Suc n"] OpPairing
    by (auto simp: accept_pairing_def Let_def split_beta split: option.splits)
next
  case (OpLive ev ks t)
  with g show ?thesis by (simp add: accept_live_def)
next
  case (OpForget t)
  with g ok show ?thesis by (simp add: guarded_forget)
next
  case OpRestart
  with g show ?thesis by (simp add: guarded_restart)
qed

lemma guarded_run:
  assumes "guarded e now n s" "list_all (op_times_ok now) ops" "n + length (filter takes_slot ops) < MAX_PROCESSED_IDS"
  shows "guarded e now (n + length (filter takes_slot ops)) (ingest_run dec decode ops s)"
  using assms
proof (induction ops arbitrary: n s)
  case (Cons op ops)
  let ?n = "if takes_slot op then Suc n else n"
  have step: "guarded e now ?n (ingest_op dec decode op s)" using Cons.prems by (intro guarded_op) auto
  have total: "?n + length (filter takes_slot ops) = n + length (filter takes_slot (op # ops))" by simp
  then have "guarded e now (n + length (filter takes_slot (op # ops))) (ingest_run dec decode ops (ingest_op dec decode op s))"
    using Cons.IH [OF step] Cons.prems(2,3) by simp
  then show ?case by (simp add: ingest_run_def)
qed (simp add: ingest_run_def)

lemma guarded_refuses: "guarded e now n s \<Longrightarrow> fst (accept dec decode e ks now s) = None"
proof -
  assume g: "guarded e now n s"
  show ?thesis
  proof (cases "is_stale (ev_created_at e) now")
    case True
    then show ?thesis by (simp add: accept_def stale_def)
  next
    case False
    have "guarded e now n (forget_stale now s)" using guarded_forget [OF g] by simp
    then have "ev_id e \<in> ig_seen (forget_stale now s)"
      using False by (auto simp: guarded_def ingest_inv_def)
    then show ?thesis using False by (simp add: accept_def stale_def mark_def)
  qed
qed

lemma accepted_guarded:
  assumes acc: "accept dec decode e ks now0 s = (Some r, s1)" and inv: "ingest_inv s"
    and "ig_last_seen s + 300 < 2 ^ 64" "ev_created_at e + 300 < 2 ^ 64"
  shows "guarded e now 0 s1"
proof -
  let ?f = "forget_stale now0 s" and ?m = "snd (mark (ev_id e) (ev_created_at e) (forget_stale now0 s))"
  have new: "fst (mark (ev_id e) (ev_created_at e) ?f)"
    and s1: "s1 = ?m\<lparr>ig_last_seen := max (ig_last_seen ?m) (ev_created_at e)\<rparr>"
    using acc by (auto simp: accept_def Let_def split_beta split: if_splits option.splits)
  have "\<exists>xs. ig_order ?m = xs @ [(ev_id e, ev_created_at e)]"
  proof (cases "length (ig_order ?f) < MAX_PROCESSED_IDS")
    case True
    with new show ?thesis by (auto simp: mark_def Let_def split: if_splits)
  next
    case False
    then have "ig_order ?f \<noteq> []" by (auto simp: MAX_PROCESSED_IDS_def)
    with new False show ?thesis by (auto simp: mark_def Let_def split: if_splits)
  qed
  moreover have "ingest_inv ?m" using inv by (simp add: mark_inv forget_stale_inv)
  ultimately show ?thesis using assms(3,4) unfolding s1 guarded_def by (auto simp: ingest_inv_def)
qed

section \<open>Properties\<close>

text \<open>C5: A command runs once, as long as fewer than a thousand other commands and pair-requests were accepted
  since: once an event has been accepted, its redelivery is refused whatever happened in between - other
  commands, keystrokes in any number, pair-requests, pruning, restarts of the bridge - if fewer than a thousand
  of these may have taken a slot of the dedup set, which holds as many, and no clock reading in between was later
  than the redelivery's (with all times clear of the top of u64). Keystrokes take no slot. Past a thousand the oldest id is dropped, and while its
  event is not too old a redelivery of it runs again.\<close>

theorem replayed_command_runs_once:
  assumes "accept dec decode e ks now0 s = (Some r, s1)" "ingest_inv s"
    and "ig_last_seen s + 300 < 2 ^ 64" "ev_created_at e + 300 < 2 ^ 64"
    and "list_all (op_times_ok now) ops" "length (filter takes_slot ops) < 1000"
  shows "fst (accept dec decode e ks' now (ingest_run dec decode ops s1)) = None"
  using guarded_refuses [OF guarded_run [OF accepted_guarded [OF assms(1-4)] assms(5)]] assms(6)
  by (simp add: MAX_PROCESSED_IDS_def)

definition sample_event :: "string \<Rightarrow> nat \<Rightarrow> InboundEvent" where
  "sample_event i t = \<lparr>ev_id = i, ev_pubkey = ''alice'', ev_created_at = t, ev_content = ''x'', ev_kind = 4515\<rparr>"

theorem replayed_command_runs_once_witness:
  "fst (accept (\<lambda>_. Some) (\<lambda>_. Some RefreshSessions) (sample_event ''a'' 1000) [] 1200
      (ingest_run (\<lambda>_. Some) (\<lambda>_. Some RefreshSessions) [OpAccept (sample_event ''b'' 1005) [] 1010, OpRestart, OpForget 1100]
        (snd (accept (\<lambda>_. Some) (\<lambda>_. Some RefreshSessions) (sample_event ''a'' 1000) [] 1001 (ingest_new 0 []))))) = None
   \<and> fst (accept (\<lambda>_. Some) (\<lambda>_. Some RefreshSessions) (sample_event ''a'' 1000) [] 1001 (ingest_new 0 [])) \<noteq> None"
proof -
  let ?first = "accept (\<lambda>_. Some) (\<lambda>_. Some RefreshSessions) (sample_event ''a'' 1000) [] 1001 (ingest_new 0 [])"
  have new: "ingest_new 0 [] = \<lparr>ig_order = [], ig_seen = {}, ig_last_seen = 0\<rparr>" by (simp add: ingest_new_def)
  have first: "?first = (Some (RefreshSessions, ''alice''), snd ?first)"
    unfolding new by (simp add: accept_def stale_def is_stale_def MAX_EVENT_AGE_SECS_def sample_event_def forget_stale_def
      mark_def MAX_PROCESSED_IDS_def open_event_def)
  have "fst (accept (\<lambda>_. Some) (\<lambda>_. Some RefreshSessions) (sample_event ''a'' 1000) [] 1200
      (ingest_run (\<lambda>_. Some) (\<lambda>_. Some RefreshSessions) [OpAccept (sample_event ''b'' 1005) [] 1010, OpRestart, OpForget 1100] (snd ?first))) = None"
    by (rule replayed_command_runs_once [OF first]) (simp_all add: new ingest_inv_def sample_event_def MAX_PROCESSED_IDS_def)
  moreover have "fst ?first \<noteq> None" by (subst first) simp
  ultimately show ?thesis by blast
qed

end
