(* ===== verification/Live.thy ===== *)
theory Live
  imports Protocol
begin

text \<open>
  \<open>crates/bridge-core/src/live.rs\<close>: what of a streamed part the bridge passes on to the phones. A
  part's pieces are admitted one by one; the session-meta comment of a reply is withheld even when it is
  split across pieces, and what was passed on is kept for a client that starts watching mid-part. Strings
  are their UTF-8 bytes, offsets are UTF-16 code units, as in the source.
\<close>

section \<open>Text\<close>

definition META_OPEN :: string where "META_OPEN = ''<!--''"
definition CATCH_UP_CAP :: nat where "CATCH_UP_CAP = 256 * 1024"

text \<open>The UTF-16 length of a UTF-8 text: a continuation byte adds nothing, a four-byte character two units.\<close>

definition utf16_units :: "char \<Rightarrow> nat" where
  "utf16_units c = (let b = (of_char c :: nat) in if 128 \<le> b \<and> b < 192 then 0 else if 240 \<le> b then 2 else 1)"

definition utf16_len :: "string \<Rightarrow> nat" where
  "utf16_len s = sum_list (map utf16_units s)"

text \<open>\<open>str::find\<close> and \<open>str::ends_with\<close>.\<close>

definition begins :: "string \<Rightarrow> string \<Rightarrow> bool" where
  "begins pat s = (take (length pat) s = pat)"

fun find_sub :: "string \<Rightarrow> string \<Rightarrow> nat option" where
  "find_sub pat [] = (if pat = [] then Some 0 else None)"
| "find_sub pat (c # s) = (if begins pat (c # s) then Some 0 else map_option Suc (find_sub pat s))"

definition ends_with :: "string \<Rightarrow> string \<Rightarrow> bool" where
  "ends_with s pat = (length pat \<le> length s \<and> drop (length s - length pat) s = pat)"

definition held_tail :: "string \<Rightarrow> nat" where
  "held_tail text =
     (case find (\<lambda>n. ends_with text (take n META_OPEN)) (rev [1..<length META_OPEN]) of
        Some n \<Rightarrow> n
      | None \<Rightarrow> 0)"

section \<open>A part\<close>

record LivePart =
  lp_expected :: nat
  lp_sent :: nat
  lp_held :: string
  lp_stopped :: bool
  lp_kind :: PartialKind
  lp_subagent :: "Subagent option"
  lp_kept :: "string option"

definition live_part_new :: "PartialKind \<Rightarrow> Subagent option \<Rightarrow> LivePart" where
  "live_part_new kind subagent =
     \<lparr>lp_expected = 0, lp_sent = 0, lp_held = [], lp_stopped = False, lp_kind = kind, lp_subagent = subagent, lp_kept = Some []\<rparr>"

definition keep :: "string \<Rightarrow> LivePart \<Rightarrow> LivePart" where
  "keep out p =
     (case lp_kept p of
        None \<Rightarrow> p
      | Some kept \<Rightarrow> p\<lparr>lp_kept := (if length (kept @ out) > CATCH_UP_CAP then None else Some (kept @ out))\<rparr>)"

definition admit :: "nat \<Rightarrow> string \<Rightarrow> bool \<Rightarrow> LivePart \<Rightarrow> (nat \<times> string) option \<times> LivePart" where
  "admit offset text strip_meta p =
     (if lp_stopped p then (None, p)
      else if offset \<noteq> lp_expected p then (None, p\<lparr>lp_stopped := True\<rparr>)
      else
        let p = p\<lparr>lp_expected := lp_expected p + utf16_len text\<rparr>;
            pending = lp_held p @ text;
            p = p\<lparr>lp_held := []\<rparr>;
            (out, p) =
              (if \<not> strip_meta then (pending, p)
               else case find_sub META_OPEN pending of
                 Some i \<Rightarrow> (take i pending, p\<lparr>lp_stopped := True\<rparr>)
               | None \<Rightarrow>
                   (let tail = held_tail pending in
                    (take (length pending - tail) pending, p\<lparr>lp_held := drop (length pending - tail) pending\<rparr>)))
        in if out = [] then (None, p)
           else let p = keep out p; i = lp_sent p
             in (Some (i, out), p\<lparr>lp_sent := i + utf16_len out\<rparr>))"

definition kept_text :: "LivePart \<Rightarrow> string option" where
  "kept_text p = (case lp_kept p of Some text \<Rightarrow> (if text = [] then None else Some text) | None \<Rightarrow> None)"

section \<open>Occurrences of the comment\<close>

lemma utf16_len_append [simp]: "utf16_len (a @ b) = utf16_len a + utf16_len b"
  by (simp add: utf16_len_def)

lemma utf16_len_Nil [simp]: "utf16_len [] = 0"
  by (simp add: utf16_len_def)

lemma find_sub_Some: "find_sub pat s = Some i \<longleftrightarrow> i \<le> length s \<and> begins pat (drop i s) \<and> (\<forall>j < i. \<not> begins pat (drop j s))"
proof (induction s arbitrary: i)
  case Nil
  then show ?case by (auto simp: begins_def)
next
  case (Cons c s)
  show ?case
  proof (cases i)
    case 0
    then show ?thesis by auto
  next
    case (Suc k)
    then show ?thesis using Cons.IH [of k] by (auto simp: All_less_Suc2)
  qed
qed

lemma find_sub_None: "pat \<noteq> [] \<Longrightarrow> find_sub pat s = None \<longleftrightarrow> (\<forall>j. \<not> begins pat (drop j s))"
proof (induction s)
  case Nil
  then show ?case by (auto simp: begins_def)
next
  case (Cons c s)
  have "(\<forall>j. \<not> begins pat (drop j (c # s))) \<longleftrightarrow> \<not> begins pat (c # s) \<and> (\<forall>j. \<not> begins pat (drop j s))"
    by (metis drop0 drop_Suc_Cons not0_implies_Suc)
  with Cons show ?case by auto
qed


lemma META_length [simp]: "length META_OPEN = 4"
  by (simp add: META_OPEN_def)

lemma META_nonempty [simp]: "META_OPEN \<noteq> []"
  by (simp add: META_OPEN_def)

lemma held_tail_cases:
  "held_tail t = (if ends_with t (take 3 META_OPEN) then 3 else if ends_with t (take 2 META_OPEN) then 2
     else if ends_with t (take 1 META_OPEN) then 1 else 0)"
proof -
  have "rev [1..<4] = [3, 2, 1::nat]" by (simp add: upt_rec)
  then show ?thesis by (simp add: held_tail_def)
qed

lemma held_tail_le: "held_tail t \<le> 3"
  by (simp add: held_tail_cases)

lemma held_tail_ends: "ends_with t (take (held_tail t) META_OPEN)"
  by (simp add: held_tail_cases ends_with_def)

lemma held_tail_max: "n < 4 \<Longrightarrow> ends_with t (take n META_OPEN) \<Longrightarrow> n \<le> held_tail t"
proof -
  assume "n < 4" and e: "ends_with t (take n META_OPEN)"
  then consider "n = 0" | "n = 1" | "n = 2" | "n = 3" by linarith
  then show ?thesis using e by cases (simp_all add: held_tail_cases)
qed

lemma held_tail_length: "held_tail t \<le> length t"
  using held_tail_ends [of t] held_tail_le [of t] by (simp add: ends_with_def)


lemma drop_past: "k \<le> j \<Longrightarrow> k \<le> length t \<Longrightarrow> drop j (t @ p) = drop (j - k) (drop k t @ p)"
  by (simp add: le_add_diff_inverse)

lemma ends_with_past:
  assumes "k \<le> length t" "length pat \<le> length (drop k t @ p)"
  shows "ends_with (t @ p) pat = ends_with (drop k t @ p) pat"
proof -
  have "length (t @ p) - length pat - k = length (drop k t @ p) - length pat" using assms by simp
  then show ?thesis
    using drop_past [of k "length (t @ p) - length pat" t p] assms by (auto simp: ends_with_def simp del: drop_append)
qed

text \<open>An occurrence that begins in \<open>t\<close> and is not inside it begins in the tail that is held back.\<close>

lemma begins_across:
  assumes "begins META_OPEN (drop j (t @ p))" "\<not> begins META_OPEN (drop j t)" "j < length t"
  shows "length t - j < 4 \<and> ends_with t (take (length t - j) META_OPEN)"
proof -
  have eq: "take 4 (drop j t @ p) = META_OPEN" using assms(1,3) by (simp add: begins_def)
  have short: "length (drop j t) < 4"
  proof (rule ccontr)
    assume "\<not> ?thesis"
    then have "take 4 (drop j t @ p) = take 4 (drop j t)" by simp
    with eq assms(2) show False by (simp add: begins_def)
  qed
  have "take (length t - j) META_OPEN = take (length t - j) (take 4 (drop j t @ p))" by (simp only: eq)
  also have "\<dots> = drop j t" using short by simp
  finally show ?thesis using short assms(3) by (simp add: ends_with_def)
qed

lemma begins_held:
  assumes none: "find_sub META_OPEN t = None" and h: "h = drop (length t - held_tail t) t"
  shows "begins META_OPEN (drop j (t @ p)) \<longleftrightarrow>
    length t - held_tail t \<le> j \<and> begins META_OPEN (drop (j - (length t - held_tail t)) (h @ p))"
proof (cases "length t - held_tail t \<le> j")
  case True
  then show ?thesis using drop_past [OF True, of t p] by (simp add: h del: drop_append)
next
  case False
  then have "j < length t" by simp
  moreover have "\<not> begins META_OPEN (drop j t)" using none find_sub_None by simp
  ultimately have "\<not> begins META_OPEN (drop j (t @ p))"
    using False begins_across [of j t p] held_tail_max [of "length t - j" t] by auto
  with False show ?thesis by simp
qed

lemma find_held:
  assumes "find_sub META_OPEN t = None" and h: "h = drop (length t - held_tail t) t"
  shows "find_sub META_OPEN (t @ p) = map_option (\<lambda>i. (length t - held_tail t) + i) (find_sub META_OPEN (h @ p))"
proof (cases "find_sub META_OPEN (h @ p)")
  case None
  then have "\<forall>j. \<not> begins META_OPEN (drop j (h @ p))" by (simp add: find_sub_None del: drop_append)
  then have "\<forall>j. \<not> begins META_OPEN (drop j (t @ p))" using begins_held [OF assms] by blast
  then have "find_sub META_OPEN (t @ p) = None" by (simp add: find_sub_None del: drop_append)
  with None show ?thesis by simp
next
  case (Some i)
  then have i: "i \<le> length (h @ p)" "begins META_OPEN (drop i (h @ p))" "\<forall>j < i. \<not> begins META_OPEN (drop j (h @ p))"
    by (auto simp: find_sub_Some simp del: drop_append)
  let ?k = "length t - held_tail t"
  have "?k + i \<le> length (t @ p)" using i(1) held_tail_length [of t] by (simp add: h)
  moreover have "begins META_OPEN (drop (?k + i) (t @ p))" using i(2) begins_held [OF assms] by simp
  moreover have "\<not> begins META_OPEN (drop j (t @ p))" if "j < ?k + i" for j
    using i(3) begins_held [OF assms, of j p] that by (metis add.commute less_diff_conv2)
  ultimately have "find_sub META_OPEN (t @ p) = Some (?k + i)" unfolding find_sub_Some by blast
  with Some show ?thesis by simp
qed

lemma held_tail_append:
  assumes h: "h = drop (length t - held_tail t) t"
  shows "held_tail (t @ p) = held_tail (h @ p)"
proof -
  have lh: "length h = held_tail t" using held_tail_length [of t] by (simp add: h)
  have "ends_with (t @ p) (take n META_OPEN) = ends_with (h @ p) (take n META_OPEN)" if n: "n < 4" for n
  proof (cases "n \<le> length (h @ p)")
    case True
    then show ?thesis using ends_with_past [of "length t - held_tail t" t "take n META_OPEN" p] n by (simp add: h)
  next
    case False
    let ?m = "n - length p"
    have "\<not> ends_with (t @ p) (take n META_OPEN)"
    proof
      assume "ends_with (t @ p) (take n META_OPEN)"
      then have m: "drop (length t - ?m) t @ p = take n META_OPEN" "?m \<le> length t"
        using n False by (auto simp: ends_with_def)
      have "take ?m META_OPEN = take ?m (take n META_OPEN)" by simp
      also have "\<dots> = drop (length t - ?m) t" using m(2) by (simp flip: m(1))
      finally have "ends_with t (take ?m META_OPEN)" using m(2) n by (simp add: ends_with_def)
      then have "?m \<le> held_tail t" using held_tail_max [of ?m t] n by (simp add: less_imp_diff_less)
      then show False using lh False by simp
    qed
    with False n show ?thesis by (auto simp: ends_with_def)
  qed
  then show ?thesis by (simp add: held_tail_cases)
qed


section \<open>Streaming a part\<close>

text \<open>What the whole text of a part would pass on, had it come in one piece.\<close>

definition passed_on :: "bool \<Rightarrow> string \<Rightarrow> string" where
  "passed_on strip t =
     (if \<not> strip then t
      else case find_sub META_OPEN t of
        Some i \<Rightarrow> take i t
      | None \<Rightarrow> take (length t - held_tail t) t)"

fun admit_all :: "bool \<Rightarrow> (nat \<times> string) list \<Rightarrow> LivePart \<Rightarrow> (nat \<times> string) list \<times> LivePart" where
  "admit_all strip [] p = ([], p)"
| "admit_all strip ((offset, t) # ps) p =
     (let (r, p) = admit offset t strip p; (rs, p) = admit_all strip ps p
      in ((case r of None \<Rightarrow> [] | Some out \<Rightarrow> [out]) @ rs, p))"

text \<open>The text of the leading pieces that each continue the part.\<close>

fun continued :: "nat \<Rightarrow> (nat \<times> string) list \<Rightarrow> string" where
  "continued n [] = []"
| "continued n ((offset, t) # ps) = (if offset = n then t @ continued (n + utf16_len t) ps else [])"

text \<open>Each text starts where the one before it ended.\<close>

fun consecutive :: "nat \<Rightarrow> (nat \<times> string) list \<Rightarrow> bool" where
  "consecutive n [] = True"
| "consecutive n ((i, t) # outs) = (i = n \<and> consecutive (n + utf16_len t) outs)"

lemma begins_length: "begins pat s \<Longrightarrow> length pat \<le> length s"
  unfolding begins_def by (metis length_take min.cobounded1)

lemma begins_append: "length pat \<le> length s \<Longrightarrow> begins pat (s @ p) = begins pat s"
  by (simp add: begins_def)

lemma find_sub_append: "pat \<noteq> [] \<Longrightarrow> find_sub pat t = Some i \<Longrightarrow> find_sub pat (t @ p) = Some i"
proof (induction t arbitrary: i)
  case (Cons c t)
  show ?case
  proof (cases "begins pat (c # t)")
    case True
    then have "begins pat ((c # t) @ p)" using begins_append [OF begins_length [OF True]] by blast
    with True Cons.prems show ?thesis by simp
  next
    case False
    then obtain k where k: "find_sub pat t = Some k" "i = Suc k" using Cons.prems by auto
    then have "length pat \<le> length (drop k t)" using begins_length [of pat "drop k t"] by (simp add: find_sub_Some)
    then have "\<not> begins pat ((c # t) @ p)" using begins_append [of pat "c # t" p] False by simp
    with k Cons.IH [OF Cons.prems(1) k(1)] show ?thesis by simp
  qed
qed simp

lemma passed_on_Some: "find_sub META_OPEN t = Some i \<Longrightarrow> passed_on True t = take i t"
  by (simp add: passed_on_def)

lemma passed_on_after:
  assumes "find_sub META_OPEN t = Some i"
  shows "passed_on True (t @ p) = passed_on True t"
proof -
  have "i \<le> length t" using assms by (simp add: find_sub_Some)
  then show ?thesis using find_sub_append [OF _ assms, of p] assms by (simp add: passed_on_Some)
qed

lemma passed_on_clean: "find_sub META_OPEN (passed_on True t) = None"
proof (rule ccontr)
  assume "find_sub META_OPEN (passed_on True t) \<noteq> None"
  then obtain i where i: "find_sub META_OPEN (passed_on True t) = Some i" by auto
  have "\<exists>k. passed_on True t = take k t" by (auto simp: passed_on_def split: option.splits)
  then obtain k where k: "passed_on True t = take k t" by blast
  have "find_sub META_OPEN t = Some i"
    using find_sub_append [OF _ i [unfolded k], of "drop k t"] by simp
  with i have "find_sub META_OPEN (take i t) = Some i" by (simp add: passed_on_Some)
  then have "begins META_OPEN []" by (simp add: find_sub_Some)
  then show False using begins_length [of META_OPEN "[]"] by simp
qed

text \<open>A part that has read \<open>t\<close> and passed on \<open>sent\<close>.\<close>

definition tracks :: "bool \<Rightarrow> string \<Rightarrow> string \<Rightarrow> LivePart \<Rightarrow> bool" where
  "tracks strip t sent p =
     (sent = passed_on strip t \<and> lp_sent p = utf16_len sent
      \<and> lp_kept p = (if length sent \<le> CATCH_UP_CAP then Some sent else None)
      \<and> (if lp_stopped p then strip \<and> find_sub META_OPEN t \<noteq> None
         else lp_expected p = utf16_len t
           \<and> (if strip then find_sub META_OPEN t = None \<and> lp_held p = drop (length t - held_tail t) t else lp_held p = [])))"

lemma keep_simps [simp]:
  "lp_expected (keep out p) = lp_expected p" "lp_sent (keep out p) = lp_sent p" "lp_held (keep out p) = lp_held p"
  "lp_stopped (keep out p) = lp_stopped p"
  by (simp_all add: keep_def split: option.splits)

lemma keep_kept:
  "lp_kept p = (if length sent \<le> CATCH_UP_CAP then Some sent else None)
   \<Longrightarrow> lp_kept (keep out p) = (if length (sent @ out) \<le> CATCH_UP_CAP then Some (sent @ out) else None)"
  by (auto simp: keep_def split: option.splits)


lemma tracks_fresh: "tracks strip [] [] (live_part_new kind subagent)"
proof -
  have "held_tail [] = 0" using held_tail_length [of "[]"] by simp
  moreover have "find_sub META_OPEN [] = None" by simp
  ultimately show ?thesis by (simp add: tracks_def live_part_new_def passed_on_def)
qed

lemma passed_on_held:
  assumes "find_sub META_OPEN t = None" "h = drop (length t - held_tail t) t"
  shows "passed_on True (t @ x) = passed_on True t @ passed_on True (h @ x)"
proof -
  let ?k = "length t - held_tail t"
  have split: "t @ x = take ?k t @ (h @ x)" by (simp add: assms(2))
  have k: "length (take ?k t) = ?k" by simp
  have pt: "passed_on True t = take ?k t" using assms(1) by (simp add: passed_on_def)
  show ?thesis
  proof (cases "find_sub META_OPEN (h @ x)")
    case None
    let ?n = "held_tail (h @ x)"
    have "passed_on True (t @ x) = take (length (t @ x) - ?n) (t @ x)"
      using None find_held [OF assms] held_tail_append [OF assms(2)] by (simp add: passed_on_def)
    also have "length (t @ x) - ?n = ?k + (length (h @ x) - ?n)"
      using held_tail_length [of "h @ x"] held_tail_length [of t] by (simp add: assms(2))
    also have "take \<dots> (t @ x) = take ?k t @ take (length (h @ x) - ?n) (h @ x)"
      unfolding split by (simp only: take_append k) simp
    finally show ?thesis using None pt by (simp add: passed_on_def)
  next
    case (Some i)
    then have "passed_on True (t @ x) = take (?k + i) (t @ x)"
      using find_held [OF assms] by (simp add: passed_on_def)
    also have "\<dots> = take ?k t @ take i (h @ x)" unfolding split by (simp only: take_append k) simp
    finally show ?thesis using Some pt by (simp add: passed_on_def)
  qed
qed

text \<open>A piece that continues the part: what it passes on, and the part after it.\<close>

definition part_after :: "bool \<Rightarrow> string \<Rightarrow> LivePart \<Rightarrow> LivePart" where
  "part_after strip x p =
     (let h = lp_held p @ x; out = passed_on strip h; found = strip \<and> find_sub META_OPEN h \<noteq> None;
          p = p\<lparr>lp_expected := lp_expected p + utf16_len x, lp_stopped := found,
                lp_held := (if strip \<and> \<not> found then drop (length h - held_tail h) h else [])\<rparr>
      in if out = [] then p else (keep out p)\<lparr>lp_sent := lp_sent p + utf16_len out\<rparr>)"

lemma admit_continues:
  assumes "\<not> lp_stopped p" "lp_expected p = offset"
  shows "admit offset x strip p =
    (let out = passed_on strip (lp_held p @ x)
     in (if out = [] then None else Some (lp_sent p, out), part_after strip x p))"
  using assms
  by (cases p; cases strip; cases "find_sub META_OPEN (lp_held p @ x)")
    (simp_all add: admit_def part_after_def passed_on_def Let_def del: take_append drop_append)


lemma held_after:
  assumes "h = drop (length t - held_tail t) t"
  shows "drop (length (h @ x) - held_tail (h @ x)) (h @ x) = drop (length (t @ x) - held_tail (t @ x)) (t @ x)"
proof -
  let ?k = "length t - held_tail t" and ?n = "held_tail (h @ x)"
  have n: "held_tail (t @ x) = ?n" "?n \<le> length (h @ x)"
    using held_tail_append [OF assms] held_tail_length [of "h @ x"] by simp_all
  have "length (h @ x) = length (t @ x) - ?k" using held_tail_length [of t] by (simp add: assms)
  then have "length (t @ x) - ?n - ?k = length (h @ x) - ?n" "?k \<le> length (t @ x) - ?n" using n(2) by simp_all
  then show ?thesis using drop_past [of ?k "length (t @ x) - ?n" t x] n(1) by (simp add: assms del: drop_append)
qed

lemma tracks_step:
  assumes tr: "tracks strip t sent p" and run: "\<not> lp_stopped p" and out: "out = passed_on strip (lp_held p @ x)"
  shows "tracks strip (t @ x) (sent @ out) (part_after strip x p)"
proof -
  have sent: "passed_on strip (t @ x) = sent @ out"
  proof (cases strip)
    case True
    then show ?thesis using tr run out passed_on_held [of t "lp_held p" x] by (simp add: tracks_def)
  next
    case False
    then show ?thesis using tr run out by (simp add: tracks_def passed_on_def)
  qed
  have kept: "lp_kept (part_after strip x p) = (if length (sent @ out) \<le> CATCH_UP_CAP then Some (sent @ out) else None)"
    using tr keep_kept [of _ sent out] by (simp add: tracks_def part_after_def out Let_def)
  have lp: "lp_sent (part_after strip x p) = utf16_len (sent @ out)"
    "lp_expected (part_after strip x p) = lp_expected p + utf16_len x"
    "lp_stopped (part_after strip x p) = (strip \<and> find_sub META_OPEN (lp_held p @ x) \<noteq> None)"
    "lp_held (part_after strip x p) = (if strip \<and> find_sub META_OPEN (lp_held p @ x) = None
      then drop (length (lp_held p @ x) - held_tail (lp_held p @ x)) (lp_held p @ x) else [])"
    using tr by (simp_all add: tracks_def part_after_def out Let_def del: drop_append)
  show ?thesis
  proof (cases strip)
    case True
    have h: "find_sub META_OPEN t = None" "lp_held p = drop (length t - held_tail t) t" and e: "lp_expected p = utf16_len t"
      using tr run True by (simp_all add: tracks_def)
    show ?thesis unfolding tracks_def lp kept sent
      using True e find_held [OF h, of x] held_after [OF h(2), of x] by (simp del: drop_append)
  next
    case False
    then show ?thesis using tr run unfolding tracks_def lp kept sent by (simp add: tracks_def)
  qed
qed

lemma admit_all_stopped: "lp_stopped p \<Longrightarrow> admit_all strip ps p = ([], p)"
  by (induction ps) (auto simp: admit_def)

lemma admit_all_tracks:
  assumes "tracks strip t sent p" "\<not> lp_stopped p"
  shows "sent @ concat (map snd (fst (admit_all strip ps p))) = passed_on strip (t @ continued (utf16_len t) ps)
    \<and> consecutive (utf16_len sent) (fst (admit_all strip ps p))
    \<and> lp_kept (snd (admit_all strip ps p)) =
        (let text = passed_on strip (t @ continued (utf16_len t) ps)
         in if length text \<le> CATCH_UP_CAP then Some text else None)"
  using assms
proof (induction ps arbitrary: t sent p)
  case Nil
  then show ?case by (simp add: tracks_def)
next
  case (Cons piece ps)
  obtain offset x where piece: "piece = (offset, x)" by (cases piece)
  show ?case
  proof (cases "offset = utf16_len t")
    case False
    then have "admit offset x strip p = (None, p\<lparr>lp_stopped := True\<rparr>)"
      using Cons.prems by (simp add: admit_def tracks_def)
    then show ?thesis using Cons.prems False by (simp add: piece admit_all_stopped tracks_def)
  next
    case True
    define out where "out = passed_on strip (lp_held p @ x)"
    let ?p = "part_after strip x p"
    have step: "tracks strip (t @ x) (sent @ out) ?p" using tracks_step [OF Cons.prems out_def] .
    have "admit offset x strip p = (if out = [] then None else Some (lp_sent p, out), ?p)"
      using Cons.prems True by (subst admit_continues) (auto simp: tracks_def out_def Let_def)
    moreover have "lp_sent p = utf16_len sent" using Cons.prems by (simp add: tracks_def)
    ultimately have all: "admit_all strip (piece # ps) p =
        ((if out = [] then [] else [(utf16_len sent, out)]) @ fst (admit_all strip ps ?p), snd (admit_all strip ps ?p))"
      by (simp add: piece split_beta)
    have c: "continued (utf16_len t) (piece # ps) = x @ continued (utf16_len (t @ x)) ps" using True by (simp add: piece)
    show ?thesis
    proof (cases "lp_stopped ?p")
      case stop: True
      then obtain i where i: "strip" "find_sub META_OPEN (t @ x) = Some i" using step by (auto simp: tracks_def)
      have "passed_on strip ((t @ x) @ continued (utf16_len (t @ x)) ps) = sent @ out"
        using passed_on_after [OF i(2)] i(1) step by (simp only: tracks_def simp_thms)
      moreover have "lp_kept ?p = (if length (sent @ out) \<le> CATCH_UP_CAP then Some (sent @ out) else None)"
        using step by (simp only: tracks_def)
      ultimately show ?thesis unfolding all c using stop i(1) by (auto simp: admit_all_stopped Let_def)
    next
      case False
      from Cons.IH [OF step False] show ?thesis
        unfolding all c by (cases "out = []") simp_all
    qed
  qed
qed

section \<open>Properties\<close>

text \<open>C31: Streaming is equivalent to deciding on the whole text: whatever the pieces and their offsets, the
  texts passed on, end to end and each at the offset where the phones' copy ends, are what the whole
  continued text would pass on. With stripping on they never contain the start of the comment, even when
  it is split across pieces. A client that joins late is sent exactly that text, or nothing past the
  cap.\<close>

theorem live_text_equals_reference:
  assumes "admit_all strip pieces (live_part_new kind subagent) = (outs, p)" "text = concat (map snd outs)"
  shows "text = passed_on strip (continued 0 pieces) \<and> consecutive 0 outs
    \<and> kept_text p = (if text = [] \<or> CATCH_UP_CAP < length text then None else Some text)
    \<and> (strip \<longrightarrow> find_sub META_OPEN text = None)"
proof -
  have "\<not> lp_stopped (live_part_new kind subagent)" by (simp add: live_part_new_def)
  from admit_all_tracks [OF tracks_fresh this, of strip pieces]
  have "text = passed_on strip (continued 0 pieces)" "consecutive 0 outs"
    "lp_kept p = (if length text \<le> CATCH_UP_CAP then Some text else None)"
    by (simp_all add: assms Let_def)
  then show ?thesis by (auto simp: kept_text_def passed_on_clean)
qed

theorem live_text_equals_reference_witness:
  "fst (admit_all True [(0, ''Done. <''), (7, ''!-''), (9, ''- x -->''), (17, ''more'')] (live_part_new PkText None)) = [(0, ''Done. '')]
   \<and> find_sub META_OPEN ''Done. '' = None"
proof -
  have run: "admit_all True [(0, ''Done. <''), (7, ''!-''), (9, ''- x -->''), (17, ''more'')] (live_part_new PkText None)
    = ([(0, ''Done. '')], snd (admit_all True [(0, ''Done. <''), (7, ''!-''), (9, ''- x -->''), (17, ''more'')] (live_part_new PkText None)))"
    by (simp add: admit_def Let_def utf16_len_def utf16_units_def META_OPEN_def begins_def held_tail_cases ends_with_def
      live_part_new_def keep_def CATCH_UP_CAP_def)
  have "find_sub META_OPEN (concat (map snd [(0::nat, ''Done. '')])) = None"
    using live_text_equals_reference [OF run refl] by blast
  then have "find_sub META_OPEN ''Done. '' = None" by (simp only: list.map concat.simps snd_conv append_Nil2)
  with run show ?thesis by (metis fst_conv)
qed

end
