(* ===== verification/Engine.thy ===== *)
theory Engine
  imports Io Ingest Live
begin

text \<open>
  \<open>crates/bridge-core/src/engine/mod.rs\<close> and \<open>engine/session_keys.rs\<close>: the engine's state (the part
  the modelled handlers read and write), the helpers every handler uses, and the session keys of the paired
  identities' clients: grants, presence, and the addressing of every publish to the clients it is for.

  The ports are fields of \<open>Env\<close>: the bech32 encoder, the hash behind device ids, the base64 decoder, the id
  and token generators (by how many were issued), the workspace's default directory, and the timestamp
  formatter. The clock is read once per input.
\<close>

section \<open>State\<close>

record Env =
  ev_npub_from_hex :: "string \<Rightarrow> string option"
  ev_hash16_hex :: "string \<Rightarrow> string" \<comment> \<open>the first 16 bytes of the SHA-256, as hex\<close>
  ev_base64_decode :: "string \<Rightarrow> 8 word list option"
  ev_new_id :: "nat \<Rightarrow> string"
  ev_new_token :: "nat \<Rightarrow> string"
  ev_workspace_cwd :: string
  ev_iso :: "nat \<Rightarrow> string"

record TerminalAllowlist =
  al_devices :: "string list"
  al_pending :: "PendingDevice list"

record TerminalConfig =
  tc_enabled :: bool
  tc_relays_allowed :: bool
  tc_max_terminals :: nat
  tc_idle_secs :: nat
  tc_allowlist :: TerminalAllowlist

record Terminal =
  tm_identity :: string
  tm_shell :: string
  tm_opener :: string
  tm_writer :: string
  tm_cols :: nat
  tm_rows :: nat
  tm_cwd :: string
  tm_opened_ms :: nat
  tm_via :: TerminalVia
  tm_last_seq :: "(string, nat) omap"
  tm_pending :: "(nat, 8 word list) omap"
  tm_gap_timer :: "TimerId option"
  tm_idle_timer :: "TimerId option"

record PendingOpen =
  po_identity :: string
  po_asker :: Addressee
  po_device :: "string option"
  po_label :: "string option"
  po_via :: TerminalVia
  po_cwd :: string
  po_cols :: nat
  po_rows :: nat
  po_open_id :: string
  po_exited :: "(int option \<times> TerminalEndReason) option"

record Terminals =
  tt_config :: TerminalConfig
  tt_open :: "(string, Terminal) omap"
  tt_spawning :: "(string, PendingOpen) omap"

record PairingWindow =
  win_token :: string
  win_epoch :: nat
  win_timer :: TimerId

record NackBudget =
  nb_window_start_ms :: nat
  nb_count :: nat
  nb_started :: bool

text \<open>The part of a session the modelled handlers read: where it runs, and its run's live parts.\<close>

record EngineSession =
  es_cwd :: string
  es_parts :: "(string, LivePart) omap option"

record Engine =
  en_pubkey_hex :: string
  en_npub :: string
  en_machine :: string
  en_host_kind :: "BridgeHostKind option"
  en_relays :: "string list"
  en_pairing_window_ms :: nat
  en_heartbeat_interval_ms :: nat
  en_now :: nat
  en_ids :: nat
  en_store_ok :: bool
  en_stored :: "PairedPhone list option"
  en_out :: Out
  en_ingest :: Ingest
  en_paired :: "PairedPhone list"
  en_sessions :: "(string, EngineSession) omap"
  en_terminals :: Terminals
  en_pairing :: "PairingWindow option"
  en_pairing_epoch :: nat
  en_nacks :: NackBudget
  en_list_dirty :: bool
  en_list_wanted :: "Addressee list"
  en_requester :: "Addressee option"

section \<open>Helpers\<close>

definition emit :: "Effect \<Rightarrow> Engine \<Rightarrow> Engine" where
  "emit x e = e\<lparr>en_out := push x (en_out e)\<rparr>"

definition send_to :: "Addressee list \<Rightarrow> BridgeToPhone \<Rightarrow> Engine \<Rightarrow> Engine" where
  "send_to to m e = e\<lparr>en_out := publish_addressed to m (en_out e)\<rparr>"

definition send_identity :: "string \<Rightarrow> BridgeToPhone \<Rightarrow> Engine \<Rightarrow> Engine" where
  "send_identity phone m e = e\<lparr>en_out := publish [phone] m (en_out e)\<rparr>"

definition disarm_timer :: "TimerId option \<Rightarrow> Engine \<Rightarrow> Engine" where
  "disarm_timer t e = (case t of None \<Rightarrow> e | Some i \<Rightarrow> e\<lparr>en_out := cancel_timer i (en_out e)\<rparr>)"

definition arm_timer :: "nat \<Rightarrow> TimerKind \<Rightarrow> Engine \<Rightarrow> TimerId \<times> Engine" where
  "arm_timer after_ms kind e = (let (i, out) = set_timer after_ms kind (en_out e) in (i, e\<lparr>en_out := out\<rparr>))"

definition phones :: "Engine \<Rightarrow> string list" where
  "phones e = map pp_pubkey_hex (en_paired e)"

definition want_list :: "Addressee \<Rightarrow> Engine \<Rightarrow> Engine" where
  "want_list client e =
     (if client \<in> set (en_list_wanted e) then e else e\<lparr>en_list_wanted := en_list_wanted e @ [client]\<rparr>)"

definition reply_to :: "string \<Rightarrow> Engine \<Rightarrow> Addressee" where
  "reply_to phone e =
     (case en_requester e of
        Some requester \<Rightarrow> (if ad_phone requester = phone then requester else to_identity phone)
      | None \<Rightarrow> to_identity phone)"

definition publish_to :: "string \<Rightarrow> BridgeToPhone \<Rightarrow> Engine \<Rightarrow> Engine" where
  "publish_to phone m e = send_to [reply_to phone e] m e"

text \<open>A failed write is logged and nothing else.\<close>

definition store_paired :: "Engine \<Rightarrow> Engine" where
  "store_paired e = (if en_store_ok e then e\<lparr>en_stored := Some (en_paired e)\<rparr> else e)"

definition phone_of :: "string \<Rightarrow> Engine \<Rightarrow> PairedPhone option" where
  "phone_of identity e = find (\<lambda>p. pp_pubkey_hex p = identity) (en_paired e)"

text \<open>\<open>iter_mut().find\<close>: change the first match in place.\<close>

fun update_first :: "('a \<Rightarrow> bool) \<Rightarrow> ('a \<Rightarrow> 'a) \<Rightarrow> 'a list \<Rightarrow> 'a list" where
  "update_first P f [] = []"
| "update_first P f (x # xs) = (if P x then f x # xs else x # update_first P f xs)"

definition holds_key :: "string \<Rightarrow> PhoneClient \<Rightarrow> bool" where
  "holds_key key c = (sg_pubkey_hex (pc_key c) = key
     \<or> (case pc_previous c of None \<Rightarrow> False | Some k \<Rightarrow> sg_pubkey_hex k = key))"

section \<open>Recipients\<close>

definition ascii_lower :: "char \<Rightarrow> char" where
  "ascii_lower c = (let b = (of_char c :: nat) in if 65 \<le> b \<and> b \<le> 90 then char_of (b + 32) else c)"

definition digest :: "Env \<Rightarrow> string list \<Rightarrow> string" where
  "digest env parts = ev_hash16_hex env (concat (map (\<lambda>part. part @ [CHR 0x00]) parts))"

definition recipient_tag :: "Env \<Rightarrow> string \<Rightarrow> string \<Rightarrow> string" where
  "recipient_tag env bridge key = digest env [''codedeck/recipient'', map ascii_lower bridge, map ascii_lower key]"

definition device_id :: "Env \<Rightarrow> string \<Rightarrow> string" where
  "device_id env first_key = digest env [''codedeck/device'', map ascii_lower first_key]"

section \<open>Session keys\<close>

definition MAX_CLIENTS :: nat where "MAX_CLIENTS = 16"
definition MAX_LABEL_CHARS :: nat where "MAX_LABEL_CHARS = 64"
definition SKEW_SECS :: nat where "SKEW_SECS = 300"
definition PRESENCE_LEASE_SECS :: nat where "PRESENCE_LEASE_SECS = 25 * 60"
definition PRESENCE_RENEW_SECS :: nat where "PRESENCE_RENEW_SECS = 10 * 60"
definition SESSION_KEY_MAX_LIFETIME_SECS :: nat where "SESSION_KEY_MAX_LIFETIME_SECS = 30 * 24 * 3600"

text \<open>\<open>str::chars\<close> on UTF-8 bytes: every byte that is no continuation byte starts a character.\<close>

fun utf8_chars :: "string \<Rightarrow> string list" where
  "utf8_chars [] = []"
| "utf8_chars (c # s) =
     (case utf8_chars s of
        [] \<Rightarrow> [[c]]
      | ch # rest \<Rightarrow>
          (let b = (of_char (hd ch) :: nat)
           in if 128 \<le> b \<and> b < 192 then (c # ch) # rest else [c] # ch # rest))"

text \<open>\<open>char::is_control\<close> and \<open>char::is_whitespace\<close>, by a character's UTF-8 bytes.\<close>

definition char_bytes :: "string \<Rightarrow> nat list" where
  "char_bytes ch = map of_char ch"

definition is_control :: "string \<Rightarrow> bool" where
  "is_control ch =
     (case char_bytes ch of
        [b] \<Rightarrow> b < 32 \<or> b = 127
      | [a, b] \<Rightarrow> a = 194 \<and> 128 \<le> b \<and> b \<le> 159
      | _ \<Rightarrow> False)"

definition is_whitespace :: "string \<Rightarrow> bool" where
  "is_whitespace ch =
     (case char_bytes ch of
        [b] \<Rightarrow> 9 \<le> b \<and> b \<le> 13 \<or> b = 32
      | [a, b] \<Rightarrow> a = 194 \<and> (b = 133 \<or> b = 160)
      | [a, b, c] \<Rightarrow>
          [a, b, c] = [225, 154, 128]
          \<or> a = 226 \<and> b = 128 \<and> (128 \<le> c \<and> c \<le> 138 \<or> c = 168 \<or> c = 169 \<or> c = 175)
          \<or> [a, b, c] = [226, 129, 159] \<or> [a, b, c] = [227, 128, 128]
      | _ \<Rightarrow> False)"

definition trim :: "string list \<Rightarrow> string list" where
  "trim chs = rev (dropWhile is_whitespace (rev (dropWhile is_whitespace chs)))"

definition clean_label :: "string option \<Rightarrow> string option" where
  "clean_label label =
     (case label of
        None \<Rightarrow> None
      | Some label \<Rightarrow>
          let trimmed = trim (filter (\<lambda>c. \<not> is_control c) (utf8_chars label))
          in if trimmed = [] then None else Some (concat (take MAX_LABEL_CHARS trimmed)))"

definition now_secs :: "Engine \<Rightarrow> nat" where
  "now_secs e = en_now e div 1000"

definition key_taken :: "string \<Rightarrow> string \<Rightarrow> Engine \<Rightarrow> bool" where
  "key_taken identity key e =
     list_ex (\<lambda>p. pp_pubkey_hex p = key
       \<or> list_ex (\<lambda>c.
           let previous = (case pc_previous c of None \<Rightarrow> False | Some k \<Rightarrow> sg_pubkey_hex k = key)
           in previous \<or> pp_pubkey_hex p \<noteq> identity \<and> sg_pubkey_hex (pc_key c) = key) (pp_clients p))
       (en_paired e)"

datatype GrantRefusal = NotAKey | OtherBridge | AlreadyExpired | TooFarAhead | KeyInUse

definition grant_refusal :: "Env \<Rightarrow> string \<Rightarrow> SessionKeyGrant \<Rightarrow> Engine \<Rightarrow> GrantRefusal option" where
  "grant_refusal env identity grant e =
     (if ev_npub_from_hex env (sg_pubkey_hex grant) = None then Some NotAKey
      else if sg_bridge_pubkey_hex grant \<noteq> en_pubkey_hex e then Some OtherBridge
      else if sg_expires_at grant \<le> now_secs e then Some AlreadyExpired
      else if sg_expires_at grant > now_secs e + SESSION_KEY_MAX_LIFETIME_SECS + SKEW_SECS then Some TooFarAhead
      else if sg_pubkey_hex grant = en_pubkey_hex e \<or> key_taken identity (sg_pubkey_hex grant) e then Some KeyInUse
      else None)"

text \<open>The grant as it is kept: its label was taken out of it.\<close>

definition kept_grant :: "SessionKeyGrant \<Rightarrow> SessionKeyGrant" where
  "kept_grant grant = grant\<lparr>sg_label := None\<rparr>"

definition renew_client :: "SessionKeyGrant \<Rightarrow> nat \<Rightarrow> PhoneClient \<Rightarrow> PhoneClient" where
  "renew_client grant present_until c =
     c\<lparr>pc_key := (pc_key c)\<lparr>sg_expires_at := max (sg_expires_at (pc_key c)) (sg_expires_at grant)\<rparr>,
       pc_label := clean_label (sg_label grant), pc_present_until_ms := present_until\<rparr>"

definition rotate_client :: "Env \<Rightarrow> SessionKeyGrant \<Rightarrow> nat \<Rightarrow> PhoneClient \<Rightarrow> PhoneClient" where
  "rotate_client env grant present_until c =
     c\<lparr>pc_device := (if pc_device c = [] then device_id env (sg_pubkey_hex (pc_key c)) else pc_device c),
       pc_previous := Some (pc_key c), pc_key := kept_grant grant,
       pc_label := clean_label (sg_label grant), pc_present_until_ms := present_until\<rparr>"

definition new_client :: "Env \<Rightarrow> SessionKeyGrant \<Rightarrow> nat \<Rightarrow> PhoneClient" where
  "new_client env grant present_until =
     \<lparr>pc_key = kept_grant grant, pc_previous = None, pc_device = device_id env (sg_pubkey_hex grant),
      pc_label = clean_label (sg_label grant), pc_present_until_ms = present_until, pc_presumed = False,
      pc_watch = WUnknown, pc_watch_terminal = WUnknown\<rparr>"

definition drop_quietest :: "PhoneClient list \<Rightarrow> PhoneClient list" where
  "drop_quietest clients =
     (if length clients \<ge> MAX_CLIENTS then
        let quietest = (case min_by_key (\<lambda>(i, c). (pc_present_until_ms c, sg_expires_at (pc_key c))) (enumerate 0 clients) of
            Some (i, c) \<Rightarrow> i
          | None \<Rightarrow> 0)
        in take quietest clients @ drop (Suc quietest) clients
      else clients)"

definition grant_clients :: "Env \<Rightarrow> SessionKeyGrant \<Rightarrow> string \<Rightarrow> nat \<Rightarrow> nat \<Rightarrow> PhoneClient list \<Rightarrow> PhoneClient list" where
  "grant_clients env grant encrypted_with now present_until clients =
     (let clients = filter (\<lambda>c. sg_expires_at (pc_key c) > now) clients;
          renewed = position (\<lambda>c. sg_pubkey_hex (pc_key c) = sg_pubkey_hex grant) clients;
          rotated = (case sg_replaces grant of
              Some old \<Rightarrow> (if old = encrypted_with then position (\<lambda>c. sg_pubkey_hex (pc_key c) = old) clients else None)
            | None \<Rightarrow> None)
      in case renewed of
          Some i \<Rightarrow> clients[i := renew_client grant present_until (clients ! i)]
        | None \<Rightarrow>
            (case rotated of
               Some i \<Rightarrow> clients[i := rotate_client env grant present_until (clients ! i)]
             | None \<Rightarrow> drop_quietest clients @ [new_client env grant present_until]))"

definition grant_session_key :: "Env \<Rightarrow> string \<Rightarrow> SessionKeyGrant \<Rightarrow> string \<Rightarrow> Engine \<Rightarrow> bool \<times> Engine" where
  "grant_session_key env identity grant encrypted_with e =
     (if grant_refusal env identity grant e \<noteq> None then (False, e)
      else
        let present_until = en_now e + PRESENCE_LEASE_SECS * 1000 in
        case phone_of identity e of
          None \<Rightarrow> (False, e)
        | Some _ \<Rightarrow>
            let e = e\<lparr>en_paired := update_first (\<lambda>p. pp_pubkey_hex p = identity)
                  (\<lambda>p. p\<lparr>pp_clients := grant_clients env grant encrypted_with (now_secs e) present_until (pp_clients p)\<rparr>)
                  (en_paired e)\<rparr>
            in (True, (store_paired e)\<lparr>en_list_dirty := True\<rparr>))"

text \<open>\<open>paired.iter_mut().flat_map(|p| p.clients.iter_mut())\<close>.\<close>

definition map_clients :: "(PhoneClient \<Rightarrow> PhoneClient) \<Rightarrow> PairedPhone list \<Rightarrow> PairedPhone list" where
  "map_clients f = map (\<lambda>p. p\<lparr>pp_clients := map f (pp_clients p)\<rparr>)"

definition hydrate_devices :: "Env \<Rightarrow> Engine \<Rightarrow> Engine" where
  "hydrate_devices env e =
     (let filled = list_ex (\<lambda>p. list_ex (\<lambda>c. pc_device c = []) (pp_clients p)) (en_paired e);
          e = e\<lparr>en_paired := map_clients (\<lambda>c.
            if pc_device c = [] then c\<lparr>pc_device := device_id env (sg_pubkey_hex (pc_key c))\<rparr> else c) (en_paired e)\<rparr>
      in if filled then store_paired e else e)"

definition lapsed_previous :: "nat \<Rightarrow> PhoneClient \<Rightarrow> bool" where
  "lapsed_previous now c = (case pc_previous c of None \<Rightarrow> False | Some k \<Rightarrow> sg_expires_at k \<le> now)"

definition prune_phone :: "nat \<Rightarrow> PairedPhone \<Rightarrow> PairedPhone" where
  "prune_phone now p =
     p\<lparr>pp_clients := map (\<lambda>c. if lapsed_previous now c then c\<lparr>pc_previous := None\<rparr> else c)
        (filter (\<lambda>c. sg_expires_at (pc_key c) > now) (pp_clients p))\<rparr>"

definition prune_changes :: "nat \<Rightarrow> PairedPhone \<Rightarrow> bool" where
  "prune_changes now p =
     (let kept = filter (\<lambda>c. sg_expires_at (pc_key c) > now) (pp_clients p)
      in length kept \<noteq> length (pp_clients p) \<or> list_ex (lapsed_previous now) kept)"

definition prune_session_keys :: "Engine \<Rightarrow> Engine" where
  "prune_session_keys e =
     (let now = now_secs e;
          changed = list_ex (prune_changes now) (en_paired e);
          e = e\<lparr>en_paired := map (prune_phone now) (en_paired e)\<rparr>
      in if changed then store_paired e else e)"

definition payload_keys :: "string \<Rightarrow> nat \<Rightarrow> Engine \<Rightarrow> string list" where
  "payload_keys identity now e =
     (case phone_of identity e of
        None \<Rightarrow> []
      | Some phone \<Rightarrow>
          let newest = map pc_key (pp_clients phone);
              previous = somes (map pc_previous (pp_clients phone))
          in map sg_pubkey_hex (filter (\<lambda>k. sg_expires_at k > now) (newest @ previous)))"

section \<open>Presence\<close>

text \<open>One message per live part that has kept its text, from offset 0.\<close>

definition catch_up_messages :: "string \<Rightarrow> (string, LivePart) omap \<Rightarrow> BridgeToPhone list" where
  "catch_up_messages session_id parts =
     somes (map (\<lambda>(key, part).
       map_option (\<lambda>text. Partial \<lparr>pm_session_id = session_id, pm_key = key, pm_entry_type = lp_kind part,
         pm_subagent = lp_subagent part, pm_offset = 0, pm_text = text\<rparr>) (kept_text part)) parts)"

definition catch_up_live_text :: "string \<Rightarrow> string \<Rightarrow> string \<Rightarrow> Engine \<Rightarrow> Engine" where
  "catch_up_live_text identity client_key session_id e =
     (case om_get (en_sessions e) session_id of
        None \<Rightarrow> e
      | Some s \<Rightarrow>
          (case es_parts s of
             None \<Rightarrow> e
           | Some parts \<Rightarrow>
               foldl (\<lambda>e m. send_to [\<lparr>ad_phone = identity, ad_key = client_key\<rparr>] m e) e (catch_up_messages session_id parts)))"

text \<open>What a command says of its client: away, the session it watches, the terminal it shows.\<close>

fun presence_of_msg :: "PhoneToBridge \<Rightarrow> bool \<times> string option option \<times> string option option" where
  "presence_of_msg (PresenceCmd m) = (pre_away m, Some (pre_watching m), Some (pre_watching_terminal m))"
| "presence_of_msg _ = (False, None, None)"

definition next_watch :: "bool \<Rightarrow> string option option \<Rightarrow> WatchState \<Rightarrow> WatchState" where
  "next_watch away watch old = (case watch of None \<Rightarrow> old | Some w \<Rightarrow> Watching (if away then None else w))"

definition present_client :: "nat \<Rightarrow> PhoneToBridge \<Rightarrow> PhoneClient \<Rightarrow> PhoneClient" where
  "present_client now msg c =
     (let (away, watch, watch_terminal) = presence_of_msg msg in
      c\<lparr>pc_presumed := False,
        pc_present_until_ms := (if away then 0 else now + PRESENCE_LEASE_SECS * 1000),
        pc_watch := next_watch away watch (pc_watch c),
        pc_watch_terminal := next_watch away watch_terminal (pc_watch_terminal c)\<rparr>)"

text \<open>The session a client starts watching with this command.\<close>

definition starts_watching :: "PhoneToBridge \<Rightarrow> PhoneClient \<Rightarrow> string option" where
  "starts_watching msg c =
     (let (away, watch, _) = presence_of_msg msg; w = next_watch away watch (pc_watch c)
      in if w = pc_watch c then None
         else case w of Watching (Some session) \<Rightarrow> Some session | _ \<Rightarrow> None)"

definition note_presence :: "string \<Rightarrow> string \<Rightarrow> PhoneToBridge \<Rightarrow> Engine \<Rightarrow> bool \<times> Engine" where
  "note_presence identity key msg e =
     (case phone_of identity e of
        None \<Rightarrow> (False, e)
      | Some phone \<Rightarrow>
          (case find (holds_key key) (pp_clients phone) of
             None \<Rightarrow> (False, e)
           | Some client \<Rightarrow>
               let now = en_now e;
                   away = fst (presence_of_msg msg);
                   was_present = (pc_present_until_ms client > now \<and> \<not> pc_presumed client);
                   e = e\<lparr>en_paired := update_first (\<lambda>p. pp_pubkey_hex p = identity)
                     (\<lambda>p. p\<lparr>pp_clients := update_first (holds_key key) (present_client now msg) (pp_clients p)\<rparr>)
                     (en_paired e)\<rparr>;
                   e = (case starts_watching msg client of
                       None \<Rightarrow> e
                     | Some session \<Rightarrow> catch_up_live_text identity (sg_pubkey_hex (pc_key client)) session e)
               in (\<not> away \<and> \<not> was_present, e)))"

definition presume_present :: "Engine \<Rightarrow> Engine" where
  "presume_present e =
     (let until = en_now e + (PRESENCE_RENEW_SECS + 60) * 1000
      in e\<lparr>en_paired := map_clients (\<lambda>c. c\<lparr>pc_present_until_ms := until, pc_presumed := True\<rparr>) (en_paired e)\<rparr>)"

section \<open>Addressing\<close>

definition copy_keys_where :: "string \<Rightarrow> nat \<Rightarrow> (PhoneClient \<Rightarrow> bool) \<Rightarrow> Engine \<Rightarrow> string list" where
  "copy_keys_where identity now_ms wanted e =
     (case phone_of identity e of
        None \<Rightarrow> [identity]
      | Some phone \<Rightarrow>
          let live = filter (\<lambda>c. sg_expires_at (pc_key c) > now_ms div 1000) (pp_clients phone)
          in if live = [] then [identity]
             else map (\<lambda>c. sg_pubkey_hex (pc_key c))
                (filter wanted (filter (\<lambda>c. pc_present_until_ms c > now_ms) live)))"

definition copy_keys :: "string \<Rightarrow> nat \<Rightarrow> Engine \<Rightarrow> string list" where
  "copy_keys identity now_ms e =
     (case phone_of identity e of
        None \<Rightarrow> [identity]
      | Some phone \<Rightarrow>
          let live = filter (\<lambda>c. sg_expires_at (pc_key c) > now_ms div 1000) (pp_clients phone)
          in if live = [] then [identity]
             else map (\<lambda>c. sg_pubkey_hex (pc_key c)) (filter (\<lambda>c. pc_present_until_ms c > now_ms) live))"

definition copy_keys_watching :: "string \<Rightarrow> nat \<Rightarrow> string \<Rightarrow> Engine \<Rightarrow> string list" where
  "copy_keys_watching identity now_ms session e = copy_keys_where identity now_ms (\<lambda>c. ws_wants (pc_watch c) session) e"

definition copy_keys_watching_terminal :: "string \<Rightarrow> nat \<Rightarrow> string \<Rightarrow> Engine \<Rightarrow> string list" where
  "copy_keys_watching_terminal identity now_ms t e = copy_keys_where identity now_ms (\<lambda>c. ws_shows (pc_watch_terminal c) t) e"

datatype Stream = Everyone | SessionStream string | TerminalStream string

fun stream_of :: "BridgeToPhone \<Rightarrow> Stream" where
  "stream_of (Partial m) = SessionStream (pm_session_id m)"
| "stream_of (TerminalOutput m) = TerminalStream (to_term m)"
| "stream_of _ = Everyone"

definition address_one :: "Engine \<Rightarrow> Stream \<Rightarrow> Addressee \<Rightarrow> Addressee list" where
  "address_one e stream a =
     (if ad_key a = [] then
        map (\<lambda>key. \<lparr>ad_phone = ad_phone a, ad_key = key\<rparr>)
          (case stream of
             SessionStream session \<Rightarrow> copy_keys_watching (ad_phone a) (en_now e) session e
           | TerminalStream t \<Rightarrow> copy_keys_watching_terminal (ad_phone a) (en_now e) t e
           | Everyone \<Rightarrow> copy_keys (ad_phone a) (en_now e) e)
      else [a])"

fun address_effect :: "Engine \<Rightarrow> Effect \<Rightarrow> Effect" where
  "address_effect e (Publish to m) = Publish (concat (map (address_one e (stream_of m)) to)) m"
| "address_effect e x = x"

definition address_publishes :: "Engine \<Rightarrow> Effect list \<Rightarrow> Effect list" where
  "address_publishes e xs = map (address_effect e) xs"

fun goes_nowhere :: "Effect \<Rightarrow> bool" where
  "goes_nowhere (Publish to m) = (to = [])"
| "goes_nowhere x = False"

text \<open>The end of \<open>Engine::handle\<close>: the effects are taken, addressed, and the publishes to nobody dropped.\<close>

definition take_effects :: "Engine \<Rightarrow> Effect list \<times> Engine" where
  "take_effects e =
     (filter (\<lambda>x. \<not> goes_nowhere x) (address_publishes e (effects (en_out e))), e\<lparr>en_out := (en_out e)\<lparr>effects := []\<rparr>\<rparr>)"

end
