(* ===== verification/Terminal.thy ===== *)
theory Terminal
  imports Engine
begin

text \<open>
  \<open>crates/bridge-core/src/engine/terminal.rs\<close>: real shells driven from a phone. Every handler is here:
  the three gates, opening and spawning, input ordered by each device's own sequence numbers with a bounded
  hold for gaps, resizing, replay, takeover, closing, the idle limit and the allowlist's kill switch. Every
  decision leaves an audit line.
\<close>

section \<open>Constants and audit lines\<close>

definition DEFAULT_MAX_TERMINALS :: nat where "DEFAULT_MAX_TERMINALS = 4"
definition DEFAULT_IDLE_SECS :: nat where "DEFAULT_IDLE_SECS = 60 * 60"
definition INPUT_GAP_WAIT_MS :: nat where "INPUT_GAP_WAIT_MS = 2000"
definition MAX_INPUT_BYTES :: nat where "MAX_INPUT_BYTES = 64 * 1024"
definition MAX_HELD_INPUTS :: nat where "MAX_HELD_INPUTS = 256"
definition MAX_HELD_INPUT_BYTES :: nat where "MAX_HELD_INPUT_BYTES = 1048576"
definition MAX_PENDING_DEVICES :: nat where "MAX_PENDING_DEVICES = 64"

definition default_terminal_config :: TerminalConfig where
  "default_terminal_config =
     \<lparr>tc_enabled = False, tc_relays_allowed = False, tc_max_terminals = DEFAULT_MAX_TERMINALS,
      tc_idle_secs = DEFAULT_IDLE_SECS, tc_allowlist = \<lparr>al_devices = [], al_pending = []\<rparr>\<rparr>"

text \<open>\<open>format!\<close> of an unsigned integer.\<close>

fun decimal :: "nat \<Rightarrow> string" where
  "decimal n = (if n < 10 then [char_of (48 + n)] else decimal (n div 10) @ [char_of (48 + n mod 10)])"

declare decimal.simps [simp del]

definition npub_of :: "Env \<Rightarrow> string \<Rightarrow> string" where
  "npub_of env identity = (case ev_npub_from_hex env identity of Some npub \<Rightarrow> npub | None \<Rightarrow> identity)"

definition audit_new :: "Env \<Rightarrow> nat \<Rightarrow> string \<Rightarrow> TerminalAuditWhat \<Rightarrow> string \<Rightarrow> TerminalAuditRecord" where
  "audit_new env now t what identity =
     \<lparr>au_at_ms = now, au_term = t, au_what = what, au_identity = npub_of env identity, au_device = None, au_label = None,
      au_via = None, au_cwd = None, au_shell = None, au_cols = None, au_rows = None, au_reason = None, au_code = None,
      au_duration_ms = None, au_why = None\<rparr>"

fun via_of :: "Via \<Rightarrow> TerminalVia" where
  "via_of ViaRelaySub = ViaRelay"
| "via_of ViaDirectSub = ViaDirect"
| "via_of ViaOnionSub = ViaOnion"
| "via_of ViaPairingSub = ViaUnknown"

datatype Held = Mine | Other | Missing

datatype Refusal = Disabled | Transport | NotAllowed | Limit

fun refusal_reason :: "Refusal \<Rightarrow> TerminalEndReason" where
  "refusal_reason Disabled = EndDisabled"
| "refusal_reason Transport = EndTransport"
| "refusal_reason NotAllowed = EndNotAllowed"
| "refusal_reason Limit = EndLimit"

fun refusal_note :: "Refusal \<Rightarrow> string" where
  "refusal_note Disabled = ''the bridge has terminals switched off''"
| "refusal_note Transport = ''a terminal may not be opened over this way''"
| "refusal_note NotAllowed = ''the device is not on the allowlist''"
| "refusal_note Limit = ''the bridge's terminals are full''"

record Actor =
  ac_identity :: string
  ac_key :: string
  ac_device :: "string option"
  ac_label :: "string option"
  ac_via :: TerminalVia

definition actor_addressee :: "Actor \<Rightarrow> Addressee" where
  "actor_addressee a = \<lparr>ad_phone = ac_identity a, ad_key = ac_key a\<rparr>"

definition fill :: "Actor \<Rightarrow> TerminalAuditRecord \<Rightarrow> TerminalAuditRecord" where
  "fill a rec = rec\<lparr>au_device := ac_device a, au_label := ac_label a, au_via := Some (ac_via a)\<rparr>"

section \<open>Terminals\<close>

definition last_seq_of :: "Terminal \<Rightarrow> string \<Rightarrow> nat" where
  "last_seq_of t device = (case om_get (tm_last_seq t) device of Some n \<Rightarrow> n | None \<Rightarrow> 0)"

abbreviation last_seq :: "Terminal \<Rightarrow> nat" where
  "last_seq t \<equiv> last_seq_of t (tm_writer t)"

definition terminals_new :: "TerminalConfig \<Rightarrow> Terminals" where
  "terminals_new config = \<lparr>tt_config = config, tt_open = [], tt_spawning = []\<rparr>"

definition at_capacity :: "Terminals \<Rightarrow> bool" where
  "at_capacity tt = (length (tt_open tt) + length (tt_spawning tt) \<ge> tc_max_terminals (tt_config tt))"

definition held :: "string \<Rightarrow> string \<Rightarrow> Terminals \<Rightarrow> Held" where
  "held t identity tt =
     (case om_get (tt_open tt) t of
        Some x \<Rightarrow> (if tm_identity x = identity then Mine else Other)
      | None \<Rightarrow> Missing)"

definition put_open :: "string \<Rightarrow> Terminal \<Rightarrow> Terminals \<Rightarrow> Terminals" where
  "put_open t x tt = tt\<lparr>tt_open := om_put t x (tt_open tt)\<rparr>"

definition typed :: "nat \<Rightarrow> Terminal \<Rightarrow> Terminal" where
  "typed seq x = x\<lparr>tm_last_seq := om_put (tm_writer x) seq (tm_last_seq x)\<rparr>"

definition apply_input :: "string \<Rightarrow> nat \<Rightarrow> 8 word list \<Rightarrow> Terminals \<times> Out \<Rightarrow> Terminals \<times> Out" where
  "apply_input t seq bytes = (\<lambda>(tt, out).
     case om_get (tt_open tt) t of
       None \<Rightarrow> (tt, out)
     | Some x \<Rightarrow> (put_open t (typed seq x) tt, push (TerminalWrite t bytes) out))"

definition hold :: "string \<Rightarrow> nat \<Rightarrow> 8 word list \<Rightarrow> Terminals \<times> Out \<Rightarrow> string option \<times> Terminals \<times> Out" where
  "hold t seq bytes = (\<lambda>(tt, out).
     case om_get (tt_open tt) t of
       None \<Rightarrow> (None, tt, out)
     | Some x \<Rightarrow>
         let last = last_seq x in
         if seq > sat_add last MAX_HELD_INPUTS then
           (Some (''input at seq '' @ decimal seq @ '' is more than '' @ decimal MAX_HELD_INPUTS @ '' ahead of seq '' @ decimal last), tt, out)
         else
           let x = x\<lparr>tm_pending := om_put seq bytes (tm_pending x)\<rparr>; tt = put_open t x tt in
           if length (tm_pending x) > MAX_HELD_INPUTS then
             (Some (''more than '' @ decimal MAX_HELD_INPUTS @ '' inputs held''), tt, out)
           else if om_sum length (tm_pending x) > MAX_HELD_INPUT_BYTES then
             (Some (''more than '' @ decimal MAX_HELD_INPUT_BYTES @ '' bytes of input held''), tt, out)
           else if tm_gap_timer x = None then
             let (i, out) = set_timer INPUT_GAP_WAIT_MS (TkTerminalGap t) out
             in (None, put_open t (x\<lparr>tm_gap_timer := Some i\<rparr>) tt, out)
           else (None, tt, out))"

text \<open>The loop of \<open>flush_pending\<close>; the flag says that it broke at a missing input rather than running dry.\<close>

function flush_loop :: "string \<Rightarrow> Terminal \<Rightarrow> Out \<Rightarrow> bool \<times> Terminal \<times> Out" where
  "flush_loop t x out =
     (if tm_pending x = [] then (False, x, out)
      else case om_get (tm_pending x) (last_seq x + 1) of
          None \<Rightarrow> (True, x, out)
        | Some bytes \<Rightarrow>
            flush_loop t (typed (last_seq x + 1) (x\<lparr>tm_pending := om_del (last_seq x + 1) (tm_pending x)\<rparr>))
              (push (TerminalWrite t bytes) out))"
  by pat_completeness auto
termination
  by (relation "measure (\<lambda>(t, x, out). length (tm_pending x))") (auto simp: typed_def intro: length_om_del_Some)

declare flush_loop.simps [simp del]

definition flush_pending :: "string \<Rightarrow> Terminals \<times> Out \<Rightarrow> Terminals \<times> Out" where
  "flush_pending t = (\<lambda>(tt, out).
     case om_get (tt_open tt) t of
       None \<Rightarrow> (tt, out)
     | Some x \<Rightarrow>
         let (broke, x, out) = flush_loop t x out in
         if \<not> broke then (put_open t x tt, out)
         else
           let out = (case tm_gap_timer x of Some i \<Rightarrow> cancel_timer i out | None \<Rightarrow> out);
               x = x\<lparr>tm_gap_timer := None\<rparr>
           in if tm_pending x \<noteq> [] then
                let (i, out) = set_timer INPUT_GAP_WAIT_MS (TkTerminalGap t) out
                in (put_open t (x\<lparr>tm_gap_timer := Some i\<rparr>) tt, out)
              else (put_open t x tt, out))"

section \<open>Engine helpers\<close>

definition terminals_enabled :: "Engine \<Rightarrow> bool" where
  "terminals_enabled e = tc_enabled (tt_config (en_terminals e))"

definition open_terminal :: "string \<Rightarrow> Engine \<Rightarrow> Terminal option" where
  "open_terminal t e = om_get (tt_open (en_terminals e)) t"

definition set_terminal :: "string \<Rightarrow> Terminal \<Rightarrow> Engine \<Rightarrow> Engine" where
  "set_terminal t x e = e\<lparr>en_terminals := put_open t x (en_terminals e)\<rparr>"

definition with_terminals :: "(Terminals \<times> Out \<Rightarrow> Terminals \<times> Out) \<Rightarrow> Engine \<Rightarrow> Engine" where
  "with_terminals f e = (let (tt, out) = f (en_terminals e, en_out e) in e\<lparr>en_terminals := tt, en_out := out\<rparr>)"

definition client_of_device :: "string \<Rightarrow> string \<Rightarrow> Engine \<Rightarrow> PhoneClient option" where
  "client_of_device identity device e =
     (case phone_of identity e of
        None \<Rightarrow> None
      | Some phone \<Rightarrow> find (\<lambda>c. pc_device c = device) (pp_clients phone))"

definition terminal_label :: "string \<Rightarrow> string \<Rightarrow> Engine \<Rightarrow> string option" where
  "terminal_label identity device e =
     (case client_of_device identity device e of None \<Rightarrow> None | Some c \<Rightarrow> pc_label c)"

definition terminal_key_of :: "string \<Rightarrow> string \<Rightarrow> Engine \<Rightarrow> string option" where
  "terminal_key_of identity device e = map_option (\<lambda>c. sg_pubkey_hex (pc_key c)) (client_of_device identity device e)"

definition terminal_infos :: "string \<Rightarrow> Engine \<Rightarrow> TerminalInfo list" where
  "terminal_infos identity e =
     map (\<lambda>(i, t). \<lparr>ti_term = i, ti_shell = tm_shell t, ti_opened = tm_opened_ms t, ti_device = tm_opener t,
         ti_name = terminal_label (tm_identity t) (tm_opener t) e, ti_writer = tm_writer t, ti_cols = tm_cols t, ti_rows = tm_rows t\<rparr>)
       (filter (\<lambda>(i, t). tm_identity t = identity) (tt_open (en_terminals e)))"

definition terminal_actor :: "TerminalVia \<Rightarrow> Engine \<Rightarrow> Actor option" where
  "terminal_actor via e =
     (case en_requester e of
        None \<Rightarrow> None
      | Some requester \<Rightarrow>
          (case phone_of (ad_phone requester) e of
             None \<Rightarrow> None
           | Some phone \<Rightarrow>
               let client = find (holds_key (ad_key requester)) (pp_clients phone) in
               Some \<lparr>ac_identity = ad_phone requester, ac_key = ad_key requester,
                 ac_device = (case client of Some c \<Rightarrow> (if pc_device c = [] then None else Some (pc_device c)) | None \<Rightarrow> None),
                 ac_label = (case client of Some c \<Rightarrow> pc_label c | None \<Rightarrow> None), ac_via = via\<rparr>))"

definition terminal_refusal :: "Actor \<Rightarrow> Engine \<Rightarrow> Refusal option" where
  "terminal_refusal actor e =
     (if \<not> terminals_enabled e then Some Disabled
      else if ac_via actor = ViaRelay \<and> \<not> tc_relays_allowed (tt_config (en_terminals e)) then Some Transport
      else case ac_device actor of
          Some device \<Rightarrow>
            (if device \<in> set (al_devices (tc_allowlist (tt_config (en_terminals e)))) then None else Some NotAllowed)
        | None \<Rightarrow> Some NotAllowed)"

definition audit :: "TerminalAuditRecord \<Rightarrow> Engine \<Rightarrow> Engine" where
  "audit rec e = emit (Audit rec) e"

definition terminal_event :: "string \<Rightarrow> TerminalEventKind \<Rightarrow> string \<Rightarrow> string \<Rightarrow> TerminalVia \<Rightarrow> Engine \<Rightarrow> Engine" where
  "terminal_event t what device identity via e =
     send_identity identity (TerminalEvent \<lparr>tv_term = t, tv_what = what, tv_device = device,
       tv_name = terminal_label identity device e, tv_via = via, tv_at = en_now e\<rparr>) e"

definition live_devices :: "Engine \<Rightarrow> string list" where
  "live_devices e = sort (remdups (filter (\<lambda>d. d \<noteq> []) (map pc_device (concat (map pp_clients (en_paired e))))))"

text \<open>\<open>sort_by_key\<close> is stable; past the limit the oldest go.\<close>

definition cap_pending :: "PendingDevice list \<Rightarrow> PendingDevice list" where
  "cap_pending pending = keep_newest MAX_PENDING_DEVICES (sort_key pd_last_seen_ms pending)"

definition set_allowlist :: "TerminalAllowlist \<Rightarrow> Engine \<Rightarrow> Engine" where
  "set_allowlist l e = e\<lparr>en_terminals := (en_terminals e)\<lparr>tt_config := (tt_config (en_terminals e))\<lparr>tc_allowlist := l\<rparr>\<rparr>\<rparr>"

abbreviation allowlist :: "Engine \<Rightarrow> TerminalAllowlist" where
  "allowlist e \<equiv> tc_allowlist (tt_config (en_terminals e))"

definition note_pending :: "Actor \<Rightarrow> Engine \<Rightarrow> Engine" where
  "note_pending actor e =
     (case ac_device actor of
        None \<Rightarrow> e
      | Some device \<Rightarrow>
          let pending = cap_pending (filter (\<lambda>p. pd_device p \<noteq> device) (al_pending (allowlist e))
                @ [\<lparr>pd_device = device, pd_label = ac_label actor, pd_last_seen_ms = en_now e\<rparr>]);
              e = set_allowlist ((allowlist e)\<lparr>al_pending := pending\<rparr>) e
          in emit (TerminalDevices pending (live_devices e)) e)"

definition forget_gone_devices :: "Engine \<Rightarrow> Engine" where
  "forget_gone_devices e =
     (let live = live_devices e;
          devices = filter (\<lambda>d. d \<in> set live) (al_devices (allowlist e));
          pending = filter (\<lambda>p. pd_device p \<in> set live) (al_pending (allowlist e))
      in if (length devices, length pending) = (length (al_devices (allowlist e)), length (al_pending (allowlist e))) then e
         else emit (TerminalDevices pending live) (set_allowlist \<lparr>al_devices = devices, al_pending = pending\<rparr> e))"

definition refuse_open :: "Env \<Rightarrow> string \<Rightarrow> Actor \<Rightarrow> Refusal \<Rightarrow> string option \<Rightarrow> Engine \<Rightarrow> Engine" where
  "refuse_open env open_id actor why note e =
     (let e = send_to [actor_addressee actor] (TerminalExited \<lparr>te_term = None, te_open_id = Some open_id, te_code = None,
            te_reason = refusal_reason why, te_device = (if why = NotAllowed then ac_device actor else None)\<rparr>) e;
          rec = (fill actor (audit_new env (en_now e) open_id AuRefused (ac_identity actor)))
            \<lparr>au_reason := Some (refusal_reason why), au_why := note\<rparr>;
          e = audit rec e
      in if why = NotAllowed then note_pending actor e else e)"

definition refuse_term :: "Env \<Rightarrow> string \<Rightarrow> Actor \<Rightarrow> Refusal \<Rightarrow> Engine \<Rightarrow> Engine" where
  "refuse_term env t actor why e =
     (let e = send_to [actor_addressee actor] (TerminalExited \<lparr>te_term = Some t, te_open_id = None, te_code = None,
            te_reason = refusal_reason why, te_device = (if why = NotAllowed then ac_device actor else None)\<rparr>) e;
          rec = (fill actor (audit_new env (en_now e) t AuRefused (ac_identity actor)))
            \<lparr>au_reason := Some (refusal_reason why), au_why := Some (refusal_note why)\<rparr>;
          e = audit rec e
      in if why = NotAllowed then note_pending actor e else e)"

definition refuse_missing :: "Env \<Rightarrow> string \<Rightarrow> Actor \<Rightarrow> string \<Rightarrow> Engine \<Rightarrow> Engine" where
  "refuse_missing env t actor why e =
     (let e = send_to [actor_addressee actor] (TerminalExited \<lparr>te_term = Some t, te_open_id = None, te_code = None,
            te_reason = EndClosed, te_device = None\<rparr>) e
      in audit ((fill actor (audit_new env (en_now e) t AuRefused (ac_identity actor)))\<lparr>au_why := Some why\<rparr>) e)"

definition terminal_is_mine :: "Env \<Rightarrow> string \<Rightarrow> Actor \<Rightarrow> Engine \<Rightarrow> bool \<times> Engine" where
  "terminal_is_mine env t actor e =
     (case held t (ac_identity actor) (en_terminals e) of
        Mine \<Rightarrow> (True, e)
      | Other \<Rightarrow> (False, refuse_missing env t actor ''it is another identity's terminal'' e)
      | Missing \<Rightarrow> (False, refuse_missing env t actor ''the bridge has no such terminal'' e))"

section \<open>Handlers\<close>

text \<open>
  The head every handler of a message about an open terminal shares: who asks, the gates in order, and
  whether the terminal is its identity's. The body runs for an actor past all of them.
\<close>

definition gated :: "Env \<Rightarrow> string \<Rightarrow> TerminalVia \<Rightarrow> (Actor \<Rightarrow> Engine \<Rightarrow> Engine) \<Rightarrow> Engine \<Rightarrow> Engine" where
  "gated env t via body e =
     (case terminal_actor via e of
        None \<Rightarrow> e
      | Some actor \<Rightarrow>
          (case terminal_refusal actor e of
             Some why \<Rightarrow> refuse_term env t actor why e
           | None \<Rightarrow>
               let (mine, e) = terminal_is_mine env t actor e
               in if mine then body actor e else e))"

definition on_terminal_open :: "Env \<Rightarrow> TerminalOpenMsg \<Rightarrow> TerminalVia \<Rightarrow> Engine \<Rightarrow> Engine" where
  "on_terminal_open env m via e =
     (case terminal_actor via e of
        None \<Rightarrow> e
      | Some actor \<Rightarrow>
          (case terminal_refusal actor e of
             Some why \<Rightarrow> refuse_open env (tom_open_id m) actor why None e
           | None \<Rightarrow>
               if at_capacity (en_terminals e) then refuse_open env (tom_open_id m) actor Limit None e
               else
                 let named = (case tom_session m of
                       None \<Rightarrow> None
                     | Some i \<Rightarrow> map_option es_cwd (om_get (en_sessions e) i));
                     cwd = (case named of Some cwd \<Rightarrow> cwd | None \<Rightarrow> ev_workspace_cwd env);
                     t = ev_new_id env (en_ids e);
                     e = e\<lparr>en_ids := en_ids e + 1,
                       en_terminals := (en_terminals e)\<lparr>tt_spawning := om_put t
                         \<lparr>po_identity = ac_identity actor, po_asker = actor_addressee actor, po_device = ac_device actor,
                          po_label = ac_label actor, po_via = via, po_cwd = cwd, po_cols = tom_cols m, po_rows = tom_rows m,
                          po_open_id = tom_open_id m, po_exited = None\<rparr> (tt_spawning (en_terminals e))\<rparr>\<rparr>
                 in emit (TerminalSpawn t cwd (tom_cols m) (tom_rows m)) e))"

text \<open>The clients showing a terminal that is over are left showing none.\<close>

definition unwatch :: "string \<Rightarrow> string \<Rightarrow> PairedPhone list \<Rightarrow> PairedPhone list" where
  "unwatch identity t paired =
     map (\<lambda>p. if pp_pubkey_hex p = identity
        then p\<lparr>pp_clients := map (\<lambda>c. if ws_shows (pc_watch_terminal c) t then c\<lparr>pc_watch_terminal := Watching None\<rparr> else c) (pp_clients p)\<rparr>
        else p) paired"

definition end_terminal :: "Env \<Rightarrow> string \<Rightarrow> TerminalEndReason \<Rightarrow> int option \<Rightarrow> Actor option \<Rightarrow> Engine \<Rightarrow> Engine" where
  "end_terminal env t reason code actor e =
     (case open_terminal t e of
        None \<Rightarrow> e
      | Some x \<Rightarrow>
          let e = e\<lparr>en_terminals := (en_terminals e)\<lparr>tt_open := om_del t (tt_open (en_terminals e))\<rparr>\<rparr>;
              e = disarm_timer (tm_idle_timer x) (disarm_timer (tm_gap_timer x) e);
              e = (if reason \<in> {EndExit, EndTransport, EndRestart} then e else emit (TerminalClose t) e);
              e = send_identity (tm_identity x) (TerminalExited \<lparr>te_term = Some t, te_open_id = None, te_code = code,
                    te_reason = reason, te_device = None\<rparr>) e;
              device = (case actor of
                  Some a \<Rightarrow> (case ac_device a of Some d \<Rightarrow> d | None \<Rightarrow> tm_opener x)
                | None \<Rightarrow> tm_opener x);
              via = (case actor of Some a \<Rightarrow> ac_via a | None \<Rightarrow> tm_via x);
              e = (if device = [] then e
                   else terminal_event t (if reason = EndClosed then EvClosed else EvExited) device (tm_identity x) via e);
              e = e\<lparr>en_paired := unwatch (tm_identity x) t (en_paired e)\<rparr>;
              rec = (audit_new env (en_now e) t (if reason = EndClosed then AuClosed else AuExited) (tm_identity x))
                \<lparr>au_label := terminal_label (tm_identity x) device e, au_device := (if device = [] then None else Some device),
                 au_via := Some via, au_cwd := Some (tm_cwd x), au_shell := Some (tm_shell x), au_cols := Some (tm_cols x),
                 au_rows := Some (tm_rows x), au_reason := Some reason, au_code := code,
                 au_duration_ms := Some (sat_sub (en_now e) (tm_opened_ms x))\<rparr>
          in (audit rec e)\<lparr>en_list_dirty := True\<rparr>)"

text \<open>\<open>idle_secs * 1000\<close>, a \<open>u64\<close> product.\<close>

definition idle_ms :: "Engine \<Rightarrow> nat" where
  "idle_ms e = (tc_idle_secs (tt_config (en_terminals e)) * 1000) mod 2 ^ 64"

definition arm_idle :: "string \<Rightarrow> Engine \<Rightarrow> TimerId option \<times> Engine" where
  "arm_idle t e =
     (if 0 < idle_ms e then let (i, e) = arm_timer (idle_ms e) (TkTerminalIdle t) e in (Some i, e) else (None, e))"

text \<open>The terminal an open becomes, told to its asker and its identity and audited.\<close>

definition open_spawned :: "Env \<Rightarrow> string \<Rightarrow> string \<Rightarrow> PendingOpen \<Rightarrow> Engine \<Rightarrow> Engine" where
  "open_spawned env t shell po e =
     (let e = e\<lparr>en_terminals := (en_terminals e)\<lparr>tt_spawning := om_del t (tt_spawning (en_terminals e))\<rparr>\<rparr>;
          now = en_now e;
          e = send_to [po_asker po] (TerminalOpened (po_open_id po) t shell) e;
          (idle, e) = arm_idle t e;
          opener = (case po_device po of Some d \<Rightarrow> d | None \<Rightarrow> []);
          e = set_terminal t \<lparr>tm_identity = po_identity po, tm_shell = shell, tm_opener = opener, tm_writer = opener,
                tm_cols = po_cols po, tm_rows = po_rows po, tm_cwd = po_cwd po, tm_opened_ms = now, tm_via = po_via po,
                tm_last_seq = [], tm_pending = [], tm_gap_timer = None, tm_idle_timer = idle\<rparr> e;
          e = e\<lparr>en_list_dirty := True\<rparr>;
          e = (case po_device po of
              Some device \<Rightarrow> terminal_event t EvOpened device (po_identity po) (po_via po) e
            | None \<Rightarrow> e)
      in audit ((audit_new env now t AuOpened (po_identity po))
           \<lparr>au_device := po_device po, au_label := po_label po, au_via := Some (po_via po), au_cwd := Some (po_cwd po),
            au_shell := Some shell, au_cols := Some (po_cols po), au_rows := Some (po_rows po)\<rparr>) e)"

definition on_terminal_spawned :: "Env \<Rightarrow> string \<Rightarrow> string \<Rightarrow> Engine \<Rightarrow> Engine" where
  "on_terminal_spawned env t shell e =
     (case om_get (tt_spawning (en_terminals e)) t of
        None \<Rightarrow> e
      | Some po \<Rightarrow>
          let e = open_spawned env t shell po e
          in case po_exited po of
              Some (code, reason) \<Rightarrow> end_terminal env t reason code None e
            | None \<Rightarrow> e)"

definition on_terminal_spawn_failed :: "Env \<Rightarrow> string \<Rightarrow> string \<Rightarrow> Engine \<Rightarrow> Engine" where
  "on_terminal_spawn_failed env t note e =
     (case om_get (tt_spawning (en_terminals e)) t of
        None \<Rightarrow> e
      | Some po \<Rightarrow>
          let e = e\<lparr>en_terminals := (en_terminals e)\<lparr>tt_spawning := om_del t (tt_spawning (en_terminals e))\<rparr>\<rparr>;
              e = send_to [po_asker po] (TerminalExited \<lparr>te_term = None, te_open_id = Some (po_open_id po), te_code = None,
                    te_reason = EndTransport, te_device = None\<rparr>) e
          in audit ((audit_new env (en_now e) (po_open_id po) AuRefused (po_identity po))
               \<lparr>au_device := po_device po, au_label := po_label po, au_via := Some (po_via po), au_cwd := Some (po_cwd po),
                au_reason := Some EndTransport, au_why := Some note\<rparr>) e)"

definition on_terminal_output :: "string \<Rightarrow> nat \<Rightarrow> string \<Rightarrow> Engine \<Rightarrow> Engine" where
  "on_terminal_output t offset data e =
     (case open_terminal t e of
        None \<Rightarrow> e
      | Some x \<Rightarrow> send_identity (tm_identity x)
          (TerminalOutput \<lparr>to_term = t, to_offset = offset, to_data = data, to_replay = None\<rparr>) e)"

definition on_terminal_exited :: "Env \<Rightarrow> string \<Rightarrow> int option \<Rightarrow> TerminalEndReason \<Rightarrow> Engine \<Rightarrow> Engine" where
  "on_terminal_exited env t code reason e =
     (case om_get (tt_spawning (en_terminals e)) t of
        Some po \<Rightarrow> e\<lparr>en_terminals := (en_terminals e)\<lparr>tt_spawning :=
            om_put t (po\<lparr>po_exited := Some (code, reason)\<rparr>) (tt_spawning (en_terminals e))\<rparr>\<rparr>
      | None \<Rightarrow> end_terminal env t reason code None e)"

definition refuse_input :: "Env \<Rightarrow> string \<Rightarrow> Actor \<Rightarrow> nat \<Rightarrow> string \<Rightarrow> Engine \<Rightarrow> Engine" where
  "refuse_input env t actor seq why e =
     audit ((fill actor (audit_new env (en_now e) t AuRefused (ac_identity actor)))
       \<lparr>au_why := Some (''seq '' @ decimal seq @ '': '' @ why)\<rparr>) e"

definition resend_from :: "Env \<Rightarrow> string \<Rightarrow> string \<Rightarrow> Engine \<Rightarrow> Engine" where
  "resend_from env t why e =
     (case open_terminal t e of
        None \<Rightarrow> e
      | Some x \<Rightarrow>
          let e = set_terminal t (x\<lparr>tm_pending := [], tm_gap_timer := None\<rparr>) e;
              e = disarm_timer (tm_gap_timer x) e;
              e = (case terminal_key_of (tm_identity x) (tm_writer x) e of
                  Some key \<Rightarrow> send_to [\<lparr>ad_phone = tm_identity x, ad_key = key\<rparr>] (TerminalInputFrom t (last_seq x + 1)) e
                | None \<Rightarrow> e)
          in audit ((audit_new env (en_now e) t AuRefused (tm_identity x))
               \<lparr>au_device := Some (tm_writer x), au_label := terminal_label (tm_identity x) (tm_writer x) e, au_why := Some why\<rparr>) e)"

text \<open>Input ahead of the one before it: held, or what is held is dropped and asked for again.\<close>

definition hold_or_resend :: "Env \<Rightarrow> TerminalInputMsg \<Rightarrow> 8 word list \<Rightarrow> Engine \<Rightarrow> Engine" where
  "hold_or_resend env m bytes e =
     (let (why, tt, out) = hold (tim_term m) (tim_seq m) bytes (en_terminals e, en_out e);
          e = e\<lparr>en_terminals := tt, en_out := out\<rparr>
      in case why of Some why \<Rightarrow> resend_from env (tim_term m) why e | None \<Rightarrow> e)"

definition input_body :: "Env \<Rightarrow> TerminalInputMsg \<Rightarrow> Actor \<Rightarrow> Engine \<Rightarrow> Engine" where
  "input_body env m actor e =
     (case open_terminal (tim_term m) e of
        None \<Rightarrow> e
      | Some x \<Rightarrow>
          if ac_device actor \<noteq> Some (tm_writer x) then e
          else if tim_seq m \<le> last_seq x then e
          else case ev_base64_decode env (tim_data m) of
              None \<Rightarrow> refuse_input env (tim_term m) actor (tim_seq m) ''input that is not base64'' e
            | Some bytes \<Rightarrow>
                if length bytes > MAX_INPUT_BYTES then
                  refuse_input env (tim_term m) actor (tim_seq m) (''input of '' @ decimal (length bytes) @ '' bytes'') e
                else if tim_seq m = last_seq x + 1 then
                  with_terminals (flush_pending (tim_term m)) (with_terminals (apply_input (tim_term m) (tim_seq m) bytes) e)
                else hold_or_resend env m bytes e)"

definition on_terminal_input :: "Env \<Rightarrow> TerminalInputMsg \<Rightarrow> TerminalVia \<Rightarrow> Engine \<Rightarrow> Engine" where
  "on_terminal_input env m via = gated env (tim_term m) via (input_body env m)"

definition on_terminal_gap :: "Env \<Rightarrow> string \<Rightarrow> Engine \<Rightarrow> Engine" where
  "on_terminal_gap env t e =
     (case open_terminal t e of
        None \<Rightarrow> e
      | Some x \<Rightarrow>
          let e = set_terminal t (x\<lparr>tm_gap_timer := None\<rparr>) e
          in if tm_pending x = [] then e
             else resend_from env t (''seq '' @ decimal (last_seq x + 1) @ '' never arrived'') e)"

definition on_terminal_resize :: "Env \<Rightarrow> string \<Rightarrow> nat \<Rightarrow> nat \<Rightarrow> TerminalVia \<Rightarrow> Engine \<Rightarrow> Engine" where
  "on_terminal_resize env t cols rows via =
     gated env t via (\<lambda>actor e.
       case open_terminal t e of
         None \<Rightarrow> e
       | Some x \<Rightarrow>
           if ac_device actor \<noteq> Some (tm_writer x) then e
           else
             let e = set_terminal t (x\<lparr>tm_cols := cols, tm_rows := rows\<rparr>) e;
                 e = emit (TerminalResize t cols rows) e
             in audit ((fill actor (audit_new env (en_now e) t AuResized (ac_identity actor)))
                  \<lparr>au_cols := Some cols, au_rows := Some rows\<rparr>) e)"

definition client_watches_terminal :: "string \<Rightarrow> string \<Rightarrow> string \<Rightarrow> Engine \<Rightarrow> bool" where
  "client_watches_terminal identity key t e =
     (case phone_of identity e of
        None \<Rightarrow> False
      | Some p \<Rightarrow>
          (case find (holds_key key) (pp_clients p) of
             None \<Rightarrow> False
           | Some c \<Rightarrow> ws_shows (pc_watch_terminal c) t))"

definition on_terminal_replay :: "Env \<Rightarrow> string \<Rightarrow> nat \<Rightarrow> TerminalVia \<Rightarrow> Engine \<Rightarrow> Engine" where
  "on_terminal_replay env t start via =
     gated env t via (\<lambda>actor e.
       let e = (if client_watches_terminal (ac_identity actor) (ac_key actor) t e then e
            else case ac_device actor of
                Some device \<Rightarrow> terminal_event t EvAttached device (ac_identity actor) via e
              | None \<Rightarrow> e);
           e = emit (TerminalReplay t start (actor_addressee actor)) e
       in audit ((fill actor (audit_new env (en_now e) t AuAttached (ac_identity actor)))
            \<lparr>au_why := Some (''sent its output from byte '' @ decimal start)\<rparr>) e)"

definition hand_writer :: "string \<Rightarrow> string \<Rightarrow> Engine \<Rightarrow> bool \<times> Engine" where
  "hand_writer t device e =
     (case open_terminal t e of
        None \<Rightarrow> (False, e)
      | Some x \<Rightarrow>
          let e = set_terminal t (x\<lparr>tm_writer := device, tm_pending := [], tm_gap_timer := None\<rparr>) e;
              e = disarm_timer (tm_gap_timer x) e
          in (True, case terminal_key_of (tm_identity x) device e of
                Some key \<Rightarrow> send_to [\<lparr>ad_phone = tm_identity x, ad_key = key\<rparr>] (TerminalInputFrom t (last_seq_of x device + 1)) e
              | None \<Rightarrow> e))"

definition on_terminal_takeover :: "Env \<Rightarrow> string \<Rightarrow> TerminalVia \<Rightarrow> Engine \<Rightarrow> Engine" where
  "on_terminal_takeover env t via =
     gated env t via (\<lambda>actor e.
       case ac_device actor of
         None \<Rightarrow> e
       | Some device \<Rightarrow>
           if (case open_terminal t e of Some x \<Rightarrow> tm_writer x = device | None \<Rightarrow> False) then e
           else
             let (handed, e) = hand_writer t device e in
             if \<not> handed then e
             else
               let e = terminal_event t EvTakeover device (ac_identity actor) via e
               in audit (fill actor (audit_new env (en_now e) t AuTakeover (ac_identity actor))) e)"

definition on_terminal_close :: "Env \<Rightarrow> string \<Rightarrow> TerminalVia \<Rightarrow> Engine \<Rightarrow> Engine" where
  "on_terminal_close env t via =
     gated env t via (\<lambda>actor e.
       if ac_device actor \<noteq> map_option tm_writer (open_terminal t e) then e
       else end_terminal env t EndClosed None (Some actor) e)"

definition close_identity_terminals :: "Env \<Rightarrow> string \<Rightarrow> TerminalEndReason \<Rightarrow> Engine \<Rightarrow> Engine" where
  "close_identity_terminals env identity reason e =
     foldl (\<lambda>e t. end_terminal env t reason None None e) e
       (map fst (filter (\<lambda>(i, x). tm_identity x = identity) (tt_open (en_terminals e))))"

definition client_attached :: "string \<Rightarrow> Engine \<Rightarrow> bool" where
  "client_attached t e =
     (case open_terminal t e of
        None \<Rightarrow> False
      | Some x \<Rightarrow>
          list_ex (\<lambda>c. pc_present_until_ms c > en_now e \<and> ws_shows (pc_watch_terminal c) t)
            (concat (map pp_clients (filter (\<lambda>p. pp_pubkey_hex p = tm_identity x) (en_paired e)))))"

definition on_terminal_idle :: "Env \<Rightarrow> string \<Rightarrow> Engine \<Rightarrow> Engine" where
  "on_terminal_idle env t e =
     (let e = (case open_terminal t e of Some x \<Rightarrow> set_terminal t (x\<lparr>tm_idle_timer := None\<rparr>) e | None \<Rightarrow> e)
      in if client_attached t e then
           (if 0 < idle_ms e then
              let (i, e) = arm_timer (idle_ms e) (TkTerminalIdle t) e
              in case open_terminal t e of Some x \<Rightarrow> set_terminal t (x\<lparr>tm_idle_timer := Some i\<rparr>) e | None \<Rightarrow> e
            else e)
         else end_terminal env t EndIdle None None e)"

text \<open>One device of the engine's own pending list, merged into the list read again.\<close>

definition merge_pending :: "PendingDevice list \<Rightarrow> PendingDevice \<Rightarrow> PendingDevice list" where
  "merge_pending merged old =
     (case find (\<lambda>p. pd_device p = pd_device old) merged of
        Some kept \<Rightarrow>
          (if pd_last_seen_ms kept \<ge> pd_last_seen_ms old then merged
           else update_first (\<lambda>p. pd_device p = pd_device old) (\<lambda>_. old) merged)
      | None \<Rightarrow> merged @ [old])"

definition withdraw :: "Env \<Rightarrow> string list \<Rightarrow> Engine \<Rightarrow> string \<times> string \<times> string \<times> string \<times> TerminalVia \<Rightarrow> Engine" where
  "withdraw env allowed = (\<lambda>e (t, identity, opener, writer, via).
     if opener \<noteq> [] \<and> opener \<notin> set allowed then end_terminal env t EndKilled None None e
     else if writer \<noteq> [] \<and> writer \<noteq> opener \<and> writer \<notin> set allowed then
       let (handed, e) = hand_writer t opener e in
       if handed then
         let e = terminal_event t EvTakeover opener identity via e
         in audit ((audit_new env (en_now e) t AuTakeover identity)
              \<lparr>au_label := terminal_label identity opener e, au_device := Some opener, au_via := Some via,
               au_why := Some (''the writer '' @ writer @ '' was withdrawn from the allowlist'')\<rparr>) e
       else e
     else e)"

definition on_terminal_allowlist :: "Env \<Rightarrow> TerminalAllowlist \<Rightarrow> Engine \<Rightarrow> Engine" where
  "on_terminal_allowlist env l e =
     (let merged = l\<lparr>al_pending := cap_pending (foldl merge_pending (al_pending l) (al_pending (allowlist e)))\<rparr>;
          e = set_allowlist merged e
      in foldl (withdraw env (al_devices merged)) e
           (map (\<lambda>(i, x). (i, tm_identity x, tm_opener x, tm_writer x, tm_via x)) (tt_open (en_terminals e))))"

end
