(* ===== verification/TerminalState.thy ===== *)
theory TerminalState
  imports Terminal
begin

text \<open>
  The state the terminals keep: frame lemmas for every helper of the handlers, and the invariant that ties
  the open terminals to the timers armed for them, the limit on how many run, and the bounds on held input.
\<close>

section \<open>Frames\<close>

text \<open>What the invariant reads of an engine.\<close>

definition tview :: "Engine \<Rightarrow> _" where
  "tview e = (tt_open (en_terminals e), tt_spawning (en_terminals e), tc_max_terminals (tt_config (en_terminals e)),
     tc_idle_secs (tt_config (en_terminals e)), timers (en_out e), delays (en_out e), next_timer (en_out e), en_ids e, en_pairing e)"

named_theorems frames \<open>fields a helper leaves alone\<close>

lemma emit_frames [simp, frames]:
  "en_terminals (emit x e) = en_terminals e" "en_paired (emit x e) = en_paired e" "en_now (emit x e) = en_now e"
  "en_requester (emit x e) = en_requester e" "en_ids (emit x e) = en_ids e" "en_pairing (emit x e) = en_pairing e"
  "en_pubkey_hex (emit x e) = en_pubkey_hex e" "timers (en_out (emit x e)) = timers (en_out e)"
  "delays (en_out (emit x e)) = delays (en_out e)" "next_timer (en_out (emit x e)) = next_timer (en_out e)"
  "effects (en_out (emit x e)) = effects (en_out e) @ [x]"
  by (simp_all add: emit_def)

lemma send_to_frames [simp, frames]:
  "en_terminals (send_to to m e) = en_terminals e" "en_paired (send_to to m e) = en_paired e"
  "en_now (send_to to m e) = en_now e" "en_requester (send_to to m e) = en_requester e" "en_ids (send_to to m e) = en_ids e"
  "en_pairing (send_to to m e) = en_pairing e" "en_pubkey_hex (send_to to m e) = en_pubkey_hex e"
  "timers (en_out (send_to to m e)) = timers (en_out e)" "delays (en_out (send_to to m e)) = delays (en_out e)"
  "next_timer (en_out (send_to to m e)) = next_timer (en_out e)"
  "effects (en_out (send_to to m e)) = effects (en_out e) @ (if to = [] then [] else [Publish to m])"
  by (simp_all add: send_to_def)

lemma send_identity_frames [simp, frames]:
  "en_terminals (send_identity p m e) = en_terminals e" "en_paired (send_identity p m e) = en_paired e"
  "en_now (send_identity p m e) = en_now e" "en_requester (send_identity p m e) = en_requester e"
  "en_ids (send_identity p m e) = en_ids e" "en_pairing (send_identity p m e) = en_pairing e"
  "en_pubkey_hex (send_identity p m e) = en_pubkey_hex e" "timers (en_out (send_identity p m e)) = timers (en_out e)"
  "delays (en_out (send_identity p m e)) = delays (en_out e)"
  "next_timer (en_out (send_identity p m e)) = next_timer (en_out e)"
  "effects (en_out (send_identity p m e)) = effects (en_out e) @ [Publish [to_identity p] m]"
  by (simp_all add: send_identity_def)

lemma disarm_timer_frames [simp, frames]:
  "en_terminals (disarm_timer t e) = en_terminals e" "en_paired (disarm_timer t e) = en_paired e"
  "en_now (disarm_timer t e) = en_now e" "en_requester (disarm_timer t e) = en_requester e" "en_ids (disarm_timer t e) = en_ids e"
  "en_pairing (disarm_timer t e) = en_pairing e" "en_pubkey_hex (disarm_timer t e) = en_pubkey_hex e"
  by (simp_all add: disarm_timer_def split: option.splits)

lemma set_terminal_frames [simp, frames]:
  "en_paired (set_terminal t x e) = en_paired e" "en_now (set_terminal t x e) = en_now e" "en_out (set_terminal t x e) = en_out e"
  "en_requester (set_terminal t x e) = en_requester e" "en_ids (set_terminal t x e) = en_ids e"
  "en_pairing (set_terminal t x e) = en_pairing e" "en_pubkey_hex (set_terminal t x e) = en_pubkey_hex e"
  "tt_open (en_terminals (set_terminal t x e)) = om_put t x (tt_open (en_terminals e))"
  "tt_spawning (en_terminals (set_terminal t x e)) = tt_spawning (en_terminals e)"
  "tt_config (en_terminals (set_terminal t x e)) = tt_config (en_terminals e)"
  by (simp_all add: set_terminal_def put_open_def)

lemmas helper_defs = audit_def terminal_event_def

lemma tview_emit [simp]: "tview (emit x e) = tview e"
  by (simp add: tview_def)

lemma tview_send [simp]: "tview (send_to to m e) = tview e" "tview (send_identity p m e) = tview e"
  by (simp_all add: tview_def)

lemma tview_helpers [simp]:
  "tview (audit rec e) = tview e" "tview (terminal_event t what d i via e) = tview e"
  by (simp_all add: helper_defs)

lemma tview_list_dirty [simp]:
  "tview (e\<lparr>en_list_dirty := b\<rparr>) = tview e" "tview (e\<lparr>en_paired := ps\<rparr>) = tview e" "tview (e\<lparr>en_now := n\<rparr>) = tview e"
  "tview (e\<lparr>en_requester := r\<rparr>) = tview e" "tview (e\<lparr>en_list_wanted := l\<rparr>) = tview e" "tview (e\<lparr>en_ingest := g\<rparr>) = tview e"
  "tview (e\<lparr>en_stored := st\<rparr>) = tview e" "tview (e\<lparr>en_nacks := nb\<rparr>) = tview e"
  "tview (e\<lparr>en_pairing_epoch := k\<rparr>) = tview e"
  by (simp_all add: tview_def)

lemma tview_set_allowlist [simp]: "tview (set_allowlist l e) = tview e"
  by (simp add: tview_def set_allowlist_def)

lemma tview_note_pending [simp]: "tview (note_pending actor e) = tview e"
  by (simp add: note_pending_def Let_def split: option.splits)

lemma tview_forget_gone [simp]: "tview (forget_gone_devices e) = tview e"
  by (simp add: forget_gone_devices_def Let_def)

lemma tview_refuse [simp]:
  "tview (refuse_open env i actor why note e) = tview e" "tview (refuse_term env t actor why e) = tview e"
  "tview (refuse_missing env t actor w e) = tview e" "tview (refuse_input env t actor seq w e) = tview e"
  by (simp_all add: refuse_open_def refuse_term_def refuse_missing_def refuse_input_def Let_def)

lemma terminal_is_mine_cases:
  "terminal_is_mine env t actor e = (r, e') \<Longrightarrow>
   tview e' = tview e \<and> (r \<longrightarrow> e' = e \<and> (\<exists>x. open_terminal t e = Some x \<and> tm_identity x = ac_identity actor))"
  by (auto simp: terminal_is_mine_def held_def open_terminal_def split: Held.splits option.splits if_splits)

lemma gated_cases:
  obtains "tview (gated env t via body e) = tview e"
  | actor x where "terminal_actor via e = Some actor" "terminal_refusal actor e = None" "open_terminal t e = Some x"
      "tm_identity x = ac_identity actor" "gated env t via body e = body actor e"
proof (cases "terminal_actor via e")
  case None
  then show ?thesis using that(1) by (simp add: gated_def)
next
  case (Some actor)
  show ?thesis
  proof (cases "terminal_refusal actor e")
    case (Some why)
    with \<open>terminal_actor via e = Some actor\<close> show ?thesis using that(1) by (simp add: gated_def)
  next
    case None
    obtain r e' where m: "terminal_is_mine env t actor e = (r, e')" by (cases "terminal_is_mine env t actor e")
    then show ?thesis
      using terminal_is_mine_cases [OF m] Some None that by (cases r) (auto simp: gated_def)
  qed
qed

section \<open>The invariant\<close>

definition pending_ok :: "Terminal \<Rightarrow> bool" where
  "pending_ok x = (om_wf (tm_pending x) \<and> (\<forall>k \<in> fst ` set (tm_pending x). last_seq x + 1 < k \<and> k \<le> last_seq x + MAX_HELD_INPUTS)
     \<and> om_sum length (tm_pending x) \<le> MAX_HELD_INPUT_BYTES)"

definition term_ok :: "bool \<Rightarrow> Terminal \<Rightarrow> bool" where
  "term_ok idles x = (om_wf (tm_last_seq x) \<and> pending_ok x
     \<and> (tm_pending x \<noteq> [] \<longrightarrow> tm_gap_timer x \<noteq> None) \<and> (idles \<longrightarrow> tm_idle_timer x \<noteq> None))"

fun owned_kind :: "TimerKind \<Rightarrow> bool" where
  "owned_kind (TkTerminalGap t) = True"
| "owned_kind (TkTerminalIdle t) = True"
| "owned_kind (TkPairingExpiry epoch) = True"
| "owned_kind _ = False"

text \<open>The slot of the open terminals that remembers a timer of this kind.\<close>

fun slot :: "PairingWindow option \<Rightarrow> (string \<rightharpoonup> Terminal) \<Rightarrow> TimerKind \<Rightarrow> TimerId option" where
  "slot pw m (TkTerminalGap t) = (case m t of Some x \<Rightarrow> tm_gap_timer x | None \<Rightarrow> None)"
| "slot pw m (TkTerminalIdle t) = (case m t of Some x \<Rightarrow> tm_idle_timer x | None \<Rightarrow> None)"
| "slot pw m (TkPairingExpiry epoch) = (case pw of Some w \<Rightarrow> if win_epoch w = epoch then Some (win_timer w) else None | None \<Rightarrow> None)"
| "slot pw m _ = None"

abbreviation terminals_own :: "PairingWindow option \<Rightarrow> (string \<rightharpoonup> Terminal) \<Rightarrow> Out \<Rightarrow> bool" where
  "terminals_own pw m out \<equiv> book.owns owned_kind (\<lambda>i k. slot pw m k = Some i) out"

definition tstate :: "Env \<Rightarrow> PairingWindow option \<Rightarrow> (string, Terminal) omap \<Rightarrow> (string, PendingOpen) omap \<Rightarrow> nat \<Rightarrow> bool \<Rightarrow> Out \<Rightarrow> nat \<Rightarrow> bool" where
  "tstate env pw ops sp limit idles out ids =
     (out_inv out \<and> om_wf ops \<and> om_wf sp \<and> length ops + length sp \<le> limit
      \<and> (\<forall>t x. om_get ops t = Some x \<longrightarrow> term_ok idles x) \<and> terminals_own pw (om_get ops) out
      \<and> (\<forall>t. om_get ops t \<noteq> None \<or> om_get sp t \<noteq> None \<longrightarrow> (\<exists>k < ids. t = ev_new_id env k))
      \<and> (\<forall>t. om_get ops t = None \<or> om_get sp t = None))"

definition terminals_inv :: "Env \<Rightarrow> Engine \<Rightarrow> bool" where
  "terminals_inv env e = tstate env (en_pairing e) (tt_open (en_terminals e)) (tt_spawning (en_terminals e))
     (tc_max_terminals (tt_config (en_terminals e))) (0 < idle_ms e) (en_out e) (en_ids e)"

lemma owns_timers: "timers a = timers b \<Longrightarrow> book.owns K own a = book.owns K own b"
  by (simp add: book.owns_def)

lemma tstate_out:
  assumes "timers a = timers b" "delays a = delays b" "next_timer a = next_timer b"
  shows "tstate env pw ops sp limit idles a ids = tstate env pw ops sp limit idles b ids"
  using owns_timers [OF assms(1)] assms by (simp add: tstate_def out_inv_def)

lemma terminals_inv_tview: "tview e = tview e' \<Longrightarrow> terminals_inv env e = terminals_inv env e'"
  using tstate_out [of "en_out e" "en_out e'"] by (simp add: terminals_inv_def tview_def idle_ms_def)

lemma inv_by_tview: "tview e' = tview e \<Longrightarrow> terminals_inv env e \<Longrightarrow> terminals_inv env e'"
  using terminals_inv_tview by blast

section \<open>Ownership of timers\<close>

lemma slot_same: "m t = Some x \<Longrightarrow> tm_gap_timer y = tm_gap_timer x \<Longrightarrow> tm_idle_timer y = tm_idle_timer x \<Longrightarrow> slot pw (m(t \<mapsto> y)) k = slot pw m k"
  by (cases k) auto

lemma own_same:
  "terminals_own pw m out \<Longrightarrow> m t = Some x \<Longrightarrow> tm_gap_timer y = tm_gap_timer x \<Longrightarrow> tm_idle_timer y = tm_idle_timer x
   \<Longrightarrow> terminals_own pw (m(t \<mapsto> y)) out"
  by (simp add: slot_same)

lemma slot_unique: "terminals_own pw m out \<Longrightarrow> slot pw m k = Some i \<Longrightarrow> slot pw m l = Some i \<Longrightarrow> owned_kind k \<Longrightarrow> owned_kind l \<Longrightarrow> k = l"
  using book.owns_one_kind by blast

text \<open>A slot emptied together with its timer.\<close>

lemma own_drop:
  assumes own: "terminals_own pw m out" and k: "owned_kind k" "slot pw m k = Some i"
    and other: "\<And>l. owned_kind l \<Longrightarrow> slot pw' m' l = (if l = k then None else slot pw m l)"
  shows "terminals_own pw' m' (cancel_timer i out)"
proof (rule book.owns_cong [OF book.owns_disarm [OF own, of i]])
  fix j l assume l: "owned_kind l"
  show "(j \<noteq> i \<and> slot pw m l = Some j) = (slot pw' m' l = Some j)"
  proof (cases "l = k")
    case True
    then show ?thesis using other [OF l] k(2) by auto
  next
    case False
    then have "slot pw m l \<noteq> Some i" using slot_unique [OF own k(2) _ k(1) l] by blast
    then show ?thesis using other [OF l] False by auto
  qed
qed

lemma own_drop_gap:
  assumes own: "terminals_own pw m (en_out e)" and x: "m t = Some x" "tm_gap_timer y = None" "tm_idle_timer y = tm_idle_timer x"
  shows "terminals_own pw (m(t \<mapsto> y)) (en_out (disarm_timer (tm_gap_timer x) e))"
proof (cases "tm_gap_timer x")
  case None
  then show ?thesis using own_same [OF own x(1)] x by (simp add: disarm_timer_def)
next
  case (Some i)
  have "terminals_own pw (m(t \<mapsto> y)) (cancel_timer i (en_out e))"
  proof (rule own_drop [OF own])
    show "owned_kind (TkTerminalGap t)" "slot pw m (TkTerminalGap t) = Some i" using x Some by simp_all
    fix l assume "owned_kind l"
    then show "slot pw (m(t \<mapsto> y)) l = (if l = TkTerminalGap t then None else slot pw m l)" using x by (cases l) auto
  qed
  with Some show ?thesis by (simp add: disarm_timer_def)
qed

lemma own_drop_idle:
  assumes own: "terminals_own pw m (en_out e)" and x: "m t = Some x" "tm_idle_timer y = None" "tm_gap_timer y = tm_gap_timer x"
  shows "terminals_own pw (m(t \<mapsto> y)) (en_out (disarm_timer (tm_idle_timer x) e))"
proof (cases "tm_idle_timer x")
  case None
  then show ?thesis using own_same [OF own x(1)] x by (simp add: disarm_timer_def)
next
  case (Some i)
  have "terminals_own pw (m(t \<mapsto> y)) (cancel_timer i (en_out e))"
  proof (rule own_drop [OF own])
    show "owned_kind (TkTerminalIdle t)" "slot pw m (TkTerminalIdle t) = Some i" using x Some by simp_all
    fix l assume "owned_kind l"
    then show "slot pw (m(t \<mapsto> y)) l = (if l = TkTerminalIdle t then None else slot pw m l)" using x by (cases l) auto
  qed
  with Some show ?thesis by (simp add: disarm_timer_def)
qed

lemma own_delete:
  assumes own: "terminals_own pw m (en_out e)" and x: "m t = Some x"
  shows "terminals_own pw (m(t := None)) (en_out (disarm_timer (tm_idle_timer x) (disarm_timer (tm_gap_timer x) e)))"
proof -
  let ?y = "x\<lparr>tm_gap_timer := None\<rparr>" and ?e = "disarm_timer (tm_gap_timer x) e"
  have "terminals_own pw (m(t \<mapsto> ?y)) (en_out ?e)" using own_drop_gap [OF own x, of ?y] by simp
  then have "terminals_own pw ((m(t \<mapsto> ?y))(t \<mapsto> ?y\<lparr>tm_idle_timer := None\<rparr>)) (en_out (disarm_timer (tm_idle_timer ?y) ?e))"
    by (rule own_drop_idle) simp_all
  moreover have "slot pw ((m(t \<mapsto> ?y))(t \<mapsto> ?y\<lparr>tm_idle_timer := None\<rparr>)) k = slot pw (m(t := None)) k" for k
    by (cases k) auto
  ultimately show ?thesis by simp
qed

text \<open>A timer armed into an empty slot.\<close>

lemma own_arm:
  assumes inv: "out_inv out" and own: "terminals_own pw m out" and k: "owned_kind k" "slot pw m k = None"
    and other: "\<And>l. owned_kind l \<Longrightarrow> slot pw' m' l = (if l = k then Some (fst (set_timer d k out)) else slot pw m l)"
  shows "terminals_own pw' m' (snd (set_timer d k out))"
proof (rule book.owns_cong [OF book.owns_arm [OF inv own k(1), of d]])
  fix j l assume l: "owned_kind l"
  show "(j = fst (set_timer d k out) \<and> l = k \<or> slot pw m l = Some j) = (slot pw' m' l = Some j)"
    using other [OF l] k by auto
qed

lemma own_new:
  assumes "terminals_own pw m out" "m t = None" "tm_gap_timer y = None" "tm_idle_timer y = None"
  shows "terminals_own pw (m(t \<mapsto> y)) out"
proof -
  have "slot pw (m(t \<mapsto> y)) k = slot pw m k" for k using assms(2-) by (cases k) auto
  then show ?thesis using assms(1) by simp
qed

lemma own_new_idle:
  assumes "out_inv out" "terminals_own pw m out" "m t = None" "tm_gap_timer y = None"
    "tm_idle_timer y = Some (fst (set_timer d (TkTerminalIdle t) out))"
  shows "terminals_own pw (m(t \<mapsto> y)) (snd (set_timer d (TkTerminalIdle t) out))"
proof (rule own_arm [OF assms(1,2)])
  fix l assume "owned_kind l"
  then show "slot pw (m(t \<mapsto> y)) l = (if l = TkTerminalIdle t then Some (fst (set_timer d (TkTerminalIdle t) out)) else slot pw m l)"
    using assms(3-) by (cases l) auto
qed (use assms in simp_all)

lemma own_set_idle:
  assumes "out_inv out" "terminals_own pw m out" "m t = Some x" "tm_idle_timer x = None" "tm_gap_timer y = tm_gap_timer x"
    "tm_idle_timer y = Some (fst (set_timer d (TkTerminalIdle t) out))"
  shows "terminals_own pw (m(t \<mapsto> y)) (snd (set_timer d (TkTerminalIdle t) out))"
proof (rule own_arm [OF assms(1,2)])
  fix l assume "owned_kind l"
  then show "slot pw (m(t \<mapsto> y)) l = (if l = TkTerminalIdle t then Some (fst (set_timer d (TkTerminalIdle t) out)) else slot pw m l)"
    using assms(3-) by (cases l) auto
qed (use assms in simp_all)

lemma own_set_gap:
  assumes "out_inv out" "terminals_own pw m out" "m t = Some x" "tm_gap_timer x = None" "tm_idle_timer y = tm_idle_timer x"
    "tm_gap_timer y = Some (fst (set_timer d (TkTerminalGap t) out))"
  shows "terminals_own pw (m(t \<mapsto> y)) (snd (set_timer d (TkTerminalGap t) out))"
proof (rule own_arm [OF assms(1,2)])
  fix l assume "owned_kind l"
  then show "slot pw (m(t \<mapsto> y)) l = (if l = TkTerminalGap t then Some (fst (set_timer d (TkTerminalGap t) out)) else slot pw m l)"
    using assms(3-) by (cases l) auto
qed (use assms in simp_all)

lemma om_get_put_fun: "om_get (om_put k v m) = (om_get m)(k \<mapsto> v)" and om_get_del_fun: "om_get (om_del k m) = (om_get m)(k := None)"
  by (auto simp: fun_eq_iff)

lemma out_inv_disarm [wf_intros]: "out_inv (en_out e) \<Longrightarrow> out_inv (en_out (disarm_timer t e))"
  by (auto simp: disarm_timer_def intro: wf_intros split: option.splits)

section \<open>Primitive changes\<close>

lemma tstate_put:
  assumes "tstate env pw ops sp limit idles out ids" "om_get ops t = Some x" "term_ok idles y"
    "out_inv out'" "terminals_own pw ((om_get ops)(t \<mapsto> y)) out'"
  shows "tstate env pw (om_put t y ops) sp limit idles out' ids"
proof -
  have "length (om_put t y ops) = length ops" using assms(1,2) by (simp add: tstate_def length_om_put_Some)
  moreover have "om_get sp t = None" using assms(1,2) unfolding tstate_def by (metis option.distinct(1))
  moreover have "\<exists>k < ids. t = ev_new_id env k" using assms(1,2) unfolding tstate_def by (metis option.distinct(1))
  ultimately show ?thesis using assms unfolding tstate_def om_get_put_fun by simp
qed

lemma tstate_del:
  assumes "tstate env pw ops sp limit idles out ids" "out_inv out'" "terminals_own pw ((om_get ops)(t := None)) out'"
  shows "tstate env pw (om_del t ops) sp limit idles out' ids"
proof -
  have "length (om_del t ops) + length sp \<le> limit"
    using length_om_del [of t ops] assms(1) by (simp add: tstate_def)
  then show ?thesis using assms unfolding tstate_def om_get_del_fun by simp
qed

text \<open>An open that the runtime answered becomes a terminal.\<close>

lemma tstate_open:
  assumes st: "tstate env pw ops sp limit idles out ids" and po: "om_get sp t = Some po" and y: "term_ok idles y"
    and out: "out_inv out'" "terminals_own pw ((om_get ops)(t \<mapsto> y)) out'"
  shows "tstate env pw (om_put t y ops) (om_del t sp) limit idles out' ids"
proof -
  have "\<exists>k < ids. t = ev_new_id env k" using st po by (auto simp: tstate_def)
  moreover have "length (om_del t sp) < length sp" using po by (rule length_om_del_Some)
  moreover have "length (om_put t y ops) \<le> Suc (length ops)" by (rule length_om_put)
  ultimately show ?thesis using st y out unfolding tstate_def om_get_put_fun om_get_del_fun by simp
qed

lemma tstate_spawn:
  assumes st: "tstate env pw ops sp limit idles out ids" and room: "length ops + length sp < limit" and inj: "inj (ev_new_id env)"
  shows "tstate env pw ops (om_put (ev_new_id env ids) po sp) limit idles out (ids + 1)"
proof -
  have fresh: "om_get ops (ev_new_id env ids) = None"
    using st inj unfolding tstate_def by (metis injD less_irrefl)
  have ids: "\<exists>k < ids + 1. t = ev_new_id env k" if "om_get ops t \<noteq> None \<or> om_get sp t \<noteq> None" for t
    using st that unfolding tstate_def by (meson less_add_one order.strict_trans)
  have "length (om_put (ev_new_id env ids) po sp) \<le> Suc (length sp)" by (rule length_om_put)
  with st room fresh ids show ?thesis unfolding tstate_def om_get_put_fun by auto
qed

lemma tstate_spawning:
  assumes "tstate env pw ops sp limit idles out ids" "om_wf sp'" "length sp' \<le> length sp" "\<And>t. om_get sp t = None \<Longrightarrow> om_get sp' t = None"
  shows "tstate env pw ops sp' limit idles out ids"
  using assms(1) assms(2-) unfolding tstate_def by (meson add_le_cancel_left order_trans)

lemma idle_ms_frames [simp]: "idle_ms (set_terminal t y e) = idle_ms e" "idle_ms (disarm_timer i e) = idle_ms e"
  by (simp_all add: idle_ms_def)

text \<open>A terminal replaced by one with the same timers, or by one whose gap timer is cancelled, or removed.\<close>

lemma inv_replace:
  assumes "terminals_inv env e" "open_terminal t e = Some x" "term_ok (0 < idle_ms e) y"
    "tm_gap_timer y = tm_gap_timer x" "tm_idle_timer y = tm_idle_timer x"
  shows "terminals_inv env (set_terminal t y e)"
  unfolding terminals_inv_def idle_ms_frames set_terminal_frames
proof (rule tstate_put)
  show "terminals_own (en_pairing e) ((om_get (tt_open (en_terminals e)))(t \<mapsto> y)) (en_out e)"
    by (rule own_same) (use assms in \<open>auto simp: terminals_inv_def tstate_def open_terminal_def\<close>)
qed (use assms in \<open>auto simp: terminals_inv_def tstate_def open_terminal_def\<close>)

lemma inv_drop_gap:
  assumes "terminals_inv env e" "open_terminal t e = Some x" "term_ok (0 < idle_ms e) y"
    "tm_gap_timer y = None" "tm_idle_timer y = tm_idle_timer x"
  shows "terminals_inv env (disarm_timer (tm_gap_timer x) (set_terminal t y e))"
  unfolding terminals_inv_def idle_ms_frames disarm_timer_frames set_terminal_frames
proof (rule tstate_put)
  show "terminals_own (en_pairing e) ((om_get (tt_open (en_terminals e)))(t \<mapsto> y)) (en_out (disarm_timer (tm_gap_timer x) (set_terminal t y e)))"
    by (rule own_drop_gap) (use assms in \<open>auto simp: terminals_inv_def tstate_def open_terminal_def\<close>)
  show "out_inv (en_out (disarm_timer (tm_gap_timer x) (set_terminal t y e)))"
    using assms(1) by (intro wf_intros) (simp add: terminals_inv_def tstate_def)
qed (use assms in \<open>auto simp: terminals_inv_def open_terminal_def\<close>)

lemma inv_remove:
  assumes "terminals_inv env e" "open_terminal t e = Some x"
  shows "terminals_inv env (disarm_timer (tm_idle_timer x) (disarm_timer (tm_gap_timer x)
    (e\<lparr>en_terminals := (en_terminals e)\<lparr>tt_open := om_del t (tt_open (en_terminals e))\<rparr>\<rparr>)))" (is "terminals_inv env ?e")
proof -
  have "tstate env (en_pairing e) (om_del t (tt_open (en_terminals e))) (tt_spawning (en_terminals e))
      (tc_max_terminals (tt_config (en_terminals e))) (0 < idle_ms e) (en_out ?e) (en_ids e)"
  proof (rule tstate_del)
    show "terminals_own (en_pairing e) ((om_get (tt_open (en_terminals e)))(t := None)) (en_out ?e)"
      by (rule own_delete) (use assms in \<open>auto simp: terminals_inv_def tstate_def open_terminal_def\<close>)
    show "out_inv (en_out ?e)" using assms(1) by (intro wf_intros) (simp add: terminals_inv_def tstate_def)
  qed (use assms in \<open>simp add: terminals_inv_def\<close>)
  then show ?thesis by (simp add: terminals_inv_def idle_ms_def)
qed

section \<open>Typing\<close>

lemma om_del_put: "om_del k (om_put k v m) = om_del k m"
  by (induction m) (auto simp: om_del_def)

lemma om_put_put [simp]: "om_put k a (om_put k b m) = om_put k a m"
  by (induction m) auto

lemma typed_simps [simp]:
  "tm_writer (typed n x) = tm_writer x" "tm_pending (typed n x) = tm_pending x" "tm_gap_timer (typed n x) = tm_gap_timer x"
  "tm_idle_timer (typed n x) = tm_idle_timer x" "tm_identity (typed n x) = tm_identity x"
  "om_wf (tm_last_seq (typed n x)) = om_wf (om_put (tm_writer x) n (tm_last_seq x))"
  "last_seq_of (typed n x) d = (if d = tm_writer x then n else last_seq_of x d)"
  by (simp_all add: typed_def last_seq_of_def)

text \<open>What a run of \<open>flush_loop\<close> leaves: the held inputs up to some number are typed, in order.\<close>

definition flushed :: "string \<Rightarrow> Terminal \<Rightarrow> Out \<Rightarrow> bool \<Rightarrow> Terminal \<Rightarrow> Out \<Rightarrow> bool" where
  "flushed t x out broke y out' =
     (tm_writer y = tm_writer x \<and> tm_gap_timer y = tm_gap_timer x \<and> tm_idle_timer y = tm_idle_timer x \<and> tm_identity y = tm_identity x
      \<and> last_seq x \<le> last_seq y \<and> (\<forall>d. d \<noteq> tm_writer x \<longrightarrow> last_seq_of y d = last_seq_of x d)
      \<and> om_wf (tm_last_seq y) \<and> om_wf (tm_pending y)
      \<and> (\<forall>k. om_get (tm_pending y) k = (if k \<le> last_seq y then None else om_get (tm_pending x) k))
      \<and> (broke \<longrightarrow> om_get (tm_pending y) (last_seq y + 1) = None) \<and> (broke = (tm_pending y \<noteq> []))
      \<and> om_sum length (tm_pending y) \<le> om_sum length (tm_pending x)
      \<and> timers out' = timers out \<and> delays out' = delays out \<and> next_timer out' = next_timer out
      \<and> (\<forall>k. last_seq x < k \<and> k \<le> last_seq y \<longrightarrow> om_get (tm_pending x) k \<noteq> None)
      \<and> effects out' = effects out @ map (\<lambda>k. TerminalWrite t (the (om_get (tm_pending x) k))) [last_seq x + 1..<last_seq y + 1])"

lemma flush_loop_flushed:
  assumes "flush_loop t x out = (broke, y, out')" "om_wf (tm_pending x)" "om_wf (tm_last_seq x)"
    "\<And>k. k \<le> last_seq x \<Longrightarrow> om_get (tm_pending x) k = None"
  shows "flushed t x out broke y out'"
  using assms
proof (induction t x out arbitrary: broke y out' rule: flush_loop.induct)
  case (1 t x out)
  show ?case
  proof (cases "tm_pending x = [] \<or> om_get (tm_pending x) (last_seq x + 1) = None")
    case True
    then have "(broke, y, out') = (tm_pending x \<noteq> [], x, out)"
      using "1.prems"(1) by (subst (asm) flush_loop.simps) (auto split: if_splits option.splits)
    then show ?thesis using "1.prems" True by (auto simp: flushed_def)
  next
    case False
    then obtain bytes where b: "om_get (tm_pending x) (last_seq x + 1) = Some bytes" by auto
    define x1 where "x1 = typed (last_seq x + 1) (x\<lparr>tm_pending := om_del (last_seq x + 1) (tm_pending x)\<rparr>)"
    have x1: "tm_pending x1 = om_del (last_seq x + 1) (tm_pending x)" "last_seq x1 = last_seq x + 1" "tm_writer x1 = tm_writer x"
      "tm_gap_timer x1 = tm_gap_timer x" "tm_idle_timer x1 = tm_idle_timer x" "tm_identity x1 = tm_identity x"
      "om_wf (tm_last_seq x1)" "\<And>d. d \<noteq> tm_writer x \<Longrightarrow> last_seq_of x1 d = last_seq_of x d"
      using "1.prems" by (simp_all add: x1_def) (simp add: last_seq_of_def)
    have step: "flush_loop t x1 (push (TerminalWrite t bytes) out) = (broke, y, out')"
      using "1.prems"(1) False b unfolding x1_def by (subst (asm) flush_loop.simps) simp
    have "flushed t x1 (push (TerminalWrite t bytes) out) broke y out'"
      using False b step "1.prems" x1 unfolding x1_def [symmetric]
      by (intro "1.IH" [unfolded x1_def [symmetric]]) (auto simp: le_Suc_eq)
    then have f: "flushed t x1 (push (TerminalWrite t bytes) out) broke y out'" .
    have le: "last_seq x + 1 \<le> last_seq y" using f unfolding flushed_def x1(2) by auto
    have "map (\<lambda>k. TerminalWrite t (the (om_get (tm_pending x) k))) [last_seq x + 1..<last_seq y + 1]
        = TerminalWrite t bytes # map (\<lambda>k. TerminalWrite t (the (om_get (tm_pending x1) k))) [last_seq x1 + 1..<last_seq y + 1]"
      using le b x1(1,2) by (simp add: upt_conv_Cons del: upt_Suc)
    moreover have "om_sum length (tm_pending x1) \<le> om_sum length (tm_pending x)"
      using om_sum_del [OF "1.prems"(2) b, of length] x1(1) by simp
    moreover have "om_get (tm_pending x) k \<noteq> None" if "last_seq x < k" "k \<le> last_seq y" for k
    proof (cases "k = last_seq x + 1")
      case False
      then have "om_get (tm_pending x1) k \<noteq> None" using f that unfolding flushed_def x1(2) by simp
      then show ?thesis using x1(1) by (simp split: if_splits)
    qed (use b in auto)
    ultimately show ?thesis
      using f x1 le "1.prems"(4) by (auto simp: flushed_def)
  qed
qed


lemma flushed_get:
  "flushed t x out broke y out' \<Longrightarrow> om_get (tm_pending y) k = (if k \<le> last_seq y then None else om_get (tm_pending x) k)"
  unfolding flushed_def by blast

lemma term_ok_flushed:
  assumes f: "flushed t x out broke y out'" and x: "om_wf (tm_pending x)" "om_sum length (tm_pending x) \<le> MAX_HELD_INPUT_BYTES"
    "\<And>k v. om_get (tm_pending x) k = Some v \<Longrightarrow> k \<le> last_seq x + MAX_HELD_INPUTS"
    "tm_pending x \<noteq> [] \<longrightarrow> tm_gap_timer x \<noteq> None" "idles \<longrightarrow> tm_idle_timer x \<noteq> None"
  shows "term_ok idles y"
proof -
  have wf: "om_wf (tm_pending y)" using f by (simp add: flushed_def)
  have "last_seq y + 1 < k \<and> k \<le> last_seq y + MAX_HELD_INPUTS" if "k \<in> fst ` set (tm_pending y)" for k
  proof -
    have some: "om_get (tm_pending y) k \<noteq> None" using that by (simp add: map_of_eq_None_iff)
    then have "tm_pending y \<noteq> []" by auto
    then have "om_get (tm_pending y) (last_seq y + 1) = None" using f unfolding flushed_def by blast
    then have ne: "k \<noteq> last_seq y + 1" using some by auto
    have k: "last_seq y < k" "om_get (tm_pending x) k \<noteq> None"
      using some flushed_get [OF f, of k] by (auto split: if_splits)
    have "last_seq x \<le> last_seq y" using f unfolding flushed_def by blast
    moreover have "k \<le> last_seq x + MAX_HELD_INPUTS" using k(2) x(3) by blast
    ultimately show ?thesis using k(1) ne by linarith
  qed
  moreover have "tm_pending x \<noteq> []" if "tm_pending y \<noteq> []"
  proof
    assume "tm_pending x = []"
    then have "om_get (tm_pending y) k = None" for k using flushed_get [OF f, of k] by simp
    then have none: "om_get (tm_pending y) (fst (hd (tm_pending y))) = None" .
    show False using that none by (cases "tm_pending y") simp_all
  qed
  moreover have "om_wf (tm_last_seq y)" "om_sum length (tm_pending y) \<le> om_sum length (tm_pending x)"
    "tm_gap_timer y = tm_gap_timer x" "tm_idle_timer y = tm_idle_timer x"
    using f unfolding flushed_def by simp_all
  ultimately show ?thesis using x(2,4,5) wf by (auto simp: term_ok_def pending_ok_def)
qed

text \<open>\<open>flush_pending\<close> on an engine.\<close>

lemma flush_engine:
  assumes "open_terminal t e = Some x" "flush_loop t x (en_out e) = (broke, y, out)"
  shows "with_terminals (flush_pending t) e =
    (if \<not> broke then set_terminal t y (e\<lparr>en_out := out\<rparr>)
     else let e1 = disarm_timer (tm_gap_timer y) (e\<lparr>en_out := out\<rparr>) in
       if tm_pending y = [] then set_terminal t (y\<lparr>tm_gap_timer := None\<rparr>) e1
       else set_terminal t (y\<lparr>tm_gap_timer := Some (fst (set_timer INPUT_GAP_WAIT_MS (TkTerminalGap t) (en_out e1)))\<rparr>)
         (e1\<lparr>en_out := snd (set_timer INPUT_GAP_WAIT_MS (TkTerminalGap t) (en_out e1))\<rparr>))"
  using assms
  by (cases "tm_gap_timer y")
    (simp_all add: with_terminals_def flush_pending_def open_terminal_def set_terminal_def put_open_def disarm_timer_def Let_def split_beta)

lemma apply_engine:
  "open_terminal t e = Some x \<Longrightarrow>
   with_terminals (apply_input t seq bytes) e = emit (TerminalWrite t bytes) (set_terminal t (typed seq x) e)"
  by (simp add: with_terminals_def apply_input_def open_terminal_def emit_def set_terminal_def put_open_def)

text \<open>A terminal replaced by one whose gap timer is armed anew.\<close>

lemma tstate_rearm:
  assumes st: "tstate env pw ops sp limit idles (en_out e) ids" and m: "om_get ops t = Some x" and y: "term_ok idles y"
    "tm_gap_timer y = tm_gap_timer x" "tm_idle_timer y = tm_idle_timer x"
  shows "let st = set_timer d (TkTerminalGap t) (en_out (disarm_timer (tm_gap_timer x) e))
    in tstate env pw (om_put t (y\<lparr>tm_gap_timer := Some (fst st)\<rparr>) ops) sp limit idles (snd st) ids"
proof -
  let ?e1 = "disarm_timer (tm_gap_timer x) e" and ?z = "y\<lparr>tm_gap_timer := None\<rparr>"
  let ?st = "set_timer d (TkTerminalGap t) (en_out ?e1)"
  have oi: "out_inv (en_out ?e1)" using st by (intro wf_intros) (simp add: tstate_def)
  have "terminals_own pw ((om_get ops)(t \<mapsto> ?z)) (en_out ?e1)"
    by (rule own_drop_gap) (use st m y in \<open>simp_all add: tstate_def\<close>)
  then have "terminals_own pw (((om_get ops)(t \<mapsto> ?z))(t \<mapsto> y\<lparr>tm_gap_timer := Some (fst ?st)\<rparr>)) (snd ?st)"
    by (intro own_set_gap [where x = ?z] oi) simp_all
  then have "tstate env pw (om_put t (y\<lparr>tm_gap_timer := Some (fst ?st)\<rparr>) ops) sp limit idles (snd ?st) ids"
    using y by (intro tstate_put [OF st m]) (auto simp: term_ok_def pending_ok_def last_seq_of_def intro: wf_intros oi)
  then show ?thesis by (simp add: Let_def)
qed

lemma inv_type:
  assumes inv: "terminals_inv env e" and x: "open_terminal t e = Some x" and seq: "seq = last_seq x + 1"
  shows "terminals_inv env (with_terminals (flush_pending t) (with_terminals (apply_input t seq bytes) e))"
proof -
  let ?e = "emit (TerminalWrite t bytes) (set_terminal t (typed seq x) e)" and ?x = "typed seq x"
  have okx: "term_ok (0 < idle_ms e) x" using inv x by (auto simp: terminals_inv_def tstate_def open_terminal_def)
  obtain broke y out where loop: "flush_loop t ?x (en_out ?e) = (broke, y, out)" by (metis prod_cases3)
  have x1: "open_terminal t ?e = Some ?x" by (simp add: open_terminal_def)
  have above: "om_get (tm_pending ?x) k = None" if "k \<le> last_seq ?x" for k
    using okx that seq by (fastforce simp: term_ok_def pending_ok_def map_of_eq_None_iff)
  have f: "flushed t ?x (en_out ?e) broke y out"
    using okx by (intro flush_loop_flushed [OF loop _ _ above]) (simp_all add: term_ok_def pending_ok_def)
  have top: "k \<le> last_seq ?x + MAX_HELD_INPUTS" if "om_get (tm_pending ?x) k = Some v" for k v
    using okx map_of_SomeD [OF that] seq by (force simp: term_ok_def pending_ok_def)
  have oky: "term_ok (0 < idle_ms e) y"
    by (rule term_ok_flushed [OF f _ _ top]) (use okx in \<open>simp_all add: term_ok_def pending_ok_def\<close>)
  have same: "timers out = timers (en_out e)" "delays out = delays (en_out e)" "next_timer out = next_timer (en_out e)"
    "tm_gap_timer y = tm_gap_timer x" "tm_idle_timer y = tm_idle_timer x" and b: "broke = (tm_pending y \<noteq> [])"
    using f by (simp_all add: flushed_def)
  have st: "tstate env (en_pairing e) (tt_open (en_terminals e)) (tt_spawning (en_terminals e)) (tc_max_terminals (tt_config (en_terminals e)))
      (0 < idle_ms e) (en_out (?e\<lparr>en_out := out\<rparr>)) (en_ids e)"
    using inv tstate_out [OF same(1-3)] by (simp add: terminals_inv_def)
  have m: "om_get (tt_open (en_terminals e)) t = Some x" using x by (simp add: open_terminal_def)
  have "terminals_own (en_pairing e) ((om_get (tt_open (en_terminals e)))(t \<mapsto> y)) out"
    by (rule own_same [where x = x]) (use st m same in \<open>simp_all add: tstate_def\<close>)
  then have dry: "tstate env (en_pairing e) (om_put t y (tt_open (en_terminals e))) (tt_spawning (en_terminals e))
      (tc_max_terminals (tt_config (en_terminals e))) (0 < idle_ms e) out (en_ids e)"
    using oky st by (intro tstate_put [OF st m]) (simp_all add: tstate_def)
  show ?thesis unfolding apply_engine [OF x] flush_engine [OF x1 loop]
    using tstate_rearm [OF st m oky same(4,5), of INPUT_GAP_WAIT_MS] dry b same(4)
    by (simp add: terminals_inv_def idle_ms_def Let_def)
qed

section \<open>Every handler keeps the invariant\<close>

lemma term_ok_cleared: "term_ok idles x \<Longrightarrow> term_ok idles (x\<lparr>tm_pending := [], tm_gap_timer := g\<rparr>)"
  "term_ok idles x \<Longrightarrow> term_ok idles (x\<lparr>tm_writer := w, tm_pending := [], tm_gap_timer := g\<rparr>)"
  by (simp_all add: term_ok_def pending_ok_def)

lemma inv_term_ok: "terminals_inv env e \<Longrightarrow> open_terminal t e = Some x \<Longrightarrow> term_ok (0 < idle_ms e) x"
  unfolding terminals_inv_def tstate_def open_terminal_def by blast

lemma tview_resend:
  "open_terminal t e = Some x \<Longrightarrow>
   tview (resend_from env t why e) = tview (disarm_timer (tm_gap_timer x) (set_terminal t (x\<lparr>tm_pending := [], tm_gap_timer := None\<rparr>) e))"
  by (simp add: resend_from_def Let_def split: option.splits)

lemma inv_resend: "terminals_inv env e \<Longrightarrow> terminals_inv env (resend_from env t why e)"
proof (cases "open_terminal t e")
  case (Some x)
  assume inv: "terminals_inv env e"
  have "terminals_inv env (disarm_timer (tm_gap_timer x) (set_terminal t (x\<lparr>tm_pending := [], tm_gap_timer := None\<rparr>) e))"
    using inv_term_ok [OF inv Some] by (intro inv_drop_gap [OF inv Some] term_ok_cleared) simp_all
  then show ?thesis by (rule inv_by_tview [OF tview_resend [OF Some]])
qed (simp add: resend_from_def)

lemma inv_hand_writer: "terminals_inv env e \<Longrightarrow> terminals_inv env (snd (hand_writer t device e))"
proof (cases "open_terminal t e")
  case (Some x)
  assume inv: "terminals_inv env e"
  let ?e = "disarm_timer (tm_gap_timer x) (set_terminal t (x\<lparr>tm_writer := device, tm_pending := [], tm_gap_timer := None\<rparr>) e)"
  have "terminals_inv env ?e"
    using inv_term_ok [OF inv Some] by (intro inv_drop_gap [OF inv Some] term_ok_cleared) simp_all
  moreover have "tview (snd (hand_writer t device e)) = tview ?e"
    using Some by (simp add: hand_writer_def Let_def split: option.splits)
  ultimately show ?thesis by (rule inv_by_tview [rotated])
qed (simp add: hand_writer_def)

lemma inv_end_terminal: "terminals_inv env e \<Longrightarrow> terminals_inv env (end_terminal env t reason code actor e)"
proof (cases "open_terminal t e")
  case (Some x)
  assume inv: "terminals_inv env e"
  let ?e = "disarm_timer (tm_idle_timer x) (disarm_timer (tm_gap_timer x)
    (e\<lparr>en_terminals := (en_terminals e)\<lparr>tt_open := om_del t (tt_open (en_terminals e))\<rparr>\<rparr>))"
  have "tview (end_terminal env t reason code actor e) = tview ?e"
    using Some by (simp add: end_terminal_def Let_def)
  with inv_remove [OF inv Some] show ?thesis by (rule inv_by_tview [rotated])
qed (simp add: end_terminal_def)

lemma inv_hold:
  assumes inv: "terminals_inv env e" and x: "open_terminal t e = Some x" and seq: "last_seq x + 1 < seq"
    and h: "hold t seq bytes (en_terminals e, en_out e) = (None, tt, out)"
  shows "terminals_inv env (e\<lparr>en_terminals := tt, en_out := out\<rparr>)"
proof -
  let ?y = "x\<lparr>tm_pending := om_put seq bytes (tm_pending x)\<rparr>"
  note ok = inv_term_ok [OF inv x]
  have y: "seq \<le> last_seq x + MAX_HELD_INPUTS" "om_sum length (tm_pending ?y) \<le> MAX_HELD_INPUT_BYTES"
    and res: "(tt, out) = (if tm_gap_timer x = None
      then (put_open t (?y\<lparr>tm_gap_timer := Some (fst (set_timer INPUT_GAP_WAIT_MS (TkTerminalGap t) (en_out e)))\<rparr>) (put_open t ?y (en_terminals e)),
            snd (set_timer INPUT_GAP_WAIT_MS (TkTerminalGap t) (en_out e)))
      else (put_open t ?y (en_terminals e), en_out e))"
    using h x sat_add_le_sum [of "last_seq x" MAX_HELD_INPUTS]
    by (auto simp: hold_def open_terminal_def Let_def split_beta split: if_splits)
  have old: "\<forall>k \<in> fst ` set (tm_pending x). last_seq x + 1 < k \<and> k \<le> last_seq x + MAX_HELD_INPUTS" "om_wf (tm_pending x)"
    using ok unfolding term_ok_def pending_ok_def by blast+
  have "last_seq x + 1 < k \<and> k \<le> last_seq x + MAX_HELD_INPUTS" if "k \<in> fst ` set (om_put seq bytes (tm_pending x))" for k
  proof -
    have "k = seq \<or> k \<in> fst ` set (tm_pending x)" using set_om_put [of seq bytes "tm_pending x"] that by force
    then show ?thesis using old(1) y(1) seq by blast
  qed
  moreover have "last_seq ?y = last_seq x" by (simp add: last_seq_of_def)
  ultimately have pend: "pending_ok ?y" using old(2) y(2) unfolding pending_ok_def by simp
  have st: "tstate env (en_pairing e) (tt_open (en_terminals e)) (tt_spawning (en_terminals e)) (tc_max_terminals (tt_config (en_terminals e)))
      (0 < idle_ms e) (en_out e) (en_ids e)" using inv by (simp add: terminals_inv_def)
  have m: "om_get (tt_open (en_terminals e)) t = Some x" using x by (simp add: open_terminal_def)
  show ?thesis
  proof (cases "tm_gap_timer x")
    case None
    let ?st = "set_timer INPUT_GAP_WAIT_MS (TkTerminalGap t) (en_out e)"
    have oi: "out_inv (en_out e)" using st by (simp add: tstate_def)
    have "terminals_own (en_pairing e) ((om_get (tt_open (en_terminals e)))(t \<mapsto> ?y\<lparr>tm_gap_timer := Some (fst ?st)\<rparr>)) (snd ?st)"
      by (rule own_set_gap [where x = x]) (use st m None oi in \<open>simp_all add: tstate_def\<close>)
    then have "tstate env (en_pairing e) (om_put t (?y\<lparr>tm_gap_timer := Some (fst ?st)\<rparr>) (tt_open (en_terminals e))) (tt_spawning (en_terminals e))
        (tc_max_terminals (tt_config (en_terminals e))) (0 < idle_ms e) (snd ?st) (en_ids e)"
      using ok pend by (intro tstate_put [OF st m]) (auto simp: term_ok_def pending_ok_def last_seq_of_def intro: wf_intros oi)
    then show ?thesis using res None by (simp add: terminals_inv_def put_open_def idle_ms_def)
  next
    case (Some i)
    have "terminals_inv env (set_terminal t ?y e)"
      using ok pend Some by (intro inv_replace [OF inv x]) (auto simp: term_ok_def)
    then show ?thesis using res Some by (simp add: set_terminal_def)
  qed
qed

lemma inv_hold_refused:
  assumes inv: "terminals_inv env e" and x: "open_terminal t e = Some x"
    and h: "hold t seq bytes (en_terminals e, en_out e) = (Some why, tt, out)"
  shows "terminals_inv env (resend_from env t w (e\<lparr>en_terminals := tt, en_out := out\<rparr>))"
proof -
  have "\<exists>p. e\<lparr>en_terminals := tt, en_out := out\<rparr> = set_terminal t (x\<lparr>tm_pending := p\<rparr>) e \<or> e\<lparr>en_terminals := tt, en_out := out\<rparr> = e"
    using h x by (auto simp: hold_def open_terminal_def set_terminal_def Let_def split_beta split: if_splits)
  then obtain p where p: "e\<lparr>en_terminals := tt, en_out := out\<rparr> = set_terminal t (x\<lparr>tm_pending := p\<rparr>) e \<or> e\<lparr>en_terminals := tt, en_out := out\<rparr> = e" ..
  have "tview (resend_from env t w (set_terminal t (x\<lparr>tm_pending := p\<rparr>) e)) = tview (resend_from env t w e)"
  proof -
    have "open_terminal t (set_terminal t (x\<lparr>tm_pending := p\<rparr>) e) = Some (x\<lparr>tm_pending := p\<rparr>)" by (simp add: open_terminal_def)
    from tview_resend [OF this] tview_resend [OF x] show ?thesis
      by (cases "tm_gap_timer x") (simp_all add: tview_def disarm_timer_def)
  qed
  then have "terminals_inv env (resend_from env t w (set_terminal t (x\<lparr>tm_pending := p\<rparr>) e))"
    by (rule inv_by_tview) (rule inv_resend [OF inv])
  with p inv_resend [OF inv, of t w] show ?thesis by auto
qed

lemma inv_gated:
  assumes "terminals_inv env e"
    and "\<And>actor x. open_terminal t e = Some x \<Longrightarrow> tm_identity x = ac_identity actor \<Longrightarrow> terminals_inv env (body actor e)"
  shows "terminals_inv env (gated env t via body e)"
proof (rule gated_cases [of env t via body e])
  assume "tview (gated env t via body e) = tview e"
  then show ?thesis using assms(1) by (rule inv_by_tview)
next
  fix actor x
  assume "open_terminal t e = Some x" "tm_identity x = ac_identity actor" and g: "gated env t via body e = body actor e"
  then show ?thesis unfolding g by (intro assms(2))
qed

lemma inv_input_body:
  assumes inv: "terminals_inv env e" and x: "open_terminal (tim_term m) e = Some x"
  shows "terminals_inv env (input_body env m actor e)"
proof (cases "ac_device actor \<noteq> Some (tm_writer x) \<or> tim_seq m \<le> last_seq x")
  case True
  then show ?thesis using inv x by (auto simp: input_body_def)
next
  case False
  have refuse: "terminals_inv env (refuse_input env (tim_term m) actor (tim_seq m) w e)" for w
    by (rule inv_by_tview [OF _ inv]) simp
  have "terminals_inv env (hold_or_resend env m bytes e)" if "tim_seq m \<noteq> last_seq x + 1" for bytes
  proof -
    obtain why tt out where h: "hold (tim_term m) (tim_seq m) bytes (en_terminals e, en_out e) = (why, tt, out)" by (metis prod_cases3)
    have lt: "last_seq x + 1 < tim_seq m" using False that by simp
    show ?thesis
    proof (cases why)
      case None
      with inv_hold [OF inv x lt] h show ?thesis by (simp add: hold_or_resend_def)
    next
      case (Some w)
      with inv_hold_refused [OF inv x] h show ?thesis by (simp add: hold_or_resend_def)
    qed
  qed
  then show ?thesis using False x refuse inv_type [OF inv x] by (simp add: input_body_def split: option.splits)
qed

lemma inv_input: "terminals_inv env e \<Longrightarrow> terminals_inv env (on_terminal_input env m via e)"
  unfolding on_terminal_input_def by (rule inv_gated) (auto intro: inv_input_body)

lemma inv_open:
  assumes inv: "terminals_inv env e" and inj: "inj (ev_new_id env)"
  shows "terminals_inv env (on_terminal_open env m via e)"
proof (cases "terminal_actor via e")
  case None
  then show ?thesis using inv by (simp add: on_terminal_open_def)
next
  case (Some actor)
  have refuse: "terminals_inv env (refuse_open env (tom_open_id m) actor why None e)" for why
    by (rule inv_by_tview [OF _ inv]) simp
  show ?thesis
  proof (cases "terminal_refusal actor e \<noteq> None \<or> at_capacity (en_terminals e)")
    case True
    then show ?thesis using refuse Some by (auto simp: on_terminal_open_def split: option.splits)
  next
    case False
    then have room: "length (tt_open (en_terminals e)) + length (tt_spawning (en_terminals e)) < tc_max_terminals (tt_config (en_terminals e))"
      by (simp add: at_capacity_def)
    have st: "tstate env (en_pairing e) (tt_open (en_terminals e)) (tt_spawning (en_terminals e)) (tc_max_terminals (tt_config (en_terminals e)))
        (0 < idle_ms e) (en_out e) (en_ids e)" using inv by (simp add: terminals_inv_def)
    note sp = tstate_spawn [OF st room inj]
    have "terminals_inv env (emit y (e\<lparr>en_ids := en_ids e + 1, en_terminals := (en_terminals e)\<lparr>tt_spawning :=
        om_put (ev_new_id env (en_ids e)) po (tt_spawning (en_terminals e))\<rparr>\<rparr>))" for y po
      by (rule inv_by_tview [OF tview_emit]) (use sp [of po] in \<open>simp add: terminals_inv_def idle_ms_def\<close>)
    then show ?thesis using False Some by (simp add: on_terminal_open_def Let_def)
  qed
qed

lemma arm_idle_simps:
  "arm_idle t e = (if 0 < idle_ms e
     then (Some (fst (set_timer (idle_ms e) (TkTerminalIdle t) (en_out e))), e\<lparr>en_out := snd (set_timer (idle_ms e) (TkTerminalIdle t) (en_out e))\<rparr>)
     else (None, e))"
  by (simp add: arm_idle_def arm_timer_def Let_def split_beta)

text \<open>The terminal a spawned open becomes.\<close>

definition opened_terminal :: "PendingOpen \<Rightarrow> string \<Rightarrow> nat \<Rightarrow> TimerId option \<Rightarrow> Terminal" where
  "opened_terminal po shell now idle =
     (let opener = (case po_device po of Some d \<Rightarrow> d | None \<Rightarrow> []) in
      \<lparr>tm_identity = po_identity po, tm_shell = shell, tm_opener = opener, tm_writer = opener,
       tm_cols = po_cols po, tm_rows = po_rows po, tm_cwd = po_cwd po, tm_opened_ms = now, tm_via = po_via po,
       tm_last_seq = [], tm_pending = [], tm_gap_timer = None, tm_idle_timer = idle\<rparr>)"

lemma opened_simps [simp]:
  "tm_gap_timer (opened_terminal po shell now idle) = None" "tm_idle_timer (opened_terminal po shell now idle) = idle"
  "term_ok b (opened_terminal po shell now idle) = (b \<longrightarrow> idle \<noteq> None)"
  by (simp_all add: opened_terminal_def Let_def term_ok_def pending_ok_def)

definition spawned_state :: "string \<Rightarrow> string \<Rightarrow> PendingOpen \<Rightarrow> Engine \<Rightarrow> Engine" where
  "spawned_state t shell po e =
     (let (idle, e') = arm_idle t e
      in set_terminal t (opened_terminal po shell (en_now e) idle)
           (e'\<lparr>en_terminals := (en_terminals e')\<lparr>tt_spawning := om_del t (tt_spawning (en_terminals e'))\<rparr>\<rparr>))"

lemma inv_spawned_state:
  assumes inv: "terminals_inv env e" and po: "om_get (tt_spawning (en_terminals e)) t = Some po"
  shows "terminals_inv env (spawned_state t shell po e)"
proof -
  have st: "tstate env (en_pairing e) (tt_open (en_terminals e)) (tt_spawning (en_terminals e)) (tc_max_terminals (tt_config (en_terminals e)))
      (0 < idle_ms e) (en_out e) (en_ids e)" using inv by (simp add: terminals_inv_def)
  then have oi: "out_inv (en_out e)" and own: "terminals_own (en_pairing e) (om_get (tt_open (en_terminals e))) (en_out e)"
    and new: "om_get (tt_open (en_terminals e)) t = None"
    using po unfolding tstate_def by (blast, blast, metis option.distinct(1))
  let ?st = "set_timer (idle_ms e) (TkTerminalIdle t) (en_out e)"
  show ?thesis
  proof (cases "0 < idle_ms e")
    case True
    have "terminals_own (en_pairing e) ((om_get (tt_open (en_terminals e)))(t \<mapsto> opened_terminal po shell (en_now e) (Some (fst ?st)))) (snd ?st)"
      by (rule own_new_idle) (use oi own new in simp_all)
    then have "tstate env (en_pairing e) (om_put t (opened_terminal po shell (en_now e) (Some (fst ?st))) (tt_open (en_terminals e)))
        (om_del t (tt_spawning (en_terminals e))) (tc_max_terminals (tt_config (en_terminals e))) (0 < idle_ms e) (snd ?st) (en_ids e)"
      by (intro tstate_open [OF st po]) (auto intro: wf_intros oi)
    then show ?thesis using True by (simp add: spawned_state_def arm_idle_simps terminals_inv_def idle_ms_def)
  next
    case False
    have "terminals_own (en_pairing e) ((om_get (tt_open (en_terminals e)))(t \<mapsto> opened_terminal po shell (en_now e) None)) (en_out e)"
      by (rule own_new) (use own new in simp_all)
    then have "tstate env (en_pairing e) (om_put t (opened_terminal po shell (en_now e) None) (tt_open (en_terminals e)))
        (om_del t (tt_spawning (en_terminals e))) (tc_max_terminals (tt_config (en_terminals e))) (0 < idle_ms e) (en_out e) (en_ids e)"
      using False by (intro tstate_open [OF st po]) (auto intro: oi)
    then show ?thesis using False by (simp add: spawned_state_def arm_idle_simps terminals_inv_def idle_ms_def)
  qed
qed

lemma tview_open_spawned: "tview (open_spawned env t shell po e) = tview (spawned_state t shell po e)"
  by (simp add: open_spawned_def spawned_state_def Let_def split_beta opened_terminal_def arm_idle_simps idle_ms_def tview_def
    helper_defs set_timer_def split: option.splits)

lemma inv_spawned:
  assumes inv: "terminals_inv env e"
  shows "terminals_inv env (on_terminal_spawned env t shell e)"
proof (cases "om_get (tt_spawning (en_terminals e)) t")
  case (Some po)
  have "terminals_inv env (open_spawned env t shell po e)"
    by (rule inv_by_tview [OF tview_open_spawned inv_spawned_state [OF inv Some]])
  then show ?thesis using Some inv_end_terminal
    by (auto simp: on_terminal_spawned_def Let_def split: option.splits)
qed (use inv in \<open>simp add: on_terminal_spawned_def\<close>)

lemma inv_spawn_failed:
  assumes inv: "terminals_inv env e"
  shows "terminals_inv env (on_terminal_spawn_failed env t note e)"
proof (cases "om_get (tt_spawning (en_terminals e)) t")
  case (Some po)
  let ?e = "e\<lparr>en_terminals := (en_terminals e)\<lparr>tt_spawning := om_del t (tt_spawning (en_terminals e))\<rparr>\<rparr>"
  have "tstate env (en_pairing e) (tt_open (en_terminals e)) (om_del t (tt_spawning (en_terminals e))) (tc_max_terminals (tt_config (en_terminals e)))
      (0 < idle_ms e) (en_out e) (en_ids e)"
    by (rule tstate_spawning) (use inv length_om_del in \<open>auto simp: terminals_inv_def tstate_def\<close>)
  then have "terminals_inv env ?e" by (simp add: terminals_inv_def idle_ms_def)
  moreover have "tview (on_terminal_spawn_failed env t note e) = tview ?e"
    using Some by (simp add: on_terminal_spawn_failed_def Let_def)
  ultimately show ?thesis by (rule inv_by_tview [rotated])
qed (use inv in \<open>simp add: on_terminal_spawn_failed_def\<close>)

lemma inv_output: "terminals_inv env e \<Longrightarrow> terminals_inv env (on_terminal_output t offset data e)"
  by (auto simp: on_terminal_output_def split: option.splits intro: inv_by_tview)

lemma inv_exited:
  assumes inv: "terminals_inv env e"
  shows "terminals_inv env (on_terminal_exited env t code reason e)"
proof (cases "om_get (tt_spawning (en_terminals e)) t")
  case (Some po)
  let ?sp = "om_put t (po\<lparr>po_exited := Some (code, reason)\<rparr>) (tt_spawning (en_terminals e))"
  have wf: "om_wf (tt_spawning (en_terminals e))" using inv by (simp add: terminals_inv_def tstate_def)
  have "tstate env (en_pairing e) (tt_open (en_terminals e)) ?sp (tc_max_terminals (tt_config (en_terminals e)))
      (0 < idle_ms e) (en_out e) (en_ids e)"
  proof (rule tstate_spawning)
    show "om_get ?sp u = None" if "om_get (tt_spawning (en_terminals e)) u = None" for u
      using that Some by (cases "u = t") simp_all
    show "length ?sp \<le> length (tt_spawning (en_terminals e))" by (simp add: length_om_put_Some [OF Some wf])
  qed (use inv wf in \<open>simp_all add: terminals_inv_def\<close>)
  then show ?thesis using Some by (simp add: on_terminal_exited_def terminals_inv_def idle_ms_def)
qed (use inv inv_end_terminal in \<open>simp add: on_terminal_exited_def\<close>)

lemma inv_resize: "terminals_inv env e \<Longrightarrow> terminals_inv env (on_terminal_resize env t cols rows via e)"
  unfolding on_terminal_resize_def
proof (rule inv_gated)
  fix actor x
  assume inv: "terminals_inv env e" and x: "open_terminal t e = Some x"
  have "terminals_inv env (set_terminal t (x\<lparr>tm_cols := cols, tm_rows := rows\<rparr>) e)"
    using inv_term_ok [OF inv x] by (intro inv_replace [OF inv x]) (simp_all add: term_ok_def pending_ok_def last_seq_of_def)
  then show "terminals_inv env (case open_terminal t e of None \<Rightarrow> e
       | Some x \<Rightarrow> if ac_device actor \<noteq> Some (tm_writer x) then e
           else let e = set_terminal t (x\<lparr>tm_cols := cols, tm_rows := rows\<rparr>) e;
                 e = emit (TerminalResize t cols rows) e
             in audit ((fill actor (audit_new env (en_now e) t AuResized (ac_identity actor)))
                  \<lparr>au_cols := Some cols, au_rows := Some rows\<rparr>) e)"
    using inv x by (auto simp: Let_def intro!: inv_by_tview [OF tview_helpers(1)] inv_by_tview [OF tview_emit])
qed assumption

lemma inv_replay: "terminals_inv env e \<Longrightarrow> terminals_inv env (on_terminal_replay env t start via e)"
  unfolding on_terminal_replay_def
  by (rule inv_gated) (auto simp: Let_def split: option.splits intro: inv_by_tview)

lemma inv_takeover: "terminals_inv env e \<Longrightarrow> terminals_inv env (on_terminal_takeover env t via e)"
  unfolding on_terminal_takeover_def
  by (rule inv_gated) (auto simp: Let_def split_beta split: option.splits intro: inv_by_tview [OF _ inv_hand_writer])

lemma inv_close: "terminals_inv env e \<Longrightarrow> terminals_inv env (on_terminal_close env t via e)"
  unfolding on_terminal_close_def by (rule inv_gated) (auto intro: inv_end_terminal)

lemma inv_close_identity: "terminals_inv env e \<Longrightarrow> terminals_inv env (close_identity_terminals env i reason e)"
  unfolding close_identity_terminals_def by (rule foldl_inv) (auto intro: inv_end_terminal)

lemma inv_withdraw: "terminals_inv env e \<Longrightarrow> terminals_inv env (withdraw env allowed e w)"
proof -
  assume inv: "terminals_inv env e"
  obtain t i opener writer via where w: "w = (t, i, opener, writer, via)" by (metis prod_cases5)
  note hand = inv_hand_writer [OF inv, of t opener]
  show ?thesis using inv inv_end_terminal [OF inv] hand inv_by_tview [OF _ hand]
    by (simp add: w withdraw_def Let_def split_beta)
qed

lemma inv_allowlist: "terminals_inv env e \<Longrightarrow> terminals_inv env (on_terminal_allowlist env l e)"
  unfolding on_terminal_allowlist_def Let_def
  by (rule foldl_inv) (auto intro: inv_withdraw inv_by_tview)

text \<open>A terminal's timer fired: it left the book, and the handler forgets it.\<close>

definition fired :: "TimerId \<Rightarrow> Engine \<Rightarrow> Engine" where
  "fired i e = e\<lparr>en_out := snd (take_timer i (en_out e))\<rparr>"

lemma tview_fired: "om_get (timers (en_out e)) i = Some k \<Longrightarrow> tview (set_terminal t y (fired i e)) = tview (disarm_timer (Some i) (set_terminal t y e))"
  by (simp add: fired_def tview_def disarm_timer_def cancel_timer_def take_timer_def)

lemma fired_simps [simp]: "open_terminal t (fired i e) = open_terminal t e" "en_terminals (fired i e) = en_terminals e"
  "idle_ms (fired i e) = idle_ms e" "en_pairing (fired i e) = en_pairing e" "en_paired (fired i e) = en_paired e" "en_now (fired i e) = en_now e"
  by (simp_all add: fired_def open_terminal_def idle_ms_def)

lemma timer_slot:
  assumes "terminals_inv env e" "om_get (timers (en_out e)) i = Some k" "owned_kind k"
  shows "slot (en_pairing e) (om_get (tt_open (en_terminals e))) k = Some i"
proof -
  have "terminals_own (en_pairing e) (om_get (tt_open (en_terminals e))) (en_out e)" using assms(1) by (simp add: terminals_inv_def tstate_def)
  with assms(2,3) show ?thesis unfolding book.owns_def by blast
qed

lemma inv_gap_fired:
  assumes inv: "terminals_inv env e" and i: "om_get (timers (en_out e)) i = Some (TkTerminalGap t)"
  shows "terminals_inv env (on_terminal_gap env t (fired i e))"
proof -
  obtain x where x: "open_terminal t e = Some x" and g: "tm_gap_timer x = Some i"
    using timer_slot [OF inv i] by (auto simp: open_terminal_def split: option.splits)
  have e1: "terminals_inv env (disarm_timer (tm_gap_timer x) (set_terminal t (x\<lparr>tm_pending := [], tm_gap_timer := None\<rparr>) e))"
    using inv_term_ok [OF inv x] by (intro inv_drop_gap [OF inv x] term_ok_cleared) simp_all
  have "tview (on_terminal_gap env t (fired i e)) = tview (set_terminal t (x\<lparr>tm_pending := [], tm_gap_timer := None\<rparr>) (fired i e))"
  proof (cases "tm_pending x = []")
    case True
    then have "x\<lparr>tm_gap_timer := None\<rparr> = x\<lparr>tm_pending := [], tm_gap_timer := None\<rparr>" by (cases x) simp
    moreover have "on_terminal_gap env t (fired i e) = set_terminal t (x\<lparr>tm_gap_timer := None\<rparr>) (fired i e)"
      using True x by (simp add: on_terminal_gap_def Let_def)
    ultimately show ?thesis by simp
  next
    case False
    let ?e = "set_terminal t (x\<lparr>tm_gap_timer := None\<rparr>) (fired i e)"
    have "open_terminal t ?e = Some (x\<lparr>tm_gap_timer := None\<rparr>)" by (simp add: open_terminal_def)
    from tview_resend [OF this] False x show ?thesis by (simp add: on_terminal_gap_def Let_def disarm_timer_def tview_def)
  qed
  also have "\<dots> = tview (disarm_timer (Some i) (set_terminal t (x\<lparr>tm_pending := [], tm_gap_timer := None\<rparr>) e))"
    by (rule tview_fired [OF i])
  finally show ?thesis by (rule inv_by_tview) (use e1 g in simp)
qed

lemma inv_idle_fired:
  assumes inv: "terminals_inv env e" and i: "om_get (timers (en_out e)) i = Some (TkTerminalIdle t)"
  shows "terminals_inv env (on_terminal_idle env t (fired i e))"
proof -
  obtain x where x: "open_terminal t e = Some x" and g: "tm_idle_timer x = Some i"
    using timer_slot [OF inv i] by (auto simp: open_terminal_def split: option.splits)
  let ?y = "x\<lparr>tm_idle_timer := None\<rparr>" and ?ops = "tt_open (en_terminals e)"
  let ?e = "set_terminal t ?y (fired i e)"
  have m: "om_get ?ops t = Some x" using x by (simp add: open_terminal_def)
  have st: "tstate env (en_pairing e) ?ops (tt_spawning (en_terminals e)) (tc_max_terminals (tt_config (en_terminals e)))
      (0 < idle_ms e) (en_out e) (en_ids e)" using inv by (simp add: terminals_inv_def)
  have oi: "out_inv (en_out (fired i e))" using st by (simp add: fired_def tstate_def out_inv_take_timer)
  have "terminals_own (en_pairing e) ((om_get ?ops)(t \<mapsto> ?y)) (en_out (disarm_timer (tm_idle_timer x) e))"
    by (rule own_drop_idle) (use st m in \<open>simp_all add: tstate_def\<close>)
  moreover have "timers (en_out (fired i e)) = timers (en_out (disarm_timer (tm_idle_timer x) e))"
    using i g by (simp add: fired_def disarm_timer_def cancel_timer_def take_timer_def)
  ultimately have own: "terminals_own (en_pairing e) ((om_get ?ops)(t \<mapsto> ?y)) (en_out (fired i e))" using owns_timers by blast
  have ok: "term_ok (0 < idle_ms e) x" by (rule inv_term_ok [OF inv x])
  show ?thesis
  proof (cases "client_attached t ?e \<and> 0 < idle_ms e")
    case True
    let ?st = "set_timer (idle_ms e) (TkTerminalIdle t) (en_out (fired i e))"
    let ?z = "x\<lparr>tm_idle_timer := Some (fst ?st)\<rparr>"
    have "terminals_own (en_pairing e) (((om_get ?ops)(t \<mapsto> ?y))(t \<mapsto> ?z)) (snd ?st)"
      by (rule own_set_idle [where x = ?y]) (use oi own in simp_all)
    then have "tstate env (en_pairing e) (om_put t ?z ?ops) (tt_spawning (en_terminals e)) (tc_max_terminals (tt_config (en_terminals e)))
        (0 < idle_ms e) (snd ?st) (en_ids e)"
      using ok by (intro tstate_put [OF st m]) (auto simp: term_ok_def pending_ok_def last_seq_of_def intro: wf_intros oi)
    then show ?thesis using True x
      by (simp add: on_terminal_idle_def Let_def arm_timer_def split_beta open_terminal_def set_terminal_def put_open_def
        terminals_inv_def idle_ms_def fired_def)
  next
    case False
    have "terminals_own (en_pairing e) (((om_get ?ops)(t \<mapsto> ?y))(t := None)) (en_out (disarm_timer (tm_idle_timer ?y) (disarm_timer (tm_gap_timer ?y) (fired i e))))"
      by (rule own_delete) (use own in simp_all)
    then have gone: "tstate env (en_pairing e) (om_del t ?ops) (tt_spawning (en_terminals e)) (tc_max_terminals (tt_config (en_terminals e)))
        (0 < idle_ms e) (en_out (disarm_timer None (disarm_timer (tm_gap_timer x) (fired i e)))) (en_ids e)"
      by (intro tstate_del [OF st] wf_intros oi) simp
    let ?gone = "disarm_timer None (disarm_timer (tm_gap_timer x) ((fired i e)\<lparr>en_terminals := (en_terminals e)\<lparr>tt_open := om_del t ?ops\<rparr>\<rparr>))"
    have "tview (end_terminal env t EndIdle None None ?e) = tview ?gone"
      by (simp add: end_terminal_def open_terminal_def Let_def om_del_put) (simp add: tview_def disarm_timer_def set_terminal_def put_open_def om_del_put split: option.splits)
    moreover have "terminals_inv env ?gone"
      using gone by (simp add: terminals_inv_def idle_ms_def disarm_timer_def fired_def split: option.splits)
    ultimately have ended: "terminals_inv env (end_terminal env t EndIdle None None ?e)" by (rule inv_by_tview)
    have "terminals_inv env ?e" if "idle_ms e = 0"
      using tstate_put [OF st m _ oi own] ok that
      by (simp add: terminals_inv_def idle_ms_def term_ok_def pending_ok_def last_seq_of_def fired_def)
    then show ?thesis using False ended x by (auto simp: on_terminal_idle_def Let_def)
  qed
qed

end
