(* ===== verification/Pairing.thy ===== *)
theory Pairing
  imports TerminalState
begin

text \<open>
  \<open>crates/bridge-core/src/pairing.rs\<close> and \<open>engine/pairing.rs\<close>: the pairing window (a time-boxed
  subscription with no author filter and a one-time token), the pair-request that echoes the token, the
  limit on negative answers, and unpairing.
\<close>

section \<open>The pairing URL and the budget of negative answers\<close>

definition DEFAULT_PAIRING_WINDOW_MS :: nat where "DEFAULT_PAIRING_WINDOW_MS = 10 * 60000"
definition MAX_PAIR_NACKS :: nat where "MAX_PAIR_NACKS = 5"
definition PAIR_NACK_WINDOW_MS :: nat where "PAIR_NACK_WINDOW_MS = 10 * 60000"

definition hex_digit :: "nat \<Rightarrow> char" where
  "hex_digit n = (if n < 10 then char_of (48 + n) else char_of (55 + n))"

definition is_unreserved :: "char \<Rightarrow> bool" where
  "is_unreserved c = (let b = (of_char c :: nat) in
     48 \<le> b \<and> b \<le> 57 \<or> 65 \<le> b \<and> b \<le> 90 \<or> 97 \<le> b \<and> b \<le> 122 \<or> c \<in> set [CHR ''-'', CHR ''_'', CHR ''.'', CHR ''!'', CHR ''~'', CHR ''*'', CHR 0x27, CHR ''('', CHR '')''])"

definition encode_byte :: "char \<Rightarrow> string" where
  "encode_byte c = (if is_unreserved c then [c]
     else let b = (of_char c :: nat) in [CHR ''%'', hex_digit (b div 16), hex_digit (b mod 16)])"

definition encode_uri_component :: "string \<Rightarrow> string" where
  "encode_uri_component s = concat (map encode_byte s)"

fun join :: "string \<Rightarrow> string list \<Rightarrow> string" where
  "join sep [] = []"
| "join sep [x] = x"
| "join sep (x # y # ys) = x @ sep @ join sep (y # ys)"

definition pairing_url :: "string \<Rightarrow> string list \<Rightarrow> string \<Rightarrow> string \<Rightarrow> string" where
  "pairing_url npub relays machine token =
     ''codedeck://pair?npub='' @ npub @ ''&relays='' @ join '','' (map encode_uri_component relays)
       @ ''&machine='' @ encode_uri_component machine @ ''&token='' @ encode_uri_component token"

text \<open>Whether one more rejection may be answered. The count is a \<open>u32\<close>.\<close>

definition nack_allow :: "nat \<Rightarrow> NackBudget \<Rightarrow> bool \<times> NackBudget" where
  "nack_allow now b =
     (let b = (if \<not> nb_started b \<or> sat_sub now (nb_window_start_ms b) \<ge> PAIR_NACK_WINDOW_MS
          then \<lparr>nb_window_start_ms = now, nb_count = 0, nb_started = True\<rparr> else b);
          b = b\<lparr>nb_count := (nb_count b + 1) mod 2 ^ 32\<rparr>
      in (nb_count b \<le> MAX_PAIR_NACKS, b))"

section \<open>The window\<close>

definition byte_of :: "char \<Rightarrow> 8 word" where
  "byte_of c = word_of_nat (of_char c)"

text \<open>Every byte pair is compared, wherever the first difference is.\<close>

definition same_token :: "string \<Rightarrow> string \<Rightarrow> bool" where
  "same_token expected given =
     (length expected = length given
      \<and> foldl (\<lambda>diff (a, b). Bit_Operations.or diff (Bit_Operations.xor (byte_of a) (byte_of b))) 0 (zip expected given) = 0)"

definition close_pairing :: "PairingCloseReason \<Rightarrow> PairedPhone option \<Rightarrow> Engine \<Rightarrow> Engine" where
  "close_pairing reason phone e =
     (case en_pairing e of
        None \<Rightarrow> e
      | Some w \<Rightarrow>
          let e = disarm_timer (Some (win_timer w)) (e\<lparr>en_pairing := None\<rparr>)
          in emit (PairingClosed reason phone) (emit ClosePairingSubscription e))"

definition open_pairing :: "Env \<Rightarrow> nat option \<Rightarrow> Engine \<Rightarrow> Engine" where
  "open_pairing env duration_ms e =
     (let e = close_pairing ClosedClosed None e;
          token = ev_new_token env (en_ids e);
          e = e\<lparr>en_ids := en_ids e + 1\<rparr>;
          duration = (case duration_ms of Some d \<Rightarrow> d | None \<Rightarrow> en_pairing_window_ms e);
          url = pairing_url (en_npub e) (en_relays e) (en_machine e) token;
          now = en_now e;
          epoch = en_pairing_epoch e + 1;
          e = e\<lparr>en_pairing_epoch := epoch\<rparr>;
          (timer, e) = arm_timer duration (TkPairingExpiry epoch) e;
          e = emit (OpenPairingSubscription (sat_sub (now div 1000) 5)) e;
          e = emit (PresentPairing \<lparr>pw_url = url, pw_display_url = url, pw_token = token, pw_expires_at_ms = now + duration\<rparr>) e
      in e\<lparr>en_pairing := Some \<lparr>win_token = token, win_epoch = epoch, win_timer = timer\<rparr>\<rparr>)"

definition on_pairing_expiry :: "nat \<Rightarrow> Engine \<Rightarrow> Engine" where
  "on_pairing_expiry epoch e =
     (if (case en_pairing e of Some w \<Rightarrow> win_epoch w = epoch | None \<Rightarrow> False) then close_pairing ClosedExpired None e else e)"

definition pair_rejection :: "PairRequestMsg \<Rightarrow> Engine \<Rightarrow> PairAckReason option" where
  "pair_rejection m e =
     (case en_pairing e of
        None \<Rightarrow> Some WindowClosed
      | Some w \<Rightarrow> (if \<not> same_token (win_token w) (pr_token m) then Some BadToken else None))"

definition on_pair_request :: "Env \<Rightarrow> PairRequestMsg \<Rightarrow> string \<Rightarrow> Engine \<Rightarrow> Engine" where
  "on_pair_request env m sender e =
     (case pair_rejection m e of
        Some reason \<Rightarrow>
          let (allowed, nacks) = nack_allow (en_now e) (en_nacks e);
              e = e\<lparr>en_nacks := nacks\<rparr>
          in if allowed then
               publish_to sender (PairAck \<lparr>pa_machine = en_machine e, pa_ok = False, pa_reason = Some reason, pa_relays = None, pa_host = None\<rparr>) e
             else e
      | None \<Rightarrow>
          (case ev_npub_from_hex env sender of
             None \<Rightarrow> e
           | Some npub \<Rightarrow>
               let label = (if pr_label m = [] then ''Phone'' else pr_label m);
                   phone = \<lparr>pp_npub = npub, pp_pubkey_hex = sender, pp_label = label, pp_paired_at = ev_iso env (en_now e), pp_clients = []\<rparr>;
                   e = close_pairing ClosedPaired (Some phone) e;
                   e = (if list_ex (\<lambda>p. pp_pubkey_hex p = pp_pubkey_hex phone) (en_paired e) then e
                        else store_paired (e\<lparr>en_paired := en_paired e @ [phone]\<rparr>));
                   e = (case pr_session_key m of
                       Some grant \<Rightarrow> snd (grant_session_key env sender grant sender e)
                     | None \<Rightarrow> e);
                   e = (emit Resubscribe e)\<lparr>en_list_dirty := True\<rparr>;
                   e = publish_to sender (PairAck \<lparr>pa_machine = en_machine e, pa_ok = True, pa_reason = None,
                     pa_relays = Some (en_relays e), pa_host = en_host_kind e\<rparr>) e
               in emit (Notify NotifyInfo (''Phone \"'' @ label @ ''\" paired'')) e))"

definition unpair :: "Env \<Rightarrow> string \<Rightarrow> Engine \<Rightarrow> Engine" where
  "unpair env identity e =
     (let paired = filter (\<lambda>p. pp_pubkey_hex p \<noteq> identity) (en_paired e) in
      if length paired = length (en_paired e) then e
      else
        let e = close_identity_terminals env identity EndKilled (e\<lparr>en_paired := paired\<rparr>);
            e = store_paired e
        in (emit Resubscribe e)\<lparr>en_list_dirty := True\<rparr>)"

end
