(* ===== verification/Bridge.thy ===== *)
theory Bridge
  imports Pairing
begin

text \<open>
  The engine as a whole (\<open>engine/mod.rs\<close>, \<open>engine/phone.rs\<close>): its inputs, the routing of a relay event
  through the ingest to the command's handler, timers, the start, and the heartbeat's copies. Commands of
  the parts that are not modelled leave the modelled state alone. The rest of a heartbeat is a parameter:
  \<open>base own\<close> is the list without terminals, for one client of its own or for all.
\<close>

section \<open>Inputs\<close>

definition LIVE_KIND :: nat where "LIVE_KIND = 24515"
definition COMMAND_KIND :: nat where "COMMAND_KIND = 4515"

datatype EngineInput =
    InRelayEvent InboundEvent Via
  | InTimer TimerId
  | InOpenPairing "nat option"
  | InClosePairing
  | InWorkspaceChanged
  | InTerminalSpawned string string
  | InTerminalSpawnFailed string string
  | InTerminalOutput string nat string
  | InTerminalExited string "int option" TerminalEndReason
  | InTerminalAllowlist TerminalAllowlist
  | InUnpaired string

definition persist_cursor :: "Engine \<Rightarrow> Engine" where
  "persist_cursor e = e\<lparr>en_ingest := forget_stale (en_now e div 1000) (en_ingest e)\<rparr>"

fun dispatch :: "Env \<Rightarrow> PhoneToBridge \<Rightarrow> string \<Rightarrow> Via \<Rightarrow> Engine \<Rightarrow> Engine" where
  "dispatch env RefreshSessions phone via e = (case en_requester e of Some client \<Rightarrow> want_list client e | None \<Rightarrow> e)"
| "dispatch env (PairRequest m) phone via e = on_pair_request env m phone e"
| "dispatch env (TerminalOpen m) phone via e = on_terminal_open env m (via_of via) e"
| "dispatch env (TerminalInput m) phone via e = on_terminal_input env m (via_of via) e"
| "dispatch env (TerminalResizeCmd t cols rows) phone via e = on_terminal_resize env t cols rows (via_of via) e"
| "dispatch env (TerminalReplayCmd t start) phone via e = on_terminal_replay env t start (via_of via) e"
| "dispatch env (TerminalTakeover t) phone via e = on_terminal_takeover env t (via_of via) e"
| "dispatch env (TerminalCloseCmd t) phone via e = on_terminal_close env t (via_of via) e"
| "dispatch env (SyncRequest s have_ranges) phone via e = e"
| "dispatch env (SyncAck s ranges) phone via e = e"
| "dispatch env (SessionKey g) phone via e = e"
| "dispatch env (PresenceCmd m) phone via e = e"
| "dispatch env (OtherCommand w) phone via e = e"

text \<open>An accepted command: its client is present, and its handler runs on the client's behalf.\<close>

definition run_command :: "Env \<Rightarrow> PhoneToBridge \<Rightarrow> string \<Rightarrow> string \<Rightarrow> Via \<Rightarrow> Engine \<Rightarrow> Engine" where
  "run_command env msg phone key via e =
     (let client = \<lparr>ad_phone = phone, ad_key = key\<rparr>;
          (back, e) = note_presence phone key msg e;
          e = (if back then want_list client e else e);
          e = e\<lparr>en_requester := Some client\<rparr>;
          e = (case msg of
              SessionKey grant \<Rightarrow> snd (grant_session_key env phone grant key e)
            | PresenceCmd _ \<Rightarrow> e
            | _ \<Rightarrow> dispatch env msg phone via e)
      in e\<lparr>en_requester := None\<rparr>)"

fun is_terminal_input :: "PhoneToBridge \<Rightarrow> bool" where
  "is_terminal_input (TerminalInput m) = True"
| "is_terminal_input _ = False"

definition on_relay_event :: "Env \<Rightarrow> decrypt \<Rightarrow> decoder \<Rightarrow> InboundEvent \<Rightarrow> Via \<Rightarrow> Engine \<Rightarrow> Engine" where
  "on_relay_event env dec decode event via e =
     (let now_secs = en_now e div 1000 in
      if via = ViaPairingSub then
        let (req, ingest) = accept_pairing dec decode event now_secs (en_ingest e);
            e = e\<lparr>en_ingest := ingest\<rparr>
        in case req of Some m \<Rightarrow> on_pair_request env m (ev_pubkey event) e | None \<Rightarrow> e
      else if \<not> list_ex (\<lambda>p. pp_pubkey_hex p = ev_pubkey event) (en_paired e) then e
      else
        let keys = payload_keys (ev_pubkey event) now_secs e;
            (accepted, e) =
              (if ev_kind event = LIVE_KIND then
                 let (a, ingest) = accept_live dec decode event keys now_secs (en_ingest e) in (a, e\<lparr>en_ingest := ingest\<rparr>)
               else
                 let (a, ingest) = accept dec decode event keys now_secs (en_ingest e);
                     e = e\<lparr>en_ingest := ingest\<rparr>
                 in (a, if a \<noteq> None then persist_cursor e else e))
        in case accepted of
            None \<Rightarrow> e
          | Some (msg, key) \<Rightarrow>
              if ev_kind event = LIVE_KIND \<and> \<not> is_terminal_input msg then e
              else run_command env msg (ev_pubkey event) key via e)"

definition arm :: "nat \<Rightarrow> TimerKind \<Rightarrow> Engine \<Rightarrow> Engine" where
  "arm interval_ms kind e = (if 0 < interval_ms then snd (arm_timer interval_ms kind e) else e)"

text \<open>The kinds the modelled parts arm.\<close>

definition on_timer :: "Env \<Rightarrow> TimerId \<Rightarrow> Engine \<Rightarrow> Engine" where
  "on_timer env i e =
     (case om_get (timers (en_out e)) i of
        None \<Rightarrow> fired i e
      | Some kind \<Rightarrow>
          let e = fired i e in
          case kind of
            TkHeartbeat \<Rightarrow>
              arm (en_heartbeat_interval_ms e) TkHeartbeat
                ((persist_cursor (forget_gone_devices (prune_session_keys e)))\<lparr>en_list_dirty := True\<rparr>)
          | TkPairingExpiry epoch \<Rightarrow> on_pairing_expiry epoch e
          | TkTerminalGap t \<Rightarrow> on_terminal_gap env t e
          | TkTerminalIdle t \<Rightarrow> on_terminal_idle env t e
          | _ \<Rightarrow> e)"

section \<open>The heartbeat\<close>

definition with_own_terminals :: "TerminalInfo list \<Rightarrow> SessionListMsg \<Rightarrow> SessionListMsg" where
  "with_own_terminals own base = base\<lparr>sl_terminals := (if own = [] then None else Some own)\<rparr>"

definition publish_list :: "SessionListMsg \<Rightarrow> Addressee list option \<Rightarrow> Engine \<Rightarrow> Engine" where
  "publish_list base to e =
     (let e = e\<lparr>en_list_dirty := False\<rparr> in
      if en_paired e = [] then e
      else case to of
          Some to \<Rightarrow>
            foldl (\<lambda>e phone. send_to (filter (\<lambda>a. ad_phone a = phone) to)
                (Sessions (with_own_terminals (terminal_infos phone e) base)) e)
              e (sort (remdups (map ad_phone to)))
        | None \<Rightarrow>
            let shared = filter (\<lambda>phone. terminal_infos phone e = []) (phones e);
                owners = filter (\<lambda>phone. terminal_infos phone e \<noteq> []) (phones e);
                e = foldl (\<lambda>e phone. send_identity phone (Sessions (with_own_terminals (terminal_infos phone e) base)) e) e owners
            in e\<lparr>en_out := publish shared (Sessions (base\<lparr>sl_terminals := None\<rparr>)) (en_out e)\<rparr>)"

definition flush :: "(bool \<Rightarrow> SessionListMsg) \<Rightarrow> bool \<Rightarrow> Engine \<Rightarrow> Engine" where
  "flush base all_recent e =
     (let e = (if en_list_dirty e then
            let e = publish_list (base False) None e
            in if all_recent then e\<lparr>en_list_wanted := []\<rparr> else e
          else e)
      in if en_list_wanted e = [] then e
         else publish_list (base True) (Some (en_list_wanted e)) (e\<lparr>en_list_wanted := []\<rparr>))"

section \<open>The engine\<close>

fun on_input :: "Env \<Rightarrow> decrypt \<Rightarrow> decoder \<Rightarrow> EngineInput \<Rightarrow> Engine \<Rightarrow> Engine" where
  "on_input env dec decode (InRelayEvent event via) e = on_relay_event env dec decode event via e"
| "on_input env dec decode (InTimer i) e = on_timer env i e"
| "on_input env dec decode (InOpenPairing d) e = open_pairing env d e"
| "on_input env dec decode InClosePairing e = close_pairing ClosedClosed None e"
| "on_input env dec decode InWorkspaceChanged e = e\<lparr>en_list_dirty := True\<rparr>"
| "on_input env dec decode (InTerminalSpawned t shell) e = on_terminal_spawned env t shell e"
| "on_input env dec decode (InTerminalSpawnFailed t note) e = on_terminal_spawn_failed env t note e"
| "on_input env dec decode (InTerminalOutput t offset data) e = on_terminal_output t offset data e"
| "on_input env dec decode (InTerminalExited t code reason) e = on_terminal_exited env t code reason e"
| "on_input env dec decode (InTerminalAllowlist l) e = on_terminal_allowlist env l e"
| "on_input env dec decode (InUnpaired who) e = unpair env who e"

definition handle :: "Env \<Rightarrow> decrypt \<Rightarrow> decoder \<Rightarrow> (bool \<Rightarrow> SessionListMsg) \<Rightarrow> bool \<Rightarrow> nat \<Rightarrow> EngineInput \<Rightarrow> Engine
    \<Rightarrow> Effect list \<times> Engine" where
  "handle env dec decode base all_recent now input e =
     (let e = on_input env dec decode input (e\<lparr>en_now := now\<rparr>);
          e = e\<lparr>en_requester := None\<rparr>
      in take_effects (flush base all_recent e))"

text \<open>The start, from the phones, the cursor and the ids the store holds.\<close>

definition engine_start :: "Env \<Rightarrow> PairedPhone list \<Rightarrow> nat \<Rightarrow> string list \<Rightarrow> Engine \<Rightarrow> Engine" where
  "engine_start env stored last_seen processed e =
     (let e = hydrate_devices env (presume_present (e\<lparr>en_paired := stored\<rparr>));
          e = e\<lparr>en_ingest := ingest_new last_seen processed\<rparr>;
          e = arm (en_heartbeat_interval_ms e) TkHeartbeat e
      in (emit Resubscribe e)\<lparr>en_list_dirty := True\<rparr>)"

end
