(* ===== verification/BridgeState.thy ===== *)
theory BridgeState
  imports Bridge
begin

text \<open>
  The engine's timers over every input: each open terminal and the pairing window own exactly the timers
  armed for them, terminals stay within their limit, and held input within its bounds.
\<close>

section \<open>Parts that touch no terminal and no timer\<close>

lemma tview_want_list [simp]: "tview (want_list c e) = tview e"
  by (simp add: want_list_def)

lemma tview_store_paired [simp]: "tview (store_paired e) = tview e"
  by (simp add: store_paired_def)

lemma tview_grant [simp]: "tview (snd (grant_session_key env who g k e)) = tview e"
  by (simp add: grant_session_key_def Let_def split: option.splits)

lemma tview_foldl:
  assumes "\<And>e x. tview (f e x) = tview e"
  shows "tview (foldl f e xs) = tview e"
  using assms by (induction xs arbitrary: e) auto

lemma tview_catch_up [simp]: "tview (catch_up_live_text who k s e) = tview e"
  by (auto simp: catch_up_live_text_def tview_foldl split: option.splits)

lemma tview_note_presence [simp]: "tview (snd (note_presence who k msg e)) = tview e"
  by (auto simp: note_presence_def Let_def split: option.splits)

lemma tview_prune [simp]: "tview (prune_session_keys e) = tview e"
  by (simp add: prune_session_keys_def Let_def)

lemma tview_persist [simp]: "tview (persist_cursor e) = tview e"
  by (simp add: persist_cursor_def)

lemma tview_publish_to [simp]: "tview (publish_to p m e) = tview e"
  by (simp add: publish_to_def)

lemma tview_publish [simp]: "tview (e\<lparr>en_out := publish to m (en_out e)\<rparr>) = tview e"
  by (simp add: tview_def)

lemma tview_publish_list [simp]: "tview (publish_list base to e) = tview e"
  by (cases to) (simp_all add: publish_list_def Let_def tview_foldl)

lemma tview_flush [simp]: "tview (flush base recent e) = tview e"
  by (simp add: flush_def Let_def)

lemma tview_take_effects [simp]: "tview (snd (take_effects e)) = tview e"
  by (simp add: take_effects_def tview_def)

section \<open>Timers of no terminal\<close>

lemma tstate_ids: "tstate env pw ops sp limit idles out ids \<Longrightarrow> ids \<le> ids' \<Longrightarrow> tstate env pw ops sp limit idles out ids'"
  unfolding tstate_def by (meson order_less_le_trans)

lemma tstate_swap:
  "tstate env pw ops sp limit idles out ids \<Longrightarrow> out_inv out' \<Longrightarrow> terminals_own pw' (om_get ops) out'
   \<Longrightarrow> tstate env pw' ops sp limit idles out' ids"
  by (simp add: tstate_def)

lemma inv_fired_other:
  assumes inv: "terminals_inv env e" and other: "\<And>k. om_get (timers (en_out e)) i = Some k \<Longrightarrow> \<not> owned_kind k"
  shows "terminals_inv env (fired i e)"
proof -
  have st: "tstate env (en_pairing e) (tt_open (en_terminals e)) (tt_spawning (en_terminals e))
      (tc_max_terminals (tt_config (en_terminals e))) (0 < idle_ms e) (en_out e) (en_ids e)" using inv by (simp add: terminals_inv_def)
  then have own: "terminals_own (en_pairing e) (om_get (tt_open (en_terminals e))) (en_out e)" by (simp add: tstate_def)
  have "terminals_own (en_pairing e) (om_get (tt_open (en_terminals e))) (en_out (fired i e))"
    unfolding book.owns_def
  proof (intro allI impI)
    fix j k assume k: "owned_kind k"
    have "om_get (timers (en_out (fired i e))) j = Some k \<longleftrightarrow> om_get (timers (en_out e)) j = Some k"
      using other k by (auto simp: fired_def)
    then show "(om_get (timers (en_out (fired i e))) j = Some k) = (slot (en_pairing e) (om_get (tt_open (en_terminals e))) k = Some j)"
      using own k unfolding book.owns_def by blast
  qed
  moreover have "out_inv (en_out (fired i e))" using st by (simp add: fired_def tstate_def out_inv_take_timer)
  ultimately have "tstate env (en_pairing e) (tt_open (en_terminals e)) (tt_spawning (en_terminals e))
      (tc_max_terminals (tt_config (en_terminals e))) (0 < idle_ms e) (en_out (fired i e)) (en_ids e)"
    by (intro tstate_swap [OF st])
  then show ?thesis by (simp add: terminals_inv_def) (simp add: fired_def)
qed

lemma inv_arm_other:
  assumes inv: "terminals_inv env e" and other: "\<not> owned_kind k"
  shows "terminals_inv env (arm d k e)"
proof -
  let ?e = "snd (arm_timer d k e)"
  have out: "en_out ?e = snd (set_timer d k (en_out e))" by (simp add: arm_timer_def split_beta)
  have st: "tstate env (en_pairing e) (tt_open (en_terminals e)) (tt_spawning (en_terminals e))
      (tc_max_terminals (tt_config (en_terminals e))) (0 < idle_ms e) (en_out e) (en_ids e)" using inv by (simp add: terminals_inv_def)
  then have oi: "out_inv (en_out e)" and own: "terminals_own (en_pairing e) (om_get (tt_open (en_terminals e))) (en_out e)"
    by (simp_all add: tstate_def)
  have "terminals_own (en_pairing e) (om_get (tt_open (en_terminals e))) (en_out ?e)"
    unfolding book.owns_def
  proof (intro allI impI)
    fix j l assume l: "owned_kind l"
    have "om_get (timers (en_out ?e)) j = Some l \<longleftrightarrow> om_get (timers (en_out e)) j = Some l"
      unfolding out using other l out_inv_fresh [OF oi] by auto
    then show "(om_get (timers (en_out ?e)) j = Some l) = (slot (en_pairing e) (om_get (tt_open (en_terminals e))) l = Some j)"
      using own l unfolding book.owns_def by blast
  qed
  moreover have "out_inv (en_out ?e)" unfolding out using oi by (rule wf_intros)
  ultimately have "tstate env (en_pairing e) (tt_open (en_terminals e)) (tt_spawning (en_terminals e))
      (tc_max_terminals (tt_config (en_terminals e))) (0 < idle_ms e) (en_out ?e) (en_ids e)"
    by (intro tstate_swap [OF st])
  then have "terminals_inv env ?e" by (simp add: terminals_inv_def arm_timer_def split_beta idle_ms_def)
  with inv show ?thesis by (simp add: arm_def)
qed

section \<open>The pairing window\<close>

lemma tview_close_pairing:
  "en_pairing e = Some w \<Longrightarrow> tview (close_pairing r p e) = tview (disarm_timer (Some (win_timer w)) (e\<lparr>en_pairing := None\<rparr>))"
  by (simp add: close_pairing_def)

lemma inv_close_pairing:
  assumes inv: "terminals_inv env e"
  shows "terminals_inv env (close_pairing r p e)"
proof (cases "en_pairing e")
  case None
  then show ?thesis using inv by (simp add: close_pairing_def)
next
  case (Some w)
  have st: "tstate env (Some w) (tt_open (en_terminals e)) (tt_spawning (en_terminals e))
      (tc_max_terminals (tt_config (en_terminals e))) (0 < idle_ms e) (en_out e) (en_ids e)" using inv Some by (simp add: terminals_inv_def)
  have "terminals_own None (om_get (tt_open (en_terminals e))) (cancel_timer (win_timer w) (en_out e))"
  proof (rule own_drop [where pw = "Some w" and k = "TkPairingExpiry (win_epoch w)"])
    show "slot None (om_get (tt_open (en_terminals e))) l =
        (if l = TkPairingExpiry (win_epoch w) then None else slot (Some w) (om_get (tt_open (en_terminals e))) l)" for l
      by (cases l) auto
  qed (use st in \<open>simp_all add: tstate_def\<close>)
  moreover have "out_inv (cancel_timer (win_timer w) (en_out e))" using st by (intro wf_intros) (simp add: tstate_def)
  ultimately have "tstate env None (tt_open (en_terminals e)) (tt_spawning (en_terminals e))
      (tc_max_terminals (tt_config (en_terminals e))) (0 < idle_ms e) (cancel_timer (win_timer w) (en_out e)) (en_ids e)"
    by (intro tstate_swap [OF st])
  then have "terminals_inv env (disarm_timer (Some (win_timer w)) (e\<lparr>en_pairing := None\<rparr>))"
    by (simp add: terminals_inv_def disarm_timer_def idle_ms_def)
  then show ?thesis by (rule inv_by_tview [OF tview_close_pairing [OF Some]])
qed

lemma close_pairing_closed [simp]: "en_pairing (close_pairing r p e) = None"
  by (cases "en_pairing e") (simp_all add: close_pairing_def)

lemma inv_open_pairing:
  assumes inv: "terminals_inv env e"
  shows "terminals_inv env (open_pairing env d e)"
proof -
  let ?c = "close_pairing ClosedClosed None e"
  define duration where "duration = (case d of Some d \<Rightarrow> d | None \<Rightarrow> en_pairing_window_ms ?c)"
  let ?k = "TkPairingExpiry (en_pairing_epoch ?c + 1)"
  let ?st = "set_timer duration ?k (en_out ?c)"
  let ?w = "\<lparr>win_token = ev_new_token env (en_ids ?c), win_epoch = en_pairing_epoch ?c + 1, win_timer = fst ?st\<rparr>"
  have st: "tstate env None (tt_open (en_terminals ?c)) (tt_spawning (en_terminals ?c))
      (tc_max_terminals (tt_config (en_terminals ?c))) (0 < idle_ms ?c) (en_out ?c) (en_ids ?c)"
    using inv_close_pairing [OF inv, of ClosedClosed None] by (simp add: terminals_inv_def)
  have oi: "out_inv (en_out ?c)" using st by (simp add: tstate_def)
  have "terminals_own (Some ?w) (om_get (tt_open (en_terminals ?c))) (snd ?st)"
  proof (rule own_arm [where pw = None])
    show "slot (Some ?w) (om_get (tt_open (en_terminals ?c))) l = (if l = ?k then Some (fst ?st) else slot None (om_get (tt_open (en_terminals ?c))) l)" for l
      by (cases l) auto
  qed (use st oi in \<open>simp_all add: tstate_def\<close>)
  then have "tstate env (Some ?w) (tt_open (en_terminals ?c)) (tt_spawning (en_terminals ?c))
      (tc_max_terminals (tt_config (en_terminals ?c))) (0 < idle_ms ?c) (snd ?st) (en_ids ?c)"
    by (intro tstate_swap [OF st] out_inv_set_timer [OF oi])
  then have "tstate env (Some ?w) (tt_open (en_terminals ?c)) (tt_spawning (en_terminals ?c))
      (tc_max_terminals (tt_config (en_terminals ?c))) (0 < idle_ms ?c) (snd ?st) (en_ids ?c + 1)" by (rule tstate_ids) simp
  then have "terminals_inv env (?c\<lparr>en_ids := en_ids ?c + 1, en_pairing_epoch := en_pairing_epoch ?c + 1, en_out := snd ?st, en_pairing := Some ?w\<rparr>)"
    by (simp add: terminals_inv_def idle_ms_def)
  moreover have "tview (open_pairing env d e)
      = tview (?c\<lparr>en_ids := en_ids ?c + 1, en_pairing_epoch := en_pairing_epoch ?c + 1, en_out := snd ?st, en_pairing := Some ?w\<rparr>)"
    by (cases d) (simp_all add: open_pairing_def Let_def split_beta arm_timer_def duration_def tview_def emit_def)
  ultimately show ?thesis by (rule inv_by_tview [rotated])
qed

lemma inv_expiry_fired:
  assumes inv: "terminals_inv env e" and i: "om_get (timers (en_out e)) i = Some (TkPairingExpiry epoch)"
  shows "terminals_inv env (on_pairing_expiry epoch (fired i e))"
proof -
  obtain w where w: "en_pairing e = Some w" "win_epoch w = epoch" "win_timer w = i"
    using timer_slot [OF inv i] by (auto split: option.splits if_splits)
  have "tview (on_pairing_expiry epoch (fired i e)) = tview (close_pairing ClosedExpired None e)"
    using w i tview_close_pairing [of "fired i e" w ClosedExpired None] tview_close_pairing [OF w(1), of ClosedExpired None]
    by (simp add: on_pairing_expiry_def) (simp add: tview_def disarm_timer_def fired_def cancel_timer_def take_timer_def)
  then show ?thesis by (rule inv_by_tview) (rule inv_close_pairing [OF inv])
qed

section \<open>Every input\<close>

lemma inv_pair_request:
  assumes inv: "terminals_inv env e"
  shows "terminals_inv env (on_pair_request env m sender e)"
proof (cases "pair_rejection m e")
  case (Some reason)
  have "tview (on_pair_request env m sender e) = tview e"
    using Some by (simp add: on_pair_request_def Let_def split_beta)
  then show ?thesis using inv by (rule inv_by_tview)
next
  case None
  show ?thesis
  proof (cases "ev_npub_from_hex env sender")
    case None
    with \<open>pair_rejection m e = None\<close> inv show ?thesis by (simp add: on_pair_request_def)
  next
    case (Some npub)
    have "\<exists>phone. tview (on_pair_request env m sender e) = tview (close_pairing ClosedPaired phone e)"
      using Some None by (auto simp: on_pair_request_def Let_def split: option.splits)
    then show ?thesis using inv_by_tview inv_close_pairing [OF inv] by metis
  qed
qed

lemma inv_dispatch:
  assumes "terminals_inv env e" "inj (ev_new_id env)"
  shows "terminals_inv env (dispatch env msg phone via e)"
  using assms inv_by_tview [OF tview_want_list]
  by (cases msg) (auto simp: inv_open inv_input inv_resize inv_replay inv_takeover inv_close inv_pair_request split: option.splits)

lemma inv_run_command:
  assumes inv: "terminals_inv env e" and inj: "inj (ev_new_id env)"
  shows "terminals_inv env (run_command env msg phone key via e)"
proof -
  let ?np = "note_presence phone key msg e" and ?c = "\<lparr>ad_phone = phone, ad_key = key\<rparr>"
  let ?e = "(if fst ?np then want_list ?c (snd ?np) else snd ?np)\<lparr>en_requester := Some ?c\<rparr>"
  have e1: "terminals_inv env ?e" by (rule inv_by_tview [OF _ inv]) simp
  have "terminals_inv env (case msg of SessionKey grant \<Rightarrow> snd (grant_session_key env phone grant key x)
      | PresenceCmd _ \<Rightarrow> x | _ \<Rightarrow> dispatch env msg phone via x)" if x: "terminals_inv env x" for x
    using inv_dispatch [OF x inj] inv_by_tview [OF tview_grant x] x by (cases msg) (simp_all del: dispatch.simps)
  from this [OF e1] show ?thesis
    by (simp only: run_command_def Let_def split_beta) (rule inv_by_tview [rotated], assumption, simp)
qed

lemma inv_relay_event:
  assumes inv: "terminals_inv env e" and inj: "inj (ev_new_id env)"
  shows "terminals_inv env (on_relay_event env dec decode event via e)"
proof -
  have ig: "terminals_inv env (e\<lparr>en_ingest := g\<rparr>)" "terminals_inv env (persist_cursor (e\<lparr>en_ingest := g\<rparr>))" for g
    by (rule inv_by_tview [OF _ inv], simp)+
  show ?thesis
    using inv ig inv_pair_request [OF ig(1)] inv_run_command [OF ig(1) inj] inv_run_command [OF ig(2) inj]
    by (auto simp: on_relay_event_def Let_def split_beta split: option.splits)
qed

lemma inv_timer:
  assumes inv: "terminals_inv env e"
  shows "terminals_inv env (on_timer env i e)"
proof (cases "om_get (timers (en_out e)) i")
  case None
  then show ?thesis using inv_fired_other [OF inv, of i] by (simp add: on_timer_def)
next
  case (Some k)
  have beat: "terminals_inv env (arm (en_heartbeat_interval_ms (fired i e)) TkHeartbeat
      ((persist_cursor (forget_gone_devices (prune_session_keys (fired i e))))\<lparr>en_list_dirty := True\<rparr>))" if "\<not> owned_kind k"
    by (rule inv_arm_other, rule inv_by_tview [of _ "fired i e"]) (use inv_fired_other [OF inv, of i] Some that in auto)
  show ?thesis
    using Some beat inv_fired_other [OF inv, of i] inv_gap_fired [OF inv] inv_idle_fired [OF inv] inv_expiry_fired [OF inv]
    by (cases k) (simp_all add: on_timer_def Let_def)
qed

lemma inv_unpair:
  assumes inv: "terminals_inv env e"
  shows "terminals_inv env (unpair env who e)"
proof -
  have "terminals_inv env (close_identity_terminals env who EndKilled (e\<lparr>en_paired := ps\<rparr>))" for ps
    by (rule inv_close_identity, rule inv_by_tview [OF _ inv]) simp
  then have "terminals_inv env ((emit Resubscribe (store_paired (close_identity_terminals env who EndKilled (e\<lparr>en_paired := ps\<rparr>))))\<lparr>en_list_dirty := True\<rparr>)" for ps
    by (rule inv_by_tview [rotated]) simp
  with inv show ?thesis by (simp add: unpair_def Let_def)
qed

lemma inv_on_input:
  assumes inv: "terminals_inv env e" and inj: "inj (ev_new_id env)"
  shows "terminals_inv env (on_input env dec decode input e)"
  using assms inv_by_tview [OF _ inv, of "e\<lparr>en_list_dirty := True\<rparr>"]
  by (cases input) (simp_all add: inv_relay_event inv_timer inv_open_pairing inv_close_pairing inv_spawned inv_spawn_failed
      inv_output inv_exited inv_allowlist inv_unpair)

lemma inv_handle:
  assumes inv: "terminals_inv env e" and inj: "inj (ev_new_id env)"
  shows "terminals_inv env (snd (handle env dec decode base recent now input e))"
proof -
  have "terminals_inv env (e\<lparr>en_now := now\<rparr>)" by (rule inv_by_tview [OF _ inv]) simp
  then have "terminals_inv env (on_input env dec decode input (e\<lparr>en_now := now\<rparr>))" using inj by (rule inv_on_input)
  then show ?thesis by (rule inv_by_tview [rotated]) (simp add: handle_def Let_def)
qed

section \<open>Reachable engines\<close>

definition engine_new :: "string \<Rightarrow> string \<Rightarrow> string \<Rightarrow> string list \<Rightarrow> nat \<Rightarrow> nat \<Rightarrow> TerminalConfig \<Rightarrow> nat \<Rightarrow> Engine" where
  "engine_new pubkey npub machine relays pairing_window_ms heartbeat_interval_ms config now =
     \<lparr>en_pubkey_hex = pubkey, en_npub = npub, en_machine = machine, en_host_kind = None, en_relays = relays,
      en_pairing_window_ms = pairing_window_ms, en_heartbeat_interval_ms = heartbeat_interval_ms, en_now = now, en_ids = 0,
      en_store_ok = True, en_stored = None, en_out = empty_out, en_ingest = ingest_new 0 [], en_paired = [], en_sessions = [],
      en_terminals = terminals_new config, en_pairing = None, en_pairing_epoch = 0,
      en_nacks = \<lparr>nb_window_start_ms = 0, nb_count = 0, nb_started = False\<rparr>, en_list_dirty = False, en_list_wanted = [],
      en_requester = None\<rparr>"

text \<open>
  What the parts that are not modelled may do, between inputs or while one is handled: anything to the rest
  of the engine, new ids, effects and timers of their own kinds, as long as the paired phones, the
  terminals, the pairing window and the timers of both are left as they are.
\<close>

definition elsewhere_ok :: "Engine \<Rightarrow> Engine \<Rightarrow> bool" where
  "elsewhere_ok e e' = (en_terminals e' = en_terminals e \<and> en_pairing e' = en_pairing e \<and> en_paired e' = en_paired e
     \<and> en_pubkey_hex e' = en_pubkey_hex e \<and> en_ids e \<le> en_ids e' \<and> out_inv (en_out e')
     \<and> (\<forall>i k. owned_kind k \<longrightarrow> (om_get (timers (en_out e')) i = Some k) = (om_get (timers (en_out e)) i = Some k)))"

inductive engine_reach :: "Env \<Rightarrow> decrypt \<Rightarrow> decoder \<Rightarrow> PairedPhone list \<Rightarrow> Engine \<Rightarrow> bool" for env dec decode stored where
  started: "engine_reach env dec decode stored
    (engine_start env stored last_seen processed (engine_new pubkey npub machine relays window beat config now))"
| handled: "engine_reach env dec decode stored e
    \<Longrightarrow> engine_reach env dec decode stored (snd (handle env dec decode base recent now input e))"
| elsewhere: "engine_reach env dec decode stored e \<Longrightarrow> elsewhere_ok e e' \<Longrightarrow> engine_reach env dec decode stored e'"

lemma inv_elsewhere:
  assumes "terminals_inv env e" "elsewhere_ok e e'"
  shows "terminals_inv env e'"
proof -
  have t: "en_terminals e' = en_terminals e" "en_pairing e' = en_pairing e" "en_ids e \<le> en_ids e'" "out_inv (en_out e')"
    and own: "book.owns owned_kind own (en_out e') = book.owns owned_kind own (en_out e)" for own
    using assms(2) by (auto simp: elsewhere_ok_def book.owns_def)
  have "tstate env (en_pairing e) (tt_open (en_terminals e)) (tt_spawning (en_terminals e))
     (tc_max_terminals (tt_config (en_terminals e))) (0 < idle_ms e) (en_out e) (en_ids e)"
    using assms(1) by (simp add: terminals_inv_def)
  moreover have "idle_ms e' = idle_ms e" by (simp add: idle_ms_def t)
  moreover have "\<exists>k < en_ids e'. P k" if "\<exists>k < en_ids e. P k" for P using that t(3) order_less_le_trans by blast
  ultimately show ?thesis using t(4) unfolding terminals_inv_def tstate_def own t(1,2) by simp
qed

lemma inv_started: "terminals_inv env (engine_start env stored last_seen processed (engine_new pubkey npub machine relays window beat config now))"
proof -
  let ?n = "engine_new pubkey npub machine relays window beat config now"
  have "terminals_own None (om_get []) empty_out"
  proof -
    have "slot None (\<lambda>_. None) k = None" for k by (cases k) auto
    then show ?thesis by (simp add: book.owns_def empty_out_def)
  qed
  then have "tstate env None [] [] limit idles empty_out 0" for limit idles
    by (simp add: tstate_def out_inv_empty)
  then have n: "terminals_inv env ?n" by (simp add: terminals_inv_def engine_new_def terminals_new_def)
  let ?h = "(hydrate_devices env (presume_present (?n\<lparr>en_paired := stored\<rparr>)))\<lparr>en_ingest := ingest_new last_seen processed\<rparr>"
  have "tview ?h = tview ?n" by (simp add: hydrate_devices_def presume_present_def Let_def)
  then have "terminals_inv env ?h" using n by (rule inv_by_tview)
  then have "terminals_inv env (arm (en_heartbeat_interval_ms ?h) TkHeartbeat ?h)" by (rule inv_arm_other) simp
  then show ?thesis by (rule inv_by_tview [rotated]) (simp add: engine_start_def Let_def)
qed

lemma inv_reach: "engine_reach env dec decode stored e \<Longrightarrow> inj (ev_new_id env) \<Longrightarrow> terminals_inv env e"
proof (induction rule: engine_reach.induct)
  case (elsewhere e e')
  then show ?case using inv_elsewhere by blast
qed (auto intro: inv_started inv_handle)

lemma pending_count: "pending_ok x \<Longrightarrow> length (tm_pending x) < MAX_HELD_INPUTS"
proof -
  assume ok: "pending_ok x"
  have "set (map fst (tm_pending x)) \<subseteq> {last_seq x + 2..last_seq x + MAX_HELD_INPUTS}"
    using ok by (fastforce simp: pending_ok_def)
  then have "card (set (map fst (tm_pending x))) \<le> MAX_HELD_INPUTS - 1"
    using card_mono [of "{last_seq x + 2..last_seq x + MAX_HELD_INPUTS}"] by simp
  moreover have "distinct (map fst (tm_pending x))" using ok om_wf_distinct by (auto simp: pending_ok_def)
  ultimately show ?thesis using distinct_card [of "map fst (tm_pending x)"] by (simp add: MAX_HELD_INPUTS_def)
qed

text \<open>C22: Whatever the inputs, the bridge never runs more terminals than its limit, counting the shells
  still starting, and never shows one as both. An open terminal holds fewer than 256 inputs and at most
  1 MiB of them, all ahead of the next expected one; while it holds any, the timer that asks for a resend is
  armed, and while an idle limit is set so is its idle timer. An armed resend or idle timer is the one its
  open terminal remembers, so there is at most one of each and none outlives its terminal; the resend timer may
  stay armed when nothing is held any more. An open pairing window always has its expiry armed, and no other
  expiry is.\<close>

theorem terminals_consistent:
  assumes "engine_reach env dec decode stored e" "inj (ev_new_id env)"
  shows "length (tt_open (en_terminals e)) + length (tt_spawning (en_terminals e)) \<le> tc_max_terminals (tt_config (en_terminals e))
    \<and> (\<forall>t x. open_terminal t e = Some x \<longrightarrow>
        om_get (tt_spawning (en_terminals e)) t = None
        \<and> length (tm_pending x) < 256 \<and> om_sum length (tm_pending x) \<le> 1048576
        \<and> (\<forall>k \<in> fst ` set (tm_pending x). last_seq x + 1 < k)
        \<and> (tm_pending x \<noteq> [] \<longrightarrow> (\<exists>i. om_get (timers (en_out e)) i = Some (TkTerminalGap t)))
        \<and> (0 < idle_ms e \<longrightarrow> (\<exists>i. om_get (timers (en_out e)) i = Some (TkTerminalIdle t))))
    \<and> (\<forall>i t. om_get (timers (en_out e)) i = Some (TkTerminalGap t) \<longrightarrow> (\<exists>x. open_terminal t e = Some x \<and> tm_gap_timer x = Some i))
    \<and> (\<forall>i t. om_get (timers (en_out e)) i = Some (TkTerminalIdle t) \<longrightarrow> (\<exists>x. open_terminal t e = Some x \<and> tm_idle_timer x = Some i))
    \<and> (\<forall>i epoch. om_get (timers (en_out e)) i = Some (TkPairingExpiry epoch) \<longrightarrow>
        (\<exists>w. en_pairing e = Some w \<and> win_epoch w = epoch \<and> win_timer w = i))
    \<and> (\<forall>w. en_pairing e = Some w \<longrightarrow> om_get (timers (en_out e)) (win_timer w) = Some (TkPairingExpiry (win_epoch w)))"
proof -
  have inv: "terminals_inv env e" by (rule inv_reach [OF assms])
  then have own: "terminals_own (en_pairing e) (om_get (tt_open (en_terminals e))) (en_out e)" by (simp add: terminals_inv_def tstate_def)
  have armed: "om_get (timers (en_out e)) i = Some k" if "owned_kind k" "slot (en_pairing e) (om_get (tt_open (en_terminals e))) k = Some i" for i k
    using own that unfolding book.owns_def by blast
  have x: "length (tm_pending x) < 256 \<and> om_sum length (tm_pending x) \<le> 1048576 \<and> (\<forall>k \<in> fst ` set (tm_pending x). last_seq x + 1 < k)
      \<and> (tm_pending x \<noteq> [] \<longrightarrow> (\<exists>i. om_get (timers (en_out e)) i = Some (TkTerminalGap t)))
      \<and> (0 < idle_ms e \<longrightarrow> (\<exists>i. om_get (timers (en_out e)) i = Some (TkTerminalIdle t)))" if o: "open_terminal t e = Some x" for t x
  proof -
    have ok: "term_ok (0 < idle_ms e) x" by (rule inv_term_ok [OF inv o])
    have "slot (en_pairing e) (om_get (tt_open (en_terminals e))) (TkTerminalGap t) = tm_gap_timer x"
      "slot (en_pairing e) (om_get (tt_open (en_terminals e))) (TkTerminalIdle t) = tm_idle_timer x"
      using o by (simp_all add: open_terminal_def)
    then show ?thesis
      using ok pending_count [of x] armed [of "TkTerminalGap t"] armed [of "TkTerminalIdle t"]
      unfolding term_ok_def pending_ok_def MAX_HELD_INPUTS_def MAX_HELD_INPUT_BYTES_def by fastforce
  qed
  have "\<exists>x. open_terminal t e = Some x \<and> tm_gap_timer x = Some i" if "om_get (timers (en_out e)) i = Some (TkTerminalGap t)" for i t
    using timer_slot [OF inv that] by (auto simp: open_terminal_def split: option.splits)
  moreover have "\<exists>x. open_terminal t e = Some x \<and> tm_idle_timer x = Some i" if "om_get (timers (en_out e)) i = Some (TkTerminalIdle t)" for i t
    using timer_slot [OF inv that] by (auto simp: open_terminal_def split: option.splits)
  moreover have "\<exists>w. en_pairing e = Some w \<and> win_epoch w = epoch \<and> win_timer w = i"
    if "om_get (timers (en_out e)) i = Some (TkPairingExpiry epoch)" for i epoch
    using timer_slot [OF inv that] by (auto split: option.splits if_splits)
  moreover have "om_get (timers (en_out e)) (win_timer w) = Some (TkPairingExpiry (win_epoch w))" if "en_pairing e = Some w" for w
    using armed [of "TkPairingExpiry (win_epoch w)"] that by simp
  moreover have "om_get (tt_spawning (en_terminals e)) t = None" if "open_terminal t e = Some x" for t x
    using inv that unfolding terminals_inv_def tstate_def open_terminal_def by (metis option.distinct(1))
  moreover have "length (tt_open (en_terminals e)) + length (tt_spawning (en_terminals e)) \<le> tc_max_terminals (tt_config (en_terminals e))"
    using inv by (simp add: terminals_inv_def tstate_def)
  ultimately show ?thesis using x by blast
qed

text \<open>A concrete environment and engine.\<close>

definition sample_env :: Env where
  "sample_env = \<lparr>ev_npub_from_hex = Some, ev_hash16_hex = (\<lambda>s. s), ev_base64_decode = (\<lambda>s. Some (map byte_of s)),
     ev_new_id = (\<lambda>n. replicate n CHR ''i''), ev_new_token = (\<lambda>n. replicate (n + 1) CHR ''t''), ev_workspace_cwd = ''/home'',
     ev_iso = (\<lambda>n. ''now'')\<rparr>"

definition sample_engine :: Engine where
  "sample_engine = engine_start sample_env [] 0 [] (engine_new ''bridge'' ''npub'' ''laptop'' [''wss://r''] 600000 60000 default_terminal_config 0)"

lemma sample_inj: "inj (ev_new_id sample_env)"
proof (rule injI)
  fix m n assume "ev_new_id sample_env m = ev_new_id sample_env n"
  then have "length (replicate m CHR ''i'') = length (replicate n CHR ''i'')" by (simp add: sample_env_def)
  then show "m = n" by simp
qed

lemma sample_engine_reach: "engine_reach sample_env dec decode [] sample_engine"
  unfolding sample_engine_def by (rule started)

definition sample_base :: "bool \<Rightarrow> SessionListMsg" where
  "sample_base own = \<lparr>sl_machine = ''laptop'', sl_host = None, sl_capabilities = None, sl_folders = None, sl_roots = None,
     sl_removed_sessions = None, sl_machine_offline = None, sl_terminals = None, sl_rev = None\<rparr>"

theorem terminals_consistent_witness:
  "\<exists>w. en_pairing (snd (handle sample_env (\<lambda>_. Some) (\<lambda>_. None) sample_base True 5 (InOpenPairing None) sample_engine)) = Some w
    \<and> om_get (timers (en_out (snd (handle sample_env (\<lambda>_. Some) (\<lambda>_. None) sample_base True 5 (InOpenPairing None) sample_engine)))) (win_timer w)
      = Some (TkPairingExpiry (win_epoch w))"
proof -
  let ?e = "snd (handle sample_env (\<lambda>_. Some) (\<lambda>_. None) sample_base True 5 (InOpenPairing None) sample_engine)"
  have reach: "engine_reach sample_env (\<lambda>_. Some) (\<lambda>_. None) [] ?e" by (rule handled [OF sample_engine_reach])
  have "en_pairing ?e = en_pairing (on_input sample_env (\<lambda>_. Some) (\<lambda>_. None) (InOpenPairing None) (sample_engine\<lparr>en_now := 5\<rparr>))"
  proof -
    have "tview ?e = tview (on_input sample_env (\<lambda>_. Some) (\<lambda>_. None) (InOpenPairing None) (sample_engine\<lparr>en_now := 5\<rparr>))"
      by (simp only: handle_def Let_def tview_take_effects tview_flush tview_list_dirty)
    then show ?thesis by (simp add: tview_def)
  qed
  then obtain w where "en_pairing ?e = Some w" by (simp add: open_pairing_def Let_def split_beta)
  with terminals_consistent [OF reach sample_inj] show ?thesis by blast
qed

text \<open>An engine with two paired phones, an approved device of each, and one terminal the first has open and writes.\<close>

definition sample_phone :: "string \<Rightarrow> string \<Rightarrow> string \<Rightarrow> PairedPhone" where
  "sample_phone phone key device = \<lparr>pp_npub = ''npub1p'', pp_pubkey_hex = phone, pp_label = ''P'', pp_paired_at = ''now'',
     pp_clients = [\<lparr>pc_key = \<lparr>sg_pubkey_hex = key, sg_bridge_pubkey_hex = ''bridge'', sg_expires_at = 5000, sg_replaces = None, sg_label = None\<rparr>,
       pc_previous = None, pc_device = device, pc_label = None, pc_present_until_ms = 9000, pc_presumed = False,
       pc_watch = WUnknown, pc_watch_terminal = Watching (Some ''i'')\<rparr>]\<rparr>"

definition sample_terminal :: Terminal where
  "sample_terminal = \<lparr>tm_identity = ''phone'', tm_shell = ''sh'', tm_opener = ''dev'', tm_writer = ''dev'', tm_cols = 80, tm_rows = 24,
     tm_cwd = ''/home'', tm_opened_ms = 1, tm_via = ViaDirect, tm_last_seq = [], tm_pending = [], tm_gap_timer = None, tm_idle_timer = None\<rparr>"

definition sample_open :: "Addressee option \<Rightarrow> Engine" where
  "sample_open requester =
     (engine_new ''bridge'' ''npub'' ''laptop'' [''wss://r''] 600000 60000
        \<lparr>tc_enabled = True, tc_relays_allowed = False, tc_max_terminals = 2, tc_idle_secs = 0,
         tc_allowlist = \<lparr>al_devices = [''dev'', ''dev2''], al_pending = []\<rparr>\<rparr> 0)
       \<lparr>en_paired := [sample_phone ''phone'' ''key'' ''dev'', sample_phone ''other'' ''k'' ''dev2''], en_ids := 2, en_requester := requester,
        en_terminals := \<lparr>tt_config = \<lparr>tc_enabled = True, tc_relays_allowed = False, tc_max_terminals = 2, tc_idle_secs = 0,
         tc_allowlist = \<lparr>al_devices = [''dev'', ''dev2''], al_pending = []\<rparr>\<rparr>, tt_open = [(''i'', sample_terminal)], tt_spawning = []\<rparr>\<rparr>"

lemmas sample_defs = sample_open_def sample_phone_def sample_terminal_def sample_env_def engine_new_def terminals_new_def empty_out_def

lemma sample_open_inv: "terminals_inv sample_env (sample_open requester)"
proof -
  have "''i'' = ev_new_id sample_env 1" "1 < (2 :: nat)" by (simp_all add: sample_env_def)
  then have k: "\<exists>k < 2. ''i'' = ev_new_id sample_env k" by blast
  have "book.owns owned_kind (\<lambda>i k. slot None (om_get [(''i'', sample_terminal)]) k = Some i) empty_out"
    unfolding book.owns_def
  proof (intro allI impI)
    fix i k assume "owned_kind k"
    then show "(om_get (timers empty_out) i = Some k) = (slot None (om_get [(''i'', sample_terminal)]) k = Some i)"
      by (cases k rule: owned_kind.cases) (simp_all add: empty_out_def sample_terminal_def)
  qed
  then show ?thesis using k
    by (auto simp: terminals_inv_def tstate_def sample_open_def engine_new_def out_inv_empty idle_ms_def term_ok_def pending_ok_def
        sample_terminal_def om_wf_def om_sum_def)
qed

end
