(* ===== verification/TerminalAccess.thy ===== *)
theory TerminalAccess
  imports BridgeState
begin

text \<open>
  Who may have a terminal: no shell is started, written to, resized, read or hung up by a command that does
  not pass the three gates; a terminal is its identity's alone; and a device withdrawn from the allowlist
  loses its terminals.
\<close>

section \<open>What a command does to shells\<close>

fun is_pty :: "Effect \<Rightarrow> bool" where
  "is_pty (TerminalSpawn t cwd cols rows) = True"
| "is_pty (TerminalWrite t bytes) = True"
| "is_pty (TerminalResize t cols rows) = True"
| "is_pty (TerminalReplay t start client) = True"
| "is_pty (TerminalClose t) = True"
| "is_pty _ = False"

definition pty_view :: "Engine \<Rightarrow> Effect list \<times> (string, Terminal) omap \<times> (string, PendingOpen) omap" where
  "pty_view e = (filter is_pty (effects (en_out e)), tt_open (en_terminals e), tt_spawning (en_terminals e))"

text \<open>The gates: switched on, a way that may carry it, an approved device of a client of a paired identity.\<close>

definition may_act :: "Engine \<Rightarrow> Via \<Rightarrow> Addressee \<Rightarrow> string \<Rightarrow> bool" where
  "may_act e via client device =
     (tc_enabled (tt_config (en_terminals e))
      \<and> (via = ViaRelaySub \<longrightarrow> tc_relays_allowed (tt_config (en_terminals e)))
      \<and> device \<noteq> [] \<and> device \<in> set (al_devices (allowlist e))
      \<and> (\<exists>p c. p \<in> set (en_paired e) \<and> pp_pubkey_hex p = ad_phone client \<and> c \<in> set (pp_clients p)
            \<and> holds_key (ad_key client) c \<and> pc_device c = device))"

fun target :: "PhoneToBridge \<Rightarrow> string option" where
  "target (TerminalInput m) = Some (tim_term m)"
| "target (TerminalResizeCmd t cols rows) = Some t"
| "target (TerminalReplayCmd t start) = Some t"
| "target (TerminalTakeover t) = Some t"
| "target (TerminalCloseCmd t) = Some t"
| "target _ = None"

text \<open>Commands only the device that types may give.\<close>

fun needs_pen :: "PhoneToBridge \<Rightarrow> bool" where
  "needs_pen (TerminalInput m) = True"
| "needs_pen (TerminalResizeCmd t cols rows) = True"
| "needs_pen (TerminalCloseCmd t) = True"
| "needs_pen _ = False"

lemma pty_emit [simp]: "\<not> is_pty x \<Longrightarrow> pty_view (emit x e) = pty_view e"
  by (simp add: pty_view_def)

lemma pty_send [simp]: "pty_view (send_to to m e) = pty_view e" "pty_view (send_identity p m e) = pty_view e"
  by (simp_all add: pty_view_def)

lemma pty_helpers [simp]: "pty_view (audit rec e) = pty_view e" "pty_view (terminal_event t w d i v e) = pty_view e"
  by (simp_all add: helper_defs)

lemma pty_set_allowlist [simp]: "pty_view (set_allowlist l e) = pty_view e"
  by (simp add: pty_view_def set_allowlist_def)

lemma pty_note_pending [simp]: "pty_view (note_pending actor e) = pty_view e"
  by (simp add: note_pending_def Let_def split: option.splits)

lemma pty_refuse [simp]:
  "pty_view (refuse_open env i actor why note e) = pty_view e" "pty_view (refuse_term env t actor why e) = pty_view e"
  "pty_view (refuse_missing env t actor w e) = pty_view e" "pty_view (refuse_input env t actor seq w e) = pty_view e"
  by (simp_all add: refuse_open_def refuse_term_def refuse_missing_def refuse_input_def Let_def)

lemma pty_updates [simp]:
  "pty_view (e\<lparr>en_list_dirty := b\<rparr>) = pty_view e" "pty_view (e\<lparr>en_paired := ps\<rparr>) = pty_view e"
  "pty_view (e\<lparr>en_list_wanted := l\<rparr>) = pty_view e" "pty_view (e\<lparr>en_stored := st\<rparr>) = pty_view e"
  "pty_view (e\<lparr>en_nacks := nb\<rparr>) = pty_view e" "pty_view (e\<lparr>en_pairing := w\<rparr>) = pty_view e"
  by (simp_all add: pty_view_def)

lemma pty_disarm [simp]: "pty_view (disarm_timer t e) = pty_view e"
  by (simp add: pty_view_def disarm_timer_def split: option.splits)

lemma pty_pairing_helpers [simp]:
  "pty_view (close_pairing r p e) = pty_view e" "pty_view (publish_to who m e) = pty_view e" "pty_view (store_paired e) = pty_view e"
  by (simp_all add: close_pairing_def publish_to_def store_paired_def Let_def split: option.splits)

lemma pty_grant [simp]: "pty_view (snd (grant_session_key env who g k e)) = pty_view e"
  by (simp add: grant_session_key_def Let_def split: option.splits)

lemma pty_pair_request [simp]: "pty_view (on_pair_request env m sender e) = pty_view e"
proof (cases "pair_rejection m e")
  case (Some reason)
  then show ?thesis by (simp add: on_pair_request_def Let_def split_beta)
next
  case None
  then show ?thesis by (cases "ev_npub_from_hex env sender"; cases "pr_session_key m") (simp_all add: on_pair_request_def Let_def)
qed

lemma actor_facts:
  assumes "terminal_actor via e = Some actor"
  shows "ac_via actor = via" "en_requester e = Some client \<Longrightarrow> ac_identity actor = ad_phone client \<and> ac_key actor = ad_key client"
  using assms by (auto simp: terminal_actor_def Let_def split: option.splits)

lemma actor_may_act:
  assumes a: "terminal_actor (via_of via) e = Some actor" and r: "terminal_refusal actor e = None" and c: "en_requester e = Some client"
  obtains device where "ac_device actor = Some device" "may_act e via client device"
proof -
  obtain p where p: "phone_of (ad_phone client) e = Some p"
    and d: "ac_device actor = (case find (holds_key (ad_key client)) (pp_clients p) of
        Some c \<Rightarrow> (if pc_device c = [] then None else Some (pc_device c)) | None \<Rightarrow> None)"
    using a c by (auto simp: terminal_actor_def Let_def split: option.splits)
  obtain device where dev: "ac_device actor = Some device" "device \<in> set (al_devices (allowlist e))"
    using r by (auto simp: terminal_refusal_def split: if_splits option.splits)
  then obtain k where k: "find (holds_key (ad_key client)) (pp_clients p) = Some k" "pc_device k = device" "device \<noteq> []"
    using d by (auto split: option.splits if_splits)
  have "p \<in> set (en_paired e)" "pp_pubkey_hex p = ad_phone client" using find_Some [OF p [unfolded phone_of_def]] by simp_all
  moreover have "k \<in> set (pp_clients p)" "holds_key (ad_key client) k" using find_Some [OF k(1)] by simp_all
  moreover have "terminals_enabled e" "via = ViaRelaySub \<longrightarrow> tc_relays_allowed (tt_config (en_terminals e))"
    using r actor_facts(1) [OF a] by (auto simp: terminal_refusal_def split: if_splits)
  ultimately show ?thesis using that [OF dev(1)] k(2,3) dev(2) by (auto simp: may_act_def terminals_enabled_def)
qed

lemma gated_pty:
  assumes ch: "pty_view (gated env t (via_of via) body e) \<noteq> pty_view e" and c: "en_requester e = Some client"
  obtains actor x device where "open_terminal t e = Some x" "tm_identity x = ad_phone client" "ac_device actor = Some device"
    "ac_identity actor = ad_phone client" "may_act e via client device" "gated env t (via_of via) body e = body actor e"
proof -
  obtain actor where a: "terminal_actor (via_of via) e = Some actor" using ch by (cases "terminal_actor (via_of via) e") (auto simp: gated_def)
  have r: "terminal_refusal actor e = None" using ch a by (cases "terminal_refusal actor e") (auto simp: gated_def)
  obtain m e' where m: "terminal_is_mine env t actor e = (m, e')" by (cases "terminal_is_mine env t actor e")
  have "m"
  proof (rule ccontr)
    assume "\<not> m"
    then have "pty_view e' = pty_view e" using m by (auto simp: terminal_is_mine_def split: Held.splits)
    with ch a r m \<open>\<not> m\<close> show False by (simp add: gated_def)
  qed
  then obtain x where x: "e' = e" "open_terminal t e = Some x" "tm_identity x = ac_identity actor"
    using terminal_is_mine_cases [OF m] by blast
  obtain device where d: "ac_device actor = Some device" "may_act e via client device" by (rule actor_may_act [OF a r c])
  show ?thesis
    using that [OF x(2) _ d(1) _ d(2)] actor_facts(2) [OF a c] x a r m \<open>m\<close> by (simp add: gated_def)
qed


lemma pty_with_pen:
  assumes ch: "pty_view (gated env t (via_of via) body e) \<noteq> pty_view e" and c: "en_requester e = Some client"
    and pen: "\<And>actor x. open_terminal t e = Some x \<Longrightarrow> ac_device actor \<noteq> Some (tm_writer x) \<Longrightarrow> body actor e = e"
  shows "\<exists>device x. may_act e via client device \<and> open_terminal t e = Some x \<and> tm_identity x = ad_phone client \<and> tm_writer x = device"
proof -
  obtain actor x device where g: "open_terminal t e = Some x" "tm_identity x = ad_phone client" "ac_device actor = Some device"
    "may_act e via client device" "gated env t (via_of via) body e = body actor e" by (rule gated_pty [OF ch c]) blast
  have "tm_writer x = device"
  proof (rule ccontr)
    assume "tm_writer x \<noteq> device"
    then have "body actor e = e" using pen [OF g(1), of actor] g(3) by simp
    with ch g(5) show False by simp
  qed
  with g show ?thesis by blast
qed

text \<open>C3: No shell without the gates: if a phone's command makes the engine start, write to, resize, read or
  hang up a shell, or changes the terminals at all, then terminals are switched on, the way the command
  came may carry them, and it came from an approved device, which is a client of a paired identity holding
  the key the command was encrypted with. Opening needs room under the limit; anything else acts on a
  terminal of that same identity, and typing, resizing and closing only on one that device writes.\<close>

theorem terminal_gates:
  assumes "en_requester e = Some client" "pty_view (dispatch env msg phone via e) \<noteq> pty_view e"
  shows "\<exists>device. may_act e via client device
    \<and> (case target msg of
         None \<Rightarrow> (\<exists>m. msg = TerminalOpen m) \<and> \<not> at_capacity (en_terminals e)
       | Some t \<Rightarrow> \<exists>x. open_terminal t e = Some x \<and> tm_identity x = ad_phone client \<and> (needs_pen msg \<longrightarrow> tm_writer x = device))"
proof (cases msg)
  case (TerminalOpen m)
  obtain actor where a: "terminal_actor (via_of via) e = Some actor"
    using assms(2) TerminalOpen by (cases "terminal_actor (via_of via) e") (auto simp: on_terminal_open_def)
  have r: "terminal_refusal actor e = None"
    using assms(2) TerminalOpen a by (cases "terminal_refusal actor e") (auto simp: on_terminal_open_def)
  have "\<not> at_capacity (en_terminals e)" using assms(2) TerminalOpen a r by (auto simp: on_terminal_open_def)
  moreover obtain device where "may_act e via client device" by (rule actor_may_act [OF a r assms(1)])
  ultimately show ?thesis using TerminalOpen by auto
next
  case (TerminalInput m)
  then have ch: "pty_view (on_terminal_input env m (via_of via) e) \<noteq> pty_view e" using assms(2) by simp
  have "\<exists>device x. may_act e via client device \<and> open_terminal (tim_term m) e = Some x \<and> tm_identity x = ad_phone client \<and> tm_writer x = device"
    by (rule pty_with_pen [OF ch [unfolded on_terminal_input_def] assms(1)]) (simp add: input_body_def)
  then show ?thesis using TerminalInput by auto
next
  case (TerminalResizeCmd t cols rows)
  then have ch: "pty_view (on_terminal_resize env t cols rows (via_of via) e) \<noteq> pty_view e" using assms(2) by simp
  have "\<exists>device x. may_act e via client device \<and> open_terminal t e = Some x \<and> tm_identity x = ad_phone client \<and> tm_writer x = device"
    by (rule pty_with_pen [OF ch [unfolded on_terminal_resize_def] assms(1)]) simp
  then show ?thesis using TerminalResizeCmd by auto
next
  case (TerminalCloseCmd t)
  then have ch: "pty_view (on_terminal_close env t (via_of via) e) \<noteq> pty_view e" using assms(2) by simp
  have "\<exists>device x. may_act e via client device \<and> open_terminal t e = Some x \<and> tm_identity x = ad_phone client \<and> tm_writer x = device"
    by (rule pty_with_pen [OF ch [unfolded on_terminal_close_def] assms(1)]) simp
  then show ?thesis using TerminalCloseCmd by auto
next
  case (TerminalReplayCmd t pos)
  then have ch: "pty_view (on_terminal_replay env t pos (via_of via) e) \<noteq> pty_view e" using assms(2) by simp
  obtain x device where "open_terminal t e = Some x" "tm_identity x = ad_phone client" "may_act e via client device"
    by (rule gated_pty [OF ch [unfolded on_terminal_replay_def] assms(1)])
  then show ?thesis using TerminalReplayCmd by auto
next
  case (TerminalTakeover t)
  then have ch: "pty_view (on_terminal_takeover env t (via_of via) e) \<noteq> pty_view e" using assms(2) by simp
  obtain x device where "open_terminal t e = Some x" "tm_identity x = ad_phone client" "may_act e via client device"
    by (rule gated_pty [OF ch [unfolded on_terminal_takeover_def] assms(1)])
  then show ?thesis using TerminalTakeover by auto
next
  case RefreshSessions
  then have False using assms by (simp add: want_list_def split: if_splits)
  then show ?thesis ..
next
  case (PairRequest m)
  then have False using assms by simp
  then show ?thesis ..
qed (use assms in simp_all)

section \<open>Privacy\<close>

fun is_publish :: "Effect \<Rightarrow> bool" where
  "is_publish (Publish to m) = True"
| "is_publish _ = False"

definition published :: "Engine \<Rightarrow> Effect list" where
  "published e = filter is_publish (effects (en_out e))"

definition without_terminal :: "string \<Rightarrow> Engine \<Rightarrow> Engine" where
  "without_terminal t e = e\<lparr>en_terminals := (en_terminals e)\<lparr>tt_open := om_del t (tt_open (en_terminals e))\<rparr>\<rparr>"

lemma published_note_pending [simp]: "published (note_pending actor e) = published e"
  by (simp add: note_pending_def Let_def published_def set_allowlist_def split: option.splits)

lemma published_refuse:
  "published (refuse_term env t actor why e) = published e @
    [Publish [actor_addressee actor] (TerminalExited \<lparr>te_term = Some t, te_open_id = None, te_code = None,
       te_reason = refusal_reason why, te_device = (if why = NotAllowed then ac_device actor else None)\<rparr>)]"
  "published (refuse_missing env t actor w e) = published e @
    [Publish [actor_addressee actor] (TerminalExited \<lparr>te_term = Some t, te_open_id = None, te_code = None, te_reason = EndClosed, te_device = None\<rparr>)]"
  by (simp_all add: refuse_term_def refuse_missing_def Let_def) (simp_all add: published_def audit_def)

lemma without_terminal_simps [simp]:
  "terminal_actor via (without_terminal t e) = terminal_actor via e" "terminal_refusal actor (without_terminal t e) = terminal_refusal actor e"
  "published (without_terminal t e) = published e" "open_terminal t (without_terminal t e) = None"
  by (simp_all add: without_terminal_def terminal_actor_def phone_of_def terminal_refusal_def terminals_enabled_def published_def open_terminal_def
    cong: option.case_cong)

lemma gated_private:
  assumes c: "en_requester e = Some client" and x: "open_terminal t e = Some x" "tm_identity x \<noteq> ad_phone client"
  shows "published (gated env t via body e) = published (gated env t via body' (without_terminal t e))"
    and "pty_view (gated env t via body e) = pty_view e"
proof -
  have o: "held t (ac_identity actor) (en_terminals e) = Other" if "terminal_actor via e = Some actor" for actor
    using actor_facts(2) [OF that c] x by (simp add: held_def open_terminal_def)
  have m: "held t i (en_terminals (without_terminal t e)) = Missing" for i
    by (simp add: held_def without_terminal_def)
  show "published (gated env t via body e) = published (gated env t via body' (without_terminal t e))"
    "pty_view (gated env t via body e) = pty_view e"
    using o m by (auto simp: gated_def terminal_is_mine_def published_refuse split: option.splits)
qed

theorem terminal_gates_witness:
  "\<exists>device. may_act (sample_open (Some \<lparr>ad_phone = ''phone'', ad_key = ''key''\<rparr>)) ViaDirectSub \<lparr>ad_phone = ''phone'', ad_key = ''key''\<rparr> device
    \<and> \<not> at_capacity (en_terminals (sample_open (Some \<lparr>ad_phone = ''phone'', ad_key = ''key''\<rparr>)))"
proof -
  let ?c = "\<lparr>ad_phone = ''phone'', ad_key = ''key''\<rparr>" and ?m = "TerminalOpen \<lparr>tom_open_id = ''o'', tom_cols = 80, tom_rows = 24, tom_session = None\<rparr>"
  have r: "en_requester (sample_open (Some ?c)) = Some ?c" by (simp add: sample_open_def)
  have "pty_view (dispatch sample_env ?m ''phone'' ViaDirectSub (sample_open (Some ?c))) \<noteq> pty_view (sample_open (Some ?c))"
    by (simp add: pty_view_def on_terminal_open_def terminal_actor_def terminal_refusal_def terminals_enabled_def at_capacity_def
        phone_of_def holds_key_def emit_def push_def Let_def sample_defs)
  from terminal_gates [OF r this] show ?thesis by auto
qed

text \<open>C21: A terminal is its identity's alone: a command about another identity's terminal is answered to
  its sender exactly as one about a terminal that does not exist, and changes nothing, so no client can
  probe for terminals that are not its own; and the list a heartbeat carries for an identity names only
  that identity's terminals.\<close>

theorem terminals_private:
  assumes "en_requester e = Some client" "target msg = Some t" "open_terminal t e = Some x" "tm_identity x \<noteq> ad_phone client"
    and "terminals_inv env e"
  shows "published (dispatch env msg phone via e) = published (dispatch env msg phone via (without_terminal t e))
    \<and> pty_view (dispatch env msg phone via e) = pty_view e
    \<and> (\<forall>info \<in> set (terminal_infos who e). \<exists>y. open_terminal (ti_term info) e = Some y \<and> tm_identity y = who)"
proof -
  have wf: "om_wf (tt_open (en_terminals e))" using assms(5) by (simp add: terminals_inv_def tstate_def)
  have "\<forall>info \<in> set (terminal_infos who e). \<exists>y. open_terminal (ti_term info) e = Some y \<and> tm_identity y = who"
    using wf by (auto simp: terminal_infos_def open_terminal_def om_wf_distinct)
  moreover have "published (dispatch env msg phone via e) = published (dispatch env msg phone via (without_terminal t e))
    \<and> pty_view (dispatch env msg phone via e) = pty_view e"
    using assms(2) gated_private [OF assms(1,3,4)]
    by (cases msg) (auto simp: on_terminal_input_def on_terminal_resize_def on_terminal_replay_def on_terminal_takeover_def on_terminal_close_def)
  ultimately show ?thesis by blast
qed

theorem terminals_private_witness:
  "published (dispatch sample_env (TerminalCloseCmd ''i'') ''other'' ViaDirectSub (sample_open (Some \<lparr>ad_phone = ''other'', ad_key = ''k''\<rparr>)))
    = published (dispatch sample_env (TerminalCloseCmd ''i'') ''other'' ViaDirectSub (without_terminal ''i'' (sample_open (Some \<lparr>ad_phone = ''other'', ad_key = ''k''\<rparr>))))"
proof -
  let ?c = "\<lparr>ad_phone = ''other'', ad_key = ''k''\<rparr>"
  have r: "en_requester (sample_open (Some ?c)) = Some ?c" and o: "open_terminal ''i'' (sample_open (Some ?c)) = Some sample_terminal"
    by (simp_all add: sample_open_def open_terminal_def)
  have t: "target (TerminalCloseCmd ''i'') = Some ''i''" and i: "tm_identity sample_terminal \<noteq> ad_phone ?c" by (simp_all add: sample_terminal_def)
  from terminals_private [OF r t o i sample_open_inv] show ?thesis by blast
qed

section \<open>The kill switch\<close>

lemma open_helpers [simp]:
  "open_terminal u (emit x e) = open_terminal u e" "open_terminal u (send_to to m e) = open_terminal u e"
  "open_terminal u (send_identity p m e) = open_terminal u e" "open_terminal u (disarm_timer i e) = open_terminal u e"
  "open_terminal u (audit rec e) = open_terminal u e" "open_terminal u (terminal_event t w d who v e) = open_terminal u e"
  "open_terminal u (set_terminal t y e) = (if u = t then Some y else open_terminal u e)"
  by (simp_all add: open_terminal_def helper_defs)

lemma open_end_terminal: "open_terminal u (end_terminal env t reason code actor e) = (if u = t then None else open_terminal u e)"
proof (cases "open_terminal t e")
  case (Some x)
  let ?e = "e\<lparr>en_terminals := (en_terminals e)\<lparr>tt_open := om_del t (tt_open (en_terminals e))\<rparr>\<rparr>"
  have "open_terminal u (end_terminal env t reason code actor e) = open_terminal u ?e"
    using Some by (simp add: end_terminal_def Let_def) (simp add: open_terminal_def helper_defs)
  then show ?thesis by (simp add: open_terminal_def)
qed (simp add: end_terminal_def)

lemma open_hand_writer:
  "open_terminal u (snd (hand_writer t d e)) = (if u = t then map_option (\<lambda>x. x\<lparr>tm_writer := d, tm_pending := [], tm_gap_timer := None\<rparr>) (open_terminal t e)
     else open_terminal u e)"
  by (cases "open_terminal t e") (auto simp: hand_writer_def Let_def split: option.splits)

lemma effects_disarm: "set (effects (en_out e)) \<subseteq> set (effects (en_out (disarm_timer i e)))"
  by (auto simp: disarm_timer_def split: option.splits)

lemma effects_end_terminal:
  "set (effects (en_out e)) \<subseteq> set (effects (en_out (end_terminal env t reason code actor e)))"
  "open_terminal t e \<noteq> None \<Longrightarrow> reason \<notin> {EndExit, EndTransport, EndRestart}
    \<Longrightarrow> TerminalClose t \<in> set (effects (en_out (end_terminal env t reason code actor e)))"
proof -
  let ?e = "\<lambda>x. disarm_timer (tm_idle_timer x) (disarm_timer (tm_gap_timer x)
    (e\<lparr>en_terminals := (en_terminals e)\<lparr>tt_open := om_del t (tt_open (en_terminals e))\<rparr>\<rparr>))"
  have sub: "set (effects (en_out e)) \<subseteq> set (effects (en_out (?e x)))" for x
    using effects_disarm [of "e\<lparr>en_terminals := (en_terminals e)\<lparr>tt_open := om_del t (tt_open (en_terminals e))\<rparr>\<rparr>" "tm_gap_timer x"]
      effects_disarm [of "disarm_timer (tm_gap_timer x) (e\<lparr>en_terminals := (en_terminals e)\<lparr>tt_open := om_del t (tt_open (en_terminals e))\<rparr>\<rparr>)" "tm_idle_timer x"]
    by auto
  show "set (effects (en_out e)) \<subseteq> set (effects (en_out (end_terminal env t reason code actor e)))"
    using sub by (auto simp: end_terminal_def Let_def helper_defs split: option.splits)
  show "TerminalClose t \<in> set (effects (en_out (end_terminal env t reason code actor e)))"
    if "open_terminal t e \<noteq> None" "reason \<notin> {EndExit, EndTransport, EndRestart}"
    using that by (auto simp: end_terminal_def Let_def helper_defs)
qed

lemma effects_hand_writer: "set (effects (en_out e)) \<subseteq> set (effects (en_out (snd (hand_writer t d e))))"
proof (cases "open_terminal t e")
  case (Some x)
  then show ?thesis
    using effects_disarm [of "set_terminal t (x\<lparr>tm_writer := d, tm_pending := [], tm_gap_timer := None\<rparr>) e" "tm_gap_timer x"]
    by (auto simp: hand_writer_def Let_def split: option.splits)
qed (simp add: hand_writer_def)

text \<open>Terminals a list of approved devices leaves alone.\<close>

definition approved :: "string list \<Rightarrow> Terminal \<Rightarrow> bool" where
  "approved allowed x = ((tm_opener x = [] \<or> tm_opener x \<in> set allowed) \<and> (tm_writer x = [] \<or> tm_writer x \<in> set allowed))"

definition snapshot :: "string \<Rightarrow> Terminal \<Rightarrow> string \<times> string \<times> string \<times> string \<times> TerminalVia" where
  "snapshot t x = (t, tm_identity x, tm_opener x, tm_writer x, tm_via x)"

lemma open_withdraw_other: "u \<noteq> fst w \<Longrightarrow> open_terminal u (withdraw env allowed e w) = open_terminal u e"
  by (cases w) (auto simp: withdraw_def Let_def split_beta open_end_terminal open_hand_writer)

lemma open_withdraw:
  assumes "open_terminal t e = Some x" "open_terminal t (withdraw env allowed e (snapshot t x)) = Some y"
  shows "approved allowed y"
  using assms
  by (auto simp: withdraw_def snapshot_def Let_def split_beta open_end_terminal open_hand_writer approved_def split: if_splits)

lemma withdraw_ends:
  assumes "open_terminal t e = Some x" "tm_opener x \<noteq> []" "tm_opener x \<notin> set allowed"
  shows "open_terminal t (withdraw env allowed e (snapshot t x)) = None"
    "TerminalClose t \<in> set (effects (en_out (withdraw env allowed e (snapshot t x))))"
  using assms effects_end_terminal(2) [of t e EndKilled] by (simp_all add: withdraw_def snapshot_def open_end_terminal)

lemma effects_withdraw: "set (effects (en_out e)) \<subseteq> set (effects (en_out (withdraw env allowed e w)))"
proof -
  obtain t i opener writer via where w: "w = (t, i, opener, writer, via)" by (metis prod_cases5)
  show ?thesis using effects_end_terminal(1) [of e env t EndKilled None None] effects_hand_writer [of e t opener]
    by (auto simp: w withdraw_def Let_def split_beta helper_defs)
qed

lemma withdraw_all:
  assumes "distinct (map fst ws)" "\<And>w. w \<in> set ws \<Longrightarrow> \<exists>x. open_terminal (fst w) e = Some x \<and> w = snapshot (fst w) x"
    "\<And>t x. open_terminal t e = Some x \<Longrightarrow> approved allowed x \<or> t \<in> fst ` set ws"
  shows "(\<forall>t y. open_terminal t (foldl (withdraw env allowed) e ws) = Some y \<longrightarrow> approved allowed y)
    \<and> (\<forall>t x. open_terminal t e = Some x \<and> t \<in> fst ` set ws \<and> tm_opener x \<noteq> [] \<and> tm_opener x \<notin> set allowed
        \<longrightarrow> open_terminal t (foldl (withdraw env allowed) e ws) = None
          \<and> TerminalClose t \<in> set (effects (en_out (foldl (withdraw env allowed) e ws))))"
  using assms
proof (induction ws arbitrary: e)
  case (Cons w ws)
  obtain t x where w: "w = snapshot t x" "open_terminal t e = Some x" "fst w = t"
    using Cons.prems(2) [of w] by (auto simp: snapshot_def)
  let ?e = "withdraw env allowed e w"
  have other: "open_terminal u ?e = open_terminal u e" if "u \<noteq> t" for u using open_withdraw_other [of u w] w(3) that by simp
  have fresh: "t \<notin> fst ` set ws" using Cons.prems(1) w(3) by auto
  have IH: "(\<forall>t y. open_terminal t (foldl (withdraw env allowed) ?e ws) = Some y \<longrightarrow> approved allowed y)
    \<and> (\<forall>t x. open_terminal t ?e = Some x \<and> t \<in> fst ` set ws \<and> tm_opener x \<noteq> [] \<and> tm_opener x \<notin> set allowed
        \<longrightarrow> open_terminal t (foldl (withdraw env allowed) ?e ws) = None
          \<and> TerminalClose t \<in> set (effects (en_out (foldl (withdraw env allowed) ?e ws))))"
  proof (rule Cons.IH)
    show "distinct (map fst ws)" using Cons.prems(1) by simp
    fix v assume v: "v \<in> set ws"
    then have "fst v \<noteq> t" using fresh by (auto simp: image_iff)
    then show "\<exists>x. open_terminal (fst v) ?e = Some x \<and> v = snapshot (fst v) x" using Cons.prems(2) [of v] v other by simp
  next
    fix u y assume u: "open_terminal u ?e = Some y"
    show "approved allowed y \<or> u \<in> fst ` set ws"
    proof (cases "u = t")
      case True
      then show ?thesis using open_withdraw [OF w(2)] u w(1) by simp
    next
      case False
      then show ?thesis using other [OF False] u Cons.prems(3) [of u y] w(3) by auto
    qed
  qed
  have gone: "open_terminal t (foldl (withdraw env allowed) ?e ws) = open_terminal t ?e"
    using fresh by (intro foldl_frame) (use open_withdraw_other in \<open>auto simp: image_iff\<close>)
  have kept: "set (effects (en_out ?e)) \<subseteq> set (effects (en_out (foldl (withdraw env allowed) ?e ws)))"
    by (rule foldl_inv [where P = "\<lambda>s. set (effects (en_out ?e)) \<subseteq> set (effects (en_out s))"]) (use effects_withdraw in blast)+
  have this_one: "open_terminal t (foldl (withdraw env allowed) ?e ws) = None \<and> TerminalClose t \<in> set (effects (en_out (foldl (withdraw env allowed) ?e ws)))"
    if "tm_opener x \<noteq> []" "tm_opener x \<notin> set allowed"
    using withdraw_ends [OF w(2) that, of env] w(1) gone kept by auto
  have "open_terminal u (foldl (withdraw env allowed) ?e ws) = None \<and> TerminalClose u \<in> set (effects (en_out (foldl (withdraw env allowed) ?e ws)))"
    if u: "open_terminal u e = Some z" "u \<in> fst ` set (w # ws)" "tm_opener z \<noteq> []" "tm_opener z \<notin> set allowed" for u z
  proof (cases "u = t")
    case True
    then show ?thesis using this_one u w(2) by simp
  next
    case False
    then have "open_terminal u ?e = Some z" "u \<in> fst ` set ws" using other u(1,2) w(3) by auto
    then show ?thesis using conjunct2 [OF IH, rule_format, of u z] u(3,4) by simp
  qed
  then show ?case unfolding foldl.simps using conjunct1 [OF IH] by simp
qed simp

text \<open>C20: The kill switch: once a changed allowlist has been handled, every terminal still open was opened by
  an approved device and is written by an approved one; a terminal whose opener was withdrawn is gone, and
  its shell was told to hang up.\<close>

theorem withdrawn_device_loses_terminals:
  assumes "terminals_inv env e"
  shows "(\<forall>t y. open_terminal t (on_terminal_allowlist env l e) = Some y \<longrightarrow>
        (tm_opener y = [] \<or> tm_opener y \<in> set (al_devices l)) \<and> (tm_writer y = [] \<or> tm_writer y \<in> set (al_devices l)))
    \<and> (\<forall>t x. open_terminal t e = Some x \<and> tm_opener x \<noteq> [] \<and> tm_opener x \<notin> set (al_devices l) \<longrightarrow>
        open_terminal t (on_terminal_allowlist env l e) = None
        \<and> TerminalClose t \<in> set (effects (en_out (on_terminal_allowlist env l e))))"
proof -
  define m where "m = l\<lparr>al_pending := cap_pending (foldl merge_pending (al_pending l) (al_pending (allowlist e)))\<rparr>"
  let ?e = "set_allowlist m e" and ?ops = "tt_open (en_terminals e)"
  have ops: "tt_open (en_terminals ?e) = ?ops" and o: "open_terminal t ?e = open_terminal t e" for t
    by (simp_all add: set_allowlist_def open_terminal_def)
  have wf: "om_wf ?ops" using assms by (simp add: terminals_inv_def tstate_def)
  let ?ws = "map (\<lambda>(i, x). (i, tm_identity x, tm_opener x, tm_writer x, tm_via x)) ?ops"
  have keys: "map fst ?ws = map fst ?ops" by (induction ?ops) auto
  have res: "on_terminal_allowlist env l e = foldl (withdraw env (al_devices l)) ?e ?ws"
    by (simp add: on_terminal_allowlist_def Let_def m_def [symmetric] ops) (simp add: m_def)
  have snap: "\<exists>x. open_terminal (fst w) ?e = Some x \<and> w = snapshot (fst w) x" if "w \<in> set ?ws" for w
    using that wf by (auto simp: ops open_terminal_def snapshot_def om_wf_distinct)
  have mem: "t \<in> fst ` set ?ws" if "open_terminal t ?e = Some x" for t x
    using that map_of_SomeD [of ?ops t x] by (force simp: ops open_terminal_def)
  have distinct: "distinct (map fst ?ws)" by (simp only: keys om_wf_distinct [OF wf])
  define r where "r = foldl (withdraw env (al_devices l)) ?e ?ws"
  have all: "(\<forall>t y. open_terminal t r = Some y \<longrightarrow> approved (al_devices l) y)
    \<and> (\<forall>t x. open_terminal t ?e = Some x \<and> t \<in> fst ` set ?ws \<and> tm_opener x \<noteq> [] \<and> tm_opener x \<notin> set (al_devices l)
        \<longrightarrow> open_terminal t r = None \<and> TerminalClose t \<in> set (effects (en_out r)))"
    unfolding r_def by (rule withdraw_all) (fact distinct, erule snap, rule disjI2, erule mem)
  have "open_terminal t r = None \<and> TerminalClose t \<in> set (effects (en_out r))"
    if "open_terminal t e = Some x" "tm_opener x \<noteq> []" "tm_opener x \<notin> set (al_devices l)" for t x
    using conjunct2 [OF all, rule_format, of t x] that mem [of t x] by (simp only: o) simp
  then show ?thesis unfolding res r_def [symmetric] using conjunct1 [OF all, unfolded approved_def] by blast
qed

theorem withdrawn_device_loses_terminals_witness:
  "open_terminal ''i'' (on_terminal_allowlist sample_env \<lparr>al_devices = [''else''], al_pending = []\<rparr> (sample_open None)) = None
    \<and> TerminalClose ''i'' \<in> set (effects (en_out (on_terminal_allowlist sample_env \<lparr>al_devices = [''else''], al_pending = []\<rparr> (sample_open None))))"
proof -
  let ?l = "\<lparr>al_devices = [''else''], al_pending = []\<rparr>"
  have "open_terminal ''i'' (sample_open None) = Some sample_terminal" "tm_opener sample_terminal \<noteq> []" "tm_opener sample_terminal \<notin> set (al_devices ?l)"
    by (simp_all add: sample_open_def open_terminal_def sample_terminal_def)
  with conjunct2 [OF withdrawn_device_loses_terminals [OF sample_open_inv, of ?l None], rule_format, of "''i''" sample_terminal]
  show ?thesis by blast
qed

end
