(* ===== verification/Typing.thy ===== *)
theory Typing
  imports TerminalAccess
begin

text \<open>
  What reaches a shell, against what its phones typed. Keys arrive over relays, late, twice or never, from
  any client; the pen passes from device to device; the gap timer fires. The shell's input is still each
  device's keys in the order that device typed them, each once and none skipped.
\<close>

section \<open>Keys on their way\<close>

fun typed_into :: "string \<Rightarrow> Effect \<Rightarrow> 8 word list option" where
  "typed_into t (TerminalWrite u bytes) = (if u = t then Some bytes else None)"
| "typed_into t _ = None"

definition shell_input :: "string \<Rightarrow> Engine \<Rightarrow> 8 word list list" where
  "shell_input t e = somes (map (typed_into t) (effects (en_out e)))"

text \<open>The device a command comes from, as the bridge reads it off the key it was encrypted with.\<close>

definition sender :: "Via \<Rightarrow> Engine \<Rightarrow> string option" where
  "sender via e = (case terminal_actor (via_of via) e of Some a \<Rightarrow> ac_device a | None \<Rightarrow> None)"

datatype PenStep =
    Keys Addressee Via nat \<comment> \<open>the client's input of that seq arrives\<close>
  | TakePen Addressee Via
  | GapFires

text \<open>\<open>script d n\<close> is the data of the input device \<open>d\<close> numbered \<open>n\<close>.\<close>

fun pen_step :: "Env \<Rightarrow> (string option \<Rightarrow> nat \<Rightarrow> string) \<Rightarrow> string \<Rightarrow> PenStep \<Rightarrow> Engine \<Rightarrow> Engine" where
  "pen_step env script t (Keys client via n) e =
     (let e = e\<lparr>en_requester := Some client\<rparr>
      in dispatch env (TerminalInput \<lparr>tim_term = t, tim_seq = n, tim_data = script (sender via e) n\<rparr>) (ad_phone client) via e)"
| "pen_step env script t (TakePen client via) e =
     dispatch env (TerminalTakeover t) (ad_phone client) via (e\<lparr>en_requester := Some client\<rparr>)"
| "pen_step env script t GapFires e =
     (case open_terminal t e of
        None \<Rightarrow> e
      | Some x \<Rightarrow> (case tm_gap_timer x of None \<Rightarrow> e | Some i \<Rightarrow> on_timer env i e))"

definition decoded :: "Env \<Rightarrow> (string option \<Rightarrow> nat \<Rightarrow> string) \<Rightarrow> string \<times> nat \<Rightarrow> 8 word list" where
  "decoded env script = (\<lambda>(d, n). the (ev_base64_decode env (script (Some d) n)))"

text \<open>Every input held is one the writer typed.\<close>

definition held_ok :: "Env \<Rightarrow> (string option \<Rightarrow> nat \<Rightarrow> string) \<Rightarrow> Terminal \<Rightarrow> bool" where
  "held_ok env script x =
     (\<forall>k b. om_get (tm_pending x) k = Some b \<longrightarrow> ev_base64_decode env (script (Some (tm_writer x)) k) = Some b)"

text \<open>Between two states of a terminal, these inputs were typed: of each device, the next ones in order.\<close>

definition in_turn :: "Terminal \<Rightarrow> Terminal \<Rightarrow> (string \<times> nat) list \<Rightarrow> bool" where
  "in_turn x y ps = (\<forall>d. last_seq_of x d \<le> last_seq_of y d
     \<and> map snd (filter (\<lambda>p. fst p = d) ps) = [last_seq_of x d + 1..<last_seq_of y d + 1])"

definition arrived :: "Env \<Rightarrow> (string option \<Rightarrow> nat \<Rightarrow> string) \<Rightarrow> string \<times> nat \<Rightarrow> bool" where
  "arrived env script = (\<lambda>(d, n). ev_base64_decode env (script (Some d) n) \<noteq> None)"

definition typed_between :: "Env \<Rightarrow> (string option \<Rightarrow> nat \<Rightarrow> string) \<Rightarrow> string \<Rightarrow> Engine \<Rightarrow> Terminal \<Rightarrow> Engine \<Rightarrow> Terminal \<Rightarrow> bool" where
  "typed_between env script t e x e' y =
     (\<exists>ps. in_turn x y ps \<and> list_all (arrived env script) ps \<and> shell_input t e' = shell_input t e @ map (decoded env script) ps)"

section \<open>Steps\<close>

lemma in_turn_refl: "(\<And>d. last_seq_of y d = last_seq_of x d) \<Longrightarrow> in_turn x y []"
  by (simp add: in_turn_def)

lemma in_turn_trans: "in_turn x y ps \<Longrightarrow> in_turn y z qs \<Longrightarrow> in_turn x z (ps @ qs)"
  unfolding in_turn_def
proof (intro allI conjI)
  fix d
  assume x: "\<forall>d. last_seq_of x d \<le> last_seq_of y d \<and> map snd (filter (\<lambda>p. fst p = d) ps) = [last_seq_of x d + 1..<last_seq_of y d + 1]"
    and y: "\<forall>d. last_seq_of y d \<le> last_seq_of z d \<and> map snd (filter (\<lambda>p. fst p = d) qs) = [last_seq_of y d + 1..<last_seq_of z d + 1]"
  then have le: "last_seq_of x d \<le> last_seq_of y d" "last_seq_of y d \<le> last_seq_of z d" by blast+
  then show "last_seq_of x d \<le> last_seq_of z d" by simp
  obtain k where "last_seq_of z d + 1 = last_seq_of y d + 1 + k" using le(2) le_Suc_ex by fastforce
  then have "[last_seq_of x d + 1..<last_seq_of z d + 1] = [last_seq_of x d + 1..<last_seq_of y d + 1] @ [last_seq_of y d + 1..<last_seq_of z d + 1]"
    using upt_add_eq_append [of "last_seq_of x d + 1" "last_seq_of y d + 1" k] le(1) by simp
  with x y show "map snd (filter (\<lambda>p. fst p = d) (ps @ qs)) = [last_seq_of x d + 1..<last_seq_of z d + 1]" by simp
qed

lemma typed_between_trans:
  assumes "typed_between env script t e x e' y" "typed_between env script t e' y e'' z"
  shows "typed_between env script t e x e'' z"
proof -
  obtain ps qs where "in_turn x y ps" "list_all (arrived env script) ps" "shell_input t e' = shell_input t e @ map (decoded env script) ps"
    "in_turn y z qs" "list_all (arrived env script) qs" "shell_input t e'' = shell_input t e' @ map (decoded env script) qs"
    using assms unfolding typed_between_def by blast
  then show ?thesis unfolding typed_between_def by (intro exI [of _ "ps @ qs"]) (simp add: in_turn_trans)
qed

lemma shell_input_view: "shell_input t e = somes (map (typed_into t) (fst (pty_view e)))"
proof -
  have "somes (map (typed_into t) xs) = somes (map (typed_into t) (filter is_pty xs))" for xs
  proof (induction xs)
    case (Cons a xs)
    then show ?case by (cases a) simp_all
  qed simp
  then show ?thesis by (simp add: shell_input_def pty_view_def)
qed

lemma open_view: "open_terminal t e = om_get (fst (snd (pty_view e))) t"
  by (simp add: open_terminal_def pty_view_def)

lemma typed_between_view:
  "pty_view e' = pty_view e \<Longrightarrow> open_terminal t e = Some x \<Longrightarrow> open_terminal t e' = Some x \<and> typed_between env script t e x e' x"
  unfolding typed_between_def by (intro conjI exI [of _ "[]"]) (simp_all add: shell_input_view open_view in_turn_refl)

lemma gated_split:
  obtains "pty_view (gated env t via body e) = pty_view e"
  | actor x where "terminal_actor via e = Some actor" "open_terminal t e = Some x" "gated env t via body e = body actor e"
proof (cases "terminal_actor via e")
  case None
  then show ?thesis using that(1) by (simp add: gated_def)
next
  case (Some actor)
  show ?thesis
  proof (cases "terminal_refusal actor e")
    case (Some why)
    with \<open>terminal_actor via e = Some actor\<close> show ?thesis using that(1) by (simp add: gated_def)
  next
    case None
    show ?thesis
    proof (cases "held t (ac_identity actor) (en_terminals e)")
      case Mine
      then obtain x where "open_terminal t e = Some x" by (auto simp: held_def open_terminal_def split: option.splits)
      then show ?thesis using that(2) Some None Mine by (simp add: gated_def terminal_is_mine_def)
    qed (use that(1) Some None in \<open>simp_all add: gated_def terminal_is_mine_def\<close>)
  qed
qed

lemma gated_rule:
  assumes "pty_view (gated env t via body e) = pty_view e \<Longrightarrow> P (gated env t via body e)"
    "\<And>actor x. terminal_actor via e = Some actor \<Longrightarrow> open_terminal t e = Some x \<Longrightarrow> P (body actor e)"
  shows "P (gated env t via body e)"
  by (rule gated_split [of env t via body e]) (use assms in auto)

lemma shell_input_simps [simp]:
  "shell_input t (emit (TerminalWrite t bytes) e) = shell_input t e @ [bytes]"
  "shell_input t (set_terminal u x e) = shell_input t e" "shell_input t (disarm_timer i e) = shell_input t e"
  by (simp_all add: shell_input_def disarm_timer_def emit_def set_terminal_def split: option.splits)

lemma shell_input_timer [simp]:
  "shell_input t (e\<lparr>en_out := snd (set_timer d k (en_out e))\<rparr>) = shell_input t e"
  by (simp add: shell_input_def)

lemma type_input:
  assumes inv: "terminals_inv env e" and x: "open_terminal t e = Some x" and seq: "seq = last_seq x + 1"
    and h: "held_ok env script x" and d: "ev_base64_decode env (script (Some (tm_writer x)) seq) = Some bytes"
  defines "e' \<equiv> with_terminals (flush_pending t) (with_terminals (apply_input t seq bytes) e)"
  shows "\<exists>y. open_terminal t e' = Some y \<and> held_ok env script y \<and> typed_between env script t e x e' y \<and> last_seq x < last_seq y
    \<and> tm_writer y = tm_writer x"
proof -
  let ?x = "typed seq x" and ?e = "emit (TerminalWrite t bytes) (set_terminal t (typed seq x) e)"
  have okx: "term_ok (0 < idle_ms e) x" by (rule inv_term_ok [OF inv x])
  obtain broke y out where loop: "flush_loop t ?x (en_out ?e) = (broke, y, out)" by (metis prod_cases3)
  have x1: "open_terminal t ?e = Some ?x" by (simp add: open_terminal_def)
  have above: "om_get (tm_pending ?x) k = None" if "k \<le> last_seq ?x" for k
    using okx that seq by (fastforce simp: term_ok_def pending_ok_def map_of_eq_None_iff)
  have f: "flushed t ?x (en_out ?e) broke y out"
    using okx by (intro flush_loop_flushed [OF loop _ _ above]) (simp_all add: term_ok_def pending_ok_def)
  obtain z where z: "open_terminal t e' = Some z" "tm_writer z = tm_writer y" "tm_pending z = tm_pending y" "tm_last_seq z = tm_last_seq y"
    and input: "shell_input t e' = shell_input t (?e\<lparr>en_out := out\<rparr>)"
    unfolding e'_def apply_engine [OF x] flush_engine [OF x1 loop]
    by (cases broke; cases "tm_pending y = []") (auto simp: Let_def open_terminal_def intro: that)
  have last_z: "last_seq_of z k = last_seq_of y k" for k using z(4) by (simp add: last_seq_of_def)
  have y: "tm_writer y = tm_writer x" "seq \<le> last_seq y" "\<And>k. k \<noteq> tm_writer x \<Longrightarrow> last_seq_of y k = last_seq_of x k"
    using f unfolding flushed_def typed_simps by auto
  have some: "om_get (tm_pending x) k \<noteq> None" if "seq < k" "k \<le> last_seq y" for k
    using f that unfolding flushed_def typed_simps by auto
  have out: "effects out = effects (en_out ?e) @ map (\<lambda>k. TerminalWrite t (the (om_get (tm_pending x) k))) [seq + 1..<last_seq y + 1]"
    using f unfolding flushed_def typed_simps by simp
  have get: "om_get (tm_pending y) k = (if k \<le> last_seq y then None else om_get (tm_pending x) k)" for k
    using flushed_get [OF f] by simp
  have typed: "the (om_get (tm_pending x) k) = decoded env script (tm_writer x, k)" if "seq < k" "k \<le> last_seq y" for k
    using some [OF that] h by (auto simp: held_ok_def decoded_def)
  have "somes (map (typed_into t) (map (\<lambda>k. TerminalWrite t (g k)) ks)) = map g ks" for g :: "nat \<Rightarrow> 8 word list" and ks
    by (induction ks) simp_all
  then have "shell_input t e' = shell_input t ?e @ map (\<lambda>k. the (om_get (tm_pending x) k)) [seq + 1..<last_seq y + 1]"
    unfolding input by (simp add: shell_input_def out del: upt_Suc)
  also have "\<dots> = shell_input t e @ map (decoded env script) (map (Pair (tm_writer x)) [seq..<last_seq y + 1])"
    using y(2) typed d by (simp add: upt_conv_Cons [of seq] decoded_def del: upt_Suc)
  finally have input': "shell_input t e' = shell_input t e @ map (decoded env script) (map (Pair (tm_writer x)) [last_seq x + 1..<last_seq z + 1])"
    using seq last_z z(2) by simp
  have "in_turn x z (map (Pair (tm_writer x)) [last_seq x + 1..<last_seq z + 1])"
    unfolding in_turn_def
  proof (intro allI)
    fix w
    show "last_seq_of x w \<le> last_seq_of z w \<and> map snd (filter (\<lambda>p. fst p = w) (map (Pair (tm_writer x)) [last_seq x + 1..<last_seq z + 1])) = [last_seq_of x w + 1..<last_seq_of z w + 1]"
      using y last_z z(2) seq by (cases "w = tm_writer x") (simp_all add: filter_map comp_def del: upt_Suc)
  qed
  moreover have "arrived env script (tm_writer x, k)" if "k \<in> set [last_seq x + 1..<last_seq z + 1]" for k
  proof (cases "k = seq")
    case False
    then have "om_get (tm_pending x) k \<noteq> None" using that seq last_z z(2) by (intro some) (auto simp del: upt_Suc)
    then show ?thesis using h by (auto simp: held_ok_def arrived_def)
  qed (use d in \<open>simp add: arrived_def\<close>)
  then have "list_all (arrived env script) (map (Pair (tm_writer x)) [last_seq x + 1..<last_seq z + 1])"
    by (auto simp: list_all_iff simp del: upt_Suc)
  ultimately have "typed_between env script t e x e' z" using input' unfolding typed_between_def by blast
  moreover have "held_ok env script z" using h get z(2,3) y(1) by (auto simp: held_ok_def split: if_splits)
  ultimately show ?thesis using z(1,2) y(1,2) seq last_z by auto
qed

lemma shell_input_frames [simp]:
  "shell_input t (send_to to m e) = shell_input t e" "shell_input t (audit rec e) = shell_input t e"
  "shell_input t (terminal_event u what d i via e) = shell_input t e"
  by (simp_all add: shell_input_view)

lemma open_frames [simp]:
  "open_terminal t (send_to to m e) = open_terminal t e" "open_terminal t (audit rec e) = open_terminal t e"
  "open_terminal t (terminal_event u what d who via e) = open_terminal t e" "open_terminal t (disarm_timer i e) = open_terminal t e"
  "open_terminal t (set_terminal t x e) = Some x"
  by (simp_all add: open_view) (simp_all add: pty_view_def)

text \<open>A step that types nothing.\<close>

lemma quiet_step:
  assumes "tm_last_seq y = tm_last_seq x" "shell_input t e' = shell_input t e"
  shows "typed_between env script t e x e' y"
  unfolding typed_between_def using assms in_turn_refl [of y x] by (intro exI [of _ "[]"]) (simp add: last_seq_of_def)

definition step_ok :: "Env \<Rightarrow> (string option \<Rightarrow> nat \<Rightarrow> string) \<Rightarrow> string \<Rightarrow> Engine \<Rightarrow> Terminal \<Rightarrow> Engine \<Rightarrow> bool" where
  "step_ok env script t e x e' =
     (\<exists>y. open_terminal t e' = Some y \<and> held_ok env script y \<and> typed_between env script t e x e' y)"

lemma step_ok_view: "pty_view e' = pty_view e \<Longrightarrow> open_terminal t e = Some x \<Longrightarrow> held_ok env script x \<Longrightarrow> step_ok env script t e x e'"
  using typed_between_view unfolding step_ok_def by blast

lemma held_ok_clear: "tm_pending y = [] \<Longrightarrow> held_ok env script y"
  by (simp add: held_ok_def)

lemma resend_step:
  assumes "open_terminal t e = Some x"
  shows "\<exists>y. open_terminal t (resend_from env t why e) = Some y \<and> tm_pending y = [] \<and> tm_last_seq y = tm_last_seq x
    \<and> shell_input t (resend_from env t why e) = shell_input t e"
  using assms by (simp add: resend_from_def Let_def split: option.splits)

lemma hold_step:
  assumes x: "open_terminal t e = Some x" and t: "tim_term m = t" and h: "held_ok env script x"
    and d: "ev_base64_decode env (script (Some (tm_writer x)) (tim_seq m)) = Some bytes"
  shows "step_ok env script t e x (hold_or_resend env m bytes e)"
proof -
  obtain why tt out where w: "hold t (tim_seq m) bytes (en_terminals e, en_out e) = (why, tt, out)" by (metis prod_cases3)
  let ?e = "e\<lparr>en_terminals := tt, en_out := out\<rparr>"
  obtain y where y: "open_terminal t ?e = Some y" "tm_last_seq y = tm_last_seq x" "held_ok env script y" "shell_input t ?e = shell_input t e"
  proof -
    have "\<exists>y. open_terminal t ?e = Some y \<and> tm_last_seq y = tm_last_seq x \<and> tm_writer y = tm_writer x
      \<and> (tm_pending y = tm_pending x \<or> tm_pending y = om_put (tim_seq m) bytes (tm_pending x)) \<and> shell_input t ?e = shell_input t e"
      using w x by (auto simp: hold_def open_terminal_def put_open_def shell_input_def Let_def split_beta split: if_splits)
    then show ?thesis using that h d by (fastforce simp: held_ok_def split: if_splits)
  qed
  show ?thesis
  proof (cases why)
    case None
    then show ?thesis using w y quiet_step [OF y(2,4)] unfolding step_ok_def hold_or_resend_def t by auto
  next
    case (Some r)
    obtain z where "open_terminal t (resend_from env t r ?e) = Some z" "tm_pending z = []" "tm_last_seq z = tm_last_seq y"
      "shell_input t (resend_from env t r ?e) = shell_input t ?e" using resend_step [OF y(1)] by blast
    then show ?thesis
      using Some w y(2,4) quiet_step [of z x t "resend_from env t r ?e" e] held_ok_clear [of z]
      unfolding step_ok_def hold_or_resend_def t by auto
  qed
qed

lemma input_step:
  assumes inv: "terminals_inv env e" and x: "open_terminal t e = Some x" and h: "held_ok env script x"
  shows "step_ok env script t e x (on_terminal_input env \<lparr>tim_term = t, tim_seq = n, tim_data = script (sender via e) n\<rparr> (via_of via) e)"
    (is "step_ok env script t e x (on_terminal_input env ?m _ e)")
proof (cases rule: gated_split [of env t "via_of via" "input_body env ?m" e])
  case 1
  then show ?thesis by (simp add: step_ok_view [OF _ x h] on_terminal_input_def)
next
  case (2 actor x')
  let ?n = "tim_seq ?m"
  have s: "sender via e = ac_device actor" using 2(1) by (simp add: sender_def)
  have step: "on_terminal_input env ?m (via_of via) e = input_body env ?m actor e" using 2(3) by (simp add: on_terminal_input_def)
  have quiet: ?thesis if "pty_view (input_body env ?m actor e) = pty_view e" using step step_ok_view [OF that x h] by simp
  show ?thesis
  proof (cases "ac_device actor = Some (tm_writer x) \<and> last_seq x < n")
    case False
    then show ?thesis using x by (intro quiet) (auto simp: input_body_def)
  next
    case True
    show ?thesis
    proof (cases "ev_base64_decode env (script (Some (tm_writer x)) n)")
      case None
      then show ?thesis using x s True by (intro quiet) (simp add: input_body_def)
    next
      case (Some bytes)
      consider (big) "length bytes > MAX_INPUT_BYTES" | (next_one) "length bytes \<le> MAX_INPUT_BYTES" "n = last_seq x + 1"
        | (ahead) "length bytes \<le> MAX_INPUT_BYTES" "n \<noteq> last_seq x + 1" by linarith
      then show ?thesis
      proof cases
        case big
        then show ?thesis using x s True Some by (intro quiet) (simp add: input_body_def)
      next
        case next_one
        then show ?thesis
          using type_input [OF inv x next_one(2) h Some] x s True Some step by (auto simp: input_body_def step_ok_def)
      next
        case ahead
        then show ?thesis
          using hold_step [OF x _ h, of ?m bytes] x s True Some step by (simp add: input_body_def)
      qed
    qed
  qed
qed

lemma takeover_step:
  assumes x: "open_terminal t e = Some x" and h: "held_ok env script x"
  shows "step_ok env script t e x (on_terminal_takeover env t via e)"
proof -
  have hand: "\<exists>y. open_terminal t (snd (hand_writer t d e)) = Some y \<and> tm_pending y = [] \<and> tm_last_seq y = tm_last_seq x
    \<and> shell_input t (snd (hand_writer t d e)) = shell_input t e" for d
    using x by (simp add: hand_writer_def Let_def split: option.splits)
  have handed: "step_ok env script t e x e'" if "open_terminal t e' = open_terminal t (snd (hand_writer t d e))"
    "shell_input t e' = shell_input t (snd (hand_writer t d e))" for e' d
    using hand [of d] that quiet_step held_ok_clear unfolding step_ok_def by metis
  show ?thesis unfolding on_terminal_takeover_def
    by (rule gated_rule, erule step_ok_view [OF _ x h])
      (use x h in \<open>auto simp: Let_def split_beta split: option.splits intro: handed step_ok_view\<close>)
qed

lemma gap_step:
  assumes inv: "terminals_inv env e" and x: "open_terminal t e = Some x" and h: "held_ok env script x" and i: "tm_gap_timer x = Some i"
  shows "step_ok env script t e x (on_timer env i e)"
proof -
  have "om_get (timers (en_out e)) i = Some (TkTerminalGap t)"
    using inv x i unfolding terminals_inv_def tstate_def book.owns_def open_terminal_def
    by (metis (no_types, lifting) option.simps(5) owned_kind.simps(1) slot.simps(1))
  then have step: "on_timer env i e = on_terminal_gap env t (fired i e)" by (simp add: on_timer_def)
  let ?e = "set_terminal t (x\<lparr>tm_gap_timer := None\<rparr>) (fired i e)"
  have f: "open_terminal t (fired i e) = Some x" "shell_input t (fired i e) = shell_input t e"
    using x by (simp_all add: fired_def open_terminal_def shell_input_def)
  show ?thesis
  proof (cases "tm_pending x = []")
    case True
    then have "on_terminal_gap env t (fired i e) = ?e" using f by (simp add: on_terminal_gap_def)
    then show ?thesis using f(2) True held_ok_clear unfolding step step_ok_def by (auto intro: quiet_step)
  next
    case False
    obtain z where "open_terminal t (on_terminal_gap env t (fired i e)) = Some z" "tm_pending z = []" "tm_last_seq z = tm_last_seq x"
      "shell_input t (on_terminal_gap env t (fired i e)) = shell_input t e"
      using False f resend_step [of t ?e "x\<lparr>tm_gap_timer := None\<rparr>" env] by (auto simp: on_terminal_gap_def)
    then show ?thesis using quiet_step held_ok_clear unfolding step step_ok_def by metis
  qed
qed

lemma pen_step_ok:
  assumes inv: "terminals_inv env e" and x: "open_terminal t e = Some x" and h: "held_ok env script x"
  shows "terminals_inv env (pen_step env script t s e) \<and> step_ok env script t e x (pen_step env script t s e)"
proof (cases s)
  case (Keys client via n)
  let ?e = "e\<lparr>en_requester := Some client\<rparr>"
  have inv': "terminals_inv env ?e" by (rule inv_by_tview [OF _ inv]) simp
  have "open_terminal t ?e = Some x" using x by (simp add: open_terminal_def)
  moreover have "shell_input t ?e = shell_input t e" by (simp add: shell_input_def)
  ultimately show ?thesis
    using input_step [OF inv', of t x script n via] h inv_input [OF inv'] Keys by (simp add: step_ok_def typed_between_def Let_def)
next
  case (TakePen client via)
  let ?e = "e\<lparr>en_requester := Some client\<rparr>"
  have inv': "terminals_inv env ?e" by (rule inv_by_tview [OF _ inv]) simp
  have "open_terminal t ?e = Some x" using x by (simp add: open_terminal_def)
  moreover have "shell_input t ?e = shell_input t e" by (simp add: shell_input_def)
  ultimately show ?thesis
    using takeover_step [of t ?e x env script "via_of via"] h inv_takeover [OF inv'] TakePen by (simp add: step_ok_def typed_between_def)
next
  case GapFires
  show ?thesis
  proof (cases "tm_gap_timer x")
    case None
    then show ?thesis using GapFires inv x step_ok_view [OF refl x h] by simp
  next
    case (Some i)
    then show ?thesis using GapFires x gap_step [OF inv x h Some] inv_timer [OF inv] by simp
  qed
qed

abbreviation pen_run :: "Env \<Rightarrow> (string option \<Rightarrow> nat \<Rightarrow> string) \<Rightarrow> string \<Rightarrow> PenStep list \<Rightarrow> Engine \<Rightarrow> Engine" where
  "pen_run env script t steps e \<equiv> foldl (\<lambda>e s. pen_step env script t s e) e steps"

lemma pen_run_ok:
  assumes "terminals_inv env e" "open_terminal t e = Some x" "held_ok env script x"
  shows "terminals_inv env (pen_run env script t steps e) \<and> step_ok env script t e x (pen_run env script t steps e)"
  using assms
proof (induction steps arbitrary: e x)
  case Nil
  then show ?case by (simp add: step_ok_view)
next
  case (Cons s steps)
  let ?e = "pen_step env script t s e"
  obtain y where y: "terminals_inv env ?e" "open_terminal t ?e = Some y" "held_ok env script y" "typed_between env script t e x ?e y"
    using pen_step_ok [OF Cons.prems] unfolding step_ok_def by blast
  show ?case using Cons.IH [OF y(1-3)] typed_between_trans [OF y(4)] unfolding step_ok_def foldl.simps by blast
qed

text \<open>The writer's next input, past the gates.\<close>

definition next_in_hand :: "Env \<Rightarrow> (string option \<Rightarrow> nat \<Rightarrow> string) \<Rightarrow> Addressee \<Rightarrow> Via \<Rightarrow> Terminal \<Rightarrow> Engine \<Rightarrow> bool" where
  "next_in_hand env script client via y e =
     (case terminal_actor (via_of via) (e\<lparr>en_requester := Some client\<rparr>) of
        None \<Rightarrow> False
      | Some actor \<Rightarrow>
          terminal_refusal actor e = None \<and> ac_identity actor = tm_identity y \<and> ac_device actor = Some (tm_writer y)
          \<and> (case ev_base64_decode env (script (Some (tm_writer y)) (last_seq y + 1)) of
               Some bytes \<Rightarrow> length bytes \<le> MAX_INPUT_BYTES
             | None \<Rightarrow> False))"

lemma next_typed:
  assumes inv: "terminals_inv env e" and y: "open_terminal t e = Some y" and h: "held_ok env script y"
    and n: "next_in_hand env script client via y e"
  shows "\<exists>z. open_terminal t (pen_step env script t (Keys client via (last_seq y + 1)) e) = Some z \<and> last_seq y < last_seq z"
proof -
  let ?e = "e\<lparr>en_requester := Some client\<rparr>"
  obtain actor bytes where a: "terminal_actor (via_of via) ?e = Some actor" "terminal_refusal actor e = None"
    "ac_identity actor = tm_identity y" "ac_device actor = Some (tm_writer y)"
    "ev_base64_decode env (script (Some (tm_writer y)) (last_seq y + 1)) = Some bytes" "length bytes \<le> MAX_INPUT_BYTES"
    using n by (auto simp: next_in_hand_def split: option.splits)
  have inv': "terminals_inv env ?e" by (rule inv_by_tview [OF _ inv]) simp
  have o: "open_terminal t ?e = Some y" using y by (simp add: open_terminal_def)
  have "terminal_refusal actor ?e = terminal_refusal actor e"
    by (cases "ac_device actor") (simp_all add: terminal_refusal_def terminals_enabled_def)
  then have r: "terminal_refusal actor ?e = None" using a(2) by simp
  have "pen_step env script t (Keys client via (last_seq y + 1)) e
      = with_terminals (flush_pending t) (with_terminals (apply_input t (last_seq y + 1) bytes) ?e)"
    using a o r by (simp add: on_terminal_input_def gated_def terminal_is_mine_def held_def sender_def input_body_def open_terminal_def Let_def)
  with type_input [OF inv' o refl h a(5)] show ?thesis by auto
qed

text \<open>C4: A shell is typed what its phones typed: whatever arrives, in any order, late, twice, refused or never,
  from any of the clients, with the pen passing between devices and gap timers firing in between, the bytes
  the shell has been given since are, device by device, that device's inputs from its last one on, in its
  own order, each exactly once and none skipped. And the shell never waits without reason: the next input
  of the device that holds the pen, once it arrives past the gates, is typed.\<close>

theorem keys_typed_in_order:
  assumes "terminals_inv env e" "open_terminal t e = Some x" "held_ok env script x"
  shows "\<exists>y ps. open_terminal t (pen_run env script t steps e) = Some y
    \<and> shell_input t (pen_run env script t steps e) = shell_input t e @ map (\<lambda>(d, n). the (ev_base64_decode env (script (Some d) n))) ps
    \<and> (\<forall>d. last_seq_of x d \<le> last_seq_of y d
        \<and> map snd (filter (\<lambda>p. fst p = d) ps) = [last_seq_of x d + 1..<last_seq_of y d + 1])
    \<and> (\<forall>client via. next_in_hand env script client via y (pen_run env script t steps e) \<longrightarrow>
        (\<exists>z. open_terminal t (pen_step env script t (Keys client via (last_seq y + 1)) (pen_run env script t steps e)) = Some z
          \<and> last_seq y < last_seq z))"
proof -
  let ?e = "pen_run env script t steps e"
  obtain y where y: "terminals_inv env ?e" "open_terminal t ?e = Some y" "held_ok env script y" "typed_between env script t e x ?e y"
    using pen_run_ok [OF assms, of steps] unfolding step_ok_def by blast
  obtain ps where "in_turn x y ps" "shell_input t ?e = shell_input t e @ map (decoded env script) ps"
    using y(4) unfolding typed_between_def by blast
  then show ?thesis using y(2) next_typed [OF y(1-3)] unfolding in_turn_def decoded_def by blast
qed

text \<open>The second input arrives first, the gap timer fires, the first input arrives.\<close>

definition sample_steps :: "PenStep list" where
  "sample_steps = [Keys \<lparr>ad_phone = ''phone'', ad_key = ''key''\<rparr> ViaDirectSub 2, GapFires, Keys \<lparr>ad_phone = ''phone'', ad_key = ''key''\<rparr> ViaDirectSub 1]"

definition sample_script :: "string option \<Rightarrow> nat \<Rightarrow> string" where
  "sample_script d n = replicate n CHR ''k''"

theorem keys_typed_in_order_witness:
  "\<exists>y ps. open_terminal ''i'' (pen_run sample_env sample_script ''i'' sample_steps (sample_open None)) = Some y
    \<and> shell_input ''i'' (pen_run sample_env sample_script ''i'' sample_steps (sample_open None))
      = map (\<lambda>(d, n). the (ev_base64_decode sample_env (sample_script (Some d) n))) ps"
proof -
  have o: "open_terminal ''i'' (sample_open None) = Some sample_terminal" by (simp add: sample_open_def open_terminal_def)
  have h: "held_ok sample_env sample_script sample_terminal" by (simp add: held_ok_def sample_terminal_def)
  have nil: "shell_input ''i'' (sample_open None) = []" by (simp add: shell_input_def sample_defs)
  show ?thesis
    using keys_typed_in_order [OF sample_open_inv o h, of sample_steps, unfolded nil append_Nil] by blast
qed

end
