(* ===== verification/SessionKeys.thy ===== *)
theory SessionKeys
  imports TerminalAccess
begin

text \<open>
  The session keys of the paired phones' clients: every key stands for one client of one identity, what a
  grant takes and refuses, and who gets a copy of what the bridge publishes.
\<close>

section \<open>The key ring\<close>

definition client_keys :: "PhoneClient \<Rightarrow> string list" where
  "client_keys c = sg_pubkey_hex (pc_key c) # (case pc_previous c of None \<Rightarrow> [] | Some k \<Rightarrow> [sg_pubkey_hex k])"

definition ring_of :: "PairedPhone list \<Rightarrow> (string \<times> string list list) list" where
  "ring_of ps = map (\<lambda>p. (pp_pubkey_hex p, map client_keys (pp_clients p))) ps"

abbreviation ring :: "Engine \<Rightarrow> (string \<times> string list list) list" where
  "ring e \<equiv> ring_of (en_paired e)"

definition ring_ok :: "(string \<times> string list list) list \<Rightarrow> bool" where
  "ring_ok r = (distinct (map fst r) \<and> (\<forall>x \<in> set r. length (snd x) \<le> MAX_CLIENTS) \<and> distinct (concat (concat (map snd r))))"

lemma holds_key_client_keys: "holds_key k c = (k \<in> set (client_keys c))"
  by (auto simp: holds_key_def client_keys_def split: option.splits)

lemma ring_of_simps [simp]:
  "ring_of [] = []" "ring_of (p # ps) = (pp_pubkey_hex p, map client_keys (pp_clients p)) # ring_of ps"
  "ring_of (ps @ qs) = ring_of ps @ ring_of qs"
  by (simp_all add: ring_of_def)

text \<open>A key of two clients is one client's.\<close>

lemma distinct_concat_same:
  assumes "distinct (concat (map f xs))" "a \<in> set xs" "b \<in> set xs" "k \<in> set (f a)" "k \<in> set (f b)"
  shows "a = b"
  using assms
proof (induction xs)
  case (Cons x xs)
  then show ?case by auto
qed simp

lemma ring_unique:
  assumes ok: "ring_ok (ring_of ps)" and p: "p \<in> set ps" "c \<in> set (pp_clients p)" "holds_key k c"
    and q: "q \<in> set ps" "d \<in> set (pp_clients q)" "holds_key k d"
  shows "p = q \<and> c = d"
proof -
  let ?keys = "\<lambda>p. concat (map client_keys (pp_clients p))"
  have "concat (concat (map snd (ring_of ps))) = concat (map ?keys ps)"
    by (induction ps) simp_all
  then have dist: "distinct (concat (map ?keys ps))" using ok by (simp add: ring_ok_def)
  have "k \<in> set (?keys p)" "k \<in> set (?keys q)" using p q by (auto simp: holds_key_client_keys)
  then have pq: "p = q" using distinct_concat_same [OF dist p(1) q(1)] by blast
  have "distinct (?keys p)" using dist p(1) by (induction ps) auto
  then have "c = d" using p q pq by (intro distinct_concat_same [of client_keys "pp_clients p"]) (auto simp: holds_key_client_keys)
  with pq show ?thesis ..
qed

section \<open>Frames\<close>

lemma ring_helpers [simp]:
  "en_paired (emit x e) = en_paired e" "en_paired (send_to to m e) = en_paired e" "en_paired (send_identity who m e) = en_paired e"
  "en_paired (disarm_timer i e) = en_paired e" "en_paired (set_terminal t y e) = en_paired e" "en_paired (audit rec e) = en_paired e"
  "en_paired (terminal_event t what d who via e) = en_paired e" "en_paired (set_allowlist l e) = en_paired e"
  "en_paired (store_paired e) = en_paired e" "en_paired (want_list a e) = en_paired e" "en_paired (publish_to who m e) = en_paired e"
  "en_paired (close_pairing r who' e) = en_paired e" "en_paired (fired i' e) = en_paired e" "en_paired (snd (arm_timer d' k e)) = en_paired e"
  by (simp_all add: emit_def send_to_def send_identity_def disarm_timer_def set_terminal_def audit_def terminal_event_def set_allowlist_def
      store_paired_def want_list_def publish_to_def close_pairing_def fired_def arm_timer_def Let_def split_beta split: option.splits)

lemma ring_refuse [simp]:
  "en_paired (note_pending actor e) = en_paired e" "en_paired (forget_gone_devices e) = en_paired e"
  "en_paired (refuse_open env i actor why note e) = en_paired e" "en_paired (refuse_term env t actor why e) = en_paired e"
  "en_paired (refuse_missing env t actor w e) = en_paired e" "en_paired (refuse_input env t actor seq w e) = en_paired e"
  by (simp_all add: note_pending_def forget_gone_devices_def refuse_open_def refuse_term_def refuse_missing_def refuse_input_def Let_def
      split: option.splits)

lemma ring_unwatch [simp]: "ring_of (unwatch identity t ps) = ring_of ps"
  by (induction ps) (auto simp: unwatch_def client_keys_def)

lemma ring_end_terminal [simp]: "ring (end_terminal env t reason code actor e) = ring e"
  by (simp add: end_terminal_def Let_def split: option.splits)

lemma ring_hand_writer [simp]: "en_paired (snd (hand_writer t device e)) = en_paired e"
  by (simp add: hand_writer_def Let_def split: option.splits)

lemma ring_resend [simp]: "en_paired (resend_from env t why e) = en_paired e"
  by (simp add: resend_from_def Let_def split: option.splits)

lemma ring_hold [simp]: "en_paired (hold_or_resend env m bytes e) = en_paired e"
  by (simp add: hold_or_resend_def Let_def split_beta split: option.splits)

lemma ring_gated: "(\<And>actor. ring (body actor e) = ring e) \<Longrightarrow> ring (gated env t via body e) = ring e"
  by (simp add: gated_def terminal_is_mine_def split_beta split: option.splits Held.splits)

lemma ring_with_terminals [simp]: "en_paired (with_terminals f e) = en_paired e"
  by (simp add: with_terminals_def split_beta)

lemma ring_terminal_commands [simp]:
  "ring (on_terminal_open env om via e) = ring e" "ring (on_terminal_input env m via e) = ring e"
  "ring (on_terminal_resize env t cols rows via e) = ring e" "ring (on_terminal_replay env t start via e) = ring e"
  "ring (on_terminal_takeover env t via e) = ring e" "ring (on_terminal_close env t via e) = ring e"
  unfolding on_terminal_input_def on_terminal_resize_def on_terminal_replay_def on_terminal_takeover_def on_terminal_close_def
  by (auto simp: on_terminal_open_def input_body_def Let_def split_beta split: option.splits intro!: ring_gated)

lemma ring_terminal_events [simp]:
  "ring (on_terminal_spawned env t shell e) = ring e" "ring (on_terminal_spawn_failed env t note e) = ring e"
  "ring (on_terminal_output t off data e) = ring e" "ring (on_terminal_exited env t code reason e) = ring e"
  "ring (on_terminal_gap env t e) = ring e" "ring (on_terminal_idle env t e) = ring e"
  by (simp_all add: on_terminal_spawned_def on_terminal_spawn_failed_def on_terminal_output_def on_terminal_exited_def on_terminal_gap_def
      on_terminal_idle_def open_spawned_def arm_idle_def Let_def split_beta split: option.splits)

lemma ring_foldl: "(\<And>e x. ring (f e x) = ring e) \<Longrightarrow> ring (foldl f e xs) = ring e"
  by (induction xs arbitrary: e) simp_all

lemma ring_close_identity [simp]: "ring (close_identity_terminals env identity reason e) = ring e"
  unfolding close_identity_terminals_def by (rule ring_foldl) simp

lemma ring_allowlist [simp]: "ring (on_terminal_allowlist env l e) = ring e"
proof -
  have "ring (withdraw env allowed e w) = ring e" for allowed e w
    by (cases w) (simp add: withdraw_def Let_def split_beta)
  then show ?thesis unfolding on_terminal_allowlist_def Let_def by (subst ring_foldl) simp_all
qed

lemma update_first_same: "(\<And>x. g (f x) = g x) \<Longrightarrow> map g (update_first P f xs) = map g xs"
  by (induction xs) auto

lemma client_keys_present [simp]: "client_keys (present_client now msg c) = client_keys c"
  by (simp add: present_client_def client_keys_def split_beta Let_def)

lemma ring_catch_up [simp]: "en_paired (catch_up_live_text who key session e) = en_paired e"
proof -
  have "en_paired (foldl (\<lambda>e m. send_to [a] m e) e ms) = en_paired e" for a ms e by (induction ms arbitrary: e) simp_all
  then show ?thesis by (simp add: catch_up_live_text_def split: option.splits)
qed

lemma ring_note_presence [simp]: "ring (snd (note_presence who key msg e)) = ring e"
  by (auto simp: note_presence_def Let_def ring_of_def update_first_same split: option.splits)

lemma ring_map_clients: "(\<And>c. client_keys (f c) = client_keys c) \<Longrightarrow> ring_of (map_clients f ps) = ring_of ps"
  by (induction ps) (simp_all add: map_clients_def)

lemma ring_started [simp]: "ring (engine_start env stored last_seen processed e) = ring_of stored"
  by (simp add: engine_start_def Let_def arm_def hydrate_devices_def presume_present_def)
    (simp add: ring_map_clients client_keys_def)

section \<open>Changes of the ring\<close>

definition phone_keys :: "PairedPhone \<Rightarrow> string list" where
  "phone_keys p = concat (map client_keys (pp_clients p))"

abbreviation paired_ok :: "PairedPhone list \<Rightarrow> bool" where
  "paired_ok ps \<equiv> ring_ok (ring_of ps)"

lemma ring_ok_Nil [simp]: "ring_ok []"
  by (simp add: ring_ok_def)

lemma paired_ok_Cons:
  "paired_ok (p # ps) = (pp_pubkey_hex p \<notin> pp_pubkey_hex ` set ps \<and> length (pp_clients p) \<le> MAX_CLIENTS
     \<and> distinct (phone_keys p) \<and> set (phone_keys p) \<inter> (\<Union>q \<in> set ps. set (phone_keys q)) = {} \<and> paired_ok ps)"
proof -
  have "set (concat (concat (map snd (ring_of ps)))) = (\<Union>q \<in> set ps. set (phone_keys q))"
    by (induction ps) (simp_all add: phone_keys_def)
  moreover have "fst ` set (ring_of ps) = pp_pubkey_hex ` set ps" by (induction ps) simp_all
  ultimately show ?thesis by (auto simp: ring_ok_def phone_keys_def)
qed

declare ring_of_simps(2,3) [simp del]

lemma paired_ok_filter: "paired_ok ps \<Longrightarrow> paired_ok (filter P ps)"
  by (induction ps) (auto simp: paired_ok_Cons)

lemma paired_ok_map:
  assumes "paired_ok ps" "\<And>p. p \<in> set ps \<Longrightarrow> pp_pubkey_hex (g p) = pp_pubkey_hex p \<and> length (pp_clients (g p)) \<le> length (pp_clients p)
    \<and> set (phone_keys (g p)) \<subseteq> set (phone_keys p) \<and> (distinct (phone_keys p) \<longrightarrow> distinct (phone_keys (g p)))"
  shows "paired_ok (map g ps)"
  using assms
proof (induction ps)
  case (Cons p ps)
  have g: "pp_pubkey_hex (g p) = pp_pubkey_hex p" "length (pp_clients (g p)) \<le> length (pp_clients p)"
    "set (phone_keys (g p)) \<subseteq> set (phone_keys p)" "distinct (phone_keys (g p))"
    using Cons.prems(2) [of p] Cons.prems(1) by (simp_all add: paired_ok_Cons)
  have keys: "(\<Union>q \<in> set (map g ps). set (phone_keys q)) \<subseteq> (\<Union>q \<in> set ps. set (phone_keys q))"
    using Cons.prems(2) by (simp add: image_def) blast
  have ids: "pp_pubkey_hex ` set (map g ps) = pp_pubkey_hex ` set ps" using Cons.prems(2) by (force simp: image_iff)
  have "paired_ok (map g ps)" using Cons by (simp add: paired_ok_Cons)
  moreover have "set (phone_keys p) \<inter> (\<Union>q \<in> set ps. set (phone_keys q)) = {}" using Cons.prems(1) by (simp add: paired_ok_Cons)
  then have "set (phone_keys (g p)) \<inter> (\<Union>q \<in> set (map g ps). set (phone_keys q)) = {}" using g(3) keys by blast
  ultimately show ?case using Cons.prems(1) g(1,2,4) unfolding list.map paired_ok_Cons ids by simp
qed simp

lemma update_first_split:
  assumes "find P xs = Some x"
  obtains as bs where "xs = as @ x # bs" "update_first P g xs = as @ g x # bs" "P x" "\<forall>a \<in> set as. \<not> P a"
proof -
  have "\<exists>as bs. xs = as @ x # bs \<and> update_first P g xs = as @ g x # bs \<and> P x \<and> (\<forall>a \<in> set as. \<not> P a)"
    using assms
  proof (induction xs)
    case (Cons y xs)
    show ?case
    proof (cases "P y")
      case True
      then show ?thesis using Cons.prems by (intro exI [of _ "[]"] exI [of _ xs]) simp
    next
      case False
      then obtain as bs where "xs = as @ x # bs" "update_first P g xs = as @ g x # bs" "P x" "\<forall>a \<in> set as. \<not> P a"
        using Cons by auto
      then show ?thesis using False by (intro exI [of _ "y # as"] exI [of _ bs]) simp
    qed
  qed simp
  then show ?thesis using that by blast
qed

text \<open>The clients of the first phone of an identity replaced, by others that bring one new key at most.\<close>

lemma paired_ok_update:
  assumes "paired_ok ps" "find (\<lambda>p. pp_pubkey_hex p = i) ps = Some p"
    and "pp_pubkey_hex (g p) = i" "length (pp_clients (g p)) \<le> MAX_CLIENTS" "distinct (phone_keys (g p))"
    and "set (phone_keys (g p)) \<subseteq> insert k (set (phone_keys p))" "\<And>q. q \<in> set ps \<Longrightarrow> pp_pubkey_hex q \<noteq> i \<Longrightarrow> k \<notin> set (phone_keys q)"
  shows "paired_ok (update_first (\<lambda>p. pp_pubkey_hex p = i) g ps)"
  using assms
proof (induction ps)
  case (Cons q ps)
  show ?case
  proof (cases "pp_pubkey_hex q = i")
    case True
    then have p: "p = q" using Cons.prems(2) by simp
    have "k \<notin> set (phone_keys q')" if "q' \<in> set ps" for q'
      using Cons.prems(1,7) that True by (auto simp: paired_ok_Cons image_iff)
    moreover have "set (phone_keys q) \<inter> (\<Union>q \<in> set ps. set (phone_keys q)) = {}" using Cons.prems(1) by (simp add: paired_ok_Cons)
    ultimately have "set (phone_keys (g q)) \<inter> (\<Union>q \<in> set ps. set (phone_keys q)) = {}" using Cons.prems(6) unfolding p by blast
    then show ?thesis using Cons.prems(1,3-5) True unfolding p by (simp add: paired_ok_Cons)
  next
    case False
    have "find (\<lambda>p. pp_pubkey_hex p = i) ps = Some p" using Cons.prems(2) False by simp
    then obtain as bs where split: "ps = as @ p # bs" "update_first (\<lambda>p. pp_pubkey_hex p = i) g ps = as @ g p # bs" "pp_pubkey_hex p = i"
      by (rule update_first_split)
    then have ids: "pp_pubkey_hex ` set (update_first (\<lambda>p. pp_pubkey_hex p = i) g ps) = pp_pubkey_hex ` set ps"
      using Cons.prems(3) by simp
    have keys: "(\<Union>q \<in> set (update_first (\<lambda>p. pp_pubkey_hex p = i) g ps). set (phone_keys q))
        \<subseteq> insert k (\<Union>q \<in> set ps. set (phone_keys q))"
      using Cons.prems(6) split by auto
    have "paired_ok (update_first (\<lambda>p. pp_pubkey_hex p = i) g ps)"
      using Cons False by (simp add: paired_ok_Cons)
    moreover have "set (phone_keys q) \<inter> (\<Union>q \<in> set ps. set (phone_keys q)) = {}" using Cons.prems(1) by (simp add: paired_ok_Cons)
    moreover have "k \<notin> set (phone_keys q)" using Cons.prems(7) [of q] False by simp
    ultimately have "paired_ok (update_first (\<lambda>p. pp_pubkey_hex p = i) g ps)"
      "set (phone_keys q) \<inter> (\<Union>q \<in> set (update_first (\<lambda>p. pp_pubkey_hex p = i) g ps). set (phone_keys q)) = {}"
      using keys by blast+
    then show ?thesis using Cons.prems(1) False ids by (simp add: paired_ok_Cons)
  qed
qed simp

section \<open>Grants\<close>

abbreviation clients_keys :: "PhoneClient list \<Rightarrow> string list" where
  "clients_keys cs \<equiv> concat (map client_keys cs)"

lemma clients_keys_filter:
  "set (clients_keys (filter P cs)) \<subseteq> set (clients_keys cs)" "distinct (clients_keys cs) \<Longrightarrow> distinct (clients_keys (filter P cs))"
  by (induction cs) auto

lemma clients_keys_renewed: "client_keys (renew_client grant until c) = client_keys c"
  by (simp add: renew_client_def client_keys_def)

lemma clients_keys_split: "i < length cs \<Longrightarrow> clients_keys (cs[i := c]) = clients_keys (take i cs) @ client_keys c @ clients_keys (drop (Suc i) cs)"
  by (simp add: upd_conv_take_nth_drop)

lemma clients_keys_nth: "i < length cs \<Longrightarrow> clients_keys cs = clients_keys (take i cs) @ client_keys (cs ! i) @ clients_keys (drop (Suc i) cs)"
  using clients_keys_split [of i cs "cs ! i"] by simp

lemma clients_keys_rotate:
  assumes i: "i < length cs" and dist: "distinct (clients_keys cs)" and k: "k \<notin> set (clients_keys cs)"
    and c: "client_keys c = [k, sg_pubkey_hex (pc_key (cs ! i))]"
  shows "distinct (clients_keys (cs[i := c])) \<and> set (clients_keys (cs[i := c])) \<subseteq> insert k (set (clients_keys cs))"
proof -
  define A B l where "A = clients_keys (take i cs)" and "B = clients_keys (drop (Suc i) cs)" and "l = tl (client_keys (cs ! i))"
  have old: "clients_keys cs = A @ (sg_pubkey_hex (pc_key (cs ! i)) # l) @ B"
    using clients_keys_nth [OF i] by (simp add: A_def B_def l_def client_keys_def)
  have new: "clients_keys (cs[i := c]) = A @ [k, sg_pubkey_hex (pc_key (cs ! i))] @ B"
    using clients_keys_split [OF i, of c] c by (simp add: A_def B_def)
  show ?thesis using dist k unfolding old new by auto
qed

lemma clients_keys_remove:
  assumes i: "i < length cs" and dist: "distinct (clients_keys cs)"
  shows "distinct (clients_keys (take i cs @ drop (Suc i) cs))"
proof -
  define A B where "A = clients_keys (take i cs)" and "B = clients_keys (drop (Suc i) cs)"
  have "clients_keys (take i cs @ drop (Suc i) cs) = A @ B" by (simp add: A_def B_def)
  moreover have "distinct (A @ client_keys (cs ! i) @ B)" using dist clients_keys_nth [OF i] by (simp add: A_def B_def)
  ultimately show ?thesis by auto
qed

lemma drop_quietest_props:
  "set (clients_keys (drop_quietest cs)) \<subseteq> set (clients_keys cs)" "distinct (clients_keys cs) \<Longrightarrow> distinct (clients_keys (drop_quietest cs))"
  "length cs \<le> MAX_CLIENTS \<Longrightarrow> length (drop_quietest cs) < MAX_CLIENTS"
proof -
  obtain i where d: "drop_quietest cs = (if length cs \<ge> MAX_CLIENTS then take i cs @ drop (Suc i) cs else cs)"
    "length cs \<ge> MAX_CLIENTS \<Longrightarrow> i < length cs"
  proof (cases "min_by_key (\<lambda>(i, c). (pc_present_until_ms c, sg_expires_at (pc_key c))) (enumerate 0 cs)")
    case None
    then have "cs = []" using min_by_key_None by (metis enumerate_simps(1) length_0_conv length_enumerate)
    then show ?thesis using that [of 0] by (simp add: drop_quietest_def MAX_CLIENTS_def)
  next
    case (Some ic)
    then have "ic \<in> set (enumerate 0 cs)" by (rule min_by_key_in)
    then have "fst ic < length cs" by (simp add: in_set_enumerate_eq)
    then show ?thesis using that [of "fst ic"] Some by (cases ic) (simp add: drop_quietest_def Let_def)
  qed
  show "set (clients_keys (drop_quietest cs)) \<subseteq> set (clients_keys cs)"
    using d set_take_subset [of i cs] set_drop_subset [of "Suc i" cs] by auto
  show "distinct (clients_keys cs) \<Longrightarrow> distinct (clients_keys (drop_quietest cs))"
    using d clients_keys_remove [of i cs] by (simp split: if_splits)
  show "length cs \<le> MAX_CLIENTS \<Longrightarrow> length (drop_quietest cs) < MAX_CLIENTS"
    using d by auto
qed

lemma grant_clients_keys:
  fixes env used now until
  assumes dist: "distinct (clients_keys cs)" and len: "length cs \<le> MAX_CLIENTS"
    and prev: "\<And>c g. c \<in> set cs \<Longrightarrow> pc_previous c = Some g \<Longrightarrow> sg_pubkey_hex g \<noteq> sg_pubkey_hex grant"
  defines "cs' \<equiv> grant_clients env grant used now until cs"
  shows "distinct (clients_keys cs') \<and> set (clients_keys cs') \<subseteq> insert (sg_pubkey_hex grant) (set (clients_keys cs)) \<and> length cs' \<le> MAX_CLIENTS"
proof -
  let ?k = "sg_pubkey_hex grant" and ?live = "filter (\<lambda>c. sg_expires_at (pc_key c) > now) cs"
  have live: "set (clients_keys ?live) \<subseteq> set (clients_keys cs)" "distinct (clients_keys ?live)" "length ?live \<le> MAX_CLIENTS"
    using clients_keys_filter dist len length_filter_le [of "\<lambda>c. sg_expires_at (pc_key c) > now" cs] by (blast, blast, linarith)
  show ?thesis
  proof (cases "position (\<lambda>c. sg_pubkey_hex (pc_key c) = ?k) ?live")
    case (Some i)
    then have i: "i < length ?live" using position_Some by blast
    have "clients_keys (?live[i := renew_client grant until (?live ! i)]) = clients_keys ?live"
      using clients_keys_split [OF i] clients_keys_nth [OF i] clients_keys_renewed by simp
    then show ?thesis using live Some unfolding cs'_def grant_clients_def Let_def by (auto split: option.splits)
  next
    case None
    have fresh: "?k \<notin> set (clients_keys ?live)"
    proof
      assume "?k \<in> set (clients_keys ?live)"
      then obtain c where c: "c \<in> set ?live" "?k \<in> set (client_keys c)" by auto
      then have "sg_pubkey_hex (pc_key c) \<noteq> ?k" using None unfolding position_None by blast
      then show False using c prev [of c] by (cases "pc_previous c") (simp_all add: client_keys_def)
    qed
    define rotated where "rotated = (case sg_replaces grant of
        Some old \<Rightarrow> (if old = used then position (\<lambda>c. sg_pubkey_hex (pc_key c) = old) ?live else None) | None \<Rightarrow> None)"
    have cs': "cs' = (case rotated of Some i \<Rightarrow> ?live[i := rotate_client env grant until (?live ! i)]
        | None \<Rightarrow> drop_quietest ?live @ [new_client env grant until])"
      using None unfolding cs'_def grant_clients_def Let_def rotated_def by simp
    show ?thesis
    proof (cases rotated)
      case (Some i)
      then have i: "i < length ?live" using position_Some unfolding rotated_def by (fastforce split: option.splits if_splits)
      have "client_keys (rotate_client env grant until (?live ! i)) = [?k, sg_pubkey_hex (pc_key (?live ! i))]"
        by (simp add: rotate_client_def kept_grant_def client_keys_def)
      then have "distinct (clients_keys cs') \<and> set (clients_keys cs') \<subseteq> insert ?k (set (clients_keys ?live))"
        using clients_keys_rotate [OF i live(2) fresh] Some by (simp only: cs' option.case)
      moreover have "length cs' = length ?live" using Some by (simp add: cs')
      ultimately show ?thesis using live(1,3) by (simp only:) blast
    next
      case None
      have "client_keys (new_client env grant until) = [?k]" by (simp add: new_client_def kept_grant_def client_keys_def)
      then have keys: "clients_keys cs' = clients_keys (drop_quietest ?live) @ [?k]" using None by (simp add: cs')
      have len: "length cs' = Suc (length (drop_quietest ?live))" using None by (simp add: cs')
      note q = drop_quietest_props [of ?live]
      have "?k \<notin> set (clients_keys (drop_quietest ?live))" using q(1) fresh by blast
      then have "distinct (clients_keys cs')" using q(2) live(2) unfolding keys by simp
      moreover have "set (clients_keys cs') \<subseteq> insert ?k (set (clients_keys cs))" using q(1) live(1) unfolding keys set_append by auto
      ultimately show ?thesis using q(3) live(3) len by simp
    qed
  qed
qed

text \<open>What \<open>key_taken\<close> lets through.\<close>

lemma key_free:
  assumes "\<not> key_taken i k e" "p \<in> set (en_paired e)"
  shows "pp_pubkey_hex p \<noteq> k" "c \<in> set (pp_clients p) \<Longrightarrow> pc_previous c = Some g \<Longrightarrow> sg_pubkey_hex g \<noteq> k"
    "pp_pubkey_hex p \<noteq> i \<Longrightarrow> k \<notin> set (phone_keys p)"
proof -
  have all: "pp_pubkey_hex p \<noteq> k \<and> (\<forall>c \<in> set (pp_clients p). (case pc_previous c of None \<Rightarrow> True | Some g \<Rightarrow> sg_pubkey_hex g \<noteq> k)
      \<and> (pp_pubkey_hex p \<noteq> i \<longrightarrow> sg_pubkey_hex (pc_key c) \<noteq> k))"
    using assms by (auto simp: key_taken_def list_ex_iff Let_def split: option.splits)
  then show "pp_pubkey_hex p \<noteq> k" by blast
  show "sg_pubkey_hex g \<noteq> k" if "c \<in> set (pp_clients p)" "pc_previous c = Some g" using all that by fastforce
  show "k \<notin> set (phone_keys p)" if "pp_pubkey_hex p \<noteq> i"
  proof
    assume "k \<in> set (phone_keys p)"
    then obtain c where c: "c \<in> set (pp_clients p)" "k \<in> set (client_keys c)" by (auto simp: phone_keys_def)
    then show False using all that by (cases "pc_previous c") (auto simp: client_keys_def)
  qed
qed

lemma paired_ok_mem: "paired_ok ps \<Longrightarrow> p \<in> set ps \<Longrightarrow> distinct (phone_keys p) \<and> length (pp_clients p) \<le> MAX_CLIENTS"
  by (induction ps) (auto simp: paired_ok_Cons)

lemma paired_ok_grant:
  assumes ok: "paired_ok (en_paired e)"
  shows "paired_ok (en_paired (snd (grant_session_key env i grant used e)))"
proof (cases "grant_refusal env i grant e = None \<and> phone_of i e \<noteq> None")
  case True
  then obtain p where p: "phone_of i e = Some p" by auto
  let ?g = "\<lambda>p. p\<lparr>pp_clients := grant_clients env grant used (now_secs e) (en_now e + PRESENCE_LEASE_SECS * 1000) (pp_clients p)\<rparr>"
  have f: "find (\<lambda>p. pp_pubkey_hex p = i) (en_paired e) = Some p" using p by (simp add: phone_of_def)
  have mem: "p \<in> set (en_paired e)" "pp_pubkey_hex p = i" using find_Some [OF f] by simp_all
  have free: "\<not> key_taken i (sg_pubkey_hex grant) e" using True by (auto simp: grant_refusal_def split: if_splits)
  have "distinct (phone_keys p) \<and> length (pp_clients p) \<le> MAX_CLIENTS"
    by (rule paired_ok_mem [OF ok mem(1)])
  then have k: "distinct (phone_keys (?g p)) \<and> set (phone_keys (?g p)) \<subseteq> insert (sg_pubkey_hex grant) (set (phone_keys p))
      \<and> length (pp_clients (?g p)) \<le> MAX_CLIENTS"
    using grant_clients_keys [of "pp_clients p" grant env used "now_secs e" "en_now e + PRESENCE_LEASE_SECS * 1000"] key_free(2) [OF free mem(1)]
    by (simp add: phone_keys_def)
  have "paired_ok (update_first (\<lambda>p. pp_pubkey_hex p = i) ?g (en_paired e))"
    by (rule paired_ok_update [OF ok f, where k = "sg_pubkey_hex grant"]) (use k mem(2) key_free(3) [OF free] in auto)
  then show ?thesis using True p by (simp add: grant_session_key_def Let_def)
qed (auto simp: grant_session_key_def Let_def ok split: option.splits)

lemma paired_ok_prune: "paired_ok (en_paired e) \<Longrightarrow> paired_ok (en_paired (prune_session_keys e))"
proof -
  assume ok: "paired_ok (en_paired e)"
  have "paired_ok (map (prune_phone now) (en_paired e))" for now
  proof (rule paired_ok_map [OF ok])
    fix p :: PairedPhone
    let ?cs = "filter (\<lambda>c. sg_expires_at (pc_key c) > now) (pp_clients p)"
    define f where "f = (\<lambda>c. if lapsed_previous now c then c\<lparr>pc_previous := None\<rparr> else c)"
    have f: "set (client_keys (f c)) \<subseteq> set (client_keys c) \<and> (distinct (client_keys c) \<longrightarrow> distinct (client_keys (f c)))" for c
      by (auto simp: client_keys_def f_def)
    have sub: "set (clients_keys (map f cs)) \<subseteq> set (clients_keys cs)" for cs using f by (induction cs) auto
    have "distinct (clients_keys cs) \<Longrightarrow> distinct (clients_keys (map f cs))" for cs
    proof (induction cs)
      case (Cons c cs)
      have "set (client_keys (f c)) \<inter> set (clients_keys (map f cs)) = {}" using Cons.prems f [of c] sub [of cs] unfolding list.map concat.simps distinct_append by blast
      then show ?case using Cons f [of c] by simp
    qed simp
    then show "pp_pubkey_hex (prune_phone now p) = pp_pubkey_hex p \<and> length (pp_clients (prune_phone now p)) \<le> length (pp_clients p)
      \<and> set (phone_keys (prune_phone now p)) \<subseteq> set (phone_keys p) \<and> (distinct (phone_keys p) \<longrightarrow> distinct (phone_keys (prune_phone now p)))"
      using sub [of ?cs] clients_keys_filter [where P = "\<lambda>c. sg_expires_at (pc_key c) > now" and cs = "pp_clients p"]
      unfolding prune_phone_def f_def [symmetric] phone_keys_def by simp
  qed
  then show ?thesis by (simp add: prune_session_keys_def Let_def)
qed

lemma paired_ok_snoc:
  assumes "paired_ok ps" "\<forall>q \<in> set ps. pp_pubkey_hex q \<noteq> pp_pubkey_hex p" "pp_clients p = []"
  shows "paired_ok (ps @ [p])"
  using assms by (auto simp: ring_ok_def ring_of_def image_iff)

lemma paired_ok_pair:
  assumes "paired_ok (en_paired e)"
  shows "paired_ok (en_paired (on_pair_request env m sender e))"
proof (cases "pair_rejection m e")
  case (Some reason)
  then show ?thesis using assms by (simp add: on_pair_request_def Let_def split_beta)
next
  case None
  show ?thesis
  proof (cases "ev_npub_from_hex env sender")
    case (Some npub)
    let ?p = "\<lparr>pp_npub = npub, pp_pubkey_hex = sender, pp_label = (if pr_label m = [] then ''Phone'' else pr_label m),
      pp_paired_at = ev_iso env (en_now e), pp_clients = []\<rparr>"
    define e1 where "e1 = (let e = close_pairing ClosedPaired (Some ?p) e in if list_ex (\<lambda>p. pp_pubkey_hex p = sender) (en_paired e) then e
      else store_paired (e\<lparr>en_paired := en_paired e @ [?p]\<rparr>))"
    have "paired_ok (en_paired e1)"
      using assms paired_ok_snoc [OF assms, of ?p] by (auto simp: e1_def Let_def list_ex_iff image_iff)
    then have "paired_ok (en_paired (snd (grant_session_key env sender g sender e1)))" for g by (rule paired_ok_grant)
    moreover have "en_paired (on_pair_request env m sender e)
        = en_paired (case pr_session_key m of Some grant \<Rightarrow> snd (grant_session_key env sender grant sender e1) | None \<Rightarrow> e1)"
      using None Some by (cases "pr_session_key m") (simp_all add: on_pair_request_def Let_def e1_def)
    ultimately show ?thesis using \<open>paired_ok (en_paired e1)\<close> by (cases "pr_session_key m") simp_all
  qed (simp add: on_pair_request_def None assms)
qed

lemma ring_flush [simp]: "en_paired (flush base recent e) = en_paired e"
proof -
  have a: "en_paired (foldl (\<lambda>e x. send_to (f x) (m x e) e) e xs) = en_paired e" for f m xs e by (induction xs arbitrary: e) simp_all
  have b: "en_paired (foldl (\<lambda>e x. send_identity x (m x e) e) e xs) = en_paired e" for m xs e by (induction xs arbitrary: e) simp_all
  show ?thesis by (simp add: flush_def publish_list_def Let_def a b split: option.splits)
qed

lemma paired_ok_command:
  assumes "paired_ok (en_paired e)"
  shows "paired_ok (en_paired (dispatch env msg phone via e))"
  using assms paired_ok_pair [OF assms] by (cases msg) (simp_all split: option.splits)

lemma paired_ok_run_command: "paired_ok (en_paired e) \<Longrightarrow> paired_ok (en_paired (run_command env msg phone key via e))"
proof -
  assume ok: "paired_ok (en_paired e)"
  obtain came e1 where n: "note_presence phone key msg e = (came, e1)" by (cases "note_presence phone key msg e")
  let ?e = "(if came then want_list \<lparr>ad_phone = phone, ad_key = key\<rparr> e1 else e1)\<lparr>en_requester := Some \<lparr>ad_phone = phone, ad_key = key\<rparr>\<rparr>"
  have "paired_ok (en_paired ?e)" using ok ring_note_presence [of phone key msg e] n by simp
  then have "paired_ok (en_paired (dispatch env msg phone via ?e))" "paired_ok (en_paired (snd (grant_session_key env phone g key ?e)))" "paired_ok (en_paired ?e)" for g
    using paired_ok_command paired_ok_grant by blast+
  then show ?thesis using n by (cases msg) (simp_all add: run_command_def Let_def)
qed

lemma paired_ok_relay_event: "paired_ok (en_paired e) \<Longrightarrow> paired_ok (en_paired (on_relay_event env dec decode event via e))"
  by (auto simp: on_relay_event_def Let_def split_beta persist_cursor_def split: option.splits intro!: paired_ok_run_command paired_ok_pair)

lemma paired_ok_timer: "paired_ok (en_paired e) \<Longrightarrow> paired_ok (en_paired (on_timer env i e))"
proof -
  assume ok: "paired_ok (en_paired e)"
  have "paired_ok (en_paired (fired i e))" using ok by simp
  then have "paired_ok (en_paired (prune_session_keys (fired i e)))" by (rule paired_ok_prune)
  then show ?thesis using ok
    by (auto simp: on_timer_def Let_def arm_def persist_cursor_def on_pairing_expiry_def split: option.splits TimerKind.splits)
qed

lemma paired_ok_handle:
  assumes "paired_ok (en_paired e)"
  shows "paired_ok (en_paired (snd (handle env dec decode base recent now input e)))"
proof -
  have ok: "paired_ok (en_paired (e\<lparr>en_now := now\<rparr>))" using assms by simp
  have "paired_ok (en_paired (on_input env dec decode input (e\<lparr>en_now := now\<rparr>)))"
  proof (cases input)
    case (InUnpaired who)
    then show ?thesis using assms paired_ok_filter [OF assms] by (simp add: unpair_def Let_def)
  qed (use ok in \<open>simp_all add: paired_ok_relay_event paired_ok_timer open_pairing_def Let_def split_beta\<close>)
  then show ?thesis by (simp add: handle_def Let_def take_effects_def)
qed

lemma paired_ok_reach: "engine_reach env dec decode stored e \<Longrightarrow> paired_ok stored \<Longrightarrow> paired_ok (en_paired e)"
proof (induction rule: engine_reach.induct)
  case (elsewhere e e')
  then show ?case by (simp add: elsewhere_ok_def)
qed (simp_all add: paired_ok_handle)

text \<open>C19: A session key names one client: from any paired phones whose keys do so, whatever is granted,
  rotated, renewed, pruned, paired and unpaired, no identity is paired twice, none has more than sixteen
  clients, and a key, newest or rotated away, is held by one client of one identity only, so that the client
  a command is attributed to, its device and its terminals are never another's.\<close>

theorem session_key_names_one_client:
  assumes "engine_reach env dec decode stored e" "paired_ok stored"
  shows "distinct (map pp_pubkey_hex (en_paired e)) \<and> (\<forall>p \<in> set (en_paired e). length (pp_clients p) \<le> 16)
    \<and> (\<forall>p \<in> set (en_paired e). \<forall>q \<in> set (en_paired e). \<forall>c \<in> set (pp_clients p). \<forall>d \<in> set (pp_clients q). \<forall>k.
        holds_key k c \<and> holds_key k d \<longrightarrow> p = q \<and> c = d)"
proof -
  have ok: "paired_ok (en_paired e)" by (rule paired_ok_reach [OF assms])
  have "map fst (ring e) = map pp_pubkey_hex (en_paired e)" by (simp add: ring_of_def)
  then have "distinct (map pp_pubkey_hex (en_paired e))" using ok by (simp add: ring_ok_def)
  then show ?thesis using ring_unique [OF ok] paired_ok_mem [OF ok] by (simp add: MAX_CLIENTS_def) blast
qed

theorem session_key_names_one_client_witness:
  "distinct (map pp_pubkey_hex (en_paired (engine_start sample_env [sample_phone ''a'' ''ka'' ''d'', sample_phone ''b'' ''kb'' ''f''] 0 []
     (engine_new ''bridge'' ''npub'' ''laptop'' [''wss://r''] 600000 60000 default_terminal_config 0))))"
proof -
  have "paired_ok [sample_phone ''a'' ''ka'' ''d'', sample_phone ''b'' ''kb'' ''f'']"
    by (simp add: paired_ok_Cons sample_phone_def phone_keys_def client_keys_def MAX_CLIENTS_def)
  from session_key_names_one_client [where decode = "\<lambda>_. None" and dec = "\<lambda>_. Some", OF started this] show ?thesis by blast
qed

section \<open>What a grant does\<close>

text \<open>Where a client a grant leaves comes from.\<close>

definition granted_from :: "Env \<Rightarrow> SessionKeyGrant \<Rightarrow> string \<Rightarrow> PhoneClient list \<Rightarrow> PhoneClient \<Rightarrow> bool" where
  "granted_from env grant used cs c =
     (sg_pubkey_hex (pc_key c) = sg_pubkey_hex grant \<and>
       (list_ex (\<lambda>old. sg_pubkey_hex (pc_key old) = sg_pubkey_hex grant \<and> pc_device c = pc_device old \<and> pc_previous c = pc_previous old) cs
        \<or> list_ex (\<lambda>old. sg_replaces grant = Some used \<and> sg_pubkey_hex (pc_key old) = used \<and> pc_previous c = Some (pc_key old)
            \<and> pc_device c = (if pc_device old = [] then device_id env used else pc_device old)) cs
        \<or> pc_device c = device_id env (sg_pubkey_hex grant) \<and> pc_previous c = None))"

lemma set_drop_quietest: "set (drop_quietest cs) \<subseteq> set cs"
  by (auto simp: drop_quietest_def Let_def dest: in_set_takeD in_set_dropD)

lemma set_update_one: "c \<in> set (xs[i := y]) \<Longrightarrow> c \<in> set xs \<or> c = y"
  by (meson in_set_conv_nth nth_list_update set_update_subset_insert insertE subsetD)

lemma grant_clients_from:
  "c \<in> set (grant_clients env grant used now until cs) \<Longrightarrow> c \<in> set cs \<or> granted_from env grant used cs c"
proof -
  assume c: "c \<in> set (grant_clients env grant used now until cs)"
  let ?live = "filter (\<lambda>c. sg_expires_at (pc_key c) > now) cs"
  let ?renewed = "position (\<lambda>c. sg_pubkey_hex (pc_key c) = sg_pubkey_hex grant) ?live"
  let ?rotated = "case sg_replaces grant of
      Some old \<Rightarrow> (if old = used then position (\<lambda>c. sg_pubkey_hex (pc_key c) = old) ?live else None) | None \<Rightarrow> None"
  have nth: "?live ! i \<in> set cs" if "i < length ?live" for i using nth_mem [OF that] by simp
  consider (renewed) i where "?renewed = Some i" | (rotated) i where "?renewed = None" "?rotated = Some i" | (fresh) "?renewed = None" "?rotated = None"
    by (cases ?renewed; cases ?rotated) blast+
  then show ?thesis
  proof cases
    case (renewed i)
    then have i: "i < length ?live" "sg_pubkey_hex (pc_key (?live ! i)) = sg_pubkey_hex grant" using position_Some by blast+
    have "c \<in> set ?live \<or> c = renew_client grant until (?live ! i)" using c renewed set_update_one by (fastforce simp: grant_clients_def Let_def)
    moreover have "granted_from env grant used cs (renew_client grant until (?live ! i))"
      using i(2) nth [OF i(1)] by (auto simp: granted_from_def renew_client_def list_ex_iff)
    ultimately show ?thesis by auto
  next
    case (rotated i)
    then have i: "i < length ?live" "sg_pubkey_hex (pc_key (?live ! i)) = used" "sg_replaces grant = Some used"
      using position_Some by (fastforce split: option.splits if_splits)+
    have "c \<in> set ?live \<or> c = rotate_client env grant until (?live ! i)"
      using c rotated set_update_one by (fastforce simp: grant_clients_def Let_def)
    moreover have "granted_from env grant used cs (rotate_client env grant until (?live ! i))"
      using i(2,3) nth [OF i(1)] by (auto simp: granted_from_def rotate_client_def kept_grant_def list_ex_iff)
    ultimately show ?thesis by auto
  next
    case fresh
    then have "c \<in> set ?live \<or> c = new_client env grant until" using c set_drop_quietest by (fastforce simp: grant_clients_def Let_def)
    then show ?thesis by (auto simp: granted_from_def new_client_def kept_grant_def)
  qed
qed

lemma grant_clients_live:
  assumes "now < sg_expires_at grant"
  shows "\<exists>c \<in> set (grant_clients env grant used now until cs). sg_pubkey_hex (pc_key c) = sg_pubkey_hex grant \<and> now < sg_expires_at (pc_key c)"
proof -
  let ?live = "filter (\<lambda>c. sg_expires_at (pc_key c) > now) cs"
  let ?renewed = "position (\<lambda>c. sg_pubkey_hex (pc_key c) = sg_pubkey_hex grant) ?live"
  let ?rotated = "case sg_replaces grant of
      Some old \<Rightarrow> (if old = used then position (\<lambda>c. sg_pubkey_hex (pc_key c) = old) ?live else None) | None \<Rightarrow> None"
  consider (renewed) i where "?renewed = Some i" | (rotated) i where "?renewed = None" "?rotated = Some i" | (fresh) "?renewed = None" "?rotated = None"
    by (cases ?renewed; cases ?rotated) blast+
  then show ?thesis
  proof cases
    case (renewed i)
    then have i: "i < length ?live" "sg_pubkey_hex (pc_key (?live ! i)) = sg_pubkey_hex grant" using position_Some by blast+
    have "renew_client grant until (?live ! i) \<in> set (grant_clients env grant used now until cs)"
      using renewed set_update_memI [OF i(1)] by (simp add: grant_clients_def Let_def)
    then show ?thesis by (rule rev_bexI) (use i(2) assms in \<open>simp add: renew_client_def\<close>)
  next
    case (rotated i)
    then have i: "i < length ?live" using position_Some by (fastforce split: option.splits if_splits)
    have "rotate_client env grant until (?live ! i) \<in> set (grant_clients env grant used now until cs)"
      using rotated set_update_memI [OF i] by (simp add: grant_clients_def Let_def)
    then show ?thesis by (rule rev_bexI) (use assms in \<open>simp add: rotate_client_def kept_grant_def\<close>)
  next
    case fresh
    then have "new_client env grant until \<in> set (grant_clients env grant used now until cs)" by (simp add: grant_clients_def Let_def)
    then show ?thesis by (rule rev_bexI) (use assms in \<open>simp add: new_client_def kept_grant_def\<close>)
  qed
qed

lemma find_update_other:
  "who \<noteq> i \<Longrightarrow> (\<And>p. pp_pubkey_hex (g p) = pp_pubkey_hex p) \<Longrightarrow>
   find (\<lambda>p. pp_pubkey_hex p = who) (update_first (\<lambda>p. pp_pubkey_hex p = i) g ps) = find (\<lambda>p. pp_pubkey_hex p = who) ps"
  by (induction ps) auto

lemma find_update_same: "find P xs = Some x \<Longrightarrow> P (g x) \<Longrightarrow> find P (update_first P g xs) = Some (g x)"
  by (induction xs) (auto split: if_splits)

text \<open>C33: A grant is refused for exactly the stated reasons, or because its identity is not paired, and then
  changes nothing at all. One that is taken is usable at once, leaves every other identity alone, and can
  touch another client of its own identity in no way but dropping it: a client keeps its device through every
  rotation, and only a command encrypted with a client's own key rotates that client.\<close>

theorem session_key_grant:
  "case grant_session_key env i grant used e of
     (took, e') \<Rightarrow>
       took = (grant_refusal env i grant e = None \<and> phone_of i e \<noteq> None)
       \<and> (\<not> took \<longrightarrow> e' = e)
       \<and> (took \<longrightarrow> sg_pubkey_hex grant \<in> set (payload_keys i (now_secs e) e')
            \<and> (\<forall>who. who \<noteq> i \<longrightarrow> phone_of who e' = phone_of who e)
            \<and> (\<forall>p p' c. phone_of i e = Some p \<and> phone_of i e' = Some p' \<and> c \<in> set (pp_clients p') \<longrightarrow>
                 c \<in> set (pp_clients p) \<or> granted_from env grant used (pp_clients p) c))"
proof (cases "grant_refusal env i grant e = None \<and> phone_of i e \<noteq> None")
  case True
  then obtain p where p: "phone_of i e = Some p" by auto
  let ?g = "\<lambda>p. p\<lparr>pp_clients := grant_clients env grant used (now_secs e) (en_now e + PRESENCE_LEASE_SECS * 1000) (pp_clients p)\<rparr>"
  obtain e' where e': "grant_session_key env i grant used e = (True, e')" "en_paired e' = update_first (\<lambda>p. pp_pubkey_hex p = i) ?g (en_paired e)"
    using True p by (auto simp: grant_session_key_def Let_def)
  have f: "find (\<lambda>p. pp_pubkey_hex p = i) (en_paired e) = Some p" using p by (simp add: phone_of_def)
  have other: "phone_of who e' = phone_of who e" if "who \<noteq> i" for who
    unfolding phone_of_def e'(2) using that by (intro find_update_other) simp_all
  have p': "phone_of i e' = Some (?g p)"
    using find_update_same [OF f, of ?g] find_Some [OF f] by (simp add: phone_of_def e'(2))
  have "now_secs e < sg_expires_at grant" using True by (auto simp: grant_refusal_def split: if_splits)
  from grant_clients_live [OF this, of env used "en_now e + PRESENCE_LEASE_SECS * 1000" "pp_clients p"]
  have "sg_pubkey_hex grant \<in> set (payload_keys i (now_secs e) e')"
    using p' by (auto simp: payload_keys_def Let_def image_iff)
  then show ?thesis using True p p' e'(1) other grant_clients_from by fastforce
qed (auto simp: grant_session_key_def Let_def split: option.splits)

theorem session_key_grant_witness:
  "\<exists>e'. grant_session_key sample_env ''phone'' \<lparr>sg_pubkey_hex = ''next'', sg_bridge_pubkey_hex = ''bridge'', sg_expires_at = 7000,
       sg_replaces = Some ''key'', sg_label = None\<rparr> ''key'' (sample_open None) = (True, e')
     \<and> ''next'' \<in> set (payload_keys ''phone'' 0 e')"
proof -
  let ?g = "\<lparr>sg_pubkey_hex = ''next'', sg_bridge_pubkey_hex = ''bridge'', sg_expires_at = 7000, sg_replaces = Some ''key'', sg_label = None\<rparr>"
  have "grant_refusal sample_env ''phone'' ?g (sample_open None) = None"
    by (simp add: grant_refusal_def sample_defs now_secs_def key_taken_def SESSION_KEY_MAX_LIFETIME_SECS_def)
  moreover have "phone_of ''phone'' (sample_open None) \<noteq> None" by (simp add: phone_of_def sample_defs)
  moreover have "now_secs (sample_open None) = 0" by (simp add: now_secs_def sample_defs)
  ultimately show ?thesis using session_key_grant [where env = sample_env and i = "''phone''" and grant = ?g and used = "''key''" and e = "sample_open None"] by (auto split: prod.splits)
qed

section \<open>Who gets a copy\<close>

definition copies :: "Effect list \<Rightarrow> BridgeToPhone \<Rightarrow> Addressee set" where
  "copies xs m = {a. \<exists>to. Publish to m \<in> set xs \<and> a \<in> set to}"

text \<open>Live text is for the clients watching its session, a terminal's output for those showing it.\<close>

fun interested :: "BridgeToPhone \<Rightarrow> PhoneClient \<Rightarrow> bool" where
  "interested (Partial m) c = ws_wants (pc_watch c) (pm_session_id m)"
| "interested (TerminalOutput m) c = ws_shows (pc_watch_terminal c) (to_term m)"
| "interested m c = True"

definition live_clients :: "Engine \<Rightarrow> string \<Rightarrow> PhoneClient set" where
  "live_clients e who = (case phone_of who e of None \<Rightarrow> {} | Some p \<Rightarrow> {c \<in> set (pp_clients p). en_now e div 1000 < sg_expires_at (pc_key c)})"

definition entitled :: "Engine \<Rightarrow> BridgeToPhone \<Rightarrow> Addressee \<Rightarrow> bool" where
  "entitled e m a =
     (if live_clients e (ad_phone a) = {} then ad_key a = ad_phone a
      else \<exists>c \<in> live_clients e (ad_phone a). en_now e < pc_present_until_ms c \<and> interested m c \<and> ad_key a = sg_pubkey_hex (pc_key c))"

lemma copy_keys_where_True: "copy_keys who now e = copy_keys_where who now (\<lambda>_. True) e"
  by (simp add: copy_keys_def copy_keys_where_def Let_def split: option.splits)

lemma interested_stream:
  "interested m = (case stream_of m of SessionStream s \<Rightarrow> \<lambda>c. ws_wants (pc_watch c) s | TerminalStream t \<Rightarrow> \<lambda>c. ws_shows (pc_watch_terminal c) t
     | Everyone \<Rightarrow> \<lambda>c. True)"
  by (rule ext, cases m) simp_all

lemma address_one_identity:
  "ad_key a = [] \<Longrightarrow> address_one e (stream_of m) a =
     map (\<lambda>key. \<lparr>ad_phone = ad_phone a, ad_key = key\<rparr>) (copy_keys_where (ad_phone a) (en_now e) (interested m) e)"
  unfolding interested_stream
  by (cases "stream_of m") (simp_all add: address_one_def copy_keys_watching_def copy_keys_watching_terminal_def copy_keys_where_True)

lemma copy_keys_entitled: "k \<in> set (copy_keys_where who (en_now e) (interested m) e) = entitled e m \<lparr>ad_phone = who, ad_key = k\<rparr>"
  by (auto simp: copy_keys_where_def entitled_def live_clients_def Let_def filter_empty_conv split: option.splits)

lemma address_one_iff:
  "b \<in> set (address_one e (stream_of m) a) = (if ad_key a = [] then ad_phone b = ad_phone a \<and> entitled e m b else b = a)"
proof (cases "ad_key a = []")
  case True
  have img: "b \<in> (\<lambda>key. \<lparr>ad_phone = ad_phone a, ad_key = key\<rparr>) ` S \<longleftrightarrow> ad_phone b = ad_phone a \<and> ad_key b \<in> S" for S by (cases b) auto
  have "\<lparr>ad_phone = ad_phone b, ad_key = ad_key b\<rparr> = b" by (cases b) simp
  then have "ad_phone b = ad_phone a \<Longrightarrow> ad_key b \<in> set (copy_keys_where (ad_phone a) (en_now e) (interested m) e) \<longleftrightarrow> entitled e m b"
    using copy_keys_entitled [of "ad_key b" "ad_phone b" e m] by (simp only:)
  then show ?thesis unfolding address_one_identity [OF True] set_map img if_P [OF True] by blast
qed (simp add: address_one_def)

lemma copies_take_effects:
  "b \<in> copies (fst (take_effects e)) m =
    (ad_key b \<noteq> [] \<and> b \<in> copies (effects (en_out e)) m
     \<or> to_identity (ad_phone b) \<in> copies (effects (en_out e)) m \<and> entitled e m b)"
proof -
  have pub: "Publish to m = address_effect e x \<longleftrightarrow> (\<exists>to'. x = Publish to' m \<and> to = concat (map (address_one e (stream_of m)) to'))" for to x
    by (cases x) auto
  have "b \<in> copies (fst (take_effects e)) m \<longleftrightarrow> (\<exists>to. Publish to m \<in> set (effects (en_out e)) \<and> (\<exists>a \<in> set to. b \<in> set (address_one e (stream_of m) a)))"
    by (force simp: copies_def take_effects_def address_publishes_def image_iff pub)
  also have "\<dots> \<longleftrightarrow> (\<exists>a \<in> copies (effects (en_out e)) m. if ad_key a = [] then ad_phone b = ad_phone a \<and> entitled e m b else b = a)"
    unfolding copies_def address_one_iff by blast
  also have "\<dots> \<longleftrightarrow> (ad_key b \<noteq> [] \<and> b \<in> copies (effects (en_out e)) m \<or> to_identity (ad_phone b) \<in> copies (effects (en_out e)) m \<and> entitled e m b)"
  proof -
    have "ad_key a = [] \<longleftrightarrow> a = to_identity (ad_phone a)" for a by (cases a) (simp add: to_identity_def)
    then have "ad_key a = [] \<and> ad_phone b = ad_phone a \<longleftrightarrow> a = to_identity (ad_phone b)" for a
      by (metis Addressee.select_convs(1) to_identity_def)
    then show ?thesis by metis
  qed
  finally show ?thesis .
qed

text \<open>C23: Who gets a copy: of each message an input makes the engine publish, a client that was named gets its
  copy, and a message to an identity goes to exactly the clients of that identity whose key is live, which
  are present, and which watch the session it is live text of or show the terminal it is output of, each under
  its newest key; and to the identity's own key only if it has no live client at all. The other effects are
  handed out as they were.\<close>

theorem copies_go_to_entitled_clients:
  "let e1 = flush base recent ((on_input env dec decode input (e\<lparr>en_now := now\<rparr>))\<lparr>en_requester := None\<rparr>);
       out = fst (handle env dec decode base recent now input e)
   in (\<forall>m a. a \<in> copies out m \<longleftrightarrow>
        (ad_key a \<noteq> [] \<and> a \<in> copies (effects (en_out e1)) m
         \<or> to_identity (ad_phone a) \<in> copies (effects (en_out e1)) m \<and> entitled e1 m a))
     \<and> (\<forall>to m. Publish to m \<in> set out \<longrightarrow> to \<noteq> [])
     \<and> filter (\<lambda>x. \<not> is_publish x) out = filter (\<lambda>x. \<not> is_publish x) (effects (en_out e1))"
proof -
  have out: "fst (handle env dec decode base recent now input e)
      = fst (take_effects (flush base recent ((on_input env dec decode input (e\<lparr>en_now := now\<rparr>))\<lparr>en_requester := None\<rparr>)))"
    by (simp add: handle_def Let_def)
  have others: "filter (\<lambda>x. \<not> is_publish x) (fst (take_effects e1)) = filter (\<lambda>x. \<not> is_publish x) (effects (en_out e1))" for e1
  proof -
    have "filter (\<lambda>x. \<not> is_publish x) (filter (\<lambda>x. \<not> goes_nowhere x) (map (address_effect e1) xs)) = filter (\<lambda>x. \<not> is_publish x) xs" for xs
    proof (induction xs)
      case (Cons x xs)
      then show ?case by (cases x) simp_all
    qed simp
    then show ?thesis by (simp add: take_effects_def address_publishes_def)
  qed
  show ?thesis unfolding out Let_def using copies_take_effects others by (simp add: take_effects_def)
qed

theorem copies_go_to_entitled_clients_witness:
  "\<lparr>ad_phone = ''phone'', ad_key = ''key''\<rparr> \<in> copies
     (fst (handle sample_env (\<lambda>_. Some) (\<lambda>_. None) sample_base True 1 (InTerminalOutput ''i'' 0 ''eA'') (sample_open None)))
     (TerminalOutput \<lparr>to_term = ''i'', to_offset = 0, to_data = ''eA'', to_replay = None\<rparr>)"
proof -
  let ?e = "(on_input sample_env (\<lambda>_. Some) (\<lambda>_. None) (InTerminalOutput ''i'' 0 ''eA'') ((sample_open None)\<lparr>en_now := 1\<rparr>))\<lparr>en_requester := None\<rparr>"
  let ?m = "TerminalOutput \<lparr>to_term = ''i'', to_offset = 0, to_data = ''eA'', to_replay = None\<rparr>"
  have f: "flush sample_base True ?e = ?e"
    by (simp add: flush_def on_terminal_output_def sample_open_def engine_new_def open_terminal_def send_identity_def Let_def split: option.splits)
  have "to_identity ''phone'' \<in> copies (effects (en_out ?e)) ?m"
    by (simp add: copies_def on_terminal_output_def open_terminal_def send_identity_def publish_def publish_addressed_def push_def sample_defs)
  moreover have "entitled ?e ?m \<lparr>ad_phone = ''phone'', ad_key = ''key''\<rparr>"
    by (simp add: entitled_def live_clients_def phone_of_def on_terminal_output_def open_terminal_def send_identity_def sample_defs)
  ultimately show ?thesis
    using copies_go_to_entitled_clients [where base = sample_base and recent = True and env = sample_env and dec = "\<lambda>_. Some"
        and decode = "\<lambda>_. None" and input = "InTerminalOutput ''i'' 0 ''eA''" and e = "sample_open None" and now = 1, unfolded Let_def f]
    by (metis Addressee.select_convs(1))
qed

end
