(* ===== verification/PhonePairing.thy ===== *)
theory PhonePairing
  imports Pairing
begin

text \<open>
  \<open>crates/client-core/src/stores/pairing.rs\<close>: the phone's half of pairing. Reading a scanned or pasted
  link, the manual fallback, and the state machine of one pairing attempt with its deadline. Strings are
  their UTF-8 bytes; \<open>hex_from_npub\<close> (bech32) is the parameter \<open>hex_of\<close>.
\<close>

section \<open>Strings\<close>

text \<open>\<open>String::from_utf8\<close>: the byte sequences the standard allows, no overlong form and no surrogate.\<close>

definition cont :: "nat \<Rightarrow> bool" where
  "cont b = (128 \<le> b \<and> b \<le> 191)"

fun valid_utf8 :: "nat list \<Rightarrow> bool" where
  "valid_utf8 [] = True"
| "valid_utf8 (a # bs) =
     (if a < 128 then valid_utf8 bs
      else case bs of
          [] \<Rightarrow> False
        | b # bs1 \<Rightarrow>
            if 194 \<le> a \<and> a \<le> 223 then cont b \<and> valid_utf8 bs1
            else case bs1 of
                [] \<Rightarrow> False
              | c # bs2 \<Rightarrow>
                  if 224 \<le> a \<and> a \<le> 239 then
                    cont b \<and> (a = 224 \<longrightarrow> 160 \<le> b) \<and> (a = 237 \<longrightarrow> b \<le> 159) \<and> cont c \<and> valid_utf8 bs2
                  else case bs2 of
                      [] \<Rightarrow> False
                    | d # bs3 \<Rightarrow>
                        240 \<le> a \<and> a \<le> 244 \<and> cont b \<and> (a = 240 \<longrightarrow> 144 \<le> b) \<and> (a = 244 \<longrightarrow> b \<le> 143)
                        \<and> cont c \<and> cont d \<and> valid_utf8 bs3)"

definition from_utf8 :: "string \<Rightarrow> string option" where
  "from_utf8 s = (if valid_utf8 (map of_char s) then Some s else None)"

definition str_trim :: "string \<Rightarrow> string" where
  "str_trim s = concat (trim (utf8_chars s))"

text \<open>\<open>str::split\<close> by one character: as many pieces as separators, and one.\<close>

fun split_on :: "char \<Rightarrow> string \<Rightarrow> string list" where
  "split_on sep [] = [[]]"
| "split_on sep (c # s) =
     (if c = sep then [] # split_on sep s
      else case split_on sep s of [] \<Rightarrow> [[c]] | piece # rest \<Rightarrow> (c # piece) # rest)"

definition strip_prefix :: "string \<Rightarrow> string \<Rightarrow> string option" where
  "strip_prefix p s = (if take (length p) s = p then Some (drop (length p) s) else None)"

definition str_ends_with :: "string \<Rightarrow> string \<Rightarrow> bool" where
  "str_ends_with s p = (length p \<le> length s \<and> drop (length s - length p) s = p)"

section \<open>Reading a pairing link\<close>

definition MAX_PAIRING_RELAYS :: nat where "MAX_PAIRING_RELAYS = 5"
definition PAIR_ACK_TIMEOUT_MS :: nat where "PAIR_ACK_TIMEOUT_MS = 60000"
definition PAIRING_URL_PREFIX :: string where "PAIRING_URL_PREFIX = ''codedeck://pair''"

definition pair_timeout_error :: "nat \<Rightarrow> string" where
  "pair_timeout_error ms = ''no answer from the bridge within '' @ decimal (ms div 1000)
     @ ''s '' @ [CHR 0xE2, CHR 0x80, CHR 0x94] @ '' its pairing window may have closed, the one-time token may be mistyped, ''
     @ ''or the phone and the bridge may not share a relay''"

record ParsedPairingUrl =
  pu_npub :: string
  pu_pubkey_hex :: string
  pu_relays :: "string list"
  pu_machine :: string
  pu_token :: string

type_synonym ParsePairingResult = "string + ParsedPairingUrl"

definition hex_val :: "char \<Rightarrow> nat option" where
  "hex_val c = (let b = (of_char c :: nat) in
     if 48 \<le> b \<and> b \<le> 57 then Some (b - 48)
     else if 97 \<le> b \<and> b \<le> 102 then Some (b - 97 + 10)
     else if 65 \<le> b \<and> b \<le> 70 then Some (b - 65 + 10)
     else None)"

text \<open>The loop over the bytes; every escape is two hex digits.\<close>

fun unescape :: "string \<Rightarrow> string option" where
  "unescape [] = Some []"
| "unescape (c # s) =
     (if c = CHR ''%'' then
        (case s of
           a # b # rest \<Rightarrow>
             (case (hex_val a, hex_val b) of
                (Some hi, Some lo) \<Rightarrow> map_option (Cons (char_of (hi * 16 + lo))) (unescape rest)
              | _ \<Rightarrow> None)
         | _ \<Rightarrow> None)
      else map_option (Cons c) (unescape s))"

definition decode_uri_component :: "string \<Rightarrow> string option" where
  "decode_uri_component s = (case unescape s of Some out \<Rightarrow> from_utf8 out | None \<Rightarrow> None)"

definition relay_host :: "string \<Rightarrow> string" where
  "relay_host rest =
     (let authority = hd (split_on (CHR ''/'') rest);
          host = (case strip_prefix ''['' authority of
              Some v6 \<Rightarrow> hd (split_on (CHR '']'') v6)
            | None \<Rightarrow> hd (split_on (CHR '':'') authority))
      in map ascii_lower host)"

definition is_relay_url :: "string \<Rightarrow> bool" where
  "is_relay_url relay =
     (case strip_prefix ''wss://'' relay of
        Some rest \<Rightarrow> relay_host rest \<noteq> []
      | None \<Rightarrow>
          (case strip_prefix ''ws://'' relay of
             Some rest \<Rightarrow>
               let h = relay_host rest in
               str_ends_with h ''.onion'' \<or> h = ''localhost'' \<or> h = ''::1'' \<or> take 4 h = ''127.''
           | None \<Rightarrow> False))"

text \<open>\<open>str::split\<close> by a predicate on characters.\<close>

fun split_where :: "(string \<Rightarrow> bool) \<Rightarrow> string list \<Rightarrow> string list" where
  "split_where P [] = [[]]"
| "split_where P (ch # chs) =
     (if P ch then [] # split_where P chs
      else case split_where P chs of [] \<Rightarrow> [ch] | piece # rest \<Rightarrow> (ch @ piece) # rest)"

fun add_relays :: "string list \<Rightarrow> string list \<Rightarrow> string + string list" where
  "add_relays relays [] = Inr relays"
| "add_relays relays (r # rs) =
     (if \<not> is_relay_url r then Inl (''invalid relay URL: '' @ r)
      else if r \<in> set relays then add_relays relays rs else add_relays (relays @ [r]) rs)"

definition too_many_relays :: string where
  "too_many_relays = ''too many relays (max 5)''"

definition parse_relay_list :: "string \<Rightarrow> string + string list" where
  "parse_relay_list input =
     (case add_relays [] (filter (\<lambda>r. r \<noteq> []) (split_where (\<lambda>ch. ch = '','' \<or> is_whitespace ch) (utf8_chars input))) of
        Inl err \<Rightarrow> Inl err
      | Inr relays \<Rightarrow>
          if relays = [] then Inl ''missing relays''
          else if length relays > MAX_PAIRING_RELAYS then Inl too_many_relays
          else Inr relays)"

text \<open>The raw parameters of the query, in order; a pair without \<open>=\<close> is none.\<close>

definition raw_param :: "string \<Rightarrow> (string \<times> string) option" where
  "raw_param pair =
     (if pair = [] then None
      else map_option (\<lambda>i. (take i pair, drop (Suc i) pair)) (position (\<lambda>c. c = CHR ''='') pair))"

definition query_params :: "string \<Rightarrow> (string \<times> string) list" where
  "query_params query = somes (map raw_param (split_on (CHR ''&'') query))"

definition get_param :: "string \<Rightarrow> (string \<times> string) list \<Rightarrow> string" where
  "get_param key params = (case find (\<lambda>(k, v). k = key) params of Some (k, v) \<Rightarrow> v | None \<Rightarrow> [])"

definition text_param :: "string \<Rightarrow> string option" where
  "text_param raw = (if raw = [] then None else decode_uri_component raw)"

fun decode_relays :: "string list \<Rightarrow> string + string list" where
  "decode_relays [] = Inr []"
| "decode_relays (enc # encs) =
     (if enc = [] then decode_relays encs
      else case decode_uri_component enc of
          None \<Rightarrow> Inl ''malformed relay list''
        | Some relay \<Rightarrow>
            if \<not> is_relay_url relay then Inl (''invalid relay URL: '' @ relay)
            else case decode_relays encs of Inl err \<Rightarrow> Inl err | Inr relays \<Rightarrow> Inr (relay # relays))"

definition parse_query :: "(string \<Rightarrow> string option) \<Rightarrow> (string \<times> string) list \<Rightarrow> ParsePairingResult" where
  "parse_query hex_of params =
     (let npub = get_param ''npub'' params in
      if npub = [] then Inl ''missing npub''
      else case hex_of npub of
          None \<Rightarrow> Inl ''invalid npub''
        | Some pubkey_hex \<Rightarrow>
            (case text_param (get_param ''token'' params) of
               None \<Rightarrow> Inl ''missing token''
             | Some token \<Rightarrow>
                 (case text_param (get_param ''machine'' params) of
                    None \<Rightarrow> Inl ''missing machine name''
                  | Some machine \<Rightarrow>
                      (case decode_relays (split_on (CHR '','') (get_param ''relays'' params)) of
                         Inl err \<Rightarrow> Inl err
                       | Inr relays \<Rightarrow>
                           if relays = [] then Inl ''missing relays''
                           else if length relays > MAX_PAIRING_RELAYS then Inl too_many_relays
                           else Inr \<lparr>pu_npub = npub, pu_pubkey_hex = pubkey_hex, pu_relays = relays, pu_machine = machine, pu_token = token\<rparr>))))"

definition parse_pairing_url :: "(string \<Rightarrow> string option) \<Rightarrow> string \<Rightarrow> ParsePairingResult" where
  "parse_pairing_url hex_of url =
     (let trimmed = str_trim url in
      case strip_prefix PAIRING_URL_PREFIX trimmed of
        None \<Rightarrow> Inl ''not a codedeck://pair URL''
      | Some _ \<Rightarrow>
          let query_index = position (\<lambda>c. c = CHR ''?'') trimmed;
              rest = drop (length PAIRING_URL_PREFIX) (case query_index of Some i \<Rightarrow> take i trimmed | None \<Rightarrow> trimmed)
          in if rest \<noteq> [] \<and> rest \<noteq> ''/'' then Inl ''not a codedeck://pair URL''
             else case query_index of
                 None \<Rightarrow> Inl ''missing query parameters''
               | Some i \<Rightarrow> parse_query hex_of (query_params (drop (Suc i) trimmed)))"

definition parse_manual_pair :: "(string \<Rightarrow> string option) \<Rightarrow> string \<Rightarrow> string \<Rightarrow> string \<Rightarrow> ParsePairingResult" where
  "parse_manual_pair hex_of npub token relays =
     (let npub = str_trim npub; token = str_trim token in
      case hex_of npub of
        None \<Rightarrow> Inl ''invalid npub''
      | Some pubkey_hex \<Rightarrow>
          if token = [] then Inl ''missing token''
          else case parse_relay_list relays of
              Inl err \<Rightarrow> Inl err
            | Inr relays \<Rightarrow> Inr \<lparr>pu_npub = npub, pu_pubkey_hex = pubkey_hex, pu_relays = relays, pu_machine = ''(manual)'', pu_token = token\<rparr>)"

section \<open>The pairing attempt\<close>

datatype PairingPhase = PhIdle | PhAwaitingAck | PhPaired | PhFailed

record PairingCandidate =
  cand_pubkey_hex :: string
  cand_npub :: string
  cand_machine :: string
  cand_relays :: "string list"
  cand_token :: string

definition candidate_from_parts :: "ParsedPairingUrl \<Rightarrow> PairingCandidate" where
  "candidate_from_parts p = \<lparr>cand_pubkey_hex = pu_pubkey_hex p, cand_npub = pu_npub p, cand_machine = pu_machine p,
     cand_relays = pu_relays p, cand_token = pu_token p\<rparr>"

record PairingState =
  pst_phase :: PairingPhase
  pst_candidate :: "PairingCandidate option"
  pst_error :: "string option"
  pst_timed_out :: bool
  pst_staged :: "ParsedPairingUrl option"

definition default_pairing_state :: PairingState where
  "default_pairing_state = \<lparr>pst_phase = PhIdle, pst_candidate = None, pst_error = None, pst_timed_out = False, pst_staged = None\<rparr>"

datatype PairingEvent =
    BeginPair ParsedPairingUrl string
  | StagePair ParsedPairingUrl
  | ConfirmStaged string
  | DismissStaged
  | DeadlineFired
  | PairAckEvent string PairAckMsg
  | ResetPairing

datatype PairingEffect =
    ArmDeadline nat
  | DisarmDeadline
  | NotifyCandidate PairingCandidate
  | SendPairRequest string string string \<comment> \<open>to, label, token\<close>
  | OnPaired PairingCandidate string "BridgeHostKind option"

definition reason_str :: "PairAckReason option \<Rightarrow> string" where
  "reason_str reason = (case reason of Some BadToken \<Rightarrow> ''bad-token'' | Some WindowClosed \<Rightarrow> ''window-closed'' | None \<Rightarrow> ''rejected'')"

definition begin_pair :: "ParsedPairingUrl option \<Rightarrow> ParsedPairingUrl \<Rightarrow> string \<Rightarrow> nat \<Rightarrow> PairingState \<times> PairingEffect list" where
  "begin_pair prev_staged parts label timeout_ms =
     (let candidate = candidate_from_parts parts in
      (\<lparr>pst_phase = PhAwaitingAck, pst_candidate = Some candidate, pst_error = None, pst_timed_out = False, pst_staged = prev_staged\<rparr>,
       [DisarmDeadline, ArmDeadline timeout_ms, NotifyCandidate candidate, SendPairRequest (pu_pubkey_hex parts) label (pu_token parts)]))"

definition merge_relays :: "string list \<Rightarrow> string list \<Rightarrow> string list" where
  "merge_relays relays learnt = foldl (\<lambda>rs r. if r \<in> set rs then rs else rs @ [r]) relays learnt"

definition on_pair_ack :: "PairingState \<Rightarrow> string \<Rightarrow> PairAckMsg \<Rightarrow> PairingState \<times> PairingEffect list" where
  "on_pair_ack st machine_pubkey msg =
     (let acceptable = (pst_phase st = PhAwaitingAck \<or> pst_phase st = PhFailed \<and> pst_timed_out st) in
      case pst_candidate st of
        None \<Rightarrow> (st, [])
      | Some candidate \<Rightarrow>
          if \<not> acceptable \<or> cand_pubkey_hex candidate \<noteq> machine_pubkey then (st, [])
          else if \<not> pa_ok msg then
            (st\<lparr>pst_phase := PhFailed, pst_error := Some (reason_str (pa_reason msg)), pst_timed_out := False\<rparr>, [DisarmDeadline])
          else
            let relays = merge_relays (cand_relays candidate) (case pa_relays msg of Some rs \<Rightarrow> rs | None \<Rightarrow> []);
                machine_name = (if pa_machine msg = [] then cand_machine candidate else pa_machine msg);
                paired = candidate\<lparr>cand_relays := relays, cand_machine := machine_name\<rparr>
            in (\<lparr>pst_phase = PhPaired, pst_candidate = Some paired, pst_error = None, pst_timed_out = False, pst_staged = pst_staged st\<rparr>,
                [DisarmDeadline, OnPaired paired machine_name (pa_host msg)]))"

fun pairing_reducer :: "PairingState \<Rightarrow> PairingEvent \<Rightarrow> nat \<Rightarrow> PairingState \<times> PairingEffect list" where
  "pairing_reducer st (BeginPair parts label) timeout_ms = begin_pair (pst_staged st) parts label timeout_ms"
| "pairing_reducer st (StagePair parts) timeout_ms = (st\<lparr>pst_staged := Some parts\<rparr>, [])"
| "pairing_reducer st (ConfirmStaged label) timeout_ms =
     (case pst_staged st of None \<Rightarrow> (st, []) | Some staged \<Rightarrow> begin_pair None staged label timeout_ms)"
| "pairing_reducer st DismissStaged timeout_ms = (st\<lparr>pst_staged := None\<rparr>, [])"
| "pairing_reducer st DeadlineFired timeout_ms =
     (if pst_phase st \<noteq> PhAwaitingAck then (st, [])
      else (st\<lparr>pst_phase := PhFailed, pst_error := Some (pair_timeout_error timeout_ms), pst_timed_out := True\<rparr>, []))"
| "pairing_reducer st (PairAckEvent machine_pubkey msg) timeout_ms = on_pair_ack st machine_pubkey msg"
| "pairing_reducer st ResetPairing timeout_ms = (default_pairing_state, [DisarmDeadline])"

section \<open>The link a bridge shows is the link a phone reads\<close>

lemma of_char_256: "(of_char c :: nat) < 256"
  using nat_of_char_less_256 by simp

lemma hex_val_digit: "n < 16 \<Longrightarrow> hex_val (hex_digit n) = Some n"
proof -
  assume n: "n < 16"
  have b: "(of_char (char_of k :: char) :: nat) = k" if "k < 256" for k using that by simp
  show ?thesis
  proof (cases "n < 10")
    case True
    then have "(of_char (hex_digit n) :: nat) = 48 + n" using b [of "48 + n"] by (simp add: hex_digit_def)
    then show ?thesis using True by (simp add: hex_val_def)
  next
    case False
    then have "(of_char (hex_digit n) :: nat) = 55 + n" using b [of "55 + n"] n by (simp add: hex_digit_def)
    then show ?thesis using False n by (simp add: hex_val_def)
  qed
qed

lemma of_char_digits: "(of_char c :: nat) div 16 < 16" "(of_char c :: nat) mod 16 < 16"
  using of_char_256 [of c] by (auto simp: less_mult_imp_div_less)

text \<open>What an encoded component is made of.\<close>

definition plain :: "char \<Rightarrow> bool" where
  "plain c = (is_unreserved c \<or> c = CHR ''%'')"

lemma hex_digit_plain: "n < 16 \<Longrightarrow> is_unreserved (hex_digit n)"
proof -
  assume n: "n < 16"
  have b: "(of_char (char_of k :: char) :: nat) = k" if "k < 256" for k using that by simp
  show ?thesis using b [of "48 + n"] b [of "55 + n"] n by (auto simp: is_unreserved_def hex_digit_def Let_def)
qed

lemma encode_byte_plain: "d \<in> set (encode_byte c) \<Longrightarrow> plain d"
proof -
  note n = of_char_digits [of c]
  show "d \<in> set (encode_byte c) \<Longrightarrow> plain d"
    using hex_digit_plain [OF n(1)] hex_digit_plain [OF n(2)] by (auto simp: encode_byte_def plain_def Let_def split: if_splits)
qed

lemma encode_plain: "d \<in> set (encode_uri_component s) \<Longrightarrow> plain d"
  using encode_byte_plain by (auto simp: encode_uri_component_def)

lemma unescape_encode_byte: "unescape (encode_byte c @ s) = map_option (Cons c) (unescape s)"
proof (cases "is_unreserved c")
  case True
  then have "c \<noteq> CHR ''%''" by (auto simp: is_unreserved_def)
  then show ?thesis using True by (simp add: encode_byte_def)
next
  case False
  note n = of_char_digits [of c]
  have "char_of ((of_char c :: nat) div 16 * 16 + of_char c mod 16) = c" by simp
  then show ?thesis using False by (simp add: encode_byte_def Let_def hex_val_digit [OF n(1)] hex_val_digit [OF n(2)])
qed

lemma unescape_encode: "unescape (encode_uri_component s) = Some s"
  unfolding encode_uri_component_def by (induction s) (simp_all add: unescape_encode_byte)

lemma decode_encode: "valid_utf8 (map of_char s) \<Longrightarrow> decode_uri_component (encode_uri_component s) = Some s"
  by (simp add: decode_uri_component_def unescape_encode from_utf8_def)

lemma encode_nonempty: "s \<noteq> [] \<Longrightarrow> encode_uri_component s \<noteq> []"
  by (cases s) (auto simp: encode_uri_component_def encode_byte_def Let_def)

lemma plain_chars:
  "\<not> plain (CHR ''&'')" "\<not> plain (CHR ''='')" "\<not> plain (CHR '','')" "\<not> plain (CHR ''?'')"
  "plain c \<Longrightarrow> (of_char c :: nat) < 128" "plain c \<Longrightarrow> \<not> is_whitespace [c]"
proof -
  show "\<not> plain (CHR ''&'')" "\<not> plain (CHR ''='')" "\<not> plain (CHR '','')" "\<not> plain (CHR ''?'')"
    by (simp_all add: plain_def is_unreserved_def)
  show "plain c \<Longrightarrow> (of_char c :: nat) < 128" "plain c \<Longrightarrow> \<not> is_whitespace [c]"
    by (auto simp: plain_def is_unreserved_def Let_def is_whitespace_def char_bytes_def)
qed

lemma split_on_plain: "sep \<notin> set x \<Longrightarrow> split_on sep x = [x]"
  by (induction x) auto

lemma split_on_sep: "sep \<notin> set x \<Longrightarrow> split_on sep (x @ sep # y) = x # split_on sep y"
  by (induction x) auto

lemma split_on_join: "xs \<noteq> [] \<Longrightarrow> (\<And>x. x \<in> set xs \<Longrightarrow> sep \<notin> set x) \<Longrightarrow> split_on sep (join [sep] xs) = xs"
proof (induction "[sep]" xs rule: join.induct)
  case (3 x y ys)
  then show ?case by (simp add: split_on_sep)
qed (auto simp: split_on_plain)

lemma position_append: "(\<And>x. x \<in> set xs \<Longrightarrow> \<not> P x) \<Longrightarrow> P y \<Longrightarrow> position P (xs @ y # ys) = Some (length xs)"
  by (induction xs) auto

lemma raw_param_pair:
  assumes "CHR ''='' \<notin> set k"
  shows "raw_param (k @ CHR ''='' # v) = Some (k, v)"
proof -
  have "position (\<lambda>c. c = CHR ''='') (k @ CHR ''='' # v) = Some (length k)" using assms by (intro position_append) auto
  then show ?thesis by (simp add: raw_param_def)
qed

text \<open>Text of single bytes with no blank at either end is left alone.\<close>

lemma utf8_chars_ascii: "(\<And>c. c \<in> set s \<Longrightarrow> (of_char c :: nat) < 128) \<Longrightarrow> utf8_chars s = map (\<lambda>c. [c]) s"
proof (induction s)
  case (Cons c s)
  then have "utf8_chars s = map (\<lambda>c. [c]) s" by simp
  moreover have "(of_char (hd s) :: nat) < 128" if "s \<noteq> []" using Cons.prems that by simp
  ultimately show ?case by (cases s) (simp_all add: Let_def)
qed simp

lemma str_trim_plain:
  assumes "\<And>c. c \<in> set s \<Longrightarrow> (of_char c :: nat) < 128" "s \<noteq> []" "\<not> is_whitespace [hd s]" "\<not> is_whitespace [List.last s]"
  shows "str_trim s = s"
proof -
  have drop: "dropWhile is_whitespace xs = xs" if "xs = [] \<or> \<not> is_whitespace (hd xs)" for xs using that by (cases xs) simp_all
  have "dropWhile is_whitespace (map (\<lambda>c. [c]) s) = map (\<lambda>c. [c]) s" using assms(2,3) by (intro drop) (simp add: hd_map)
  moreover have "dropWhile is_whitespace (rev (map (\<lambda>c. [c]) s)) = rev (map (\<lambda>c. [c]) s)"
    using assms(2,4) by (intro drop) (simp add: hd_rev last_map)
  moreover have "concat (map (\<lambda>c. [c]) s) = s" by (induction s) simp_all
  ultimately show ?thesis using utf8_chars_ascii [OF assms(1)] by (simp add: str_trim_def trim_def)
qed

lemma decode_relays_encode:
  "(\<And>r. r \<in> set relays \<Longrightarrow> is_relay_url r \<and> valid_utf8 (map of_char r)) \<Longrightarrow>
   decode_relays (map encode_uri_component relays) = Inr relays"
proof (induction relays)
  case (Cons r relays)
  then have "r \<noteq> []" by (force simp: is_relay_url_def strip_prefix_def)
  then show ?case using Cons by (simp add: decode_encode encode_nonempty)
qed simp

definition url_query :: "string \<Rightarrow> string \<Rightarrow> string \<Rightarrow> string \<Rightarrow> string" where
  "url_query npub relays machine token = ''npub='' @ npub @ ''&relays='' @ relays @ ''&machine='' @ machine @ ''&token='' @ token"

lemma url_query_params:
  assumes "CHR ''&'' \<notin> set npub" "CHR ''&'' \<notin> set relays" "CHR ''&'' \<notin> set machine" "CHR ''&'' \<notin> set token"
  shows "query_params (url_query npub relays machine token) = [(''npub'', npub), (''relays'', relays), (''machine'', machine), (''token'', token)]"
proof -
  have q: "url_query npub relays machine token = (''npub'' @ CHR ''='' # npub) @ CHR ''&'' # (''relays'' @ CHR ''='' # relays)
      @ CHR ''&'' # (''machine'' @ CHR ''='' # machine) @ CHR ''&'' # (''token'' @ CHR ''='' # token)"
    by (simp add: url_query_def)
  have "split_on (CHR ''&'') (url_query npub relays machine token)
      = [''npub'' @ CHR ''='' # npub, ''relays'' @ CHR ''='' # relays, ''machine'' @ CHR ''='' # machine, ''token'' @ CHR ''='' # token]"
    unfolding q using assms by (subst split_on_sep, simp, subst split_on_sep, simp, subst split_on_sep, simp, subst split_on_plain) simp_all
  moreover have "raw_param (''npub'' @ CHR ''='' # npub) = Some (''npub'', npub)" "raw_param (''relays'' @ CHR ''='' # relays) = Some (''relays'', relays)"
    "raw_param (''machine'' @ CHR ''='' # machine) = Some (''machine'', machine)" "raw_param (''token'' @ CHR ''='' # token) = Some (''token'', token)"
    by (rule raw_param_pair, simp)+
  ultimately show ?thesis by (simp only: query_params_def list.map somes.simps)
qed

lemma join_chars: "c \<in> set (join sep xs) \<Longrightarrow> c \<in> set sep \<or> (\<exists>x \<in> set xs. c \<in> set x)"
  by (induction sep xs rule: join.induct) auto

text \<open>What the pieces of a link are made of, so that the text around them is theirs alone.\<close>

lemma link_chars: "c \<in> set (join '','' (map encode_uri_component relays)) \<Longrightarrow> plain c \<or> c = CHR '',''"
  using join_chars [of c "'',''" "map encode_uri_component relays"] encode_plain by auto

lemma parse_link:
  assumes npub: "npub \<noteq> []" "\<And>c. c \<in> set npub \<Longrightarrow> is_unreserved c" and token: "token \<noteq> []"
  shows "parse_pairing_url hex_of (pairing_url npub relays machine token) =
    parse_query hex_of [(''npub'', npub), (''relays'', join '','' (map encode_uri_component relays)),
      (''machine'', encode_uri_component machine), (''token'', encode_uri_component token)]"
proof -
  define R where "R = join '','' (map encode_uri_component relays)"
  define M where "M = encode_uri_component machine"
  define T where "T = encode_uri_component token"
  define q where "q = url_query npub R M T"
  have url: "pairing_url npub relays machine token = PAIRING_URL_PREFIX @ CHR ''?'' # q"
    by (simp add: pairing_url_def url_query_def q_def R_def M_def T_def PAIRING_URL_PREFIX_def)
  have chars: "\<And>c. c \<in> set npub \<Longrightarrow> plain c" "\<And>c. c \<in> set R \<Longrightarrow> plain c \<or> c = CHR '',''"
    "\<And>c. c \<in> set M \<Longrightarrow> plain c" "\<And>c. c \<in> set T \<Longrightarrow> plain c"
    using npub(2) link_chars encode_plain unfolding R_def M_def T_def by (auto simp: plain_def)
  have T: "T \<noteq> []" "\<not> is_whitespace [List.last T]" using token encode_nonempty chars(4) plain_chars(6) by (auto simp: T_def)
  have ascii: "(of_char c :: nat) < 128" if "c \<in> set (PAIRING_URL_PREFIX @ CHR ''?'' # q)" for c
  proof -
    have "plain c \<or> c = CHR '',''" if "c \<in> set R" for c using chars(2) [OF that] .
    then have "(of_char c :: nat) < 128" if "c \<in> set R" for c using plain_chars(5) [of c] that by force
    then show ?thesis using that chars(1,3,4) plain_chars(5) by (auto simp: PAIRING_URL_PREFIX_def q_def url_query_def)
  qed
  have "List.last (PAIRING_URL_PREFIX @ CHR ''?'' # q) = List.last T" using T(1) by (simp add: q_def url_query_def)
  moreover have "\<not> is_whitespace [CHR ''c'']" by (simp add: is_whitespace_def char_bytes_def)
  ultimately have trim: "str_trim (PAIRING_URL_PREFIX @ CHR ''?'' # q) = PAIRING_URL_PREFIX @ CHR ''?'' # q"
    using T(2) ascii by (intro str_trim_plain) (simp_all add: PAIRING_URL_PREFIX_def)
  have pos: "position (\<lambda>c. c = CHR ''?'') (PAIRING_URL_PREFIX @ CHR ''?'' # q) = Some (length PAIRING_URL_PREFIX)"
    by (intro position_append) (auto simp: PAIRING_URL_PREFIX_def)
  have amp: "CHR ''&'' \<notin> set npub" "CHR ''&'' \<notin> set R" "CHR ''&'' \<notin> set M" "CHR ''&'' \<notin> set T"
    using chars plain_chars(1) by auto
  show ?thesis
    unfolding url parse_pairing_url_def Let_def trim pos R_def [symmetric] M_def [symmetric] T_def [symmetric]
    using url_query_params [OF amp] by (simp add: strip_prefix_def q_def)
qed

lemma read_link:
  assumes "npub \<noteq> []" "\<forall>c \<in> set npub. is_unreserved c" "hex_of npub = Some pubkey" "machine \<noteq> []" "token \<noteq> []"
    and "valid_utf8 (map of_char machine)" "valid_utf8 (map of_char token)"
    and "relays \<noteq> []" "length relays \<le> 5" "\<forall>r \<in> set relays. is_relay_url r \<and> valid_utf8 (map of_char r)"
  shows "parse_pairing_url hex_of (pairing_url npub relays machine token) =
    Inr \<lparr>pu_npub = npub, pu_pubkey_hex = pubkey, pu_relays = relays, pu_machine = machine, pu_token = token\<rparr>"
proof -
  have "split_on (CHR '','') (join '','' (map encode_uri_component relays)) = map encode_uri_component relays"
    using assms(8) encode_plain plain_chars(3) by (intro split_on_join) auto
  moreover have "decode_relays (map encode_uri_component relays) = Inr relays" using assms(10) by (intro decode_relays_encode) auto
  ultimately show ?thesis
    using assms by (simp add: parse_link parse_query_def get_param_def text_param_def decode_encode encode_nonempty MAX_PAIRING_RELAYS_def)
qed

text \<open>A bridge may be set up with more relays than a phone takes from a link; no phone reads its link.\<close>

lemma too_many_relays_unreadable:
  assumes "npub \<noteq> []" "\<forall>c \<in> set npub. is_unreserved c" "hex_of npub = Some pubkey" "machine \<noteq> []" "token \<noteq> []"
    and "valid_utf8 (map of_char machine)" "valid_utf8 (map of_char token)"
    and "5 < length relays" "\<forall>r \<in> set relays. is_relay_url r \<and> valid_utf8 (map of_char r)"
  shows "parse_pairing_url hex_of (pairing_url npub relays machine token) = Inl too_many_relays"
proof -
  have "relays \<noteq> []" using assms(8) by auto
  then have "split_on (CHR '','') (join '','' (map encode_uri_component relays)) = map encode_uri_component relays"
    using encode_plain plain_chars(3) by (intro split_on_join) auto
  moreover have "decode_relays (map encode_uri_component relays) = Inr relays" using assms(9) by (intro decode_relays_encode) auto
  ultimately show ?thesis
    using assms \<open>relays \<noteq> []\<close> by (simp add: parse_link parse_query_def get_param_def text_param_def decode_encode encode_nonempty MAX_PAIRING_RELAYS_def)
qed

text \<open>C35: The link a bridge shows is the link a phone reads, unless it names too many relays. For a bridge with at least
  one relay, all of them ones a phone may dial, and a machine name and token that are not empty, parsing the URL of a
  pairing window gives back the bridge's key, its relays in order, its machine name and the window's token, whatever
  characters they hold, when there are at most five relays; with more the phone refuses the link, naming the reason.\<close>

theorem pairing_link_roundtrip:
  assumes "npub \<noteq> []" "\<forall>c \<in> set npub. is_unreserved c" "hex_of npub = Some pubkey" "machine \<noteq> []" "token \<noteq> []"
    and "valid_utf8 (map of_char machine)" "valid_utf8 (map of_char token)"
    and "relays \<noteq> []" "\<forall>r \<in> set relays. is_relay_url r \<and> valid_utf8 (map of_char r)"
  shows "parse_pairing_url hex_of (pairing_url npub relays machine token) =
    (if length relays \<le> 5
     then Inr \<lparr>pu_npub = npub, pu_pubkey_hex = pubkey, pu_relays = relays, pu_machine = machine, pu_token = token\<rparr>
     else Inl ''too many relays (max 5)'')"
proof (cases "length relays \<le> 5")
  case True
  with read_link [where hex_of = hex_of, OF assms(1-8) True assms(9)] show ?thesis by simp
next
  case False
  with too_many_relays_unreadable [where hex_of = hex_of, OF assms(1-7) _ assms(9)] show ?thesis by (simp add: too_many_relays_def)
qed

theorem pairing_link_roundtrip_witness:
  "parse_pairing_url (\<lambda>_. Some ''ab'') (pairing_url ''npub1x'' [''wss://relay.example/?a=b'', ''ws://x.onion''] ''my laptop & co'' ''t,0'') =
    Inr \<lparr>pu_npub = ''npub1x'', pu_pubkey_hex = ''ab'', pu_relays = [''wss://relay.example/?a=b'', ''ws://x.onion''],
      pu_machine = ''my laptop & co'', pu_token = ''t,0''\<rparr>"
  by (subst pairing_link_roundtrip [where pubkey = "''ab''"])
    (simp_all add: is_unreserved_def is_relay_url_def strip_prefix_def relay_host_def str_ends_with_def ascii_lower_def Let_def)

section \<open>One attempt at a time\<close>

text \<open>The runtime's side of the effects: whether the deadline is armed, and what was sent.\<close>

record pairing_host =
  ph_state :: PairingState
  ph_deadline :: bool
  ph_sent :: "(string \<times> string) list"

fun carry_out_pairing :: "PairingEffect \<Rightarrow> pairing_host \<Rightarrow> pairing_host" where
  "carry_out_pairing (ArmDeadline ms) h = h\<lparr>ph_deadline := True\<rparr>"
| "carry_out_pairing DisarmDeadline h = h\<lparr>ph_deadline := False\<rparr>"
| "carry_out_pairing (SendPairRequest to label token) h = h\<lparr>ph_sent := ph_sent h @ [(to, token)]\<rparr>"
| "carry_out_pairing _ h = h"

definition pairing_step :: "nat \<Rightarrow> PairingEvent \<Rightarrow> pairing_host \<Rightarrow> pairing_host" where
  "pairing_step timeout_ms ev h =
     (let (st, effects) = pairing_reducer (ph_state h) ev timeout_ms
      in foldl (\<lambda>h x. carry_out_pairing x h) (h\<lparr>ph_state := st, ph_deadline := (ph_deadline h \<and> ev \<noteq> DeadlineFired)\<rparr>) effects)"

inductive pairing_reach :: "nat \<Rightarrow> pairing_host \<Rightarrow> bool" for timeout_ms where
  idle: "pairing_reach timeout_ms \<lparr>ph_state = default_pairing_state, ph_deadline = False, ph_sent = []\<rparr>"
| event: "pairing_reach timeout_ms h \<Longrightarrow> ev = DeadlineFired \<longrightarrow> ph_deadline h \<Longrightarrow> pairing_reach timeout_ms (pairing_step timeout_ms ev h)"

definition attempt_ok :: "pairing_host \<Rightarrow> bool" where
  "attempt_ok h = (let st = ph_state h in
     (ph_deadline h \<longleftrightarrow> pst_phase st = PhAwaitingAck)
     \<and> (pst_phase st = PhIdle \<longleftrightarrow> pst_candidate st = None)
     \<and> (pst_error st \<noteq> None \<longleftrightarrow> pst_phase st = PhFailed)
     \<and> (pst_timed_out st \<longrightarrow> pst_phase st = PhFailed)
     \<and> (\<forall>c. pst_candidate st = Some c \<longrightarrow> (cand_pubkey_hex c, cand_token c) \<in> set (ph_sent h)))"

lemma attempt_ok_reach: "pairing_reach timeout_ms h \<Longrightarrow> attempt_ok h"
proof (induction rule: pairing_reach.induct)
  case idle
  then show ?case by (simp add: attempt_ok_def default_pairing_state_def)
next
  case (event h ev)
  show ?case
  proof (cases ev)
    case (PairAckEvent who msg)
    then show ?thesis
      using event.IH
      by (auto simp: pairing_step_def attempt_ok_def on_pair_ack_def Let_def split: option.splits)
  qed (use event.IH event.hyps in \<open>auto simp: pairing_step_def attempt_ok_def begin_pair_def candidate_from_parts_def default_pairing_state_def Let_def
      split: option.splits\<close>)
qed

text \<open>C36: One pairing attempt at a time, and only one the user asked for: in every reachable state the deadline is
  armed exactly while an answer is awaited, so no attempt waits for ever and no old deadline fails a newer one;
  a failure is always shown; the machine being paired was sent its own token. A step sends a pair request only
  when the user began or confirmed it, a staged link alone sends nothing, and ends paired only on a positive
  answer from the very key the request went to, while it is awaited or after it only timed out.\<close>

theorem pairing_attempt_safe:
  assumes "pairing_reach timeout_ms h"
  shows "attempt_ok h
    \<and> (\<forall>ev to label token. SendPairRequest to label token \<in> set (snd (pairing_reducer (ph_state h) ev timeout_ms)) \<longrightarrow>
        (\<exists>parts. (ev = BeginPair parts label \<or> ev = ConfirmStaged label \<and> pst_staged (ph_state h) = Some parts)
          \<and> to = pu_pubkey_hex parts \<and> token = pu_token parts))
    \<and> (\<forall>ev c name host. OnPaired c name host \<in> set (snd (pairing_reducer (ph_state h) ev timeout_ms)) \<longrightarrow>
        (\<exists>msg. ev = PairAckEvent (cand_pubkey_hex c) msg \<and> pa_ok msg)
        \<and> (cand_pubkey_hex c, cand_token c) \<in> set (ph_sent h)
        \<and> (pst_phase (ph_state h) = PhAwaitingAck \<or> pst_timed_out (ph_state h)))"
proof -
  have ok: "attempt_ok h" by (rule attempt_ok_reach [OF assms])
  have send: "\<exists>parts. (ev = BeginPair parts label \<or> ev = ConfirmStaged label \<and> pst_staged (ph_state h) = Some parts)
      \<and> to = pu_pubkey_hex parts \<and> token = pu_token parts"
    if "SendPairRequest to label token \<in> set (snd (pairing_reducer (ph_state h) ev timeout_ms))" for ev to label token
    using that by (cases ev) (auto simp: begin_pair_def on_pair_ack_def Let_def split: option.splits if_splits)
  have paired: "(\<exists>msg. ev = PairAckEvent (cand_pubkey_hex c) msg \<and> pa_ok msg) \<and> (cand_pubkey_hex c, cand_token c) \<in> set (ph_sent h)
      \<and> (pst_phase (ph_state h) = PhAwaitingAck \<or> pst_timed_out (ph_state h))"
    if "OnPaired c name host \<in> set (snd (pairing_reducer (ph_state h) ev timeout_ms))" for ev c name host
    using that ok by (cases ev) (auto simp: begin_pair_def on_pair_ack_def attempt_ok_def Let_def split: option.splits if_splits)
  show ?thesis using ok send paired by blast
qed

theorem pairing_attempt_safe_witness:
  "attempt_ok (pairing_step 60000 (BeginPair \<lparr>pu_npub = ''n'', pu_pubkey_hex = ''k'', pu_relays = [''wss://r''], pu_machine = ''m'', pu_token = ''t''\<rparr> ''me'')
     \<lparr>ph_state = default_pairing_state, ph_deadline = False, ph_sent = []\<rparr>)"
  by (rule conjunct1 [OF pairing_attempt_safe]) (rule event [OF idle], simp)

end
