(* ===== verification/PairingTrust.thy ===== *)
theory PairingTrust
  imports SessionKeys PhonePairing
begin

text \<open>
  How an identity becomes paired: by the token of the open window and in no other way. The constant-time
  comparison of tokens is equality.
\<close>

section \<open>Tokens\<close>

lemma byte_of_inj: "byte_of a = byte_of b \<longleftrightarrow> a = b"
proof -
  have "unat (byte_of c) = of_char c" for c by (simp add: byte_of_def unat_of_nat take_bit_eq_mod)
  then show ?thesis by (metis char_of_char)
qed

lemma xor_zero: "Bit_Operations.xor u v = 0 \<longleftrightarrow> u = (v :: 8 word)"
  by (metis xor.assoc xor.right_neutral xor_self_eq)

lemma diff_zero:
  "foldl (\<lambda>diff (a, b). Bit_Operations.or diff (Bit_Operations.xor (byte_of a) (byte_of b))) acc xs = 0 \<longleftrightarrow> acc = 0 \<and> (\<forall>(a, b) \<in> set xs. a = b)"
proof (induction xs arbitrary: acc)
  case (Cons x xs)
  then show ?case by (cases x) (auto simp: or_eq_0_iff xor_zero byte_of_inj)
qed simp

lemma same_token_eq: "same_token a b \<longleftrightarrow> a = b"
proof -
  have "length a = length b \<Longrightarrow> (\<forall>(x, y) \<in> set (zip a b). x = y) \<longleftrightarrow> a = b" by (induction a b rule: list_induct2) auto
  then show ?thesis unfolding same_token_def diff_zero by auto
qed

section \<open>Who is paired\<close>

lemma phones_ring: "phones e = map fst (ring e)"
  by (simp add: phones_def ring_of_def)

lemma phones_grant [simp]: "phones (snd (grant_session_key env i grant used e)) = phones e"
  by (auto simp: phones_def grant_session_key_def Let_def update_first_same split: option.splits)

lemma phones_prune [simp]: "phones (prune_session_keys e) = phones e"
  by (simp add: phones_def prune_session_keys_def Let_def prune_phone_def comp_def)

lemma phones_same: "en_paired e' = en_paired e \<Longrightarrow> phones e' = phones e"
  by (simp add: phones_def)

lemma phones_pair_request:
  "phones (on_pair_request env m sender e) = phones e
   \<or> pair_rejection m e = None \<and> phones (on_pair_request env m sender e) = phones e @ [sender]
     \<and> en_pairing (on_pair_request env m sender e) = None"
proof (cases "pair_rejection m e")
  case (Some reason)
  then have "en_paired (on_pair_request env m sender e) = en_paired e" by (simp add: on_pair_request_def Let_def split_beta)
  then show ?thesis using phones_same by blast
next
  case None
  show ?thesis
  proof (cases "ev_npub_from_hex env sender")
    case (Some npub)
    let ?p = "\<lparr>pp_npub = npub, pp_pubkey_hex = sender, pp_label = (if pr_label m = [] then ''Phone'' else pr_label m),
      pp_paired_at = ev_iso env (en_now e), pp_clients = []\<rparr>"
    define e1 where "e1 = (let e = close_pairing ClosedPaired (Some ?p) e in if list_ex (\<lambda>p. pp_pubkey_hex p = sender) (en_paired e) then e
      else store_paired (e\<lparr>en_paired := en_paired e @ [?p]\<rparr>))"
    have closed: "en_pairing e1 = None"
      by (auto simp: e1_def Let_def close_pairing_def disarm_timer_def emit_def store_paired_def split: option.splits)
    have e1: "phones e1 = phones e \<or> phones e1 = phones e @ [sender]" by (simp add: phones_def e1_def Let_def)
    have "phones (on_pair_request env m sender e) = phones e1"
    proof -
      have "en_paired (on_pair_request env m sender e)
          = en_paired (case pr_session_key m of Some grant \<Rightarrow> snd (grant_session_key env sender grant sender e1) | None \<Rightarrow> e1)"
        using None Some by (cases "pr_session_key m") (simp_all add: on_pair_request_def Let_def e1_def)
      then show ?thesis using phones_grant [of env sender _ sender e1] by (cases "pr_session_key m") (simp_all add: phones_def)
    qed
    moreover have "tview (on_pair_request env m sender e) = tview e1"
      using None Some by (cases "pr_session_key m") (simp_all add: on_pair_request_def Let_def e1_def)
    then have "en_pairing (on_pair_request env m sender e) = None" using closed by (simp add: tview_def)
    ultimately show ?thesis using e1 None by auto
  qed (simp add: on_pair_request_def None)
qed

lemma phones_frames [simp]:
  "phones (e\<lparr>en_requester := r\<rparr>) = phones e" "phones (e\<lparr>en_now := n\<rparr>) = phones e" "phones (e\<lparr>en_ingest := g\<rparr>) = phones e"
  "phones (e\<lparr>en_list_dirty := b\<rparr>) = phones e" "phones (want_list a e) = phones e" "phones (persist_cursor e) = phones e"
  by (rule phones_same, simp add: persist_cursor_def)+

lemma phones_helpers [simp]: "phones (emit x e) = phones e" "phones (store_paired e) = phones e"
  by (rule phones_same, simp)+

lemma phones_run_command:
  assumes "phone \<in> set (phones e)"
  shows "set (phones (run_command env msg phone key via e)) \<subseteq> set (phones e)"
proof -
  obtain came e1 where n: "note_presence phone key msg e = (came, e1)" by (cases "note_presence phone key msg e")
  let ?e = "(if came then want_list \<lparr>ad_phone = phone, ad_key = key\<rparr> e1 else e1)\<lparr>en_requester := Some \<lparr>ad_phone = phone, ad_key = key\<rparr>\<rparr>"
  have e: "phones ?e = phones e" using ring_note_presence [of phone key msg e] n by (simp add: phones_ring)
  have "set (phones (dispatch env msg phone via ?e)) \<subseteq> set (phones e)"
  proof (cases msg)
    case (PairRequest m)
    then show ?thesis using phones_pair_request [of env m phone ?e] assms unfolding e by auto
  qed (use e in \<open>simp_all add: phones_ring split: option.splits\<close>)
  then show ?thesis using n e by (cases msg) (simp_all add: run_command_def Let_def)
qed

lemma phones_relay_event:
  assumes "i \<in> set (phones (on_relay_event env dec decode event via e))" "i \<notin> set (phones e)"
  shows "via = ViaPairingSub \<and> (\<exists>m g. accept_pairing dec decode event (en_now e div 1000) (en_ingest e) = (Some m, g)
    \<and> i = ev_pubkey event \<and> pair_rejection m e = None \<and> en_pairing (on_relay_event env dec decode event via e) = None)"
proof (cases "via = ViaPairingSub")
  case True
  obtain req g where a: "accept_pairing dec decode event (en_now e div 1000) (en_ingest e) = (req, g)"
    by (cases "accept_pairing dec decode event (en_now e div 1000) (en_ingest e)")
  let ?e = "e\<lparr>en_ingest := g\<rparr>"
  have "req \<noteq> None" using assms True a by (cases req) (auto simp: on_relay_event_def Let_def)
  then obtain m where m: "req = Some m" by auto
  have step: "on_relay_event env dec decode event via e = on_pair_request env m (ev_pubkey event) ?e"
    using True a m by (simp add: on_relay_event_def Let_def)
  have "pair_rejection m ?e = pair_rejection m e" by (simp add: pair_rejection_def)
  then show ?thesis using phones_pair_request [of env m "ev_pubkey event" ?e] assms True a m unfolding step by auto
next
  case False
  have "set (phones (on_relay_event env dec decode event via e)) \<subseteq> set (phones e)"
  proof (cases "list_ex (\<lambda>p. pp_pubkey_hex p = ev_pubkey event) (en_paired e)")
    case True
    then have "ev_pubkey event \<in> set (phones e)" by (force simp: phones_def list_ex_iff)
    then have "set (phones (run_command env msg (ev_pubkey event) key via e')) \<subseteq> set (phones e)" if "phones e' = phones e" for msg key e'
      using phones_run_command [of "ev_pubkey event" e'] that by simp
    then show ?thesis using False True by (simp add: on_relay_event_def Let_def split_beta split: option.splits)
  next
    case no: False
    then show ?thesis using False by (simp add: on_relay_event_def Let_def)
  qed
  then show ?thesis using assms by blast
qed

lemma phones_timer: "phones (on_timer env i e) = phones e"
proof -
  have f: "phones (fired i e) = phones e" by (rule phones_same) simp
  have "phones (arm d TkHeartbeat ((persist_cursor (forget_gone_devices (prune_session_keys (fired i e))))\<lparr>en_list_dirty := True\<rparr>)) = phones e" for d
  proof -
    have "phones (arm d TkHeartbeat e') = phones e'" for e' by (rule phones_same) (simp add: arm_def)
    moreover have "phones (forget_gone_devices e') = phones e'" for e' by (rule phones_same) simp
    ultimately show ?thesis using f by simp
  qed
  then show ?thesis using f
    by (simp add: on_timer_def Let_def on_pairing_expiry_def phones_same phones_ring split: option.splits TimerKind.splits)
qed

text \<open>C18: Nobody is paired without the token: an input after which a new identity is paired is an event on the
  pairing subscription signed by that identity, decrypted to a pair request that carries exactly the token of
  the window that was open, and it closes the window, so that a token pairs one identity at most. No command
  of a paired phone, timer or host event pairs anyone.\<close>

theorem pairing_needs_the_token:
  assumes "i \<in> set (phones (snd (handle env dec decode base recent now input e)))" "i \<notin> set (phones e)"
  shows "\<exists>event m g w. input = InRelayEvent event ViaPairingSub \<and> ev_pubkey event = i
    \<and> accept_pairing dec decode event (now div 1000) (en_ingest e) = (Some m, g)
    \<and> en_pairing e = Some w \<and> pr_token m = win_token w
    \<and> en_pairing (snd (handle env dec decode base recent now input e)) = None"
proof -
  let ?e = "e\<lparr>en_now := now\<rparr>" and ?i = "on_input env dec decode input (e\<lparr>en_now := now\<rparr>)"
  have "en_paired (snd (handle env dec decode base recent now input e)) = en_paired ?i" by (simp add: handle_def Let_def take_effects_def)
  then have i: "i \<in> set (phones ?i)" "i \<notin> set (phones ?e)" using assms by (simp_all add: phones_def)
  have pw: "en_pairing (snd (handle env dec decode base recent now input e)) = en_pairing ?i"
  proof -
    have "tview (snd (handle env dec decode base recent now input e)) = tview ?i"
      by (simp only: handle_def Let_def tview_take_effects tview_flush tview_list_dirty)
    then show ?thesis by (simp add: tview_def)
  qed
  obtain event via where input: "input = InRelayEvent event via"
  proof (cases input)
    case (InRelayEvent event via)
    then show ?thesis by (rule that)
  next
    case (InUnpaired who)
    have "phones (close_identity_terminals env who EndKilled e') = phones e'" for e' by (simp add: phones_ring)
    then have "set (phones ?i) \<subseteq> set (phones ?e)" unfolding InUnpaired by (auto simp: unpair_def Let_def) (auto simp: phones_def)
    then show ?thesis using i by blast
  next
    case (InTimer t)
    then show ?thesis using i by (simp add: phones_timer)
  qed (use i in \<open>auto simp: phones_ring open_pairing_def Let_def split_beta\<close>)
  then have r: "i \<in> set (phones (on_relay_event env dec decode event via ?e))" using i by simp
  obtain m g where m: "via = ViaPairingSub" "accept_pairing dec decode event (now div 1000) (en_ingest e) = (Some m, g)" "i = ev_pubkey event"
    "pair_rejection m e = None" "en_pairing ?i = None"
    using phones_relay_event [OF r i(2)] input by (auto simp: pair_rejection_def)
  then obtain w where "en_pairing e = Some w" "pr_token m = win_token w"
    by (auto simp: pair_rejection_def same_token_eq split: option.splits if_splits)
  then show ?thesis using m input pw by auto
qed

text \<open>A window with token \<open>t\<close>, and a pair request over the pairing subscription that carries it.\<close>

definition sample_window :: Engine where
  "sample_window = (sample_open None)\<lparr>en_pairing := Some \<lparr>win_token = ''t'', win_epoch = 1, win_timer = 1\<rparr>\<rparr>"

definition sample_request :: PairRequestMsg where
  "sample_request = \<lparr>pr_npub = ''n'', pr_pubkey_hex = ''new'', pr_label = ''L'', pr_token = ''t'', pr_session_key = None\<rparr>"

definition sample_pairing :: InboundEvent where
  "sample_pairing = \<lparr>ev_id = ''e'', ev_pubkey = ''new'', ev_created_at = 0, ev_content = ''x'', ev_kind = 4515\<rparr>"

theorem pairing_needs_the_token_witness:
  "\<exists>m g w. accept_pairing (\<lambda>_. Some) (\<lambda>_. Some (PairRequest sample_request)) sample_pairing 0 (en_ingest sample_window) = (Some m, g)
    \<and> en_pairing sample_window = Some w \<and> pr_token m = win_token w"
proof -
  let ?dec = "\<lambda>_. Some" and ?decode = "\<lambda>_. Some (PairRequest sample_request)" and ?in = "InRelayEvent sample_pairing ViaPairingSub"
  obtain g where a: "accept_pairing ?dec ?decode sample_pairing 0 (en_ingest sample_window) = (Some sample_request, g)"
    by (simp add: accept_pairing_def is_stale_def sample_pairing_def sample_window_def sample_open_def engine_new_def ingest_new_def
        forget_stale_def mark_def Let_def MAX_EVENT_AGE_SECS_def MAX_PROCESSED_IDS_def)
  have "on_input sample_env ?dec ?decode ?in (sample_window\<lparr>en_now := 0\<rparr>) = on_pair_request sample_env sample_request ''new'' (sample_window\<lparr>en_now := 0, en_ingest := g\<rparr>)"
    using a by (simp add: on_relay_event_def Let_def) (simp add: sample_pairing_def)
  moreover have "''new'' \<in> set (phones (on_pair_request sample_env sample_request ''new'' (sample_window\<lparr>en_now := 0, en_ingest := g\<rparr>)))"
    by (simp add: phones_def on_pair_request_def pair_rejection_def same_token_eq sample_request_def sample_window_def sample_defs Let_def)
  moreover have "phones (snd (handle sample_env ?dec ?decode sample_base True 0 ?in sample_window)) = phones (on_input sample_env ?dec ?decode ?in (sample_window\<lparr>en_now := 0\<rparr>))"
    by (rule phones_same) (simp add: handle_def Let_def take_effects_def)
  ultimately have "''new'' \<in> set (phones (snd (handle sample_env ?dec ?decode sample_base True 0 ?in sample_window)))" by simp
  moreover have "''new'' \<notin> set (phones sample_window)" by (simp add: phones_def sample_window_def sample_defs)
  ultimately show ?thesis using pairing_needs_the_token by fastforce
qed

end
