(* ===== verification/PairingRound.thy ===== *)
theory PairingRound
  imports PairingTrust
begin

text \<open>
  Bridge and phone together: the link of a pairing window, scanned by a phone that is then heard, pairs the
  two, and each ends with what it needs to reach the other.
\<close>

section \<open>What a pair request leaves alone\<close>

lemma config_frames [simp]:
  "en_relays (emit x e) = en_relays e" "en_machine (emit x e) = en_machine e" "en_host_kind (emit x e) = en_host_kind e"
  "en_relays (store_paired e) = en_relays e" "en_machine (store_paired e) = en_machine e" "en_host_kind (store_paired e) = en_host_kind e"
  "en_relays (close_pairing r p e) = en_relays e" "en_machine (close_pairing r p e) = en_machine e" "en_host_kind (close_pairing r p e) = en_host_kind e"
  "en_relays (snd (grant_session_key env i g u e)) = en_relays e" "en_machine (snd (grant_session_key env i g u e)) = en_machine e"
  "en_host_kind (snd (grant_session_key env i g u e)) = en_host_kind e"
  by (simp_all add: emit_def store_paired_def close_pairing_def disarm_timer_def grant_session_key_def Let_def split: option.splits)

lemma publish_to_effects: "Publish [reply_to phone e] m \<in> set (effects (en_out (publish_to phone m e)))"
  by (simp add: publish_to_def send_to_def)

lemma emit_effects: "x \<in> set (effects (en_out e)) \<Longrightarrow> x \<in> set (effects (en_out (emit y e)))"
  by (simp add: emit_def)

lemma pair_request_answered:
  assumes "pair_rejection m e = None" "ev_npub_from_hex env phone \<noteq> None"
  shows "phone \<in> set (phones (on_pair_request env m phone e))
    \<and> (\<exists>to. Publish to (PairAck \<lparr>pa_machine = en_machine e, pa_ok = True, pa_reason = None, pa_relays = Some (en_relays e), pa_host = en_host_kind e\<rparr>)
      \<in> set (effects (en_out (on_pair_request env m phone e))))"
proof -
  obtain npub where n: "ev_npub_from_hex env phone = Some npub" using assms(2) by auto
  let ?p = "\<lparr>pp_npub = npub, pp_pubkey_hex = phone, pp_label = (if pr_label m = [] then ''Phone'' else pr_label m),
    pp_paired_at = ev_iso env (en_now e), pp_clients = []\<rparr>"
  define e1 where "e1 = (let e = close_pairing ClosedPaired (Some ?p) e in if list_ex (\<lambda>p. pp_pubkey_hex p = phone) (en_paired e) then e
    else store_paired (e\<lparr>en_paired := en_paired e @ [?p]\<rparr>))"
  define e2 where "e2 = (case pr_session_key m of Some grant \<Rightarrow> snd (grant_session_key env phone grant phone e1) | None \<Rightarrow> e1)"
  define e3 where "e3 = (emit Resubscribe e2)\<lparr>en_list_dirty := True\<rparr>"
  have e1: "en_relays e1 = en_relays e" "en_machine e1 = en_machine e" "en_host_kind e1 = en_host_kind e" by (simp_all add: e1_def Let_def)
  have e3: "en_relays e3 = en_relays e" "en_machine e3 = en_machine e" "en_host_kind e3 = en_host_kind e"
    using e1 by (simp_all add: e3_def e2_def split: option.splits)
  have "\<exists>said. on_pair_request env m phone e = emit (Notify NotifyInfo said)
      (publish_to phone (PairAck \<lparr>pa_machine = en_machine e3, pa_ok = True, pa_reason = None, pa_relays = Some (en_relays e3), pa_host = en_host_kind e3\<rparr>) e3)"
    unfolding e3_def e2_def e1_def by (intro exI) (simp only: on_pair_request_def assms(1) n option.case Let_def PairedPhone.simps)
  then obtain said where eq: "on_pair_request env m phone e = emit (Notify NotifyInfo said)
      (publish_to phone (PairAck \<lparr>pa_machine = en_machine e, pa_ok = True, pa_reason = None, pa_relays = Some (en_relays e), pa_host = en_host_kind e\<rparr>) e3)"
    unfolding e3 by blast
  have "phone \<in> set (phones e1)" by (force simp: e1_def Let_def phones_def list_ex_iff)
  then have "phone \<in> set (phones e2)" by (simp add: e2_def split: option.splits)
  then have "phone \<in> set (phones (on_pair_request env m phone e))" unfolding eq by (simp add: phones_def e3_def)
  then show ?thesis unfolding eq using emit_effects publish_to_effects by blast
qed

section \<open>The round\<close>

lemma merge_same: "set learnt \<subseteq> set relays \<Longrightarrow> merge_relays relays learnt = relays"
  unfolding merge_relays_def by (induction learnt) auto

lemma close_pairing_keeps:
  "en_ids (close_pairing r p e) = en_ids e" "en_npub (close_pairing r p e) = en_npub e" "en_now (close_pairing r p e) = en_now e"
  "en_pairing_window_ms (close_pairing r p e) = en_pairing_window_ms e"
  by (simp_all add: close_pairing_def disarm_timer_def emit_def Let_def split: option.splits)

lemma open_pairing_shows:
  "\<exists>shown. PresentPairing shown \<in> set (effects (en_out (open_pairing env duration e)))
    \<and> pw_url shown = pairing_url (en_npub e) (en_relays e) (en_machine e) (ev_new_token env (en_ids e))"
  "\<exists>w. en_pairing (open_pairing env duration e) = Some w \<and> win_token w = ev_new_token env (en_ids e)"
  "en_relays (open_pairing env duration e) = en_relays e" "en_machine (open_pairing env duration e) = en_machine e"
  by (simp_all add: open_pairing_def Let_def split_beta close_pairing_keeps)
    (auto simp: emit_def arm_timer_def split_beta close_pairing_keeps)

text \<open>What a phone needs to be able to read a bridge's links, but for the number of relays.\<close>

definition readable :: "(string \<Rightarrow> string option) \<Rightarrow> string \<Rightarrow> Engine \<Rightarrow> bool" where
  "readable hex_of token e =
     (en_npub e \<noteq> [] \<and> list_all is_unreserved (en_npub e) \<and> hex_of (en_npub e) = Some (en_pubkey_hex e)
      \<and> en_machine e \<noteq> [] \<and> valid_utf8 (map of_char (en_machine e)) \<and> token \<noteq> [] \<and> valid_utf8 (map of_char token)
      \<and> en_relays e \<noteq> [] \<and> list_all (\<lambda>r. is_relay_url r \<and> valid_utf8 (map of_char r)) (en_relays e))"

text \<open>C34: Scanning a bridge's link pairs it, unless the bridge has too many relays. Let the bridge have a name and at least
  one relay, all of them ones a phone may dial, and let the phone read the bridge's own npub as its key (\<open>readable\<close>). When
  the bridge opens a window and has at most five relays, the link it shows is read by the phone, the request the
  phone's attempt sends goes to the bridge's key with the window's token, that request, from any key the bridge can
  name, pairs the phone and is answered with a positive ack, and that ack ends the attempt paired, with the
  bridge's key, name and relays. With more than five the phone refuses the link, and nothing is sent.\<close>

theorem pairing_round_completes:
  assumes "readable hex_of (ev_new_token env (en_ids e)) e" "ev_npub_from_hex env phone \<noteq> None"
  shows "\<exists>shown. PresentPairing shown \<in> set (effects (en_out (open_pairing env duration e)))
    \<and> (5 < length (en_relays e) \<longrightarrow> parse_pairing_url hex_of (pw_url shown) = Inl ''too many relays (max 5)'')
    \<and> (length (en_relays e) \<le> 5 \<longrightarrow> (\<exists>parts. parse_pairing_url hex_of (pw_url shown) = Inr parts
      \<and> SendPairRequest (en_pubkey_hex e) label (pu_token parts) \<in> set (snd (pairing_reducer st (BeginPair parts label) timeout))
      \<and> (\<forall>m. pr_token m = pu_token parts \<longrightarrow>
          phone \<in> set (phones (on_pair_request env m phone (open_pairing env duration e)))
          \<and> (\<exists>to ack st'. Publish to (PairAck ack) \<in> set (effects (en_out (on_pair_request env m phone (open_pairing env duration e))))
              \<and> st' = fst (pairing_reducer (fst (pairing_reducer st (BeginPair parts label) timeout)) (PairAckEvent (en_pubkey_hex e) ack) timeout)
              \<and> pst_phase st' = PhPaired
              \<and> pst_candidate st' = Some \<lparr>cand_pubkey_hex = en_pubkey_hex e, cand_npub = en_npub e, cand_machine = en_machine e,
                  cand_relays = en_relays e, cand_token = ev_new_token env (en_ids e)\<rparr>))))"
proof -
  let ?e = "open_pairing env duration e" and ?token = "ev_new_token env (en_ids e)"
  let ?parts = "\<lparr>pu_npub = en_npub e, pu_pubkey_hex = en_pubkey_hex e, pu_relays = en_relays e, pu_machine = en_machine e, pu_token = ?token\<rparr>"
  obtain shown where shown: "PresentPairing shown \<in> set (effects (en_out ?e))"
      "pw_url shown = pairing_url (en_npub e) (en_relays e) (en_machine e) ?token" using open_pairing_shows(1) by blast
  have parsed: "parse_pairing_url hex_of (pw_url shown) = Inr ?parts" if "length (en_relays e) \<le> 5"
    unfolding shown(2) by (rule read_link) (use assms(1) that in \<open>simp_all add: readable_def list_all_iff\<close>)
  have refused: "parse_pairing_url hex_of (pw_url shown) = Inl ''too many relays (max 5)''" if "5 < length (en_relays e)"
    unfolding shown(2) too_many_relays_def [symmetric]
    by (rule too_many_relays_unreadable [where pubkey = "en_pubkey_hex e"]) (use assms(1) that in \<open>simp_all add: readable_def list_all_iff\<close>)
  have sent: "SendPairRequest (en_pubkey_hex e) label (pu_token ?parts) \<in> set (snd (pairing_reducer st (BeginPair ?parts label) timeout))"
    by (simp add: begin_pair_def Let_def)
  have round: "phone \<in> set (phones (on_pair_request env m phone ?e))
      \<and> (\<exists>to ack st'. Publish to (PairAck ack) \<in> set (effects (en_out (on_pair_request env m phone ?e)))
          \<and> st' = fst (pairing_reducer (fst (pairing_reducer st (BeginPair ?parts label) timeout)) (PairAckEvent (en_pubkey_hex e) ack) timeout)
          \<and> pst_phase st' = PhPaired
          \<and> pst_candidate st' = Some \<lparr>cand_pubkey_hex = en_pubkey_hex e, cand_npub = en_npub e, cand_machine = en_machine e,
              cand_relays = en_relays e, cand_token = ?token\<rparr>)" if m: "pr_token m = pu_token ?parts" for m
  proof -
    let ?ack = "\<lparr>pa_machine = en_machine e, pa_ok = True, pa_reason = None, pa_relays = Some (en_relays e), pa_host = en_host_kind ?e\<rparr>"
    have "pair_rejection m ?e = None" using open_pairing_shows(2) [of env duration e] m by (auto simp: pair_rejection_def same_token_eq)
    from pair_request_answered [OF this assms(2)] obtain to where "phone \<in> set (phones (on_pair_request env m phone ?e))"
      "Publish to (PairAck ?ack) \<in> set (effects (en_out (on_pair_request env m phone ?e)))" unfolding open_pairing_shows(3,4) by blast
    moreover have "pst_phase (fst (pairing_reducer (fst (pairing_reducer st (BeginPair ?parts label) timeout)) (PairAckEvent (en_pubkey_hex e) ?ack) timeout)) = PhPaired"
      "pst_candidate (fst (pairing_reducer (fst (pairing_reducer st (BeginPair ?parts label) timeout)) (PairAckEvent (en_pubkey_hex e) ?ack) timeout))
        = Some \<lparr>cand_pubkey_hex = en_pubkey_hex e, cand_npub = en_npub e, cand_machine = en_machine e, cand_relays = en_relays e, cand_token = ?token\<rparr>"
      by (simp_all add: begin_pair_def on_pair_ack_def candidate_from_parts_def merge_same Let_def)
    ultimately show ?thesis by blast
  qed
  show ?thesis using shown(1) parsed refused sent round by blast
qed

theorem pairing_round_completes_witness:
  "\<exists>shown parts. PresentPairing shown \<in> set (effects (en_out (open_pairing sample_env None sample_engine)))
    \<and> parse_pairing_url (\<lambda>_. Some ''bridge'') (pw_url shown) = Inr parts
    \<and> SendPairRequest ''bridge'' ''me'' (pu_token parts)
        \<in> set (snd (pairing_reducer default_pairing_state (BeginPair parts ''me'') 60000))"
proof -
  have fields: "en_npub sample_engine = ''npub''" "en_pubkey_hex sample_engine = ''bridge''" "en_machine sample_engine = ''laptop''"
    "en_relays sample_engine = [''wss://r'']" "en_ids sample_engine = 0"
    by (simp_all add: sample_engine_def engine_start_def engine_new_def hydrate_devices_def presume_present_def arm_def arm_timer_def map_clients_def
        store_paired_def emit_def Let_def split_beta)
  have "readable (\<lambda>_. Some ''bridge'') (ev_new_token sample_env (en_ids sample_engine)) sample_engine"
    by (simp add: readable_def fields sample_env_def is_unreserved_def is_relay_url_def strip_prefix_def relay_host_def ascii_lower_def Let_def)
  moreover have "ev_npub_from_hex sample_env ''p'' \<noteq> None" by (simp add: sample_env_def)
  ultimately show ?thesis using pairing_round_completes [of "\<lambda>_. Some ''bridge''" sample_env sample_engine "''p''" None "''me''" default_pairing_state 60000]
    unfolding fields by (auto simp: fields)
qed

end
