(* ===== verification/Transcripts.thy ===== *)
theory Transcripts
  imports Protocol
begin

text \<open>
  The \<open>Transcripts\<close> port of \<open>crates/bridge-core/src/ports.rs\<close> and its in-memory implementation
  \<open>MemoryTranscripts\<close>. What the sync server relies on is the locale \<open>transcripts_port\<close>: a read
  gives entries of the range it was asked for, in seq order. The engine appends rising seqs, and
  every store so built keeps that promise, pruned ones too.
\<close>

section \<open>The in-memory store\<close>

record MemoryTranscripts =
  mt_files :: "(string, SyncEntry list) omap"
  mt_failing :: bool

definition mt_entries :: "MemoryTranscripts \<Rightarrow> string \<Rightarrow> SyncEntry list" where
  "mt_entries m session_id = (case om_get (mt_files m) session_id of None \<Rightarrow> [] | Some es \<Rightarrow> es)"

definition mt_sessions :: "MemoryTranscripts \<Rightarrow> string list" where
  "mt_sessions m = om_keys (mt_files m)"

definition mt_load :: "MemoryTranscripts \<Rightarrow> string + (string, nat) omap" where
  "mt_load m = Inr (map (\<lambda>(i, es). (i, if es = [] then 0 else se_seq (last es))) (mt_files m))"

definition mt_append :: "string \<Rightarrow> nat \<Rightarrow> OutputEntry \<Rightarrow> MemoryTranscripts \<Rightarrow> (string + unit) \<times> MemoryTranscripts" where
  "mt_append session_id seq entry m =
     (if mt_failing m then (Inl ''transcript store unavailable'', m)
      else (Inr (), m\<lparr>mt_files := om_put session_id (mt_entries m session_id @ [SyncEntry seq entry]) (mt_files m)\<rparr>))"

definition mt_read :: "MemoryTranscripts \<Rightarrow> string \<Rightarrow> SeqRange \<Rightarrow> string + SyncEntry list" where
  "mt_read m session_id rg =
     Inr (filter (\<lambda>e. fst rg \<le> se_seq e \<and> se_seq e \<le> snd rg) (mt_entries m session_id))"

definition mt_prune :: "string \<Rightarrow> nat \<Rightarrow> MemoryTranscripts \<Rightarrow> MemoryTranscripts" where
  "mt_prune session_id keep_last m =
     (case om_get (mt_files m) session_id of
        None \<Rightarrow> m
      | Some es \<Rightarrow> m\<lparr>mt_files := om_put session_id (drop (length es - keep_last) es) (mt_files m)\<rparr>)"

definition mt_remove :: "string \<Rightarrow> MemoryTranscripts \<Rightarrow> MemoryTranscripts" where
  "mt_remove session_id m = m\<lparr>mt_files := om_del session_id (mt_files m)\<rparr>"

section \<open>Ordered stores\<close>

definition in_seq_order :: "SyncEntry list \<Rightarrow> bool" where
  "in_seq_order es = sorted_wrt (<) (map se_seq es)"

definition mt_ok :: "MemoryTranscripts \<Rightarrow> bool" where
  "mt_ok m = (\<forall>session_id. in_seq_order (mt_entries m session_id))"

definition last_seq :: "MemoryTranscripts \<Rightarrow> string \<Rightarrow> nat" where
  "last_seq m session_id = (case mt_entries m session_id of [] \<Rightarrow> 0 | es \<Rightarrow> se_seq (last es))"

lemma in_seq_order_Nil [simp]: "in_seq_order []"
  by (simp add: in_seq_order_def)

lemma in_seq_order_Cons: "in_seq_order (e # es) \<longleftrightarrow> (\<forall>x \<in> set es. se_seq e < se_seq x) \<and> in_seq_order es"
  by (simp add: in_seq_order_def)

lemma in_seq_order_append:
  "in_seq_order (es @ fs) \<longleftrightarrow> in_seq_order es \<and> in_seq_order fs \<and> (\<forall>x \<in> set es. \<forall>y \<in> set fs. se_seq x < se_seq y)"
  by (auto simp: in_seq_order_def sorted_wrt_append)

lemma in_seq_order_filter: "in_seq_order es \<Longrightarrow> in_seq_order (filter P es)"
  by (simp add: in_seq_order_def sorted_wrt_map sorted_wrt_filter)

lemma in_seq_order_last: "in_seq_order es \<Longrightarrow> x \<in> set es \<Longrightarrow> se_seq x \<le> se_seq (last es)"
  by (induction es) (auto simp: in_seq_order_Cons less_imp_le)

lemma mt_entries_put [simp]:
  "mt_entries (m\<lparr>mt_files := om_put i es (mt_files m)\<rparr>) j = (if j = i then es else mt_entries m j)"
  by (simp add: mt_entries_def)

lemma mt_ok_append [wf_intros]:
  assumes "mt_ok m" "last_seq m i < seq"
  shows "mt_ok (snd (mt_append i seq entry m))"
proof -
  have "\<forall>x \<in> set (mt_entries m i). se_seq x < seq"
    using assms in_seq_order_last [of "mt_entries m i"]
    by (fastforce simp: mt_ok_def last_seq_def split: list.splits)
  with assms(1) show ?thesis
    by (auto simp: mt_ok_def mt_append_def in_seq_order_append in_seq_order_Cons)
qed

lemma mt_ok_prune [wf_intros]: "mt_ok m \<Longrightarrow> mt_ok (mt_prune i n m)"
  unfolding mt_ok_def mt_prune_def
  by (auto simp: mt_entries_def in_seq_order_def sorted_wrt_drop drop_map [symmetric] split: option.splits)

lemma mt_ok_remove [wf_intros]: "mt_ok m \<Longrightarrow> mt_ok (mt_remove i m)"
  by (auto simp: mt_ok_def mt_remove_def mt_entries_def)

section \<open>The port's contract\<close>

locale transcripts_port =
  fixes read :: "string \<Rightarrow> SeqRange \<Rightarrow> string + SyncEntry list"
  assumes read_ordered: "read i rg = Inr es \<Longrightarrow> in_seq_order es"
    and read_within: "read i rg = Inr es \<Longrightarrow> e \<in> set es \<Longrightarrow> fst rg \<le> se_seq e \<and> se_seq e \<le> snd rg"
    and read_narrow: "read i (a, b) = Inr es \<Longrightarrow> read i (c, d) = Inr es' \<Longrightarrow> a \<le> c \<Longrightarrow> d \<le> b
      \<Longrightarrow> es' = filter (\<lambda>e. c \<le> se_seq e \<and> se_seq e \<le> d) es"
begin

lemma read_distinct: "read i rg = Inr es \<Longrightarrow> distinct (map se_seq es)"
  using read_ordered strict_sorted_iff unfolding in_seq_order_def by blast

text \<open>A range holds at most as many entries as it has seqs.\<close>

lemma read_length:
  assumes "read i (a, b) = Inr es" "a \<le> b"
  shows "length es \<le> b - a + 1"
proof -
  have "se_seq ` set es \<subseteq> {a..b}" using read_within [OF assms(1)] by auto
  then have "card (se_seq ` set es) \<le> card {a..b}" by (rule card_mono [rotated]) simp
  moreover have "card (se_seq ` set es) = length es"
    using distinct_card [OF read_distinct [OF assms(1)]] by simp
  ultimately show ?thesis using assms(2) by simp
qed

end

text \<open>The stores in seq order, as a type, so that the port is interpreted on each of them.\<close>

typedef ordered_transcripts = "{m. mt_ok m}"
proof
  show "\<lparr>mt_files = [], mt_failing = False\<rparr> \<in> {m. mt_ok m}" by (simp add: mt_ok_def mt_entries_def)
qed

lemma filter_narrow: "(\<And>x. P x \<Longrightarrow> Q x) \<Longrightarrow> filter P xs = filter P (filter Q xs)"
  by (induction xs) auto

lemma mt_read_port:
  assumes "mt_ok m"
  shows "transcripts_port (mt_read m)"
proof
  fix i a b c d es es'
  assume es: "mt_read m i (a, b) = Inr es" "mt_read m i (c, d) = Inr es'" and cd: "a \<le> c" "d \<le> b"
  have "es' = filter (\<lambda>e. c \<le> se_seq e \<and> se_seq e \<le> d) (mt_entries m i)" using es(2) by (simp add: mt_read_def)
  also have "\<dots> = filter (\<lambda>e. c \<le> se_seq e \<and> se_seq e \<le> d)
      (filter (\<lambda>e. a \<le> se_seq e \<and> se_seq e \<le> b) (mt_entries m i))"
    by (rule filter_narrow) (use cd in linarith)
  also have "\<dots> = filter (\<lambda>e. c \<le> se_seq e \<and> se_seq e \<le> d) es"
    using es(1) by (simp add: mt_read_def del: filter_filter)
  finally show "es' = filter (\<lambda>e. c \<le> se_seq e \<and> se_seq e \<le> d) es" .
next
  fix i rg es e
  assume "mt_read m i rg = Inr es"
  then show "in_seq_order es" "e \<in> set es \<Longrightarrow> fst rg \<le> se_seq e \<and> se_seq e \<le> snd rg"
    using assms by (auto simp: mt_read_def mt_ok_def in_seq_order_filter)
qed

interpretation memory: transcripts_port "mt_read (Rep_ordered_transcripts m)"
  using Rep_ordered_transcripts [of m] by (simp add: mt_read_port)

end
