(* ===== verification/Sync.thy ===== *)
theory Sync
  imports Io Transcripts
begin

text \<open>
  \<open>crates/bridge-core/src/sync.rs\<close>: the bridge side of transcript sync. A request is answered
  with what the phone misses, cut into chunks that are sent, acked and resent a bounded number
  of times; the closing \<open>sync-end\<close> names only what was acked. The transcript store is the port
  \<open>Transcripts\<close> (\<open>ports.rs\<close>), here the parameter \<open>read\<close>; the serialised size of an entry
  (\<open>serde_json\<close>) is the parameter \<open>json\<close>. The server and the effect buffer are passed along.
\<close>

section \<open>State\<close>

record SyncConfig =
  sc_chunk_size :: nat
  sc_chunk_bytes :: nat
  sc_ack_timeout_ms :: nat
  sc_idle_timeout_ms :: nat
  sc_max_retries :: nat

definition default_sync_config :: SyncConfig where
  "default_sync_config =
     \<lparr>sc_chunk_size = 250, sc_chunk_bytes = 40960 - 1024, sc_ack_timeout_ms = 10000,
      sc_idle_timeout_ms = 60000, sc_max_retries = 2\<rparr>"

record Chunk =
  ck_range :: SeqRange
  ck_acked :: bool

record Sync =
  sy_session_id :: string
  sy_to :: Addressee
  sy_chunks :: "Chunk list"
  sy_pass :: nat
  sy_ack_timer :: "TimerId option"
  sy_idle_timer :: "TimerId option"

type_synonym sync_key = "string \<times> string \<times> string"

record SyncServer =
  ss_config :: SyncConfig
  by_id :: "(string, Sync) omap"
  by_key :: "(sync_key, string) omap"

definition sync_server_new :: "SyncConfig \<Rightarrow> SyncServer" where
  "sync_server_new config = \<lparr>ss_config = config, by_id = [], by_key = []\<rparr>"

datatype SyncTimer = StAck | StIdle

type_synonym transcript_read = "string \<Rightarrow> SeqRange \<Rightarrow> string + SyncEntry list"
type_synonym entry_json = "SyncEntry \<Rightarrow> string option"

definition key_of :: "Sync \<Rightarrow> sync_key" where
  "key_of sync = (sy_session_id sync, ad_phone (sy_to sync), ad_key (sy_to sync))"

definition set_sync :: "string \<Rightarrow> Sync \<Rightarrow> SyncServer \<Rightarrow> SyncServer" where
  "set_sync sync_id sync s = s\<lparr>by_id := om_put sync_id sync (by_id s)\<rparr>"

section \<open>Closing a sync\<close>

definition remove :: "string \<Rightarrow> Out \<Rightarrow> SyncServer \<Rightarrow> Sync option \<times> Out \<times> SyncServer" where
  "remove sync_id out s =
     (case om_get (by_id s) sync_id of
        None \<Rightarrow> (None, out, s)
      | Some sync \<Rightarrow>
          (let s1 = s\<lparr>by_id := om_del sync_id (by_id s)\<rparr>;
               s2 = (if om_get (by_key s1) (key_of sync) = Some sync_id
                     then s1\<lparr>by_key := om_del (key_of sync) (by_key s1)\<rparr> else s1);
               out1 = foldl (\<lambda>o1 t. cancel_timer t o1) out (somes [sy_ack_timer sync, sy_idle_timer sync])
           in (Some sync, out1, s2)))"

definition abort :: "string \<Rightarrow> Out \<Rightarrow> SyncServer \<Rightarrow> Out \<times> SyncServer" where
  "abort sync_id out s = snd (remove sync_id out s)"

definition acked_ranges :: "Chunk list \<Rightarrow> SeqRange list" where
  "acked_ranges chunks = map ck_range (filter ck_acked chunks)"

definition finish :: "string \<Rightarrow> Out \<Rightarrow> SyncServer \<Rightarrow> Out \<times> SyncServer" where
  "finish sync_id out s =
     (case remove sync_id out s of
        (None, out1, s1) \<Rightarrow> (out1, s1)
      | (Some sync, out1, s1) \<Rightarrow>
          (publish_addressed [sy_to sync]
             (SyncEnd (sy_session_id sync) sync_id (union_ranges (acked_ranges (sy_chunks sync)) [])) out1, s1))"

section \<open>Sending\<close>

text \<open>Restart the idle clock.\<close>

definition touch :: "string \<Rightarrow> Out \<Rightarrow> SyncServer \<Rightarrow> Out \<times> SyncServer" where
  "touch sync_id out s =
     (case om_get (by_id s) sync_id of
        None \<Rightarrow> (out, s)
      | Some sync \<Rightarrow>
          (let out1 = (case sy_idle_timer sync of None \<Rightarrow> out | Some old \<Rightarrow> cancel_timer old out);
               (timer, out2) = set_timer (sc_idle_timeout_ms (ss_config s)) (TkSyncIdle sync_id) out1
           in (out2, set_sync sync_id (sync\<lparr>sy_idle_timer := Some timer\<rparr>) s)))"

text \<open>The chunk loop of a pass: it stops at the first range that cannot be read.\<close>

fun send_chunks :: "transcript_read \<Rightarrow> string \<Rightarrow> string \<Rightarrow> Addressee \<Rightarrow> SeqRange list \<Rightarrow> Out \<Rightarrow> Out \<times> bool" where
  "send_chunks read session_id sync_id to [] out = (out, True)"
| "send_chunks read session_id sync_id to (rg # ranges) out =
     (case read session_id rg of
        Inl err \<Rightarrow> (out, False)
      | Inr entries \<Rightarrow>
          send_chunks read session_id sync_id to ranges
            (publish_addressed [to] (SyncChunk session_id sync_id rg entries) out))"

definition unacked_ranges :: "Chunk list \<Rightarrow> SeqRange list" where
  "unacked_ranges chunks = map ck_range (filter (\<lambda>c. \<not> ck_acked c) chunks)"

definition ack_delay :: "SyncConfig \<Rightarrow> nat \<Rightarrow> nat" where
  "ack_delay config pass = sat_mul (sc_ack_timeout_ms config) (2 ^ min pass 16)"

definition send_pass :: "transcript_read \<Rightarrow> string \<Rightarrow> Out \<Rightarrow> SyncServer \<Rightarrow> Out \<times> SyncServer" where
  "send_pass read sync_id out s =
     (case om_get (by_id s) sync_id of
        None \<Rightarrow> (out, s)
      | Some sync \<Rightarrow>
          (let ranges = unacked_ranges (sy_chunks sync) in
           if ranges = [] then finish sync_id out s
           else case send_chunks read (sy_session_id sync) sync_id (sy_to sync) ranges out of
             (out1, False) \<Rightarrow> finish sync_id out1 s
           | (out1, True) \<Rightarrow>
               (let (out2, s2) = touch sync_id out1 s;
                    pass = (case om_get (by_id s2) sync_id of None \<Rightarrow> 0 | Some sy \<Rightarrow> sy_pass sy);
                    (timer, out3) = set_timer (ack_delay (ss_config s2) pass) (TkSyncAck sync_id) out2
                in case om_get (by_id s2) sync_id of
                     None \<Rightarrow> (out3, s2)
                   | Some sy \<Rightarrow> (out3, set_sync sync_id (sy\<lparr>sy_ack_timer := Some timer\<rparr>) s2))))"

section \<open>Cutting a range into chunks\<close>

text \<open>
  The entry loop of \<open>cut\<close>, with the chunks so far, where the open chunk starts and how many bytes
  it holds. \<open>seq - start\<close> cannot underflow: the store gives entries of the range in seq order.
\<close>

definition entry_size :: "entry_json \<Rightarrow> SyncEntry \<Rightarrow> nat" where
  "entry_size json e = (case json e of None \<Rightarrow> 0 | Some j \<Rightarrow> length j + 1)"

fun cut_loop :: "entry_json \<Rightarrow> SyncConfig \<Rightarrow> SyncEntry list \<Rightarrow> SeqRange list \<Rightarrow> nat \<Rightarrow> nat \<Rightarrow> SeqRange list \<times> nat" where
  "cut_loop json config [] chunks start bytes = (chunks, start)"
| "cut_loop json config (e # entries) chunks start bytes =
     (let sz = entry_size json e;
          full = (sc_chunk_size config \<le> se_seq e - start \<or> sc_chunk_bytes config < bytes + sz)
      in if 0 < bytes \<and> full
         then cut_loop json config entries (chunks @ [(start, se_seq e - 1)]) (se_seq e) (0 + sz)
         else cut_loop json config entries chunks start (bytes + sz))"

definition cut :: "entry_json \<Rightarrow> SyncConfig \<Rightarrow> transcript_read \<Rightarrow> string \<Rightarrow> SeqRange \<Rightarrow> SeqRange list" where
  "cut json config read session_id rg =
     (case read session_id rg of
        Inl err \<Rightarrow> chunk_ranges [rg] (sc_chunk_size config)
      | Inr entries \<Rightarrow>
          (case cut_loop json config entries [] (fst rg) 0 of
             (chunks, start) \<Rightarrow> chunks @ chunk_ranges [(start, snd rg)] (sc_chunk_size config)))"

section \<open>Requests, acks, timers\<close>

definition request ::
  "entry_json \<Rightarrow> transcript_read \<Rightarrow> string \<Rightarrow> string \<Rightarrow> Addressee \<Rightarrow> SeqRange list \<Rightarrow> nat
    \<Rightarrow> Out \<Rightarrow> SyncServer \<Rightarrow> Out \<times> SyncServer" where
  "request json read sync_id session_id to have seq_high out s =
     (let key = (session_id, ad_phone to, ad_key to);
          (out1, s1) = (case om_get (by_key s) key of None \<Rightarrow> (out, s) | Some old \<Rightarrow> abort old out s);
          missing = missing_ranges have 1 seq_high;
          chunks = map (\<lambda>r. \<lparr>ck_range = r, ck_acked = False\<rparr>)
                     (concat (map (cut json (ss_config s1) read session_id) missing));
          s2 = s1\<lparr>by_key := om_put key sync_id (by_key s1)\<rparr>;
          s3 = set_sync sync_id
                 \<lparr>sy_session_id = session_id, sy_to = to, sy_chunks = chunks, sy_pass = 0,
                  sy_ack_timer = None, sy_idle_timer = None\<rparr> s2;
          out2 = publish_addressed [to] (SyncBegin session_id sync_id seq_high missing) out1
      in send_pass read sync_id out2 s3)"

fun mark_chunk :: "SeqRange \<Rightarrow> Chunk list \<Rightarrow> Chunk list option" where
  "mark_chunk rg [] = None"
| "mark_chunk rg (c # cs) =
     (if ck_range c = rg then Some (c\<lparr>ck_acked := True\<rparr> # cs)
      else map_option (\<lambda>cs'. c # cs') (mark_chunk rg cs))"

definition mark_chunks :: "SeqRange list \<Rightarrow> Chunk list \<Rightarrow> Chunk list \<times> bool" where
  "mark_chunks ranges chunks =
     foldl (\<lambda>(cs, any) rg. case mark_chunk rg cs of None \<Rightarrow> (cs, any) | Some cs' \<Rightarrow> (cs', True))
       (chunks, False) ranges"

definition ack :: "string \<Rightarrow> SeqRange list \<Rightarrow> Out \<Rightarrow> SyncServer \<Rightarrow> Out \<times> SyncServer" where
  "ack sync_id ranges out s =
     (case om_get (by_id s) sync_id of
        None \<Rightarrow> (out, s)
      | Some sync \<Rightarrow>
          (let (chunks, any) = mark_chunks ranges (sy_chunks sync);
               s1 = set_sync sync_id (sync\<lparr>sy_chunks := chunks\<rparr>) s
           in if \<not> any then (out, s1)
              else if list_all ck_acked chunks then finish sync_id out s1
              else touch sync_id out s1))"

definition timer_fired :: "transcript_read \<Rightarrow> string \<Rightarrow> SyncTimer \<Rightarrow> Out \<Rightarrow> SyncServer \<Rightarrow> Out \<times> SyncServer" where
  "timer_fired read sync_id timer out s =
     (case om_get (by_id s) sync_id of
        None \<Rightarrow> (out, s)
      | Some sync \<Rightarrow>
          (case timer of
             StIdle \<Rightarrow> finish sync_id out (set_sync sync_id (sync\<lparr>sy_idle_timer := None\<rparr>) s)
           | StAck \<Rightarrow>
               (let sync1 = sync\<lparr>sy_ack_timer := None\<rparr>;
                    s1 = set_sync sync_id sync1 s
                in if filter (\<lambda>c. \<not> ck_acked c) (sy_chunks sync1) = [] then finish sync_id out s1
                   else if sc_max_retries (ss_config s1) \<le> sy_pass sync1 then finish sync_id out s1
                   else send_pass read sync_id out
                          (set_sync sync_id (sync1\<lparr>sy_pass := sy_pass sync1 + 1\<rparr>) s1))))"

definition close :: "Out \<Rightarrow> SyncServer \<Rightarrow> Out \<times> SyncServer" where
  "close out s = foldl (\<lambda>(out1, s1) i. abort i out1 s1) (out, s) (om_keys (by_id s))"

text \<open>The engine's \<open>on_timer\<close> for the two sync timers: the timer is forgotten, then handled.\<close>

definition sync_on_timer :: "transcript_read \<Rightarrow> TimerId \<Rightarrow> Out \<Rightarrow> SyncServer \<Rightarrow> Out \<times> SyncServer" where
  "sync_on_timer read i out s =
     (case take_timer i out of
        (Some (TkSyncAck sync_id), out1) \<Rightarrow> timer_fired read sync_id StAck out1 s
      | (Some (TkSyncIdle sync_id), out1) \<Rightarrow> timer_fired read sync_id StIdle out1 s
      | (_, out1) \<Rightarrow> (out1, s))"

section \<open>The invariant\<close>

text \<open>
  The armed sync timers are exactly those the syncs under way hold, the two indexes agree (one
  sync per session and client), and no sync is past its last retry.
\<close>

definition sync_kind :: "TimerKind \<Rightarrow> bool" where
  "sync_kind k = (case k of TkSyncAck i \<Rightarrow> True | TkSyncIdle i \<Rightarrow> True | _ \<Rightarrow> False)"

definition holds_timer :: "string \<Rightarrow> Sync \<Rightarrow> TimerId \<Rightarrow> TimerKind \<Rightarrow> bool" where
  "holds_timer sync_id sy i k =
     (k = TkSyncAck sync_id \<and> sy_ack_timer sy = Some i \<or> k = TkSyncIdle sync_id \<and> sy_idle_timer sy = Some i)"

definition sync_owns :: "SyncServer \<Rightarrow> TimerId \<Rightarrow> TimerKind \<Rightarrow> bool" where
  "sync_owns s i k = (\<exists>sync_id sy. om_get (by_id s) sync_id = Some sy \<and> holds_timer sync_id sy i k)"

definition index_inv :: "SyncServer \<Rightarrow> bool" where
  "index_inv s = (om_wf (by_id s) \<and> om_wf (by_key s)
     \<and> (\<forall>i sy. om_get (by_id s) i = Some sy \<longrightarrow> om_get (by_key s) (key_of sy) = Some i)
     \<and> (\<forall>k i. om_get (by_key s) k = Some i \<longrightarrow> (\<exists>sy. om_get (by_id s) i = Some sy \<and> key_of sy = k))
     \<and> (\<forall>i sy. om_get (by_id s) i = Some sy \<longrightarrow> sy_pass sy \<le> sc_max_retries (ss_config s)))"

definition sync_inv :: "Out \<Rightarrow> SyncServer \<Rightarrow> bool" where
  "sync_inv out s = (out_inv out \<and> index_inv s \<and> book.owns sync_kind (sync_owns s) out)"

lemma sync_kind_simps [simp]: "sync_kind (TkSyncAck i)" "sync_kind (TkSyncIdle i)"
  by (simp_all add: sync_kind_def)

lemma set_sync_simps [simp]:
  "by_id (set_sync i sy s) = om_put i sy (by_id s)" "by_key (set_sync i sy s) = by_key s"
  "ss_config (set_sync i sy s) = ss_config s"
  by (simp_all add: set_sync_def)

lemma key_of_simps [simp]:
  "key_of (sy\<lparr>sy_chunks := c\<rparr>) = key_of sy" "key_of (sy\<lparr>sy_ack_timer := t\<rparr>) = key_of sy"
  "key_of (sy\<lparr>sy_idle_timer := t\<rparr>) = key_of sy" "key_of (sy\<lparr>sy_pass := n\<rparr>) = key_of sy"
  by (simp_all add: key_of_def)

lemma index_inv_set_sync [wf_intros]:
  "index_inv s \<Longrightarrow> om_get (by_id s) i = Some sy \<Longrightarrow> key_of sy' = key_of sy
    \<Longrightarrow> sy_pass sy' \<le> sc_max_retries (ss_config s) \<Longrightarrow> index_inv (set_sync i sy' s)"
  unfolding index_inv_def by (simp, metis option.inject)

text \<open>Removing a sync cancels its two timers and no other.\<close>

definition cancel_both :: "Sync \<Rightarrow> Out \<Rightarrow> Out" where
  "cancel_both sy out = foldl (\<lambda>o1 t. cancel_timer t o1) out (somes [sy_ack_timer sy, sy_idle_timer sy])"

lemma cancel_both_cases:
  "cancel_both sy out =
     (case sy_idle_timer sy of None \<Rightarrow> (\<lambda>x. x) | Some t \<Rightarrow> cancel_timer t)
       ((case sy_ack_timer sy of None \<Rightarrow> (\<lambda>x. x) | Some t \<Rightarrow> cancel_timer t) out)"
  by (simp add: cancel_both_def split: option.split)

lemma out_inv_cancel_both [wf_intros]: "out_inv out \<Longrightarrow> out_inv (cancel_both sy out)"
  by (simp add: cancel_both_cases out_inv_cancel_timer split: option.split)

lemma owns_cancel_both:
  "book.owns K own out \<Longrightarrow>
    book.owns K (\<lambda>j l. sy_ack_timer sy \<noteq> Some j \<and> sy_idle_timer sy \<noteq> Some j \<and> own j l) (cancel_both sy out)"
  by (auto simp: cancel_both_cases book.owns_def split: option.split)

lemma remove_unfold:
  "remove i out s =
     (case om_get (by_id s) i of
        None \<Rightarrow> (None, out, s)
      | Some sy \<Rightarrow> (Some sy, cancel_both sy out,
          s\<lparr>by_id := om_del i (by_id s),
            by_key := (if om_get (by_key s) (key_of sy) = Some i then om_del (key_of sy) (by_key s) else by_key s)\<rparr>))"
  by (simp add: remove_def cancel_both_def split: option.split)

lemma index_inv_remove [wf_intros]:
  assumes "index_inv s"
  shows "index_inv (snd (snd (remove i out s)))"
proof (cases "om_get (by_id s) i")
  case None
  with assms show ?thesis by (simp add: remove_unfold)
next
  case (Some sy)
  have key: "om_get (by_key s) (key_of sy) = Some i" using assms Some by (simp add: index_inv_def)
  have uniq: "i' = i" if "om_get (by_id s) i' = Some sy'" "key_of sy' = key_of sy" for i' sy'
    using assms that key unfolding index_inv_def by (metis option.inject)
  have keyb: "k = key_of sy" if "om_get (by_key s) k = Some i" for k
    using assms that Some unfolding index_inv_def by (metis option.inject)
  have "\<forall>k i'. k \<noteq> key_of sy \<and> om_get (by_key s) k = Some i' \<longrightarrow>
      i' \<noteq> i \<and> (\<exists>sy'. om_get (by_id s) i' = Some sy' \<and> key_of sy' = k)"
    using assms keyb unfolding index_inv_def by blast
  moreover have "\<forall>i' sy'. i' \<noteq> i \<and> om_get (by_id s) i' = Some sy' \<longrightarrow>
      key_of sy' \<noteq> key_of sy \<and> om_get (by_key s) (key_of sy') = Some i' \<and> sy_pass sy' \<le> sc_max_retries (ss_config s)"
    using assms uniq unfolding index_inv_def by blast
  moreover have "om_wf (by_id s)" "om_wf (by_key s)" using assms by (auto simp: index_inv_def)
  ultimately show ?thesis
    using Some key by (simp add: remove_unfold index_inv_def)
qed

lemma sync_inv_remove:
  assumes "sync_inv out s"
  shows "sync_inv (fst (snd (remove i out s))) (snd (snd (remove i out s)))"
proof (cases "om_get (by_id s) i")
  case None
  with assms show ?thesis by (simp add: remove_unfold)
next
  case (Some sy)
  let ?s = "snd (snd (remove i out s))"
  have own: "book.owns sync_kind (sync_owns s) out" and inv: "out_inv out" "index_inv s"
    using assms by (auto simp: sync_inv_def)
  have other: "sync_owns ?s j k \<longleftrightarrow> (\<exists>i' sy'. i' \<noteq> i \<and> om_get (by_id s) i' = Some sy' \<and> holds_timer i' sy' j k)" for j k
    using Some by (auto simp: sync_owns_def remove_unfold)
  have "(sy_ack_timer sy \<noteq> Some j \<and> sy_idle_timer sy \<noteq> Some j \<and> sync_owns s j k) = sync_owns ?s j k"
    if "sync_kind k" for j k
  proof
    assume "sy_ack_timer sy \<noteq> Some j \<and> sy_idle_timer sy \<noteq> Some j \<and> sync_owns s j k"
    then show "sync_owns ?s j k" using Some unfolding other sync_owns_def [of s] holds_timer_def
      by (metis option.inject)
  next
    assume "sync_owns ?s j k"
    then obtain i' sy' where i': "i' \<noteq> i" "om_get (by_id s) i' = Some sy'" "holds_timer i' sy' j k"
      by (auto simp: other)
    then have jk: "sync_owns s j k" by (auto simp: sync_owns_def)
    have "k = TkSyncAck i" if "sy_ack_timer sy = Some j"
      using that Some jk book.owns_one_kind [OF own \<open>sync_kind k\<close>, of "TkSyncAck i" j]
      by (auto simp: sync_owns_def holds_timer_def)
    moreover have "k = TkSyncIdle i" if "sy_idle_timer sy = Some j"
      using that Some jk book.owns_one_kind [OF own \<open>sync_kind k\<close>, of "TkSyncIdle i" j]
      by (auto simp: sync_owns_def holds_timer_def)
    ultimately show "sy_ack_timer sy \<noteq> Some j \<and> sy_idle_timer sy \<noteq> Some j \<and> sync_owns s j k"
      using i' jk by (auto simp: holds_timer_def)
  qed
  then have "book.owns sync_kind (sync_owns ?s) (cancel_both sy out)"
    by (intro book.owns_cong [OF owns_cancel_both [OF own, of sy]])
  then show ?thesis
    using Some index_inv_remove [OF inv(2), of i out] out_inv_cancel_both [OF inv(1), of sy]
    by (simp add: sync_inv_def remove_unfold)
qed

lemma sync_inv_publish: "sync_inv out s \<Longrightarrow> sync_inv (publish_addressed to m out) s"
  by (simp add: sync_inv_def book.owns_def out_inv_publish_addressed)

lemma sync_inv_abort: "sync_inv out s \<Longrightarrow> sync_inv (fst (abort i out s)) (snd (abort i out s))"
  by (simp add: abort_def sync_inv_remove)

lemma finish_unfold:
  "finish i out s = (case fst (remove i out s) of
      None \<Rightarrow> snd (remove i out s)
    | Some sy \<Rightarrow> (publish_addressed [sy_to sy]
        (SyncEnd (sy_session_id sy) i (union_ranges (acked_ranges (sy_chunks sy)) [])) (fst (snd (remove i out s))),
        snd (snd (remove i out s))))"
  by (simp add: finish_def split: prod.split option.split)

lemma sync_inv_finish: "sync_inv out s \<Longrightarrow> sync_inv (fst (finish i out s)) (snd (finish i out s))"
  by (simp add: finish_unfold sync_inv_publish sync_inv_remove split: option.split)

text \<open>Changing one sync in place: its timers are what the buffer must hold for it.\<close>

lemma sync_owns_set:
  "sync_owns (set_sync i sy s) j k \<longleftrightarrow>
     holds_timer i sy j k \<or> (\<exists>i' sy'. i' \<noteq> i \<and> om_get (by_id s) i' = Some sy' \<and> holds_timer i' sy' j k)"
  by (auto simp: sync_owns_def)

lemma sync_owns_split:
  assumes "om_get (by_id s) i = Some sy"
  shows "sync_owns s j k \<longleftrightarrow>
     holds_timer i sy j k \<or> (\<exists>i' sy'. i' \<noteq> i \<and> om_get (by_id s) i' = Some sy' \<and> holds_timer i' sy' j k)"
  using assms unfolding sync_owns_def by (metis option.inject)

lemma sync_inv_set:
  assumes "sync_inv out s" "om_get (by_id s) i = Some sy" "key_of sy' = key_of sy"
    and "sy_pass sy' \<le> sc_max_retries (ss_config s)"
    and "sy_ack_timer sy' = sy_ack_timer sy" "sy_idle_timer sy' = sy_idle_timer sy"
  shows "sync_inv out (set_sync i sy' s)"
proof -
  have "sync_owns (set_sync i sy' s) = sync_owns s"
    using assms(2,5,6) by (intro ext) (simp add: sync_owns_set sync_owns_split holds_timer_def)
  with assms show ?thesis by (auto simp: sync_inv_def intro: index_inv_set_sync)
qed

lemma touch_unfold:
  "touch i out s =
     (case om_get (by_id s) i of
        None \<Rightarrow> (out, s)
      | Some sy \<Rightarrow>
          (let out1 = (case sy_idle_timer sy of None \<Rightarrow> out | Some old \<Rightarrow> cancel_timer old out);
               r = set_timer (sc_idle_timeout_ms (ss_config s)) (TkSyncIdle i) out1
           in (snd r, set_sync i (sy\<lparr>sy_idle_timer := Some (fst r)\<rparr>) s)))"
  by (simp add: touch_def Let_def case_prod_beta split: option.split)

lemma sync_inv_touch:
  assumes "sync_inv out s"
  shows "sync_inv (fst (touch i out s)) (snd (touch i out s))"
proof (cases "om_get (by_id s) i")
  case None
  with assms show ?thesis by (simp add: touch_unfold)
next
  case (Some sy)
  have own: "book.owns sync_kind (sync_owns s) out" and inv: "out_inv out" "index_inv s"
    using assms by (auto simp: sync_inv_def)
  define out1 where "out1 = (case sy_idle_timer sy of None \<Rightarrow> out | Some old \<Rightarrow> cancel_timer old out)"
  define r where "r = set_timer (sc_idle_timeout_ms (ss_config s)) (TkSyncIdle i) out1"
  have inv1: "out_inv out1"
    using inv by (simp add: out1_def out_inv_cancel_timer split: option.split)
  have own1: "book.owns sync_kind (\<lambda>j k. sy_idle_timer sy \<noteq> Some j \<and> sync_owns s j k) out1"
    using own by (auto simp: out1_def book.owns_def split: option.split)
  have own2: "book.owns sync_kind
      (\<lambda>j k. j = fst r \<and> k = TkSyncIdle i \<or> sy_idle_timer sy \<noteq> Some j \<and> sync_owns s j k) (snd r)"
    unfolding r_def by (rule book.owns_arm [OF inv1 own1]) simp
  have idle: "k = TkSyncIdle i" if "sy_idle_timer sy = Some j" "sync_owns s j k" "sync_kind k" for j k
    using that Some book.owns_one_kind [OF own that(3), of "TkSyncIdle i" j]
    by (auto simp: sync_owns_def holds_timer_def)
  have "book.owns sync_kind (sync_owns (set_sync i (sy\<lparr>sy_idle_timer := Some (fst r)\<rparr>) s)) (snd r)"
  proof (rule book.owns_cong [OF own2])
    fix j k assume "sync_kind k"
    show "(j = fst r \<and> k = TkSyncIdle i \<or> sy_idle_timer sy \<noteq> Some j \<and> sync_owns s j k)
      = sync_owns (set_sync i (sy\<lparr>sy_idle_timer := Some (fst r)\<rparr>) s) j k"
      using idle [OF _ _ \<open>sync_kind k\<close>, of j] Some
      by (auto simp: sync_owns_set sync_owns_split holds_timer_def)
  qed
  moreover have "out_inv (snd r)" unfolding r_def by (rule out_inv_set_timer [OF inv1])
  moreover have "index_inv (set_sync i (sy\<lparr>sy_idle_timer := Some (fst r)\<rparr>) s)"
    using inv(2) Some by (intro index_inv_set_sync [OF _ Some]) (auto simp: index_inv_def)
  ultimately have "sync_inv (snd r) (set_sync i (sy\<lparr>sy_idle_timer := Some (fst r)\<rparr>) s)"
    by (simp add: sync_inv_def)
  moreover have "touch i out s = (snd r, set_sync i (sy\<lparr>sy_idle_timer := Some (fst r)\<rparr>) s)"
    using Some unfolding touch_unfold Let_def r_def out1_def by (simp del: set_timer_simps)
  ultimately show ?thesis by simp
qed

lemma touch_get:
  assumes "om_get (by_id s) i = Some sy"
  shows "\<exists>t. om_get (by_id (snd (touch i out s))) i = Some (sy\<lparr>sy_idle_timer := Some t\<rparr>)"
    and "ss_config (snd (touch i out s)) = ss_config s"
  using assms by (auto simp: touch_unfold Let_def)

text \<open>Arming the ack timer of a sync that has none, and forgetting a timer that fired.\<close>

lemma sync_inv_arm_ack:
  assumes "sync_inv out s" and sy: "om_get (by_id s) i = Some sy" "sy_ack_timer sy = None"
  shows "sync_inv (snd (set_timer d (TkSyncAck i) out))
      (set_sync i (sy\<lparr>sy_ack_timer := Some (fst (set_timer d (TkSyncAck i) out))\<rparr>) s)"
proof -
  define r where "r = set_timer d (TkSyncAck i) out"
  have own: "book.owns sync_kind (sync_owns s) out" and inv: "out_inv out" "index_inv s"
    using assms by (auto simp: sync_inv_def)
  have "book.owns sync_kind (\<lambda>j k. j = fst r \<and> k = TkSyncAck i \<or> sync_owns s j k) (snd r)"
    unfolding r_def by (rule book.owns_arm [OF inv(1) own]) simp
  then have "book.owns sync_kind (sync_owns (set_sync i (sy\<lparr>sy_ack_timer := Some (fst r)\<rparr>) s)) (snd r)"
    by (rule book.owns_cong) (use sy in \<open>auto simp: sync_owns_set sync_owns_split holds_timer_def\<close>)
  moreover have "out_inv (snd r)" unfolding r_def by (rule out_inv_set_timer [OF inv(1)])
  moreover have "index_inv (set_sync i (sy\<lparr>sy_ack_timer := Some (fst r)\<rparr>) s)"
    using inv(2) sy(1) by (intro index_inv_set_sync [OF _ sy(1)]) (auto simp: index_inv_def)
  ultimately show ?thesis unfolding r_def [symmetric] by (simp add: sync_inv_def)
qed

lemma owns_take:
  "book.owns K own out \<Longrightarrow> book.owns K (\<lambda>j l. j \<noteq> t \<and> own j l) (snd (take_timer t out))"
  by (auto simp: book.owns_def)

lemma sync_inv_fired:
  assumes "sync_inv out s" "om_get (timers out) t = Some k" "sync_kind k"
    and sy: "om_get (by_id s) i = Some sy" "holds_timer i sy t k"
    and sy': "sy' = (if k = TkSyncAck i then sy\<lparr>sy_ack_timer := None\<rparr> else sy\<lparr>sy_idle_timer := None\<rparr>)"
  shows "sync_inv (snd (take_timer t out)) (set_sync i sy' s)"
proof -
  have own: "book.owns sync_kind (sync_owns s) out" and inv: "out_inv out" "index_inv s"
    using assms by (auto simp: sync_inv_def)
  have one: "l = k" if "sync_owns s t l" "sync_kind l" for l
    using book.owns_one_kind [OF own that(2) assms(3) that(1)] own assms(2,3) by (simp add: book.owns_def)
  have "(j \<noteq> t \<and> sync_owns s j l) = sync_owns (set_sync i sy' s) j l" if l: "sync_kind l" for j l
  proof (cases "j = t")
    case False
    then show ?thesis using sy sy' by (auto simp: sync_owns_set sync_owns_split holds_timer_def)
  next
    case True
    have "False" if "sync_owns (set_sync i sy' s) t l"
    proof -
      have "sync_owns s t l" using that sy sy' by (auto simp: sync_owns_set sync_owns_split holds_timer_def split: if_splits)
      then have "l = k" using one l by simp
      with that sy' sy(2) show False by (auto simp: sync_owns_set holds_timer_def split: if_splits)
    qed
    with True show ?thesis by auto
  qed
  then have "book.owns sync_kind (sync_owns (set_sync i sy' s)) (snd (take_timer t out))"
    by (intro book.owns_cong [OF owns_take [OF own]])
  moreover have "index_inv (set_sync i sy' s)"
    using inv(2) sy(1) sy' by (intro index_inv_set_sync [OF _ sy(1)]) (auto simp: index_inv_def)
  ultimately show ?thesis using inv(1) by (simp add: sync_inv_def out_inv_take_timer)
qed

lemma sync_inv_armed:
  assumes "sync_inv out s" "om_get (timers out) t = Some k" "sync_kind k"
  obtains i sy where "om_get (by_id s) i = Some sy" "holds_timer i sy t k" "k = TkSyncAck i \<or> k = TkSyncIdle i"
proof -
  have "sync_owns s t k" using assms by (simp add: sync_inv_def book.owns_def)
  then show thesis using that by (auto simp: sync_owns_def holds_timer_def)
qed

section \<open>Every operation keeps the invariant\<close>

lemma send_chunks_out:
  "sync_inv out s \<Longrightarrow> sync_inv (fst (send_chunks read sid i to ranges out)) s"
  by (induction ranges arbitrary: out) (auto simp: sync_inv_publish split: sum.split)

lemma send_pass_unfold:
  "send_pass read i out s =
     (case om_get (by_id s) i of
        None \<Rightarrow> (out, s)
      | Some sy \<Rightarrow>
          (let sent = send_chunks read (sy_session_id sy) i (sy_to sy) (unacked_ranges (sy_chunks sy)) out;
               touched = touch i (fst sent) s
           in if unacked_ranges (sy_chunks sy) = [] \<or> \<not> snd sent then finish i (fst sent) s
              else let sy1 = the (om_get (by_id (snd touched)) i);
                       r = set_timer (ack_delay (ss_config s) (sy_pass sy)) (TkSyncAck i) (fst touched)
                   in (snd r, set_sync i (sy1\<lparr>sy_ack_timer := Some (fst r)\<rparr>) (snd touched))))"
proof (cases "om_get (by_id s) i")
  case (Some sy)
  obtain t where t: "om_get (by_id (snd (touch i (fst (send_chunks read (sy_session_id sy) i (sy_to sy)
      (unacked_ranges (sy_chunks sy)) out)) s))) i = Some (sy\<lparr>sy_idle_timer := Some t\<rparr>)"
    using touch_get(1) [OF Some] by blast
  with Some show ?thesis
    by (auto simp: send_pass_def Let_def case_prod_beta touch_get(2) split: bool.split prod.split
        simp del: set_timer_simps)
qed (simp add: send_pass_def)

lemma sync_inv_send_pass:
  assumes "sync_inv out s" and "\<And>sy. om_get (by_id s) i = Some sy \<Longrightarrow> sy_ack_timer sy = None"
  shows "sync_inv (fst (send_pass read i out s)) (snd (send_pass read i out s))"
proof (cases "om_get (by_id s) i")
  case (Some sy)
  define sent where "sent = send_chunks read (sy_session_id sy) i (sy_to sy) (unacked_ranges (sy_chunks sy)) out"
  define touched where "touched = touch i (fst sent) s"
  have sent: "sync_inv (fst sent) s" unfolding sent_def by (rule send_chunks_out [OF assms(1)])
  then have touched: "sync_inv (fst touched) (snd touched)" unfolding touched_def by (rule sync_inv_touch)
  obtain t where t: "om_get (by_id (snd touched)) i = Some (sy\<lparr>sy_idle_timer := Some t\<rparr>)"
    using touch_get(1) [OF Some] unfolding touched_def by blast
  have "sync_inv (snd r) (set_sync i (sy\<lparr>sy_idle_timer := Some t, sy_ack_timer := Some (fst r)\<rparr>) (snd touched))"
    if "r = set_timer d (TkSyncAck i) (fst touched)" for d r
    unfolding that using sync_inv_arm_ack [OF touched t] assms(2) [OF Some] by simp
  then show ?thesis
    using Some t sync_inv_finish [OF sent, of i]
    unfolding send_pass_unfold Let_def Some option.case sent_def [symmetric] touched_def [symmetric]
    by (simp del: set_timer_simps)
qed (use assms in \<open>simp add: send_pass_unfold\<close>)

text \<open>A request under a fresh id: the sync it replaces is gone before the new one is entered.\<close>

definition new_sync :: "entry_json \<Rightarrow> transcript_read \<Rightarrow> SyncConfig \<Rightarrow> string \<Rightarrow> Addressee \<Rightarrow> SeqRange list \<Rightarrow> nat \<Rightarrow> Sync" where
  "new_sync json read config sid to have seq_high =
     \<lparr>sy_session_id = sid, sy_to = to,
      sy_chunks = map (\<lambda>r. \<lparr>ck_range = r, ck_acked = False\<rparr>)
        (concat (map (cut json config read sid) (missing_ranges have 1 seq_high))),
      sy_pass = 0, sy_ack_timer = None, sy_idle_timer = None\<rparr>"

definition replaced :: "string \<Rightarrow> Addressee \<Rightarrow> Out \<Rightarrow> SyncServer \<Rightarrow> Out \<times> SyncServer" where
  "replaced sid to out s =
     (case om_get (by_key s) (sid, ad_phone to, ad_key to) of None \<Rightarrow> (out, s) | Some old \<Rightarrow> abort old out s)"

lemma replaced_config [simp]: "ss_config (snd (replaced sid to out s)) = ss_config s"
  by (simp add: replaced_def abort_def remove_unfold split: option.split)

lemma request_unfold:
  "request json read i sid to have seq_high out s =
     (let r = replaced sid to out s in
      send_pass read i
        (publish_addressed [to] (SyncBegin sid i seq_high (missing_ranges have 1 seq_high)) (fst r))
        (set_sync i (new_sync json read (ss_config s) sid to have seq_high)
          ((snd r)\<lparr>by_key := om_put (sid, ad_phone to, ad_key to) i (by_key (snd r))\<rparr>)))"
  using replaced_config [of sid to out s]
  by (simp add: request_def replaced_def new_sync_def Let_def case_prod_beta split: option.split)

lemma replaced_free:
  assumes "sync_inv out s"
  shows "sync_inv (fst (replaced sid to out s)) (snd (replaced sid to out s))"
    and "om_get (by_key (snd (replaced sid to out s))) (sid, ad_phone to, ad_key to) = None"
    and "om_get (by_id s) i = None \<Longrightarrow> om_get (by_id (snd (replaced sid to out s))) i = None"
proof -
  show "sync_inv (fst (replaced sid to out s)) (snd (replaced sid to out s))"
    using assms by (simp add: replaced_def sync_inv_abort split: option.split)
  show "om_get (by_key (snd (replaced sid to out s))) (sid, ad_phone to, ad_key to) = None"
  proof (cases "om_get (by_key s) (sid, ad_phone to, ad_key to)")
    case (Some old)
    then obtain sy where "om_get (by_id s) old = Some sy" "key_of sy = (sid, ad_phone to, ad_key to)"
      using assms unfolding sync_inv_def index_inv_def by blast
    with Some show ?thesis by (simp add: replaced_def abort_def remove_unfold)
  qed (simp add: replaced_def)
  show "om_get (by_id s) i = None \<Longrightarrow> om_get (by_id (snd (replaced sid to out s))) i = None"
    by (auto simp: replaced_def abort_def remove_unfold split: option.split)
qed

lemma sync_inv_insert:
  assumes "sync_inv out s" "om_get (by_id s) i = None" "om_get (by_key s) (key_of sy) = None"
    and "sy_pass sy = 0" "sy_ack_timer sy = None" "sy_idle_timer sy = None"
  shows "sync_inv out (set_sync i sy (s\<lparr>by_key := om_put (key_of sy) i (by_key s)\<rparr>))"
proof -
  let ?s = "set_sync i sy (s\<lparr>by_key := om_put (key_of sy) i (by_key s)\<rparr>)"
  have "sync_owns ?s = sync_owns s"
  proof (intro ext)
    fix j k
    have "\<not> holds_timer i sy j k" using assms(5,6) by (simp add: holds_timer_def)
    moreover have "i' \<noteq> i" if "om_get (by_id s) i' = Some sy'" for i' sy' using assms(2) that by auto
    ultimately show "sync_owns ?s j k = sync_owns s j k"
      unfolding sync_owns_set sync_owns_def [of s] by (simp, blast)
  qed
  moreover have "index_inv ?s"
  proof -
    have "\<forall>k i'. om_get (by_key s) k = Some i' \<longrightarrow> i' \<noteq> i \<and> (\<exists>sy'. om_get (by_id s) i' = Some sy' \<and> key_of sy' = k)"
      using assms(1,2) unfolding sync_inv_def index_inv_def by (metis option.distinct(1))
    moreover have "\<forall>i' sy'. om_get (by_id s) i' = Some sy' \<longrightarrow> key_of sy' \<noteq> key_of sy \<and>
        om_get (by_key s) (key_of sy') = Some i' \<and> sy_pass sy' \<le> sc_max_retries (ss_config s)"
      using assms(1,3) unfolding sync_inv_def index_inv_def by (metis option.distinct(1))
    moreover have "om_wf (by_id s)" "om_wf (by_key s)" using assms(1) by (auto simp: sync_inv_def index_inv_def)
    ultimately show ?thesis using assms(2,3,4) by (simp add: index_inv_def)
  qed
  ultimately show ?thesis using assms(1) by (simp add: sync_inv_def)
qed

lemma sync_inv_request:
  assumes "sync_inv out s" "om_get (by_id s) i = None"
  shows "sync_inv (fst (request json read i sid to have seq_high out s))
    (snd (request json read i sid to have seq_high out s))"
proof -
  define r where "r = replaced sid to out s"
  define sy where "sy = new_sync json read (ss_config s) sid to have seq_high"
  have key: "key_of sy = (sid, ad_phone to, ad_key to)" by (simp add: sy_def new_sync_def key_of_def)
  have r: "sync_inv (fst r) (snd r)" "om_get (by_key (snd r)) (key_of sy) = None" "om_get (by_id (snd r)) i = None"
    unfolding r_def key using replaced_free [OF assms(1)] assms(2) by blast+
  have "sync_inv (fst r) (set_sync i sy ((snd r)\<lparr>by_key := om_put (key_of sy) i (by_key (snd r))\<rparr>))"
    using r by (intro sync_inv_insert) (auto simp: sy_def new_sync_def)
  note start = sync_inv_publish [OF this, of "[to]" "SyncBegin sid i seq_high (missing_ranges have 1 seq_high)"]
  show ?thesis
    unfolding request_unfold Let_def r_def [symmetric] sy_def [symmetric] key [symmetric]
    by (rule sync_inv_send_pass [OF start]) (simp add: sy_def new_sync_def)
qed

lemma ack_unfold:
  "ack i ranges out s =
     (case om_get (by_id s) i of
        None \<Rightarrow> (out, s)
      | Some sy \<Rightarrow>
          (let r = mark_chunks ranges (sy_chunks sy); s1 = set_sync i (sy\<lparr>sy_chunks := fst r\<rparr>) s in
           if \<not> snd r then (out, s1)
           else if list_all ck_acked (fst r) then finish i out s1
           else touch i out s1))"
  by (simp add: ack_def Let_def case_prod_beta split: option.split)

lemma sync_inv_ack:
  assumes "sync_inv out s"
  shows "sync_inv (fst (ack i ranges out s)) (snd (ack i ranges out s))"
proof (cases "om_get (by_id s) i")
  case (Some sy)
  then have "sync_inv out (set_sync i (sy\<lparr>sy_chunks := c\<rparr>) s)" for c
    using assms by (intro sync_inv_set [OF assms Some]) (auto simp: sync_inv_def index_inv_def)
  with Some show ?thesis
    by (simp add: ack_unfold Let_def sync_inv_finish sync_inv_touch)
qed (use assms in \<open>simp add: ack_unfold\<close>)

lemma sync_inv_take_other:
  assumes "sync_inv out s" "\<And>k. om_get (timers out) t = Some k \<Longrightarrow> \<not> sync_kind k"
  shows "sync_inv (snd (take_timer t out)) s"
  using assms by (auto simp: sync_inv_def book.owns_def out_inv_take_timer)

lemma sync_on_timer_unfold:
  "sync_on_timer read t out s =
     (case om_get (timers out) t of
        Some (TkSyncAck i) \<Rightarrow> timer_fired read i StAck (snd (take_timer t out)) s
      | Some (TkSyncIdle i) \<Rightarrow> timer_fired read i StIdle (snd (take_timer t out)) s
      | _ \<Rightarrow> (snd (take_timer t out), s))"
  by (simp add: sync_on_timer_def take_timer_def split: option.split TimerKind.split)

lemma sync_inv_on_timer:
  assumes "sync_inv out s"
  shows "sync_inv (fst (sync_on_timer read t out s)) (snd (sync_on_timer read t out s))"
proof (cases "\<exists>k. om_get (timers out) t = Some k \<and> sync_kind k")
  case False
  then have "sync_on_timer read t out s = (snd (take_timer t out), s)"
    by (auto simp: sync_on_timer_unfold sync_kind_def split: option.split TimerKind.splits)
  with False show ?thesis using sync_inv_take_other [OF assms, of t] by auto
next
  case True
  then obtain k where k: "om_get (timers out) t = Some k" "sync_kind k" by blast
  from sync_inv_armed [OF assms k] obtain i sy where
    i: "om_get (by_id s) i = Some sy" "holds_timer i sy t k" "k = TkSyncAck i \<or> k = TkSyncIdle i" .
  note fired = sync_inv_fired [OF assms k i(1,2) refl]
  show ?thesis
  proof (cases "k = TkSyncAck i")
    case True
    let ?sy = "sy\<lparr>sy_ack_timer := None\<rparr>" and ?out = "snd (take_timer t out)"
    from fired True have 1: "sync_inv ?out (set_sync i ?sy s)" by simp
    then have "sync_inv ?out (set_sync i (?sy\<lparr>sy_pass := Suc (sy_pass ?sy)\<rparr>) (set_sync i ?sy s))"
      if "\<not> sc_max_retries (ss_config s) \<le> sy_pass sy"
      using that by (intro sync_inv_set [OF 1, of i ?sy]) auto
    from sync_inv_send_pass [OF this, of i read] sync_inv_finish [OF 1, of i] True k(1) i(1) show ?thesis
      by (simp add: sync_on_timer_unfold timer_fired_def Let_def)
  next
    case False
    with fired i k show ?thesis
      by (auto simp: sync_on_timer_unfold timer_fired_def intro!: sync_inv_finish)
  qed
qed

lemma sync_inv_close:
  assumes "sync_inv out s"
  shows "sync_inv (fst (close out s)) (snd (close out s))"
  unfolding close_def
  by (rule foldl_inv [where P = "\<lambda>p. sync_inv (fst p) (snd p)"]) (auto simp: assms sync_inv_abort case_prod_beta)

section \<open>Chunks cover what is missing\<close>

text \<open>Entries one chunk may carry: within the byte budget, or a single one.\<close>

definition fits :: "entry_json \<Rightarrow> SyncConfig \<Rightarrow> SyncEntry list \<Rightarrow> bool" where
  "fits json config es =
     (sum_list (map (entry_size json) es) \<le> sc_chunk_bytes config
      \<or> length (filter (\<lambda>e. 0 < entry_size json e) es) \<le> 1)"

definition in_range :: "SeqRange \<Rightarrow> SyncEntry \<Rightarrow> bool" where
  "in_range rg e = (fst rg \<le> se_seq e \<and> se_seq e \<le> snd rg)"

lemma fits_filter: "fits json config es \<Longrightarrow> fits json config (filter P es)"
proof -
  have "length (filter Q (filter P es)) \<le> length (filter Q es)" for Q
    using length_filter_le [of P "filter Q es"] by (simp add: conj_commute)
  then show "fits json config es \<Longrightarrow> ?thesis"
    unfolding fits_def using sum_list_filter_le_nat [of "entry_size json" P es] by (meson le_trans)
qed

lemma fits_filter_imp:
  "fits json config (filter P es) \<Longrightarrow> (\<And>e. Q e \<Longrightarrow> P e) \<Longrightarrow> fits json config (filter Q es)"
proof -
  assume "fits json config (filter P es)" and "\<And>e. Q e \<Longrightarrow> P e"
  then have "filter Q es = filter Q (filter P es)" by (auto intro: filter_cong)
  with \<open>fits json config (filter P es)\<close> show ?thesis by (simp only: fits_filter)
qed

text \<open>The loop's chunks fill the range from where the open chunk starts up to the new open chunk.\<close>

lemma cut_loop_partition:
  assumes "in_seq_order es" "\<forall>e \<in> set es. start \<le> se_seq e" "0 < bytes \<longrightarrow> (\<forall>e \<in> set es. start < se_seq e)"
    and "start \<le> hi" "\<forall>e \<in> set es. se_seq e \<le> hi"
  shows "\<exists>cs start'. cut_loop json config es chunks start bytes = (chunks @ cs, start')
    \<and> start \<le> start' \<and> start' \<le> hi \<and> seqs cs = {start..<start'}
    \<and> (\<forall>(a, b) \<in> set cs. start \<le> a \<and> a \<le> b \<and> b < start') \<and> sorted_wrt (\<lambda>(a, b) (c, d). b < c) cs"
  using assms
proof (induction es arbitrary: chunks start bytes)
  case (Cons e es)
  let ?sz = "entry_size json e"
  let ?full = "0 < bytes \<and> (sc_chunk_size config \<le> se_seq e - start \<or> sc_chunk_bytes config < bytes + ?sz)"
  have rest: "in_seq_order es" "\<forall>x \<in> set es. se_seq e < se_seq x" "\<forall>x \<in> set es. se_seq x \<le> hi" "se_seq e \<le> hi"
    using Cons.prems by (auto simp: in_seq_order_Cons)
  show ?case
  proof (cases ?full)
    case False
    have "\<forall>x \<in> set es. start \<le> se_seq x" "0 < bytes + ?sz \<longrightarrow> (\<forall>x \<in> set es. start < se_seq x)"
      using Cons.prems rest(2) by fastforce+
    from Cons.IH [OF rest(1) this Cons.prems(4) rest(3), of chunks] False show ?thesis by (auto simp: Let_def)
  next
    case True
    then have lt: "start < se_seq e" using Cons.prems(3) by simp
    have "\<forall>x \<in> set es. se_seq e \<le> se_seq x" using rest(2) by (auto intro: less_imp_le)
    from Cons.IH [OF rest(1) this _ rest(4,3), of ?sz "chunks @ [(start, se_seq e - 1)]"] rest(2)
    obtain cs start' where
      eq: "cut_loop json config es (chunks @ [(start, se_seq e - 1)]) (se_seq e) ?sz
        = ((chunks @ [(start, se_seq e - 1)]) @ cs, start')"
      and cs: "se_seq e \<le> start'" "start' \<le> hi" "seqs cs = {se_seq e..<start'}"
        "\<forall>(a, b) \<in> set cs. se_seq e \<le> a \<and> a \<le> b \<and> b < start'" "sorted_wrt (\<lambda>(a, b) (c, d). b < c) cs"
      by auto
    have "seqs ((start, se_seq e - 1) # cs) = {start..<start'}" using lt cs(1) by (auto simp: cs(3))
    moreover have "\<forall>(a, b) \<in> set ((start, se_seq e - 1) # cs). start \<le> a \<and> a \<le> b \<and> b < start'"
      using cs(1,4) lt by fastforce
    moreover have "sorted_wrt (\<lambda>(a, b) (c, d). b < c) ((start, se_seq e - 1) # cs)" using cs(4,5) lt by fastforce
    moreover have "cut_loop json config (e # es) chunks start bytes = (chunks @ ((start, se_seq e - 1) # cs), start')"
      using eq True by (simp add: Let_def)
    ultimately show ?thesis using cs(1,2) lt by (intro exI conjI) (auto intro: less_imp_le)
  qed
qed auto

text \<open>And each of them carries entries that fit, \<open>held\<close> being those of the open chunk so far.\<close>

lemma cut_loop_fits:
  assumes "in_seq_order (held @ es)" "\<forall>e \<in> set (held @ es). start \<le> se_seq e"
    and "bytes = sum_list (map (entry_size json) held)" "fits json config held"
    and "\<forall>e \<in> set es. se_seq e \<le> hi" "start \<le> hi"
    and "cut_loop json config es chunks start bytes = (chunks @ cs, start')"
  shows "(\<forall>rg \<in> set cs. fits json config (filter (in_range rg) (held @ es)))
    \<and> fits json config (filter (\<lambda>e. start' \<le> se_seq e) (held @ es))"
  using assms
proof (induction es arbitrary: held chunks cs start bytes)
  case Nil
  then show ?case using fits_filter by fastforce
next
  case (Cons e es)
  let ?sz = "entry_size json e"
  let ?full = "0 < bytes \<and> (sc_chunk_size config \<le> se_seq e - start \<or> sc_chunk_bytes config < bytes + ?sz)"
  have order: "in_seq_order es" "\<forall>x \<in> set held. se_seq x < se_seq e" "\<forall>x \<in> set es. se_seq e < se_seq x"
    using Cons.prems(1) by (auto simp: in_seq_order_append in_seq_order_Cons)
  show ?case
  proof (cases ?full)
    case False
    have "fits json config (held @ [e])"
    proof (cases "bytes = 0")
      case True
      then have "filter (\<lambda>e. 0 < entry_size json e) held = []"
        using Cons.prems(3) by (auto simp: filter_empty_conv)
      then show ?thesis by (simp add: fits_def)
    qed (use False Cons.prems(3) in \<open>auto simp: fits_def\<close>)
    moreover have "cut_loop json config es chunks start (bytes + ?sz) = (chunks @ cs, start')"
      using Cons.prems(7) False by (simp add: Let_def split: if_splits)
    ultimately show ?thesis
      using Cons.IH [of "held @ [e]" start "bytes + ?sz" chunks cs] Cons.prems(1,2,3,5,6) by simp
  next
    case True
    then have "held \<noteq> []" using Cons.prems(3) by auto
    then have lt: "start < se_seq e" using Cons.prems(2) order(2) by (metis Un_iff le_less_trans list.set_sel(1) set_append)
    have eq: "cut_loop json config es (chunks @ [(start, se_seq e - 1)]) (se_seq e) ?sz = (chunks @ cs, start')"
      using Cons.prems(7) True by (simp add: Let_def)
    have "\<forall>x \<in> set es. se_seq e \<le> se_seq x" using order(3) by (auto intro: less_imp_le)
    from cut_loop_partition [OF order(1) this, of ?sz hi json config "chunks @ [(start, se_seq e - 1)]"]
    obtain cs' where cs: "cs = (start, se_seq e - 1) # cs'" and low: "se_seq e \<le> start'"
      "\<forall>(a, b) \<in> set cs'. se_seq e \<le> a" using Cons.prems(5) order(3) eq by fastforce
    have "fits json config [e]" by (simp add: fits_def)
    then have IH: "\<forall>rg \<in> set cs'. fits json config (filter (in_range rg) ([e] @ es))"
      "fits json config (filter (\<lambda>e. start' \<le> se_seq e) ([e] @ es))"
      using Cons.IH [of "[e]" "se_seq e" ?sz "chunks @ [(start, se_seq e - 1)]" cs'] eq cs Cons.prems(5)
        order(1,3) \<open>\<forall>x \<in> set es. se_seq e \<le> se_seq x\<close> by (simp_all add: in_seq_order_Cons)
    have "filter (in_range (start, se_seq e - 1)) (held @ e # es) = held"
    proof -
      have "\<forall>x \<in> set held. in_range (start, se_seq e - 1) x" using order(2) Cons.prems(2) by (auto simp: in_range_def)
      moreover have "\<forall>x \<in> set (e # es). \<not> in_range (start, se_seq e - 1) x" using order(3) lt by (auto simp: in_range_def)
      ultimately show ?thesis by (simp add: filter_empty_conv filter_id_conv)
    qed
    moreover have "filter (in_range rg) held = []" if "rg \<in> set cs'" for rg
      using that low(2) order(2) by (fastforce simp: in_range_def filter_empty_conv)
    moreover have "filter (\<lambda>e. start' \<le> se_seq e) held = []"
      using low(1) order(2) by (fastforce simp: filter_empty_conv)
    ultimately show ?thesis using IH Cons.prems(4) by (simp add: cs)
  qed
qed

context transcripts_port
begin

lemma cut:
  assumes "a \<le> b" "b \<le> u64_max" "0 < sc_chunk_size config"
  shows "seqs (cut json config read i (a, b)) = {a..b}
    \<and> (\<forall>(c, d) \<in> set (cut json config read i (a, b)). a \<le> c \<and> c \<le> d \<and> d \<le> b)
    \<and> sorted_wrt (\<lambda>(a, b) (c, d). b < c) (cut json config read i (a, b))"
proof -
  have whole: "seqs (chunk_ranges [(x, b)] (sc_chunk_size config)) = {x..b}
    \<and> (\<forall>(c, d) \<in> set (chunk_ranges [(x, b)] (sc_chunk_size config)). x \<le> c \<and> c \<le> d \<and> d \<le> b)
    \<and> sorted_wrt (\<lambda>(a, b) (c, d). b < c) (chunk_ranges [(x, b)] (sc_chunk_size config))" if "x \<le> b" for x
  proof -
    have "chunk_ranges [(x, b)] (sc_chunk_size config) = chunk_loop x b (sc_chunk_size config)"
      using that by (simp add: chunk_ranges_def normalize_ranges_def)
    with chunk_loop [OF that assms(2,3)] show ?thesis by fastforce
  qed
  show ?thesis
  proof (cases "read i (a, b)")
    case (Inl err)
    with whole [OF assms(1)] show ?thesis by (simp add: cut_def)
  next
    case (Inr es)
    have "in_seq_order es" "\<forall>e \<in> set es. a \<le> se_seq e" "\<forall>e \<in> set es. se_seq e \<le> b"
      using read_ordered [OF Inr] read_within [OF Inr] by auto
    from cut_loop_partition [OF this(1,2) _ assms(1) this(3), of 0 json config "[]"]
    obtain cs x where cs: "cut_loop json config es [] a 0 = (cs, x)" "a \<le> x" "x \<le> b" "seqs cs = {a..<x}"
      "\<forall>(c, d) \<in> set cs. a \<le> c \<and> c \<le> d \<and> d < x" "sorted_wrt (\<lambda>(a, b) (c, d). b < c) cs" by auto
    note tail = whole [OF cs(3)]
    have "cut json config read i (a, b) = cs @ chunk_ranges [(x, b)] (sc_chunk_size config)"
      using Inr cs(1) by (simp add: cut_def)
    moreover have "{a..<x} \<union> {x..b} = {a..b}" using cs(2,3) by auto
    moreover have "sorted_wrt (\<lambda>(a, b) (c, d). b < c) (cs @ chunk_ranges [(x, b)] (sc_chunk_size config))"
      using tail cs(5,6) by (fastforce simp: sorted_wrt_append)
    ultimately show ?thesis using tail cs(2-5) by fastforce
  qed
qed

text \<open>Every chunk of a range carries entries that fit in one event.\<close>

lemma cut_fits:
  assumes "a \<le> b" "b \<le> u64_max" "0 < sc_chunk_size config" "rg \<in> set (cut json config read i (a, b))"
    and "read i (a, b) = Inr es" "read i rg = Inr es'"
  shows "fits json config es'"
proof -
  obtain c d where rg: "rg = (c, d)" by (cases rg)
  have order: "in_seq_order es" "\<forall>e \<in> set es. a \<le> se_seq e" "\<forall>e \<in> set es. se_seq e \<le> b"
    using read_ordered [OF assms(5)] read_within [OF assms(5)] by auto
  from cut_loop_partition [OF order(1,2) _ assms(1) order(3), of 0 json config "[]"]
  obtain cs x where cs: "cut_loop json config es [] a 0 = ([] @ cs, x)" "x \<le> b" by auto
  from cut_loop_fits [of "[]" es a 0 json config b "[]" cs x] order assms(1) cs(1)
  have fit: "\<forall>rg \<in> set cs. fits json config (filter (in_range rg) es)"
    "fits json config (filter (\<lambda>e. x \<le> se_seq e) es)" by (auto simp: fits_def)
  have "es' = filter (in_range rg) es"
    using cut [OF assms(1-3), of json i] assms(4) read_narrow [OF assms(5), of c d es'] assms(6)
    by (fastforce simp: rg in_range_def intro: filter_cong)
  moreover have "rg \<in> set cs \<or> rg \<in> set (chunk_loop x b (sc_chunk_size config))"
    using assms(4,5) cs by (simp add: cut_def chunk_ranges_def normalize_ranges_def)
  moreover have "x \<le> c" if "rg \<in> set (chunk_loop x b (sc_chunk_size config))"
    using that chunk_loop(2) [OF cs(2) assms(2,3)] by (fastforce simp: rg)
  ultimately show ?thesis
    using fit fits_filter_imp [OF fit(2), of "in_range rg"] by (fastforce simp: rg in_range_def)
qed

end

section \<open>What goes on the wire\<close>

definition messages :: "Effect list \<Rightarrow> (Addressee list \<times> BridgeToPhone) list" where
  "messages es = concat (map (\<lambda>e. case e of Publish to m \<Rightarrow> [(to, m)] | _ \<Rightarrow> []) es)"

lemma messages_simps [simp]:
  "messages [] = []" "messages (es @ fs) = messages es @ messages fs"
  "messages (Publish to m # es) = (to, m) # messages es" "messages (SetTimer i d # es) = messages es"
  "messages (CancelTimer i # es) = messages es"
  by (simp_all add: messages_def)

lemma messages_cancel_both [simp]: "messages (effects (cancel_both sy out)) = messages (effects out)"
  by (simp add: cancel_both_cases split: option.split)

lemma messages_touch [simp]: "messages (effects (fst (touch i out s))) = messages (effects out)"
  by (simp add: touch_unfold Let_def split: option.split)

lemma messages_replaced [simp]: "messages (effects (fst (replaced sid to out s))) = messages (effects out)"
  by (simp add: replaced_def abort_def remove_unfold split: option.split)

lemma messages_finish:
  "om_get (by_id s) i = Some sy \<Longrightarrow> messages (effects (fst (finish i out s))) = messages (effects out)
     @ [([sy_to sy], SyncEnd (sy_session_id sy) i (union_ranges (acked_ranges (sy_chunks sy)) []))]"
  by (simp add: finish_unfold remove_unfold)

lemma send_chunks_ok:
  assumes "\<forall>rg \<in> set ranges. \<exists>es. read sid rg = Inr es"
  shows "snd (send_chunks read sid i to ranges out)
    \<and> messages (effects (fst (send_chunks read sid i to ranges out)))
      = messages (effects out) @ map (\<lambda>rg. ([to], SyncChunk sid i rg (projr (read sid rg)))) ranges"
  using assms by (induction ranges arbitrary: out) auto

text \<open>A pass over a readable store sends every chunk not acked yet, to the client that asked.\<close>

lemma send_pass_messages:
  assumes "om_get (by_id s) i = Some sy" "unacked_ranges (sy_chunks sy) \<noteq> []"
    and "\<forall>rg \<in> set (unacked_ranges (sy_chunks sy)). \<exists>es. read (sy_session_id sy) rg = Inr es"
  shows "messages (effects (fst (send_pass read i out s))) = messages (effects out)
      @ map (\<lambda>rg. ([sy_to sy], SyncChunk (sy_session_id sy) i rg (projr (read (sy_session_id sy) rg))))
          (unacked_ranges (sy_chunks sy))"
    and "\<exists>a b. om_get (by_id (snd (send_pass read i out s))) i = Some (sy\<lparr>sy_idle_timer := Some a, sy_ack_timer := Some b\<rparr>)"
proof -
  note sent = send_chunks_ok [where read = read and sid = "sy_session_id sy" and i = i and to = "sy_to sy"
      and out = out, OF assms(3)]
  show "messages (effects (fst (send_pass read i out s))) = messages (effects out)
      @ map (\<lambda>rg. ([sy_to sy], SyncChunk (sy_session_id sy) i rg (projr (read (sy_session_id sy) rg))))
          (unacked_ranges (sy_chunks sy))"
    using assms(1,2) sent by (simp add: send_pass_unfold Let_def)
  obtain t where "om_get (by_id (snd (touch i (fst (send_chunks read (sy_session_id sy) i (sy_to sy)
      (unacked_ranges (sy_chunks sy)) out)) s))) i = Some (sy\<lparr>sy_idle_timer := Some t\<rparr>)"
    using touch_get(1) [OF assms(1)] by blast
  with assms(1,2) sent show "\<exists>a b. om_get (by_id (snd (send_pass read i out s))) i
      = Some (sy\<lparr>sy_idle_timer := Some a, sy_ack_timer := Some b\<rparr>)"
    by (auto simp: send_pass_unfold Let_def)
qed

lemma new_sync_unacked:
  "unacked_ranges (sy_chunks (new_sync json read config sid to have seq_high))
     = concat (map (cut json config read sid) (missing_ranges have 1 seq_high))"
  by (simp add: unacked_ranges_def new_sync_def comp_def)

text \<open>The chunks of a request, over a store that keeps the port's contract.\<close>

lemma sorted_wrt_concat:
  assumes "canonical rs" "\<And>a b. (a, b) \<in> set rs \<Longrightarrow> (\<forall>(c, d) \<in> set (f (a, b)). a \<le> c \<and> c \<le> d \<and> d \<le> b)
    \<and> sorted_wrt (\<lambda>(a, b) (c, d). b < c) (f (a, b))"
  shows "sorted_wrt (\<lambda>(a, b) (c, d). b < c) (concat (map f rs))"
  using assms
proof (induction rs)
  case (Cons r rs)
  obtain a b where r: "r = (a, b)" by (cases r)
  have "b < c" if "(c, d) \<in> set (concat (map f rs))" for c d
  proof -
    from that obtain x y where xy: "(x, y) \<in> set rs" "(c, d) \<in> set (f (x, y))" by auto
    with Cons.prems(2) [of x y] have "x \<le> c" by auto
    with xy(1) Cons.prems(1) show ?thesis by (fastforce simp: r canonical_Cons)
  qed
  moreover have "sorted_wrt (\<lambda>(a, b) (c, d). b < c) (concat (map f rs))"
    using Cons.IH Cons.prems by (simp add: r canonical_Cons)
  ultimately show ?case using Cons.prems(2) [of a b] by (fastforce simp: r sorted_wrt_append)
qed simp

context transcripts_port
begin

lemma request_chunks:
  assumes "in_u64 have" "seq_high < u64_max" "0 < sc_chunk_size config"
    and chunks_def: "chunks = concat (map (cut json config read sid) (missing_ranges have 1 seq_high))"
  shows "seqs chunks = {1..seq_high} - seqs have" and "sorted_wrt (\<lambda>(a, b) (c, d). b < c) chunks"
    and "\<forall>(a, b) \<in> set chunks. a \<le> b \<and> b \<le> seq_high"
proof -
  note missing = missing_ranges [OF assms(1,2), of 1]
  have each: "a \<le> b \<and> b \<le> seq_high \<and> b \<le> u64_max" if "(a, b) \<in> set (missing_ranges have 1 seq_high)" for a b
    using that missing(2,3) assms(2) by (fastforce simp: canonical_def)
  note cut' = cut [OF _ _ assms(3), of _ _ json sid]
  have "seqs chunks = (\<Union>r \<in> set (missing_ranges have 1 seq_high). seqs (cut json config read sid r))"
    by (simp add: chunks_def seqs_concat)
  also have "\<dots> = (\<Union>(a, b) \<in> set (missing_ranges have 1 seq_high). {a..b})"
    using cut' each by (intro SUP_cong) auto
  finally show "seqs chunks = {1..seq_high} - seqs have" using missing(1) by (simp add: seqs_def)
  show "sorted_wrt (\<lambda>(a, b) (c, d). b < c) chunks"
    unfolding chunks_def using cut' each by (intro sorted_wrt_concat [OF missing(2)]) blast
  show "\<forall>(a, b) \<in> set chunks. a \<le> b \<and> b \<le> seq_high"
  proof clarify
    fix a b assume "(a, b) \<in> set chunks"
    then obtain x y where xy: "(x, y) \<in> set (missing_ranges have 1 seq_high)" "(a, b) \<in> set (cut json config read sid (x, y))"
      by (auto simp: chunks_def)
    with cut' [of x y] each [OF xy(1)] show "a \<le> b \<and> b \<le> seq_high" by fastforce
  qed
qed

lemma request_chunks_fit:
  assumes "in_u64 have" "seq_high < u64_max" "0 < sc_chunk_size config"
    and "rg \<in> set (concat (map (cut json config read sid) (missing_ranges have 1 seq_high)))"
    and "\<forall>r. \<exists>es. read sid r = Inr es"
  shows "fits json config (projr (read sid rg))"
proof -
  from assms(4) obtain x y where xy: "(x, y) \<in> set (missing_ranges have 1 seq_high)" "rg \<in> set (cut json config read sid (x, y))"
    by auto
  moreover have "x \<le> y \<and> y \<le> u64_max"
    using xy(1) missing_ranges(2,3) [OF assms(1,2), of 1] assms(2) by (fastforce simp: canonical_def)
  moreover obtain es es' where "read sid (x, y) = Inr es" "read sid rg = Inr es'" using assms(5) by blast
  ultimately show ?thesis using cut_fits [OF _ _ assms(3) xy(2)] by simp
qed

end

lemma request_get:
  "om_get (by_id (set_sync i (new_sync json read config sid to have seq_high) s)) i
     = Some (new_sync json read config sid to have seq_high)"
  by simp

lemma new_sync_simps [simp]:
  "sy_session_id (new_sync json read config sid to have seq_high) = sid"
  "sy_to (new_sync json read config sid to have seq_high) = to"
  "acked_ranges (sy_chunks (new_sync json read config sid to have seq_high)) = []"
  by (simp_all add: new_sync_def acked_ranges_def)

lemma request_messages:
  assumes "\<forall>rg. \<exists>es. read sid rg = Inr es"
    and chunks_def: "chunks = concat (map (cut json (ss_config s) read sid) (missing_ranges have 1 seq_high))"
  shows "messages (effects (fst (request json read i sid to have seq_high out s))) = messages (effects out)
      @ ([to], SyncBegin sid i seq_high (missing_ranges have 1 seq_high))
      # (if chunks = [] then [([to], SyncEnd sid i [])]
         else map (\<lambda>rg. ([to], SyncChunk sid i rg (projr (read sid rg)))) chunks)"
proof -
  define out1 where "out1 = publish_addressed [to] (SyncBegin sid i seq_high (missing_ranges have 1 seq_high))
    (fst (replaced sid to out s))"
  define s1 where "s1 = (snd (replaced sid to out s))\<lparr>by_key := om_put (sid, ad_phone to, ad_key to) i
    (by_key (snd (replaced sid to out s)))\<rparr>"
  define sy where "sy = new_sync json read (ss_config s) sid to have seq_high"
  have req: "request json read i sid to have seq_high out s = send_pass read i out1 (set_sync i sy s1)"
    by (simp add: request_unfold Let_def out1_def s1_def sy_def)
  have sy: "unacked_ranges (sy_chunks sy) = chunks" "sy_session_id sy = sid" "sy_to sy = to"
    "acked_ranges (sy_chunks sy) = []" "om_get (by_id (set_sync i sy s1)) i = Some sy"
    by (simp_all add: sy_def new_sync_unacked chunks_def)
  have out1: "messages (effects out1) = messages (effects out) @ [([to], SyncBegin sid i seq_high (missing_ranges have 1 seq_high))]"
    by (simp add: out1_def)
  show ?thesis
  proof (cases "chunks = []")
    case True
    then have "send_pass read i out1 (set_sync i sy s1) = finish i out1 (set_sync i sy s1)"
      using sy by (simp add: send_pass_unfold Let_def)
    with messages_finish [OF sy(5), of out1] True show ?thesis
      unfolding req sy out1 by (simp add: union_ranges_def normalize_ranges_def)
  next
    case False
    with send_pass_messages(1) [OF sy(5), of read out1] assms(1) show ?thesis
      unfolding req sy out1 by simp
  qed
qed

section \<open>Reachable states\<close>

text \<open>
  What happens to a sync server: requests under fresh ids, acks, timers that fire, shutdown, and
  the rest of the engine working on the shared buffer, which leaves the sync timers alone.
\<close>

inductive sync_reach :: "entry_json \<Rightarrow> transcript_read \<Rightarrow> SyncConfig \<Rightarrow> Out \<Rightarrow> SyncServer \<Rightarrow> bool"
  for json read config where
  start: "sync_reach json read config empty_out (sync_server_new config)"
| request: "sync_reach json read config out s \<Longrightarrow> om_get (by_id s) i = None
    \<Longrightarrow> request json read i sid to have seq_high out s = (out', s') \<Longrightarrow> sync_reach json read config out' s'"
| ack: "sync_reach json read config out s \<Longrightarrow> ack i ranges out s = (out', s') \<Longrightarrow> sync_reach json read config out' s'"
| timer: "sync_reach json read config out s \<Longrightarrow> sync_on_timer read t out s = (out', s') \<Longrightarrow> sync_reach json read config out' s'"
| close: "sync_reach json read config out s \<Longrightarrow> close out s = (out', s') \<Longrightarrow> sync_reach json read config out' s'"
| other: "sync_reach json read config out s \<Longrightarrow> out_inv out'
    \<Longrightarrow> (\<And>t k. sync_kind k \<Longrightarrow> (om_get (timers out') t = Some k) = (om_get (timers out) t = Some k))
    \<Longrightarrow> sync_reach json read config out' s"

lemma config_remove [simp]: "ss_config (snd (snd (remove i out s))) = ss_config s"
  by (simp add: remove_unfold split: option.split)

lemma config_finish [simp]: "ss_config (snd (finish i out s)) = ss_config s"
  by (simp add: finish_unfold split: option.split)

lemma config_touch [simp]: "ss_config (snd (touch i out s)) = ss_config s"
  by (simp add: touch_unfold Let_def split: option.split)

lemma config_send_pass [simp]: "ss_config (snd (send_pass read i out s)) = ss_config s"
  by (simp add: send_pass_unfold Let_def split: option.split)

lemma config_ops [simp]:
  "ss_config (snd (request json read i sid to have seq_high out s)) = ss_config s"
  "ss_config (snd (ack i ranges out s)) = ss_config s"
  "ss_config (snd (sync_on_timer read t out s)) = ss_config s"
  "ss_config (snd (close out s)) = ss_config s"
proof -
  show "ss_config (snd (close out s)) = ss_config s"
    unfolding close_def
    using foldl_frame [where g = "\<lambda>p. ss_config (snd p)" and f = "\<lambda>(out1, s1) i. abort i out1 s1" and s = "(out, s)"
        and xs = "om_keys (by_id s)"]
    by (auto simp: abort_def)
qed (simp_all add: request_unfold ack_unfold sync_on_timer_unfold timer_fired_def Let_def
       split: option.split TimerKind.split)

lemma sync_inv_new: "sync_inv empty_out (sync_server_new config)"
  by (simp add: sync_inv_def out_inv_empty index_inv_def sync_server_new_def book.owns_def sync_owns_def)
     (simp add: empty_out_def)

lemma sync_reach_inv: "sync_reach json read config out s \<Longrightarrow> sync_inv out s \<and> ss_config s = config"
proof (induction rule: sync_reach.induct)
  case start
  show ?case using sync_inv_new by (simp add: sync_server_new_def)
next
  case (request out s i sid to h seq_high out' s')
  then show ?case
    using sync_inv_request [of out s i json read sid to h seq_high] config_ops(1) [of json read i sid to h seq_high out s]
    by simp
next
  case (ack out s i ranges out' s')
  then show ?case using sync_inv_ack [of out s i ranges] config_ops(2) [of i ranges out s] by simp
next
  case (timer out s t out' s')
  then show ?case using sync_inv_on_timer [of out s read t] config_ops(3) [of read t out s] by simp
next
  case (close out s out' s')
  then show ?case using sync_inv_close [of out s] config_ops(4) [of out s] by simp
next
  case (other out s out')
  then show ?case by (auto simp: sync_inv_def book.owns_def)
qed

section \<open>Acks\<close>

lemma mark_chunk_Some:
  "mark_chunk rg cs = Some cs' \<Longrightarrow> distinct (map ck_range cs)
    \<Longrightarrow> rg \<in> set (map ck_range cs) \<and> cs' = map (\<lambda>c. if ck_range c = rg then c\<lparr>ck_acked := True\<rparr> else c) cs"
proof (induction cs arbitrary: cs')
  case (Cons c cs)
  show ?case
  proof (cases "ck_range c = rg")
    case True
    with Cons.prems have "\<forall>d \<in> set cs. ck_range d \<noteq> rg" by (auto simp: rev_image_eqI)
    then have "map (\<lambda>c. if ck_range c = rg then c\<lparr>ck_acked := True\<rparr> else c) cs = cs" by (simp add: map_idI)
    with True Cons.prems show ?thesis by auto
  qed (use Cons in auto)
qed simp

lemma mark_chunk_None: "mark_chunk rg cs = None \<longleftrightarrow> rg \<notin> set (map ck_range cs)"
  by (induction cs) auto

lemma mark_chunks:
  assumes "distinct (map ck_range cs)"
  shows "mark_chunks ranges cs =
    (map (\<lambda>c. if ck_range c \<in> set ranges then c\<lparr>ck_acked := True\<rparr> else c) cs,
     \<exists>rg \<in> set ranges. rg \<in> set (map ck_range cs))"
proof -
  let ?step = "\<lambda>(cs, any) rg. case mark_chunk rg cs of None \<Rightarrow> (cs, any) | Some cs' \<Rightarrow> (cs', True)"
  have "foldl ?step (cs, any) ranges =
    (map (\<lambda>c. if ck_range c \<in> set ranges then c\<lparr>ck_acked := True\<rparr> else c) cs,
     any \<or> (\<exists>rg \<in> set ranges. rg \<in> set (map ck_range cs)))" for any
    using assms
  proof (induction ranges arbitrary: cs any)
    case (Cons rg ranges)
    show ?case
    proof (cases "mark_chunk rg cs")
      case None
      then have "\<forall>c \<in> set cs. ck_range c \<noteq> rg" by (auto simp: mark_chunk_None)
      with None Cons show ?thesis by (auto simp: image_iff intro!: map_cong)
    next
      case (Some cs')
      note mark = mark_chunk_Some [OF Some Cons.prems]
      then have same: "map ck_range cs' = map ck_range cs" by (auto simp: comp_def intro!: map_cong)
      with Cons.prems have "distinct (map ck_range cs')" by simp
      note IH = Cons.IH [OF this, of True]
      show ?thesis using Some IH mark by (auto simp: comp_def image_iff intro!: map_cong)
    qed
  qed simp
  then show ?thesis by (simp add: mark_chunks_def)
qed

lemma ranges_distinct:
  "sorted_wrt (\<lambda>(a, b) (c, d). b < c) rs \<Longrightarrow> \<forall>(a, b) \<in> set rs. a \<le> b \<Longrightarrow> distinct (rs :: SeqRange list)"
  by (induction rs) fastforce+

text \<open>An ack that leaves nothing unacked ends the sync with everything it set out to deliver.\<close>

lemma ack_all:
  assumes "om_get (by_id s) i = Some sy" "distinct (map ck_range (sy_chunks sy))" "sy_chunks sy \<noteq> []"
    and "ck_range ` set (sy_chunks sy) \<subseteq> set ranges"
  shows "messages (effects (fst (ack i ranges out s))) = messages (effects out)
      @ [([sy_to sy], SyncEnd (sy_session_id sy) i (union_ranges (map ck_range (sy_chunks sy)) []))]"
    and "om_get (by_id (snd (ack i ranges out s))) i = None"
proof -
  let ?cs = "map (\<lambda>c. if ck_range c \<in> set ranges then c\<lparr>ck_acked := True\<rparr> else c) (sy_chunks sy)"
  have all: "list_all ck_acked ?cs" "acked_ranges ?cs = map ck_range (sy_chunks sy)"
    using assms(4) by (auto simp: list_all_iff acked_ranges_def filter_map comp_def image_subset_iff
        intro!: map_cong filter_True)
  have any: "\<exists>rg \<in> set ranges. rg \<in> set (map ck_range (sy_chunks sy))"
    using assms(3,4) by (metis hd_in_set image_eqI image_subset_iff list.set_map)
  have "ack i ranges out s = finish i out (set_sync i (sy\<lparr>sy_chunks := ?cs\<rparr>) s)"
    using assms(1) all(1) any by (simp add: ack_unfold mark_chunks [OF assms(2)] Let_def)
  then show "messages (effects (fst (ack i ranges out s))) = messages (effects out)
      @ [([sy_to sy], SyncEnd (sy_session_id sy) i (union_ranges (map ck_range (sy_chunks sy)) []))]"
    "om_get (by_id (snd (ack i ranges out s))) i = None"
    using all(2) by (simp_all add: messages_finish) (simp add: finish_unfold remove_unfold)
qed

section \<open>Properties\<close>

text \<open>C27: In every reachable state the armed sync timers are exactly those held by the syncs under
  way (none leaks, none is lost), a session and client have at most one sync and both indexes name
  the same one, and no sync is past its last retry.\<close>

theorem sync_state_consistent:
  assumes "sync_reach json read config out s"
  shows "(om_get (timers out) t = Some (TkSyncAck i)) = (\<exists>sy. om_get (by_id s) i = Some sy \<and> sy_ack_timer sy = Some t)
    \<and> (om_get (timers out) t = Some (TkSyncIdle i)) = (\<exists>sy. om_get (by_id s) i = Some sy \<and> sy_idle_timer sy = Some t)
    \<and> (om_get (by_key s) key = Some i) = (\<exists>sy. om_get (by_id s) i = Some sy \<and> key_of sy = key)
    \<and> (\<forall>sy. om_get (by_id s) i = Some sy \<longrightarrow> sy_pass sy \<le> sc_max_retries config)"
proof -
  have inv: "sync_inv out s" "ss_config s = config" using sync_reach_inv [OF assms] by auto
  then have own: "book.owns sync_kind (sync_owns s) out" and ix: "index_inv s" by (auto simp: sync_inv_def)
  have "(om_get (timers out) t = Some (TkSyncAck i)) = (\<exists>sy. om_get (by_id s) i = Some sy \<and> sy_ack_timer sy = Some t)"
    "(om_get (timers out) t = Some (TkSyncIdle i)) = (\<exists>sy. om_get (by_id s) i = Some sy \<and> sy_idle_timer sy = Some t)"
    using own by (auto simp: book.owns_def sync_owns_def holds_timer_def)
  moreover have "(om_get (by_key s) key = Some i) = (\<exists>sy. om_get (by_id s) i = Some sy \<and> key_of sy = key)"
    using ix unfolding index_inv_def by blast
  moreover have "\<forall>sy. om_get (by_id s) i = Some sy \<longrightarrow> sy_pass sy \<le> sc_max_retries config"
    using ix inv(2) unfolding index_inv_def by blast
  ultimately show ?thesis by blast
qed

text \<open>A small store: one session with seqs 1, 2 and 4 of a pruned transcript, one byte each.\<close>

definition sample_store :: MemoryTranscripts where
  "sample_store = \<lparr>mt_files = [(''s'', [SyncEntry 1 ''a'', SyncEntry 2 ''b'', SyncEntry 4 ''c''])], mt_failing = False\<rparr>"

definition sample_json :: entry_json where
  "sample_json e = Some (se_entry e)"

definition sample_client :: Addressee where
  "sample_client = \<lparr>ad_phone = ''p'', ad_key = ''k''\<rparr>"

definition sample_sync :: "Out \<times> SyncServer" where
  "sample_sync = request sample_json (mt_read sample_store) ''i'' ''s'' sample_client [(2, 2)] 4 empty_out
     (sync_server_new default_sync_config)"

lemma sample_port: "transcripts_port (mt_read sample_store)"
  by (rule mt_read_port) (simp add: mt_ok_def mt_entries_def sample_store_def in_seq_order_Cons)

lemma sample_reach: "sync_reach sample_json (mt_read sample_store) default_sync_config (fst sample_sync) (snd sample_sync)"
  by (rule sync_reach.request [OF sync_reach.start, where i = "''i''"])
     (auto simp: sample_sync_def sync_server_new_def)

theorem sync_state_consistent_witness:
  "(om_get (timers (fst sample_sync)) 2 = Some (TkSyncAck ''i''))
    = (\<exists>sy. om_get (by_id (snd sample_sync)) ''i'' = Some sy \<and> sy_ack_timer sy = Some 2)"
  using sync_state_consistent [OF sample_reach, of 2 "''i''"] by blast

text \<open>C8: A request over a readable store announces exactly the missing seqs and then sends, to
  the requesting client alone, chunks that are disjoint, in order and together cover exactly what
  the phone misses, each carrying the stored entries of its range; with nothing missing it ends at once.\<close>

theorem sync_request_covers_missing:
  assumes "transcripts_port read" "\<forall>rg. \<exists>es. read sid rg = Inr es"
    and "in_u64 have" "seq_high < u64_max" "0 < sc_chunk_size (ss_config s)"
  shows "\<exists>chunks. messages (effects (fst (request json read i sid to have seq_high out s))) = messages (effects out)
      @ ([to], SyncBegin sid i seq_high (missing_ranges have 1 seq_high))
      # (if chunks = [] then [([to], SyncEnd sid i [])]
         else map (\<lambda>rg. ([to], SyncChunk sid i rg (projr (read sid rg)))) chunks)
    \<and> seqs chunks = {1..seq_high} - seqs have \<and> seqs (missing_ranges have 1 seq_high) = {1..seq_high} - seqs have
    \<and> sorted_wrt (\<lambda>(a, b) (c, d). b < c) chunks \<and> (\<forall>rg \<in> set chunks. fst rg \<le> snd rg)"
proof (intro exI conjI)
  let ?chunks = "concat (map (cut json (ss_config s) read sid) (missing_ranges have 1 seq_high))"
  note chunks = transcripts_port.request_chunks [where chunks = ?chunks, OF assms(1,3-5) refl]
  show "messages (effects (fst (request json read i sid to have seq_high out s))) = messages (effects out)
      @ ([to], SyncBegin sid i seq_high (missing_ranges have 1 seq_high))
      # (if ?chunks = [] then [([to], SyncEnd sid i [])]
         else map (\<lambda>rg. ([to], SyncChunk sid i rg (projr (read sid rg)))) ?chunks)"
    using assms(2) by (intro request_messages) auto
  show "seqs ?chunks = {1..seq_high} - seqs have" "sorted_wrt (\<lambda>(a, b) (c, d). b < c) ?chunks"
    by (rule chunks)+
  show "\<forall>rg \<in> set ?chunks. fst rg \<le> snd rg" using chunks(3) by fastforce
  show "seqs (missing_ranges have 1 seq_high) = {1..seq_high} - seqs have"
    by (rule missing_ranges(1) [OF assms(3,4)])
qed

theorem sync_request_covers_missing_witness:
  "\<exists>chunks. messages (effects (fst sample_sync)) = messages (effects empty_out)
      @ ([sample_client], SyncBegin ''s'' ''i'' 4 (missing_ranges [(2, 2)] 1 4))
      # (if chunks = [] then [([sample_client], SyncEnd ''s'' ''i'' [])]
         else map (\<lambda>rg. ([sample_client], SyncChunk ''s'' ''i'' rg (projr (mt_read sample_store ''s'' rg)))) chunks)
    \<and> seqs chunks = {1..4} - seqs [(2, 2)] \<and> seqs (missing_ranges [(2, 2)] 1 4) = {1..4} - seqs [(2, 2)]
    \<and> sorted_wrt (\<lambda>(a, b) (c, d). b < c) chunks \<and> (\<forall>rg \<in> set chunks. fst rg \<le> snd rg)"
  unfolding sample_sync_def
  by (rule sync_request_covers_missing [OF sample_port])
     (simp_all add: mt_read_def u64_max_def sync_server_new_def default_sync_config_def)

text \<open>Every chunk a request cuts carries at most the configured bytes of entries, or a single
  entry that alone is larger.\<close>

lemma sync_chunks_fit:
  assumes "transcripts_port read" "\<forall>rg. \<exists>es. read sid rg = Inr es"
    and "in_u64 have" "seq_high < u64_max" "0 < sc_chunk_size config"
    and "rg \<in> set (concat (map (cut json config read sid) (missing_ranges have 1 seq_high)))"
  shows "sum_list (map (entry_size json) (projr (read sid rg))) \<le> sc_chunk_bytes config
    \<or> length (filter (\<lambda>e. 0 < entry_size json e) (projr (read sid rg))) \<le> 1"
  using transcripts_port.request_chunks_fit [OF assms(1,3-6,2)] by (simp add: fits_def)

text \<open>C6: However a sync ends, its \<open>sync-end\<close> names exactly the seqs of the chunks that were acked,
  as canonical ranges, goes to the requesting client alone, and leaves neither the sync nor a timer
  of it behind.\<close>

theorem sync_end_reports_acked:
  assumes "sync_inv out s" "om_get (by_id s) i = Some sy" "in_u64 (acked_ranges (sy_chunks sy))"
  shows "\<exists>delivered. messages (effects (fst (finish i out s)))
        = messages (effects out) @ [([sy_to sy], SyncEnd (sy_session_id sy) i delivered)]
      \<and> canonical delivered \<and> seqs delivered = (\<Union>c \<in> {c \<in> set (sy_chunks sy). ck_acked c}. {fst (ck_range c)..snd (ck_range c)})
      \<and> om_get (by_id (snd (finish i out s))) i = None
      \<and> (\<forall>t. om_get (timers (fst (finish i out s))) t \<noteq> Some (TkSyncAck i)
           \<and> om_get (timers (fst (finish i out s))) t \<noteq> Some (TkSyncIdle i))"
proof (intro exI conjI allI)
  let ?d = "union_ranges (acked_ranges (sy_chunks sy)) []"
  note u = union_ranges [OF assms(3), of "[]"]
  show "messages (effects (fst (finish i out s))) = messages (effects out) @ [([sy_to sy], SyncEnd (sy_session_id sy) i ?d)]"
    by (rule messages_finish [OF assms(2)])
  show "canonical ?d" by (simp add: u)
  show "seqs ?d = (\<Union>c \<in> {c \<in> set (sy_chunks sy). ck_acked c}. {fst (ck_range c)..snd (ck_range c)})"
    by (simp add: u) (auto simp: seqs_def acked_ranges_def case_prod_beta)
  show gone: "om_get (by_id (snd (finish i out s))) i = None"
    using assms(2) by (simp add: finish_unfold remove_unfold)
  have own: "book.owns sync_kind (sync_owns (snd (finish i out s))) (fst (finish i out s))"
    using sync_inv_finish [OF assms(1), of i] by (simp add: sync_inv_def)
  fix t
  show "om_get (timers (fst (finish i out s))) t \<noteq> Some (TkSyncAck i)"
    "om_get (timers (fst (finish i out s))) t \<noteq> Some (TkSyncIdle i)"
    using own gone by (auto simp: book.owns_def sync_owns_def holds_timer_def)
qed

definition sample_chunks :: "bool \<Rightarrow> Chunk list" where
  "sample_chunks acked = [\<lparr>ck_range = (1, 1), ck_acked = acked\<rparr>, \<lparr>ck_range = (3, 4), ck_acked = False\<rparr>]"

definition sample_state :: "Out \<times> SyncServer" where
  "sample_state =
     (\<lparr>effects = [], timers = [(1, TkSyncIdle ''i''), (2, TkSyncAck ''i'')], delays = [(1, 60000), (2, 10000)], next_timer = 2\<rparr>,
      \<lparr>ss_config = default_sync_config,
       by_id = [(''i'', \<lparr>sy_session_id = ''s'', sy_to = sample_client, sy_chunks = sample_chunks True, sy_pass = 1,
         sy_ack_timer = Some 2, sy_idle_timer = Some 1\<rparr>)],
       by_key = [((''s'', ''p'', ''k''), ''i'')]\<rparr>)"

lemma sample_state_inv: "sync_inv (fst sample_state) (snd sample_state)"
  by (auto simp: sample_state_def sync_inv_def out_inv_def om_wf_def index_inv_def key_of_def sample_client_def
      default_sync_config_def book.owns_def sync_owns_def holds_timer_def sync_kind_def)

lemma sample_state_get: "om_get (by_id (snd sample_state)) ''i'' =
    Some \<lparr>sy_session_id = ''s'', sy_to = sample_client, sy_chunks = sample_chunks True, sy_pass = 1,
         sy_ack_timer = Some 2, sy_idle_timer = Some 1\<rparr>"
  by (simp add: sample_state_def)

lemma sample_state_out: "effects (fst sample_state) = []" "om_get (timers (fst sample_state)) 2 = Some (TkSyncAck ''i'')"
  by (simp_all add: sample_state_def)

theorem sync_end_reports_acked_witness:
  "\<exists>delivered. messages (effects (fst (finish ''i'' (fst sample_state) (snd sample_state))))
      = [([sample_client], SyncEnd ''s'' ''i'' delivered)] \<and> seqs delivered = {1}"
proof -
  have "in_u64 (acked_ranges (sample_chunks True))" by (simp add: sample_chunks_def acked_ranges_def u64_max_def)
  moreover have "{c \<in> set (sample_chunks True). ck_acked c} = {\<lparr>ck_range = (1, 1), ck_acked = True\<rparr>}"
    by (auto simp: sample_chunks_def)
  ultimately show ?thesis
    using sync_end_reports_acked [OF sample_state_inv sample_state_get] by (auto simp: sample_state_out)
qed

text \<open>C37: When the ack timer of a sync fires the sync ends, or one more pass of at most the
  configured retries resends every chunk that is not acked and arms the timer again: no chunk is
  sent more than one time more than there are retries.\<close>

theorem sync_retry_bounded:
  assumes "sync_inv out s" "om_get (timers out) t = Some (TkSyncAck i)"
    and "\<forall>rg. \<exists>es. read sid rg = Inr es" "om_get (by_id s) i = Some sy" "sy_session_id sy = sid"
  shows "om_get (by_id (snd (sync_on_timer read t out s))) i = None
    \<or> (\<exists>sy'. om_get (by_id (snd (sync_on_timer read t out s))) i = Some sy' \<and> sy_pass sy' = sy_pass sy + 1
        \<and> sy_pass sy' \<le> sc_max_retries (ss_config s) \<and> sy_ack_timer sy' \<noteq> None
        \<and> messages (effects (fst (sync_on_timer read t out s))) = messages (effects out)
          @ map (\<lambda>rg. ([sy_to sy], SyncChunk sid i rg (projr (read sid rg)))) (unacked_ranges (sy_chunks sy)))"
proof (cases "unacked_ranges (sy_chunks sy) = [] \<or> sc_max_retries (ss_config s) \<le> sy_pass sy")
  case True
  then show ?thesis
    using assms by (auto simp: sync_on_timer_unfold timer_fired_def Let_def finish_unfold remove_unfold unacked_ranges_def)
next
  case False
  let ?sy = "sy\<lparr>sy_ack_timer := None, sy_pass := sy_pass sy + 1\<rparr>"
  let ?s = "set_sync i ?sy (set_sync i (sy\<lparr>sy_ack_timer := None\<rparr>) s)"
  have eq: "sync_on_timer read t out s = send_pass read i (snd (take_timer t out)) ?s"
    using False assms(2,4) by (simp add: sync_on_timer_unfold timer_fired_def Let_def unacked_ranges_def)
  have get: "om_get (by_id ?s) i = Some ?sy" by simp
  from send_pass_messages [OF get, of read "snd (take_timer t out)"] False assms(3,5)
  show ?thesis unfolding eq by fastforce
qed

theorem sync_retry_bounded_witness:
  "om_get (by_id (snd (sync_on_timer (mt_read sample_store) 2 (fst sample_state) (snd sample_state)))) ''i'' = None
    \<or> (\<exists>sy'. om_get (by_id (snd (sync_on_timer (mt_read sample_store) 2 (fst sample_state) (snd sample_state)))) ''i'' = Some sy'
        \<and> sy_pass sy' = 2)"
  using sync_retry_bounded [OF sample_state_inv sample_state_out(2) _ sample_state_get, of "mt_read sample_store" "''s''"]
  by (auto simp: mt_read_def)

text \<open>Acking every chunk of a sync, in any order and in one message or as the last of several,
  ends it with a \<open>sync-end\<close> that delivers all of them.\<close>

lemma sync_all_acked_completes:
  assumes "om_get (by_id s) i = Some sy" "sy_chunks sy \<noteq> []" "in_u64 (map ck_range (sy_chunks sy))"
    and "distinct (map ck_range (sy_chunks sy))"
    and "\<forall>c \<in> set (sy_chunks sy). ck_range c \<in> set ranges"
  shows "\<exists>delivered. messages (effects (fst (ack i ranges out s)))
        = messages (effects out) @ [([sy_to sy], SyncEnd (sy_session_id sy) i delivered)]
      \<and> seqs delivered = seqs (map ck_range (sy_chunks sy)) \<and> om_get (by_id (snd (ack i ranges out s))) i = None"
  using ack_all [OF assms(1,4,2), of ranges out] assms(5) union_ranges(1) [OF assms(3), of "[]"] by auto

end
