(* ===== verification/PhoneStore.thy ===== *)
theory PhoneStore
  imports Protocol
begin

text \<open>
  The phone's transcript storage (\<open>crates/client-runtime/src/ports.rs\<close>): the port \<open>TranscriptStore\<close> as a
  record of its operations over a state, its in-memory implementation, and \<open>CachedTranscriptStore\<close>, which
  keeps the rows of the session read last. Its asynchronous methods are cut at their \<open>await\<close> into a start
  and a completion; the inner store takes effect at the start, as both stores of the repository do. The
  port's contract is the locale \<open>transcript_store\<close>. An entry is its JSON text.
\<close>

section \<open>The port\<close>

type_synonym json = string

record TranscriptRow =
  rw_seq :: nat
  rw_entry :: json

record 'st TranscriptStore =
  tst_insert_ignore :: "string \<Rightarrow> string \<Rightarrow> TranscriptRow list \<Rightarrow> 'st \<Rightarrow> (string + nat list) \<times> 'st"
  tst_seqs :: "string \<Rightarrow> string \<Rightarrow> 'st \<Rightarrow> nat list"
  tst_read_range :: "string \<Rightarrow> string \<Rightarrow> nat \<Rightarrow> nat \<Rightarrow> 'st \<Rightarrow> TranscriptRow list \<times> 'st"
  tst_remove :: "string \<Rightarrow> string \<Rightarrow> 'st \<Rightarrow> 'st"

definition row_pair :: "TranscriptRow \<Rightarrow> nat \<times> json" where
  "row_pair row = (rw_seq row, rw_entry row)"

definition row_map :: "TranscriptRow list \<Rightarrow> nat \<Rightarrow> json option" where
  "row_map rows = map_of (map row_pair rows)"

text \<open>The rows of a table with \<open>from \<le> seq \<le> to\<close>: a \<open>BTreeMap\<close>'s range, guarded against an empty one.\<close>

definition rows_between :: "(nat, json) omap \<Rightarrow> nat \<Rightarrow> nat \<Rightarrow> TranscriptRow list" where
  "rows_between t from to =
     (if to < from then []
      else map (\<lambda>(seq, entry). \<lparr>rw_seq = seq, rw_entry = entry\<rparr>) (filter (\<lambda>(seq, entry). from \<le> seq \<and> seq \<le> to) t))"

section \<open>The in-memory store\<close>

type_synonym MemoryTranscriptStore = "(string \<times> string, (nat, json) omap) omap"

definition mem_table :: "MemoryTranscriptStore \<Rightarrow> string \<Rightarrow> string \<Rightarrow> (nat, json) omap" where
  "mem_table data machine session = (case om_get data (machine, session) of None \<Rightarrow> [] | Some t \<Rightarrow> t)"

definition insert_row :: "(nat, json) omap \<times> nat list \<Rightarrow> TranscriptRow \<Rightarrow> (nat, json) omap \<times> nat list" where
  "insert_row acc row =
     (case acc of (t, inserted) \<Rightarrow>
        (if om_get t (rw_seq row) \<noteq> None then (t, inserted)
         else (om_put (rw_seq row) (rw_entry row) t, inserted @ [rw_seq row])))"

definition mem_insert_ignore ::
  "string \<Rightarrow> string \<Rightarrow> TranscriptRow list \<Rightarrow> MemoryTranscriptStore \<Rightarrow> (string + nat list) \<times> MemoryTranscriptStore" where
  "mem_insert_ignore machine session rows data =
     (let (t, inserted) = foldl insert_row (mem_table data machine session, []) rows
      in (Inr inserted, om_put (machine, session) t data))"

definition mem_seqs :: "string \<Rightarrow> string \<Rightarrow> MemoryTranscriptStore \<Rightarrow> nat list" where
  "mem_seqs machine session data = om_keys (mem_table data machine session)"

definition mem_read_range ::
  "string \<Rightarrow> string \<Rightarrow> nat \<Rightarrow> nat \<Rightarrow> MemoryTranscriptStore \<Rightarrow> TranscriptRow list \<times> MemoryTranscriptStore" where
  "mem_read_range machine session from to data = (rows_between (mem_table data machine session) from to, data)"

definition mem_remove :: "string \<Rightarrow> string \<Rightarrow> MemoryTranscriptStore \<Rightarrow> MemoryTranscriptStore" where
  "mem_remove machine session data = om_del (machine, session) data"

definition memory_store :: "MemoryTranscriptStore TranscriptStore" where
  "memory_store = \<lparr>tst_insert_ignore = mem_insert_ignore, tst_seqs = mem_seqs, tst_read_range = mem_read_range,
     tst_remove = mem_remove\<rparr>"

section \<open>The cache\<close>

record CachedSession =
  cs_machine :: string
  cs_session :: string
  cs_high :: nat
  cs_rows :: "(nat, json) omap"

record 'st CachedTranscriptStore =
  ch_inner :: 'st
  ch_cache :: "CachedSession option"
  ch_generation :: nat

definition cs_is :: "CachedSession \<Rightarrow> string \<Rightarrow> string \<Rightarrow> bool" where
  "cs_is c machine session = (cs_machine c = machine \<and> cs_session c = session)"

definition cached_new :: "'st \<Rightarrow> 'st CachedTranscriptStore" where
  "cached_new inner = \<lparr>ch_inner = inner, ch_cache = None, ch_generation = 0\<rparr>"

definition bump :: "'st CachedTranscriptStore \<Rightarrow> 'st CachedTranscriptStore" where
  "bump c = c\<lparr>ch_generation := ch_generation c + 1\<rparr>"

definition set_cache :: "CachedSession option \<Rightarrow> 'st CachedTranscriptStore \<Rightarrow> 'st CachedTranscriptStore" where
  "set_cache cache c = bump (c\<lparr>ch_cache := cache\<rparr>)"

definition caches :: "'st CachedTranscriptStore \<Rightarrow> string \<Rightarrow> string \<Rightarrow> bool" where
  "caches c machine session = (case ch_cache c of None \<Rightarrow> False | Some s \<Rightarrow> cs_is s machine session)"

text \<open>An insert in flight: the generation it started in, the rows to mirror, and the inner store's answer.\<close>

record insert_flight =
  fl_started :: nat
  fl_mirror :: "TranscriptRow list option"
  fl_answer :: "string + nat list"

definition cached_insert_start ::
  "'st TranscriptStore \<Rightarrow> string \<Rightarrow> string \<Rightarrow> TranscriptRow list \<Rightarrow> 'st CachedTranscriptStore
    \<Rightarrow> insert_flight \<times> 'st CachedTranscriptStore" where
  "cached_insert_start store machine session rows c =
     (let (answer, inner) = tst_insert_ignore store machine session rows (ch_inner c)
      in (\<lparr>fl_started = ch_generation c, fl_mirror = (if caches c machine session then Some rows else None),
           fl_answer = answer\<rparr>, c\<lparr>ch_inner := inner\<rparr>))"

definition mirror_row :: "nat list \<Rightarrow> CachedSession \<Rightarrow> TranscriptRow \<Rightarrow> CachedSession" where
  "mirror_row inserted s row =
     (if rw_seq row \<le> cs_high s \<and> rw_seq row \<in> set inserted
      then s\<lparr>cs_rows := om_put (rw_seq row) (rw_entry row) (cs_rows s)\<rparr> else s)"

definition cached_insert_done ::
  "string \<Rightarrow> string \<Rightarrow> insert_flight \<Rightarrow> 'st CachedTranscriptStore \<Rightarrow> (string + nat list) \<times> 'st CachedTranscriptStore" where
  "cached_insert_done machine session fl c =
     (case fl_answer fl of
        Inl err \<Rightarrow> (Inl err, c)
      | Inr inserted \<Rightarrow>
          (if \<not> caches c machine session then (Inr inserted, c)
           else case (if ch_generation c = fl_started fl then fl_mirror fl else None) of
             None \<Rightarrow> (Inr inserted, set_cache None c)
           | Some mirror \<Rightarrow>
               (Inr inserted, bump (c\<lparr>ch_cache := map_option (\<lambda>s. foldl (mirror_row inserted) s mirror) (ch_cache c)\<rparr>))))"

definition cached_insert_ignore ::
  "'st TranscriptStore \<Rightarrow> string \<Rightarrow> string \<Rightarrow> TranscriptRow list \<Rightarrow> 'st CachedTranscriptStore
    \<Rightarrow> (string + nat list) \<times> 'st CachedTranscriptStore" where
  "cached_insert_ignore store machine session rows c =
     (let (fl, c1) = cached_insert_start store machine session rows c in cached_insert_done machine session fl c1)"

text \<open>A read is answered at once, or in flight with the cached rows, where the fetch starts and what it gave.\<close>

datatype read_flight =
    ReadReady "TranscriptRow list"
  | ReadFetch nat "TranscriptRow list option" nat "TranscriptRow list" \<comment> \<open>generation, cached rows, fetch from, fetched\<close>

definition cached_read_start ::
  "'st TranscriptStore \<Rightarrow> string \<Rightarrow> string \<Rightarrow> nat \<Rightarrow> nat \<Rightarrow> 'st CachedTranscriptStore
    \<Rightarrow> read_flight \<times> 'st CachedTranscriptStore" where
  "cached_read_start store machine session from to c =
     (let hit = (case ch_cache c of None \<Rightarrow> None | Some s \<Rightarrow> if cs_is s machine session then Some s else None);
          fetch = (\<lambda>cached fetch_from.
            (let (rows, inner) = tst_read_range store machine session (max fetch_from from) to (ch_inner c)
             in (ReadFetch (ch_generation c) cached fetch_from rows, c\<lparr>ch_inner := inner\<rparr>)))
      in case hit of
           Some s \<Rightarrow>
             (if to \<le> cs_high s then (ReadReady (rows_between (cs_rows s) from to), c)
              else fetch (Some (rows_between (cs_rows s) from (cs_high s))) (cs_high s + 1))
         | None \<Rightarrow>
             (if from \<noteq> 1
              then (let (rows, inner) = tst_read_range store machine session from to (ch_inner c)
                    in (ReadReady rows, c\<lparr>ch_inner := inner\<rparr>))
              else fetch None 1))"

definition cached_read_done ::
  "string \<Rightarrow> string \<Rightarrow> nat \<Rightarrow> nat \<Rightarrow> read_flight \<Rightarrow> 'st CachedTranscriptStore \<Rightarrow> TranscriptRow list \<times> 'st CachedTranscriptStore" where
  "cached_read_done machine session from to fl c =
     (case fl of
        ReadReady rows \<Rightarrow> (rows, c)
      | ReadFetch started cached fetch_from fetched \<Rightarrow>
          (let may_cache = (ch_generation c = started \<and> from \<le> fetch_from);
               slot = (case ch_cache c of
                         Some s \<Rightarrow> if cs_is s machine session then s
                           else \<lparr>cs_machine = machine, cs_session = session, cs_high = 0, cs_rows = []\<rparr>
                       | None \<Rightarrow> \<lparr>cs_machine = machine, cs_session = session, cs_high = 0, cs_rows = []\<rparr>);
               filled = slot\<lparr>cs_rows := foldl (\<lambda>t row. om_put (rw_seq row) (rw_entry row) t) (cs_rows slot) fetched,
                             cs_high := to\<rparr>;
               c1 = (if may_cache then bump (c\<lparr>ch_cache := Some filled\<rparr>) else c)
           in ((case cached of None \<Rightarrow> [] | Some rows \<Rightarrow> rows) @ fetched, c1)))"

definition cached_read_range ::
  "'st TranscriptStore \<Rightarrow> string \<Rightarrow> string \<Rightarrow> nat \<Rightarrow> nat \<Rightarrow> 'st CachedTranscriptStore
    \<Rightarrow> TranscriptRow list \<times> 'st CachedTranscriptStore" where
  "cached_read_range store machine session from to c =
     (let (fl, c1) = cached_read_start store machine session from to c in cached_read_done machine session from to fl c1)"

definition cached_remove ::
  "'st TranscriptStore \<Rightarrow> string \<Rightarrow> string \<Rightarrow> 'st CachedTranscriptStore \<Rightarrow> 'st CachedTranscriptStore" where
  "cached_remove store machine session c =
     (let c1 = (if caches c machine session then set_cache None c else c)
      in c1\<lparr>ch_inner := tst_remove store machine session (ch_inner c1)\<rparr>)"

definition cached_store :: "'st TranscriptStore \<Rightarrow> 'st CachedTranscriptStore TranscriptStore" where
  "cached_store store = \<lparr>tst_insert_ignore = cached_insert_ignore store,
     tst_seqs = (\<lambda>machine session c. tst_seqs store machine session (ch_inner c)),
     tst_read_range = cached_read_range store, tst_remove = cached_remove store\<rparr>"

section \<open>The port's contract\<close>

text \<open>
  What the phone relies on: \<open>held\<close> is what is stored. An insert adds the rows whose seq is new and reports
  exactly those, or fails and changes nothing; a read gives the stored rows of its range in seq order.
  The batch has each seq once, and reads start at the first seq or later.
\<close>

definition held_with :: "TranscriptRow list \<Rightarrow> (nat \<Rightarrow> json option) \<Rightarrow> nat \<Rightarrow> json option" where
  "held_with rows h = row_map rows ++ h"

locale transcript_store =
  fixes store :: "'st TranscriptStore" and ok :: "'st \<Rightarrow> bool" and held :: "'st \<Rightarrow> string \<Rightarrow> string \<Rightarrow> nat \<Rightarrow> json option"
  assumes insert_stored: "ok st \<Longrightarrow> distinct (map rw_seq rows) \<Longrightarrow> tst_insert_ignore store m i rows st = (Inr inserted, st')
      \<Longrightarrow> ok st' \<and> set inserted = rw_seq ` set rows - dom (held st m i)
        \<and> held st' = (held st)(m := (held st m)(i := held_with rows (held st m i)))"
    and insert_failed: "ok st \<Longrightarrow> tst_insert_ignore store m i rows st = (Inl err, st') \<Longrightarrow> ok st' \<and> held st' = held st"
    and seqs_stored: "ok st \<Longrightarrow> sorted_wrt (<) (tst_seqs store m i st) \<and> set (tst_seqs store m i st) = dom (held st m i)"
    and read_keeps: "ok st \<Longrightarrow> tst_read_range store m i a b st = (rows, st') \<Longrightarrow> ok st' \<and> held st' = held st"
    and read_stored: "ok st \<Longrightarrow> 1 \<le> a \<Longrightarrow> tst_read_range store m i a b st = (rows, st')
      \<Longrightarrow> sorted_wrt (<) (map rw_seq rows) \<and> row_map rows = held st m i |` {a..b}"
    and remove_stored: "ok st \<Longrightarrow> ok (tst_remove store m i st)
        \<and> held (tst_remove store m i st) = (held st)(m := (held st m)(i := Map.empty))"

section \<open>The in-memory store keeps it\<close>

lemma row_map_Cons [simp]: "row_map (row # rows) = (row_map rows)(rw_seq row \<mapsto> rw_entry row)"
  by (simp add: row_map_def row_pair_def)

lemma row_map_Nil [simp]: "row_map [] = Map.empty"
  by (simp add: row_map_def)

lemma dom_row_map: "dom (row_map rows) = rw_seq ` set rows"
  by (simp add: row_map_def dom_map_of_conv_image_fst row_pair_def image_image)

lemma row_map_None: "row_map rows k = None \<longleftrightarrow> k \<notin> rw_seq ` set rows"
  using dom_row_map [of rows] by blast

lemma insert_rows_table:
  assumes "om_wf t"
  shows "om_wf (fst (foldl insert_row (t, inserted) rows))
    \<and> om_get (fst (foldl insert_row (t, inserted) rows)) = held_with rows (om_get t)
    \<and> set (snd (foldl insert_row (t, inserted) rows)) = set inserted \<union> (rw_seq ` set rows - dom (om_get t))"
  using assms
proof (induction rows arbitrary: t inserted)
  case (Cons row rows)
  define acc where "acc = insert_row (t, inserted) row"
  have wf: "om_wf (fst acc)" using Cons.prems by (simp add: acc_def insert_row_def)
  have get: "om_get (fst acc) = (if om_get t (rw_seq row) = None then (om_get t)(rw_seq row \<mapsto> rw_entry row) else om_get t)"
    by (auto simp: acc_def insert_row_def)
  have ins: "set (snd acc) = set inserted \<union> ({rw_seq row} - dom (om_get t))"
    by (auto simp: acc_def insert_row_def)
  have "held_with rows (om_get (fst acc)) = held_with (row # rows) (om_get t)"
    by (rule ext) (simp add: get held_with_def map_add_def split: option.split)
  with Cons.IH [OF wf, of "snd acc"] ins show ?case
    by (auto simp: acc_def [symmetric] get)
qed (simp add: held_with_def)

lemma rows_between_sorted: "om_wf t \<Longrightarrow> sorted_wrt (<) (map rw_seq (rows_between t a b))"
  by (auto simp: rows_between_def om_wf_def sorted_wrt_map case_prod_beta sorted_wrt_filter)

lemma rows_between_map: "row_map (rows_between t a b) = om_get t |` {a..b}"
proof (cases "b < a")
  case False
  have "row_map (map (\<lambda>(seq, entry). \<lparr>rw_seq = seq, rw_entry = entry\<rparr>) (filter (\<lambda>(seq, entry). a \<le> seq \<and> seq \<le> b) t))
      = om_get t |` {a..b}"
    by (induction t) (auto simp: restrict_map_def)
  with False show ?thesis by (simp add: rows_between_def)
qed (simp add: rows_between_def restrict_map_def)

definition mem_ok :: "MemoryTranscriptStore \<Rightarrow> bool" where
  "mem_ok data = (om_wf data \<and> (\<forall>m i. om_wf (mem_table data m i)))"

definition mem_held :: "MemoryTranscriptStore \<Rightarrow> string \<Rightarrow> string \<Rightarrow> nat \<Rightarrow> json option" where
  "mem_held data m i = om_get (mem_table data m i)"

lemma mem_table_put [simp]:
  "mem_table (om_put (m, i) t data) m' i' = (if (m', i') = (m, i) then t else mem_table data m' i')"
  by (simp add: mem_table_def)

lemma mem_table_del [simp]:
  "mem_table (om_del (m, i) data) m' i' = (if (m', i') = (m, i) then [] else mem_table data m' i')"
  by (simp add: mem_table_def)

interpretation mem: transcript_store memory_store mem_ok mem_held
proof
  fix st m i rows inserted st'
  assume "mem_ok st" "tst_insert_ignore memory_store m i rows st = (Inr inserted, st')"
  then show "mem_ok st' \<and> set inserted = rw_seq ` set rows - dom (mem_held st m i)
      \<and> mem_held st' = (mem_held st)(m := (mem_held st m)(i := held_with rows (mem_held st m i)))"
    using insert_rows_table [of "mem_table st m i" "[]" rows]
    by (auto simp: memory_store_def mem_insert_ignore_def mem_ok_def mem_held_def fun_eq_iff case_prod_beta)
qed (auto simp: memory_store_def mem_insert_ignore_def mem_seqs_def mem_read_range_def mem_remove_def mem_ok_def
      mem_held_def om_keys_def om_wf_def case_prod_beta rows_between_map dom_map_of_conv_image_fst
      rows_between_sorted [unfolded om_wf_def] fun_eq_iff om_wf_del [unfolded om_wf_def])

section \<open>The cache is exact\<close>

text \<open>A cached session holds exactly the stored rows from the first seq to its \<open>high\<close>.\<close>

definition cache_exact :: "(string \<Rightarrow> string \<Rightarrow> nat \<Rightarrow> json option) \<Rightarrow> CachedSession \<Rightarrow> bool" where
  "cache_exact h s = (om_wf (cs_rows s)
     \<and> (\<forall>k \<ge> 1. om_get (cs_rows s) k = (if k \<le> cs_high s then h (cs_machine s) (cs_session s) k else None)))"

definition cached_ok :: "('st \<Rightarrow> bool) \<Rightarrow> ('st \<Rightarrow> string \<Rightarrow> string \<Rightarrow> nat \<Rightarrow> json option) \<Rightarrow> 'st CachedTranscriptStore \<Rightarrow> bool" where
  "cached_ok ok held c = (ok (ch_inner c)
     \<and> (case ch_cache c of None \<Rightarrow> True | Some s \<Rightarrow> cache_exact (held (ch_inner c)) s))"

lemma bump_simps [simp]: "ch_inner (bump c) = ch_inner c" "ch_cache (bump c) = ch_cache c"
  by (simp_all add: bump_def)

lemma set_cache_simps [simp]: "ch_inner (set_cache x c) = ch_inner c" "ch_cache (set_cache x c) = x"
  by (simp_all add: set_cache_def)

lemma cache_exact_between:
  assumes "cache_exact h s" "1 \<le> a" "b \<le> cs_high s"
  shows "row_map (rows_between (cs_rows s) a b) = h (cs_machine s) (cs_session s) |` {a..b}"
    and "sorted_wrt (<) (map rw_seq (rows_between (cs_rows s) a b))"
proof -
  show "row_map (rows_between (cs_rows s) a b) = h (cs_machine s) (cs_session s) |` {a..b}"
    unfolding rows_between_map
    using assms by (intro ext) (auto simp: restrict_map_def cache_exact_def)
qed (use assms(1) in \<open>simp add: cache_exact_def rows_between_sorted\<close>)

lemma mirror_rows:
  assumes "distinct (map rw_seq rows)" "om_wf (cs_rows s)"
    and s'_def: "s' = foldl (mirror_row inserted) s rows"
  shows "cs_machine s' = cs_machine s \<and> cs_session s' = cs_session s \<and> cs_high s' = cs_high s \<and> om_wf (cs_rows s')
    \<and> om_get (cs_rows s') k = (if k \<le> cs_high s \<and> k \<in> set inserted \<and> k \<in> rw_seq ` set rows then row_map rows k
        else om_get (cs_rows s) k)"
  using assms(1,2) unfolding s'_def
proof (induction rows arbitrary: s)
  case (Cons row rows)
  have "om_wf (cs_rows (mirror_row inserted s row))" using Cons.prems by (simp add: mirror_row_def)
  from Cons.IH [OF _ this] Cons.prems show ?case
    by (auto simp: mirror_row_def)
qed simp

lemma fill_rows:
  assumes "distinct (map rw_seq rows)" "om_wf t"
  shows "om_wf (foldl (\<lambda>t row. om_put (rw_seq row) (rw_entry row) t) t rows)
    \<and> om_get (foldl (\<lambda>t row. om_put (rw_seq row) (rw_entry row) t) t rows) = om_get t ++ row_map rows"
  using assms
proof (induction rows arbitrary: t)
  case (Cons row rows)
  have "row_map rows (rw_seq row) = None"
    using Cons.prems(1) by (simp add: row_map_None)
  with Cons show ?case
    by (auto simp: map_add_def fun_eq_iff split: option.split)
qed simp

lemma rows_append:
  assumes "sorted_wrt (<) (map rw_seq rows)" "row_map rows = h |` {a..x}"
    and "sorted_wrt (<) (map rw_seq more_rows)" "row_map more_rows = h |` {max (x + 1) a..b}" "x \<le> b"
  shows "sorted_wrt (<) (map rw_seq (rows @ more_rows)) \<and> row_map (rows @ more_rows) = h |` {a..b}"
proof
  have "rw_seq ` set rows \<subseteq> {a..x}" "rw_seq ` set more_rows \<subseteq> {x + 1..b}"
    using assms(2,4) dom_row_map [of rows] dom_row_map [of more_rows] by (auto simp: restrict_map_def split: if_splits)
  then show "sorted_wrt (<) (map rw_seq (rows @ more_rows))"
    using assms(1,3) by (fastforce simp: sorted_wrt_append)
  have "row_map (rows @ more_rows) = row_map more_rows ++ row_map rows" by (simp add: row_map_def)
  then show "row_map (rows @ more_rows) = h |` {a..b}"
    using assms(2,4,5) by (auto simp: restrict_map_def map_add_def fun_eq_iff split: option.split)
qed

context transcript_store
begin

lemma cached_insert:
  assumes "cached_ok ok held c" "distinct (map rw_seq rows)" "cached_insert_ignore store m i rows c = (Inr inserted, c')"
  shows "cached_ok ok held c' \<and> tst_insert_ignore store m i rows (ch_inner c) = (Inr inserted, ch_inner c')"
proof -
  obtain answer inner where inner: "tst_insert_ignore store m i rows (ch_inner c) = (answer, inner)" by force
  then have answer: "answer = Inr inserted" "ch_inner c' = inner"
    using assms(3) by (auto simp: cached_insert_ignore_def cached_insert_start_def cached_insert_done_def Let_def
        split: sum.splits if_splits option.splits)
  have okc: "ok (ch_inner c)" using assms(1) by (simp add: cached_ok_def)
  note stored = insert_stored [OF okc assms(2) inner [unfolded answer(1)]]
  show ?thesis
  proof (cases "caches c m i")
    case False
    then have "c' = c\<lparr>ch_inner := inner\<rparr>"
      using assms(3) inner by (auto simp: cached_insert_ignore_def cached_insert_start_def cached_insert_done_def Let_def caches_def
          split: sum.splits option.splits)
    with False assms(1) stored inner answer show ?thesis
      by (auto simp: cached_ok_def cache_exact_def caches_def cs_is_def split: option.splits)
  next
    case True
    then obtain s where s: "ch_cache c = Some s" "cs_machine s = m" "cs_session s = i"
      by (auto simp: caches_def cs_is_def split: option.splits)
    define s' where "s' = foldl (mirror_row inserted) s rows"
    have c': "ch_cache c' = Some s'"
      using assms(3) inner answer True s by (auto simp: cached_insert_ignore_def cached_insert_start_def cached_insert_done_def
          Let_def caches_def s'_def bump_def)
    have exact: "cache_exact (held (ch_inner c)) s" using assms(1) s(1) by (simp add: cached_ok_def)
    then have wf: "om_wf (cs_rows s)" by (simp add: cache_exact_def)
    note mirrored = mirror_rows [OF assms(2) wf s'_def]
    have "om_get (cs_rows s') k = (if k \<le> cs_high s then held_with rows (held (ch_inner c) m i) k else None)" if "1 \<le> k" for k
      using mirrored [of k] exact that stored s row_map_None [of rows k]
      by (auto simp: cache_exact_def held_with_def map_add_def domIff split: option.split)
    with mirrored stored s have "cache_exact (held inner) s'" by (simp add: cache_exact_def)
    with c' stored inner answer show ?thesis by (simp add: cached_ok_def)
  qed
qed

lemma cached_insert_err:
  assumes "cached_ok ok held c" "cached_insert_ignore store m i rows c = (Inl err, c')"
  shows "cached_ok ok held c' \<and> tst_insert_ignore store m i rows (ch_inner c) = (Inl err, ch_inner c')"
proof -
  obtain answer inner where inner: "tst_insert_ignore store m i rows (ch_inner c) = (answer, inner)" by force
  then have "answer = Inl err \<and> c' = c\<lparr>ch_inner := inner\<rparr>"
    using assms(2) by (auto simp: cached_insert_ignore_def cached_insert_start_def cached_insert_done_def Let_def
        split: sum.splits if_splits option.splits)
  with inner assms(1) insert_failed [of "ch_inner c" m i rows err inner] show ?thesis
    by (auto simp: cached_ok_def split: option.splits)
qed

text \<open>The fetch of the rows past what a slot holds, and the slot filled with them.\<close>

lemma cached_fetch:
  assumes "ok st" "cache_exact (held st) slot" "cs_high slot \<le> b"
    and "tst_read_range store (cs_machine slot) (cs_session slot) (max (cs_high slot + 1) a) b st = (fetched, st')"
    and "rows = rows_between (cs_rows slot) a (cs_high slot) @ fetched"
    and "filled = slot\<lparr>cs_rows := foldl (\<lambda>t row. om_put (rw_seq row) (rw_entry row) t) (cs_rows slot) fetched, cs_high := b\<rparr>"
  shows "1 \<le> a \<Longrightarrow> sorted_wrt (<) (map rw_seq rows) \<and> row_map rows = held st (cs_machine slot) (cs_session slot) |` {a..b}"
    and "a \<le> cs_high slot + 1 \<Longrightarrow> cache_exact (held st) filled"
proof -
  note base = cache_exact_between [OF assms(2) _ order_refl, of a]
  have "1 \<le> max (cs_high slot + 1) a" by simp
  note fetched = read_stored [OF assms(1) this assms(4)]
  show "sorted_wrt (<) (map rw_seq rows) \<and> row_map rows = held st (cs_machine slot) (cs_session slot) |` {a..b}"
    if "1 \<le> a"
    unfolding assms(5) using rows_append [OF base(2,1) [OF that] _ _ assms(3)] fetched by blast
  have "distinct (map rw_seq fetched)" using fetched strict_sorted_iff by blast
  moreover have "om_wf (cs_rows slot)" using assms(2) by (simp add: cache_exact_def)
  ultimately have filled: "om_wf (cs_rows filled)" "om_get (cs_rows filled) = om_get (cs_rows slot) ++ row_map fetched"
    using fill_rows [of fetched "cs_rows slot"] by (simp_all add: assms(6))
  assume "a \<le> cs_high slot + 1"
  then have "max (cs_high slot + 1) a = cs_high slot + 1" by simp
  with fetched have "row_map fetched = held st (cs_machine slot) (cs_session slot) |` {cs_high slot + 1..b}" by simp
  then have "om_get (cs_rows filled) k = (if k \<le> b then held st (cs_machine slot) (cs_session slot) k else None)"
    if "1 \<le> k" for k
    using that assms(2,3) by (auto simp: filled(2) cache_exact_def map_add_def restrict_map_def split: option.split)
  with filled(1) show "cache_exact (held st) filled" by (simp add: cache_exact_def assms(6))
qed

text \<open>Where a read is not answered from the cache, it fetches past a slot that is exact: the cached one or a new one.\<close>

lemma cached_read_cases:
  assumes "cached_ok ok held c" "cached_read_range store m i a b c = (rows, c')"
  obtains (ready) s where "ch_cache c = Some s" "cs_machine s = m" "cs_session s = i" "b \<le> cs_high s"
      "rows = rows_between (cs_rows s) a b" "c' = c"
  | (plain) inner where "tst_read_range store m i a b (ch_inner c) = (rows, inner)" "c' = c\<lparr>ch_inner := inner\<rparr>"
  | (fetch) slot fetched inner where "cs_machine slot = m" "cs_session slot = i" "cache_exact (held (ch_inner c)) slot"
      "cs_high slot \<le> b" "tst_read_range store m i (max (cs_high slot + 1) a) b (ch_inner c) = (fetched, inner)"
      "rows = rows_between (cs_rows slot) a (cs_high slot) @ fetched" "ch_inner c' = inner"
      "ch_cache c' = (if a \<le> cs_high slot + 1
         then Some (slot\<lparr>cs_rows := foldl (\<lambda>t row. om_put (rw_seq row) (rw_entry row) t) (cs_rows slot) fetched, cs_high := b\<rparr>)
         else ch_cache c)"
proof -
  let ?new = "\<lparr>cs_machine = m, cs_session = i, cs_high = 0, cs_rows = []\<rparr>"
  show thesis
  proof (cases "caches c m i")
    case True
    then obtain s where s: "ch_cache c = Some s" "cs_machine s = m" "cs_session s = i"
      by (auto simp: caches_def cs_is_def split: option.splits)
    then have exact: "cache_exact (held (ch_inner c)) s" using assms(1) by (simp add: cached_ok_def)
    show thesis
    proof (cases "b \<le> cs_high s")
      case True
      then show thesis using assms(2) s
        by (intro ready) (auto simp: cached_read_range_def cached_read_start_def cached_read_done_def cs_is_def)
    next
      case False
      obtain fetched inner where "tst_read_range store m i (max (cs_high s + 1) a) b (ch_inner c) = (fetched, inner)" by force
      with False assms(2) s exact show thesis
        by (intro fetch [of s fetched inner]) (auto simp: cached_read_range_def cached_read_start_def cached_read_done_def
            cs_is_def Let_def)
    qed
  next
    case False
    then have miss: "(case ch_cache c of None \<Rightarrow> None | Some s \<Rightarrow> if cs_is s m i then Some s else None) = None"
      "(case ch_cache c of None \<Rightarrow> ?new | Some s \<Rightarrow> if cs_is s m i then s else ?new) = ?new"
      by (auto simp: caches_def split: option.splits)
    show thesis
    proof (cases "a = 1")
      case True
      obtain fetched inner where "tst_read_range store m i (max (0 + 1) a) b (ch_inner c) = (fetched, inner)" by force
      with True assms(2) miss show thesis
        by (intro fetch [of ?new fetched inner]) (auto simp: cached_read_range_def cached_read_start_def cached_read_done_def
            Let_def cache_exact_def rows_between_def)
    next
      case False
      obtain fetched inner where "tst_read_range store m i a b (ch_inner c) = (fetched, inner)" by force
      with False assms(2) miss show thesis
        by (intro plain [of inner]) (auto simp: cached_read_range_def cached_read_start_def cached_read_done_def Let_def)
    qed
  qed
qed

lemma cached_read:
  assumes "cached_ok ok held c" "cached_read_range store m i a b c = (rows, c')"
  shows "cached_ok ok held c' \<and> held (ch_inner c') = held (ch_inner c)"
    and "1 \<le> a \<Longrightarrow> sorted_wrt (<) (map rw_seq rows) \<and> row_map rows = held (ch_inner c) m i |` {a..b}"
proof -
  have okc: "ok (ch_inner c)" using assms(1) by (simp add: cached_ok_def)
  have "cached_ok ok held c' \<and> held (ch_inner c') = held (ch_inner c)
    \<and> (1 \<le> a \<longrightarrow> sorted_wrt (<) (map rw_seq rows) \<and> row_map rows = held (ch_inner c) m i |` {a..b})"
    using assms
  proof (cases rule: cached_read_cases)
    case (ready s)
    then have "cache_exact (held (ch_inner c)) s" using assms(1) by (simp add: cached_ok_def)
    with cache_exact_between [OF this _ ready(4), of a] ready assms(1) show ?thesis by simp
  next
    case (plain inner)
    with read_keeps [OF okc plain(1)] read_stored [OF okc _ plain(1)] assms(1) show ?thesis
      by (auto simp: cached_ok_def split: option.splits)
  next
    case (fetch slot fetched inner)
    note slot = cached_fetch [OF okc fetch(3,4) fetch(5) [folded fetch(1,2)] fetch(6) refl]
    have "ok inner \<and> held inner = held (ch_inner c)" by (rule read_keeps [OF okc fetch(5)])
    with slot fetch(1,2,7,8) assms(1) show ?thesis by (auto simp: cached_ok_def split: option.splits)
  qed
  then show "cached_ok ok held c' \<and> held (ch_inner c') = held (ch_inner c)"
    "1 \<le> a \<Longrightarrow> sorted_wrt (<) (map rw_seq rows) \<and> row_map rows = held (ch_inner c) m i |` {a..b}" by blast+
qed

lemma cached_removed:
  assumes "cached_ok ok held c"
  shows "cached_ok ok held (cached_remove store m i c)
    \<and> ch_inner (cached_remove store m i c) = tst_remove store m i (ch_inner c)"
  using assms remove_stored [of "ch_inner c" m i]
  by (auto simp: cached_ok_def cached_remove_def caches_def cs_is_def cache_exact_def split: option.splits)

lemma cached_contract: "transcript_store (cached_store store) (cached_ok ok held) (\<lambda>c. held (ch_inner c))"
proof
  fix c m i rows inserted c'
  assume c: "cached_ok ok held c" "distinct (map rw_seq rows)" "tst_insert_ignore (cached_store store) m i rows c = (Inr inserted, c')"
  then have okc: "ok (ch_inner c)" by (simp add: cached_ok_def)
  from c have "cached_ok ok held c' \<and> tst_insert_ignore store m i rows (ch_inner c) = (Inr inserted, ch_inner c')"
    by (intro cached_insert) (simp_all add: cached_store_def)
  with insert_stored [OF okc c(2)] show "cached_ok ok held c' \<and> set inserted = rw_seq ` set rows - dom (held (ch_inner c) m i)
      \<and> held (ch_inner c') = (held (ch_inner c))(m := (held (ch_inner c) m)(i := held_with rows (held (ch_inner c) m i)))"
    by blast
next
  fix c m i rows err c'
  assume c: "cached_ok ok held c" "tst_insert_ignore (cached_store store) m i rows c = (Inl err, c')"
  then have okc: "ok (ch_inner c)" by (simp add: cached_ok_def)
  from c have "cached_ok ok held c' \<and> tst_insert_ignore store m i rows (ch_inner c) = (Inl err, ch_inner c')"
    by (intro cached_insert_err) (simp_all add: cached_store_def)
  with insert_failed [OF okc] show "cached_ok ok held c' \<and> held (ch_inner c') = held (ch_inner c)" by blast
next
  fix c m i
  assume c: "cached_ok ok held c"
  then have okc: "ok (ch_inner c)" by (simp add: cached_ok_def)
  from seqs_stored [OF okc] show "sorted_wrt (<) (tst_seqs (cached_store store) m i c)
      \<and> set (tst_seqs (cached_store store) m i c) = dom (held (ch_inner c) m i)"
    by (simp add: cached_store_def)
  from cached_removed [OF c, of m i] remove_stored [OF okc, of m i]
  show "cached_ok ok held (tst_remove (cached_store store) m i c)
      \<and> held (ch_inner (tst_remove (cached_store store) m i c)) = (held (ch_inner c))(m := (held (ch_inner c) m)(i := Map.empty))"
    by (simp add: cached_store_def)
next
  fix c m i a b rows c'
  assume c: "cached_ok ok held c" "tst_read_range (cached_store store) m i a b c = (rows, c')"
  then have "cached_read_range store m i a b c = (rows, c')" by (simp add: cached_store_def)
  note read = cached_read [OF c(1) this]
  show "cached_ok ok held c' \<and> held (ch_inner c') = held (ch_inner c)" by (rule read(1))
  assume "1 \<le> a"
  then show "sorted_wrt (<) (map rw_seq rows) \<and> row_map rows = held (ch_inner c) m i |` {a..b}" by (rule read(2))
qed

end

interpretation cached: transcript_store "cached_store memory_store" "cached_ok mem_ok mem_held" "\<lambda>c. mem_held (ch_inner c)"
  by (rule mem.cached_contract)

section \<open>The cache goes unnoticed\<close>

datatype store_op =
    InsertOp string string "TranscriptRow list"
  | SeqsOp string string
  | ReadOp string string nat nat
  | RemoveOp string string

datatype store_answer =
    Inserted "string + nat list"
  | StoredSeqs "nat list"
  | StoredRows "TranscriptRow list"
  | Removed

fun run_op :: "'st TranscriptStore \<Rightarrow> store_op \<Rightarrow> 'st \<Rightarrow> store_answer \<times> 'st" where
  "run_op store (InsertOp m i rows) st = (case tst_insert_ignore store m i rows st of (a, st') \<Rightarrow> (Inserted a, st'))"
| "run_op store (SeqsOp m i) st = (StoredSeqs (tst_seqs store m i st), st)"
| "run_op store (ReadOp m i a b) st = (case tst_read_range store m i a b st of (rows, st') \<Rightarrow> (StoredRows rows, st'))"
| "run_op store (RemoveOp m i) st = (Removed, tst_remove store m i st)"

fun run_ops :: "'st TranscriptStore \<Rightarrow> store_op list \<Rightarrow> 'st \<Rightarrow> store_answer list" where
  "run_ops store [] st = []"
| "run_ops store (x # xs) st = (case run_op store x st of (a, st') \<Rightarrow> a # run_ops store xs st')"

text \<open>What callers keep to: a batch has each seq once, and seqs start at one.\<close>

fun op_fair :: "store_op \<Rightarrow> bool" where
  "op_fair (InsertOp m i rows) = distinct (map rw_seq rows)"
| "op_fair (ReadOp m i a b) = (1 \<le> a)"
| "op_fair _ = True"

lemma rows_unique:
  assumes "sorted_wrt (<) (map rw_seq rows)" "sorted_wrt (<) (map rw_seq rows')" "row_map rows = row_map rows'"
  shows "rows = rows'"
proof -
  have inj: "inj row_pair" by (rule injI) (simp add: row_pair_def)
  have keys: "map fst (map row_pair xs) = map rw_seq xs" for xs by (simp add: row_pair_def)
  have d: "distinct (map fst (map row_pair xs))" "sorted (map fst (map row_pair xs))" if "sorted_wrt (<) (map rw_seq xs)" for xs
    using that unfolding keys by (simp_all add: strict_sorted_iff)
  have "set (map row_pair rows) = set (map row_pair rows')"
    using assms(3) map_of_inject_set [OF d(1) d(1), OF assms(1,2)] by (simp add: row_map_def)
  moreover have "inj_on fst (set (map row_pair rows) \<union> set (map row_pair rows'))"
    using calculation d(1) [OF assms(1)] by (metis Un_absorb distinct_map)
  ultimately have "map row_pair rows = map row_pair rows'"
    using d [OF assms(1)] d [OF assms(2)] by (intro map_sorted_distinct_set_unique [of fst])
  with inj show ?thesis by (simp add: inj_map_eq_map)
qed

lemma cached_read_inner: "ch_inner (snd (cached_read_range memory_store m i a b c)) = ch_inner c"
  by (simp add: cached_read_range_def cached_read_start_def cached_read_done_def memory_store_def mem_read_range_def Let_def
      split: option.split)

lemma cached_step:
  assumes "cached_ok mem_ok mem_held c" "op_fair x"
  shows "fst (run_op (cached_store memory_store) x c) = fst (run_op memory_store x (ch_inner c))"
    and "ch_inner (snd (run_op (cached_store memory_store) x c)) = snd (run_op memory_store x (ch_inner c))"
    and "cached_ok mem_ok mem_held (snd (run_op (cached_store memory_store) x c))"
proof -
  have okc: "mem_ok (ch_inner c)" using assms(1) by (simp add: cached_ok_def)
  have "fst (run_op (cached_store memory_store) x c) = fst (run_op memory_store x (ch_inner c))
    \<and> ch_inner (snd (run_op (cached_store memory_store) x c)) = snd (run_op memory_store x (ch_inner c))
    \<and> cached_ok mem_ok mem_held (snd (run_op (cached_store memory_store) x c))"
  proof (cases x)
    case (InsertOp m i rows)
    obtain a c' where c': "cached_insert_ignore memory_store m i rows c = (a, c')" by force
    have "cached_ok mem_ok mem_held c' \<and> tst_insert_ignore memory_store m i rows (ch_inner c) = (a, ch_inner c')"
      using mem.cached_insert [OF assms(1)] mem.cached_insert_err [OF assms(1)] c' assms(2) InsertOp by (cases a) auto
    with c' InsertOp show ?thesis by (simp add: cached_store_def)
  next
    case (ReadOp m i a b)
    obtain rows c' where c': "cached_read_range memory_store m i a b c = (rows, c')" by force
    obtain rows' where direct: "tst_read_range memory_store m i a b (ch_inner c) = (rows', ch_inner c)"
      by (simp add: memory_store_def mem_read_range_def)
    have a: "1 \<le> a" using assms(2) ReadOp by simp
    have "rows = rows'"
      using mem.cached_read(2) [OF assms(1) c' a] mem.read_stored [OF okc a direct] by (intro rows_unique) simp_all
    with c' direct ReadOp mem.cached_read(1) [OF assms(1) c'] cached_read_inner [of m i a b c] show ?thesis
      by (simp add: cached_store_def)
  qed (use assms(1) mem.cached_removed [OF assms(1)] in \<open>simp_all add: cached_store_def\<close>)
  then show "fst (run_op (cached_store memory_store) x c) = fst (run_op memory_store x (ch_inner c))"
    "ch_inner (snd (run_op (cached_store memory_store) x c)) = snd (run_op memory_store x (ch_inner c))"
    "cached_ok mem_ok mem_held (snd (run_op (cached_store memory_store) x c))" by blast+
qed

lemma cached_runs:
  assumes "cached_ok mem_ok mem_held c" "\<forall>x \<in> set ops. op_fair x"
  shows "run_ops (cached_store memory_store) ops c = run_ops memory_store ops (ch_inner c)"
  using assms
proof (induction ops arbitrary: c)
  case (Cons x ops)
  note step = cached_step [OF Cons.prems(1), of x]
  with Cons show ?case by (simp add: case_prod_beta)
qed simp

section \<open>Where it would not\<close>

text \<open>
  The generation is bumped by changes of the cache only, so a read that builds it does not see a write to
  its session that overtook it: what it fetched before the write becomes the cache. The stores of the
  repository answer at once, so that nothing comes between a read's start and its completion.
\<close>

definition overtaken_read :: "MemoryTranscriptStore CachedTranscriptStore" where
  "overtaken_read =
     (let (fl, c1) = cached_read_start memory_store ''m'' ''s'' 1 5 (cached_new []);
          (answer, c2) = cached_insert_ignore memory_store ''m'' ''s'' [\<lparr>rw_seq = 3, rw_entry = ''e''\<rparr>] c1;
          (rows, c3) = cached_read_done ''m'' ''s'' 1 5 fl c2
      in c3)"

lemma overtaken_read_stale:
  "fst (cached_read_range memory_store ''m'' ''s'' 1 5 overtaken_read) = []
    \<and> fst (mem_read_range ''m'' ''s'' 1 5 (ch_inner overtaken_read)) = [\<lparr>rw_seq = 3, rw_entry = ''e''\<rparr>]"
  by code_simp

text \<open>A batch that names a seq twice: the store keeps the first entry, the cache mirrors the second.\<close>

definition repeated_seq :: "MemoryTranscriptStore CachedTranscriptStore" where
  "repeated_seq = snd (cached_insert_ignore memory_store ''m'' ''s''
     [\<lparr>rw_seq = 1, rw_entry = ''a''\<rparr>, \<lparr>rw_seq = 1, rw_entry = ''b''\<rparr>]
     (snd (cached_read_range memory_store ''m'' ''s'' 1 5 (cached_new []))))"

lemma repeated_seq_diverges:
  "fst (cached_read_range memory_store ''m'' ''s'' 1 5 repeated_seq) = [\<lparr>rw_seq = 1, rw_entry = ''b''\<rparr>]
    \<and> fst (mem_read_range ''m'' ''s'' 1 5 (ch_inner repeated_seq)) = [\<lparr>rw_seq = 1, rw_entry = ''a''\<rparr>]"
  by code_simp

section \<open>Properties\<close>

text \<open>C17: The cache in front of the transcript store goes unnoticed by callers that keep to two rules: no batch
  names a seq twice, and no read starts below seq 1, where seqs start (\<open>op_fair\<close>). Then any sequence of inserts,
  reads, listings and removals, over any sessions, each answered before the next, is answered exactly as by the
  store alone. The first rule is needed (\<open>repeated_seq_diverges\<close>), and so is answering in turn (\<open>overtaken_read_stale\<close>).\<close>

theorem cached_store_transparent:
  assumes "\<forall>x \<in> set ops. op_fair x"
  shows "run_ops (cached_store memory_store) ops (cached_new []) = run_ops memory_store ops []"
  using cached_runs [OF _ assms, of "cached_new []"] by (simp add: cached_new_def cached_ok_def mem_ok_def mem_table_def)

text \<open>A session is read and cached, a gap in it is filled below the cached high, and it is read on.\<close>

definition sample_row :: "nat \<Rightarrow> TranscriptRow" where
  "sample_row seq = \<lparr>rw_seq = seq, rw_entry = ''e''\<rparr>"

definition sample_ops :: "store_op list" where
  "sample_ops = [InsertOp ''m'' ''s'' [sample_row 1, sample_row 3], ReadOp ''m'' ''s'' 1 3,
     InsertOp ''m'' ''s'' [sample_row 2, sample_row 4], ReadOp ''m'' ''s'' 1 4]"

theorem cached_store_transparent_witness:
  "run_ops (cached_store memory_store) sample_ops (cached_new []) =
    [Inserted (Inr [1, 3]), StoredRows [sample_row 1, sample_row 3], Inserted (Inr [2, 4]),
     StoredRows [sample_row 1, sample_row 2, sample_row 3, sample_row 4]]"
proof -
  have "run_ops (cached_store memory_store) sample_ops (cached_new []) = run_ops memory_store sample_ops []"
    by (rule cached_store_transparent) (simp add: sample_ops_def sample_row_def)
  then show ?thesis
    by (simp add: sample_ops_def sample_row_def memory_store_def mem_insert_ignore_def mem_read_range_def mem_table_def
        insert_row_def rows_between_def)
qed

end
