(* ===== verification/ClientTranscript.thy ===== *)
theory ClientTranscript
  imports Protocol
begin

text \<open>
  \<open>crates/client-core/src/stores/transcript.rs\<close>: the phone side of transcript sync, a pure state
  machine per session. Coverage is computed from the rows the storage port really took; a gap
  below the announced seq is asked for again, a bounded number of times in a row and then with a
  growing wait; a cycle nobody answers is found by a sweep. Attempt counters and milliseconds are
  natural numbers: no run of the program comes near the top of \<open>u32\<close> or \<open>u64\<close> with them.
\<close>

section \<open>State\<close>

definition SYNC_MAX_ATTEMPTS :: nat where "SYNC_MAX_ATTEMPTS = 3"
definition SYNC_RETRY_BASE_MS :: nat where "SYNC_RETRY_BASE_MS = 5000"
definition SYNC_RETRY_MAX_MS :: nat where "SYNC_RETRY_MAX_MS = 300000"
definition SYNC_STALL_MS :: nat where "SYNC_STALL_MS = 120000"
definition SEQ_CONFLICTS_CAP :: nat where "SEQ_CONFLICTS_CAP = 100"

definition sync_retry_delay_ms :: "nat \<Rightarrow> nat" where
  "sync_retry_delay_ms attempts =
     min (sat_mul SYNC_RETRY_BASE_MS (2 ^ min (attempts - 1) 20)) SYNC_RETRY_MAX_MS"

datatype SyncState = SsIdle | SsRequested | SsSyncing | SsComplete | SsFailed

record SessionSyncStatus =
  st_state :: SyncState
  st_attempts :: nat
  st_next_retry_at :: "nat option"
  st_active_sync_id :: "string option"
  st_target :: nat
  st_in_flight_since :: "nat option"

definition default_sync_status :: SessionSyncStatus where
  "default_sync_status =
     \<lparr>st_state = SsIdle, st_attempts = 0, st_next_retry_at = None, st_active_sync_id = None,
      st_target = 0, st_in_flight_since = None\<rparr>"

record SessionTranscript =
  tr_machine :: string
  tr_session_id :: string
  tr_have_ranges :: "SeqRange list"
  tr_local_high :: nat
  tr_sync :: SessionSyncStatus

definition fresh_transcript :: "string \<Rightarrow> string \<Rightarrow> SessionTranscript" where
  "fresh_transcript machine session_id =
     \<lparr>tr_machine = machine, tr_session_id = session_id, tr_have_ranges = [], tr_local_high = 0,
      tr_sync = default_sync_status\<rparr>"

datatype SeqConflict = SeqConflict string string nat \<comment> \<open>machine, session id, seq\<close>

datatype SyncEffect =
    SendSyncRequest string "SeqRange list" \<comment> \<open>session id, have ranges\<close>
  | SendSyncAck string SeqRange \<comment> \<open>sync id, range\<close>

record TranscriptState =
  ts_sessions :: "(string \<times> string, SessionTranscript) omap"
  ts_seq_conflicts :: "SeqConflict list"
  ts_max_attempts :: nat

definition transcript_new :: "nat \<Rightarrow> TranscriptState" where
  "transcript_new max_attempts =
     \<lparr>ts_sessions = [], ts_seq_conflicts = [],
      ts_max_attempts = (if max_attempts = 0 then SYNC_MAX_ATTEMPTS else max_attempts)\<rparr>"

definition ts_session :: "TranscriptState \<Rightarrow> string \<Rightarrow> string \<Rightarrow> SessionTranscript option" where
  "ts_session t machine session_id = om_get (ts_sessions t) (machine, session_id)"

text \<open>\<open>get_or_create\<close> gives the entry to change; \<open>ts_update\<close> stores it back.\<close>

definition get_or_create :: "TranscriptState \<Rightarrow> string \<Rightarrow> string \<Rightarrow> SessionTranscript" where
  "get_or_create t machine session_id =
     (case ts_session t machine session_id of None \<Rightarrow> fresh_transcript machine session_id | Some s \<Rightarrow> s)"

definition ts_update :: "string \<Rightarrow> string \<Rightarrow> SessionTranscript \<Rightarrow> TranscriptState \<Rightarrow> TranscriptState" where
  "ts_update machine session_id s t = t\<lparr>ts_sessions := om_put (machine, session_id) s (ts_sessions t)\<rparr>"

definition have_ranges_of :: "TranscriptState \<Rightarrow> string \<Rightarrow> string \<Rightarrow> SeqRange list" where
  "have_ranges_of t machine session_id =
     (case ts_session t machine session_id of None \<Rightarrow> [] | Some s \<Rightarrow> tr_have_ranges s)"

definition has_contiguous :: "TranscriptState \<Rightarrow> string \<Rightarrow> string \<Rightarrow> nat option \<Rightarrow> bool" where
  "has_contiguous t machine session_id expected_high =
     (let ranges = have_ranges_of t machine session_id in
      if ranges = [] then expected_high = None \<or> expected_high = Some 0
      else if length ranges \<noteq> 1 \<or> fst (ranges ! 0) \<noteq> 1 then False
      else (case expected_high of None \<Rightarrow> True | Some h \<Rightarrow> snd (ranges ! 0) = h))"

section \<open>Rows\<close>

definition last_high :: "SeqRange list \<Rightarrow> nat" where
  "last_high ranges = (if ranges = [] then 0 else snd (last ranges))"

definition hydrate_from_seqs :: "string \<Rightarrow> string \<Rightarrow> nat list \<Rightarrow> TranscriptState \<Rightarrow> TranscriptState" where
  "hydrate_from_seqs machine session_id stored t =
     (let ranges = normalize_ranges (map (\<lambda>s. (s, s)) stored);
          s = get_or_create t machine session_id
      in ts_update machine session_id (s\<lparr>tr_have_ranges := ranges, tr_local_high := last_high ranges\<rparr>) t)"

definition integrate_rows :: "string \<Rightarrow> string \<Rightarrow> nat list \<Rightarrow> nat list \<Rightarrow> TranscriptState \<Rightarrow> TranscriptState" where
  "integrate_rows machine session_id inserted conflicts t =
     (let s = get_or_create t machine session_id;
          s1 = (if inserted \<noteq> []
                then (let have_ranges = union_ranges (tr_have_ranges s) (map (\<lambda>seq. (seq, seq)) inserted)
                      in s\<lparr>tr_have_ranges := have_ranges, tr_local_high := last_high have_ranges\<rparr>)
                else s);
          t1 = ts_update machine session_id s1 t
      in t1\<lparr>ts_seq_conflicts := keep_newest SEQ_CONFLICTS_CAP
             (ts_seq_conflicts t1 @ map (SeqConflict machine session_id) conflicts)\<rparr>)"

definition remove_session :: "string \<Rightarrow> string \<Rightarrow> TranscriptState \<Rightarrow> TranscriptState" where
  "remove_session machine session_id t = t\<lparr>ts_sessions := om_del (machine, session_id) (ts_sessions t)\<rparr>"

section \<open>Cycles\<close>

definition start_cycle :: "string \<Rightarrow> string \<Rightarrow> nat \<Rightarrow> nat \<Rightarrow> TranscriptState \<Rightarrow> SyncEffect list \<times> TranscriptState" where
  "start_cycle machine session_id target now t =
     (let s = get_or_create t machine session_id;
          sync = (tr_sync s)\<lparr>st_state := SsRequested, st_attempts := st_attempts (tr_sync s) + 1,
                   st_next_retry_at := None, st_active_sync_id := None, st_in_flight_since := Some now,
                   st_target := max target (st_target (tr_sync s))\<rparr>
      in ([SendSyncRequest session_id (tr_have_ranges s)], ts_update machine session_id (s\<lparr>tr_sync := sync\<rparr>) t))"

definition apply_sync_begin :: "string \<Rightarrow> string \<Rightarrow> string \<Rightarrow> nat \<Rightarrow> nat \<Rightarrow> TranscriptState \<Rightarrow> TranscriptState" where
  "apply_sync_begin machine session_id sync_id seq_high now t =
     (let s = get_or_create t machine session_id;
          sync = (tr_sync s)\<lparr>st_state := SsSyncing, st_active_sync_id := Some sync_id,
                   st_in_flight_since := Some now, st_target := max (st_target (tr_sync s)) seq_high\<rparr>
      in ts_update machine session_id (s\<lparr>tr_sync := sync\<rparr>) t)"

definition in_flight :: "SyncState \<Rightarrow> bool" where
  "in_flight st = (st = SsRequested \<or> st = SsSyncing)"

definition note_sync_progress :: "string \<Rightarrow> string \<Rightarrow> nat \<Rightarrow> TranscriptState \<Rightarrow> TranscriptState" where
  "note_sync_progress machine session_id now t =
     (case ts_session t machine session_id of
        None \<Rightarrow> t
      | Some s \<Rightarrow>
          (if in_flight (st_state (tr_sync s))
           then ts_update machine session_id (s\<lparr>tr_sync := (tr_sync s)\<lparr>st_in_flight_since := Some now\<rparr>\<rparr>) t
           else t))"

definition ack_sync_chunk :: "string \<Rightarrow> SeqRange \<Rightarrow> SyncEffect" where
  "ack_sync_chunk sync_id rg = SendSyncAck sync_id rg"

text \<open>The two ways a cycle comes to rest, as the source writes them out in several places.\<close>

definition completed :: "SessionTranscript \<Rightarrow> SessionTranscript" where
  "completed s = s\<lparr>tr_sync := (tr_sync s)\<lparr>st_state := SsComplete, st_attempts := 0, st_next_retry_at := None,
     st_active_sync_id := None, st_in_flight_since := None\<rparr>\<rparr>"

definition failed_until :: "nat \<Rightarrow> SessionTranscript \<Rightarrow> SessionTranscript" where
  "failed_until at s = s\<lparr>tr_sync := (tr_sync s)\<lparr>st_state := SsFailed, st_next_retry_at := Some at,
     st_active_sync_id := None, st_in_flight_since := None\<rparr>\<rparr>"

definition apply_sync_end :: "string \<Rightarrow> string \<Rightarrow> nat \<Rightarrow> TranscriptState \<Rightarrow> SyncEffect list \<times> TranscriptState" where
  "apply_sync_end machine session_id now t =
     (case ts_session t machine session_id of
        None \<Rightarrow> ([], t)
      | Some s \<Rightarrow>
          (let target = max (st_target (tr_sync s)) (tr_local_high s);
               missing = (if 0 < target then missing_ranges (tr_have_ranges s) 1 target else []);
               attempts = st_attempts (tr_sync s)
           in if missing = [] then ([], ts_update machine session_id (completed (get_or_create t machine session_id)) t)
              else if attempts < ts_max_attempts t then start_cycle machine session_id target now t
              else ([], ts_update machine session_id
                      (failed_until (now + sync_retry_delay_ms attempts) (get_or_create t machine session_id)) t)))"

definition ensure_synced :: "string \<Rightarrow> string \<Rightarrow> nat \<Rightarrow> nat \<Rightarrow> TranscriptState \<Rightarrow> SyncEffect list \<times> TranscriptState" where
  "ensure_synced machine session_id target_seq_high now t =
     (if target_seq_high = 0 then ([], t)
      else
        (let s = get_or_create t machine session_id;
             t1 = ts_update machine session_id s t;
             sync = tr_sync s
         in if missing_ranges (tr_have_ranges s) 1 target_seq_high = []
            then ([], if st_state sync \<noteq> SsComplete then ts_update machine session_id (completed s) t1 else t1)
            else if in_flight (st_state sync)
            then ([], ts_update machine session_id
                    (s\<lparr>tr_sync := sync\<lparr>st_target := max (st_target sync) target_seq_high\<rparr>\<rparr>) t1)
            else if st_state sync = SsFailed \<and> (case st_next_retry_at sync of None \<Rightarrow> False | Some at \<Rightarrow> now < at)
            then ([], t1)
            else start_cycle machine session_id target_seq_high now t1))"

definition reconnected :: "string option \<Rightarrow> SessionTranscript \<Rightarrow> SessionTranscript" where
  "reconnected machine s =
     (if (case machine of None \<Rightarrow> False | Some m \<Rightarrow> tr_machine s \<noteq> m) then s
      else if st_state (tr_sync s) = SsIdle \<or> st_state (tr_sync s) = SsComplete then s
      else s\<lparr>tr_sync := (tr_sync s)\<lparr>st_state := SsIdle, st_attempts := 0, st_next_retry_at := None,
             st_active_sync_id := None, st_in_flight_since := None\<rparr>\<rparr>)"

definition on_reconnect :: "string option \<Rightarrow> TranscriptState \<Rightarrow> TranscriptState" where
  "on_reconnect machine t = t\<lparr>ts_sessions := om_map (\<lambda>_. reconnected machine) (ts_sessions t)\<rparr>"

definition due_retry :: "nat \<Rightarrow> SessionTranscript \<Rightarrow> bool" where
  "due_retry now s = (st_state (tr_sync s) = SsFailed
     \<and> (case st_next_retry_at (tr_sync s) of None \<Rightarrow> True | Some at \<Rightarrow> at \<le> now) \<and> 0 < st_target (tr_sync s))"

definition retry_sweep :: "nat \<Rightarrow> TranscriptState \<Rightarrow> SyncEffect list \<times> TranscriptState" where
  "retry_sweep now t =
     foldl (\<lambda>(effects, t1) s.
         (let (es, t2) = start_cycle (tr_machine s) (tr_session_id s) (st_target (tr_sync s)) now t1
          in (effects @ es, t2)))
       ([], t) (filter (due_retry now) (om_vals (ts_sessions t)))"

definition stalled :: "nat \<Rightarrow> SessionTranscript \<Rightarrow> bool" where
  "stalled now s = (in_flight (st_state (tr_sync s))
     \<and> (case st_in_flight_since (tr_sync s) of None \<Rightarrow> False | Some at \<Rightarrow> SYNC_STALL_MS \<le> now - at)
     \<and> 0 < st_target (tr_sync s))"

definition stall_step :: "nat \<Rightarrow> (string \<times> SyncEffect) list \<times> TranscriptState \<Rightarrow> SessionTranscript
    \<Rightarrow> (string \<times> SyncEffect) list \<times> TranscriptState" where
  "stall_step now acc s =
     (case acc of (out, t) \<Rightarrow>
        (let machine = tr_machine s; session_id = tr_session_id s;
             attempts = (case ts_session t machine session_id of None \<Rightarrow> 0 | Some s1 \<Rightarrow> st_attempts (tr_sync s1))
         in if attempts < ts_max_attempts t
            then (let (es, t1) = start_cycle machine session_id (st_target (tr_sync s)) now t
                  in (out @ map (Pair machine) es, t1))
            else (out, ts_update machine session_id
                    (failed_until (now + sync_retry_delay_ms attempts) (get_or_create t machine session_id)) t)))"

definition stall_sweep :: "nat \<Rightarrow> TranscriptState \<Rightarrow> (string \<times> SyncEffect) list \<times> TranscriptState" where
  "stall_sweep now t = foldl (stall_step now) ([], t) (filter (stalled now) (om_vals (ts_sessions t)))"

section \<open>The invariant\<close>

text \<open>
  Coverage is canonical with the highest stored seq beside it; exactly the cycles in flight carry
  the time of their last progress, so that the stall sweep can find every one of them; a failed
  cycle carries the time of its retry.
\<close>

definition session_ok :: "SessionTranscript \<Rightarrow> bool" where
  "session_ok s = (canonical (tr_have_ranges s) \<and> in_u64 (tr_have_ranges s)
     \<and> tr_local_high s = last_high (tr_have_ranges s)
     \<and> (in_flight (st_state (tr_sync s)) \<longleftrightarrow> st_in_flight_since (tr_sync s) \<noteq> None)
     \<and> (st_state (tr_sync s) = SsFailed \<longrightarrow> st_next_retry_at (tr_sync s) \<noteq> None))"

definition transcript_ok :: "TranscriptState \<Rightarrow> bool" where
  "transcript_ok t = (om_wf (ts_sessions t) \<and> length (ts_seq_conflicts t) \<le> SEQ_CONFLICTS_CAP \<and> 0 < ts_max_attempts t
     \<and> (\<forall>machine session_id s. ts_session t machine session_id = Some s
          \<longrightarrow> tr_machine s = machine \<and> tr_session_id s = session_id \<and> session_ok s))"

named_theorems transcript_intros \<open>each operation keeps the transcript state well-formed\<close>

lemma ts_session_update [simp]:
  "ts_session (ts_update m i s t) m' i' = (if (m', i') = (m, i) then Some s else ts_session t m' i')"
  by (simp add: ts_session_def ts_update_def)

lemma ts_update_simps [simp]:
  "ts_seq_conflicts (ts_update m i s t) = ts_seq_conflicts t" "ts_max_attempts (ts_update m i s t) = ts_max_attempts t"
  by (simp_all add: ts_update_def)

lemma get_or_create_Some [simp]: "ts_session t m i = Some s \<Longrightarrow> get_or_create t m i = s"
  by (simp add: get_or_create_def)

lemma transcript_ok_new [transcript_intros]: "transcript_ok (transcript_new n)"
  by (simp add: transcript_ok_def transcript_new_def ts_session_def SYNC_MAX_ATTEMPTS_def)

lemma transcript_ok_update [transcript_intros]:
  "transcript_ok t \<Longrightarrow> session_ok s \<Longrightarrow> tr_machine s = m \<Longrightarrow> tr_session_id s = i \<Longrightarrow> transcript_ok (ts_update m i s t)"
  unfolding transcript_ok_def by (auto simp: ts_update_def ts_session_def)

lemma session_ok_get:
  assumes "transcript_ok t"
  shows "session_ok (get_or_create t m i)" "tr_machine (get_or_create t m i) = m" "tr_session_id (get_or_create t m i) = i"
  using assms
  by (auto simp: transcript_ok_def get_or_create_def fresh_transcript_def session_ok_def default_sync_status_def
      last_high_def in_flight_def split: option.split)

definition restarted :: "nat \<Rightarrow> nat \<Rightarrow> SessionTranscript \<Rightarrow> SessionTranscript" where
  "restarted target now s = s\<lparr>tr_sync := (tr_sync s)\<lparr>st_state := SsRequested, st_attempts := st_attempts (tr_sync s) + 1,
     st_next_retry_at := None, st_active_sync_id := None, st_in_flight_since := Some now,
     st_target := max target (st_target (tr_sync s))\<rparr>\<rparr>"

lemma start_cycle_unfold:
  "start_cycle m i target now t = ([SendSyncRequest i (tr_have_ranges (get_or_create t m i))],
     ts_update m i (restarted target now (get_or_create t m i)) t)"
  by (simp add: start_cycle_def restarted_def Let_def)

lemma session_ok_moves [simp]:
  "session_ok s \<Longrightarrow> session_ok (completed s)" "session_ok s \<Longrightarrow> session_ok (failed_until at s)"
  "session_ok s \<Longrightarrow> session_ok (restarted target now s)" "session_ok s \<Longrightarrow> session_ok (reconnected machine s)"
  by (auto simp: session_ok_def completed_def failed_until_def restarted_def reconnected_def in_flight_def)

lemma tr_keys [simp]:
  "tr_machine (completed s) = tr_machine s" "tr_session_id (completed s) = tr_session_id s"
  "tr_machine (failed_until at s) = tr_machine s" "tr_session_id (failed_until at s) = tr_session_id s"
  "tr_machine (restarted target now s) = tr_machine s" "tr_session_id (restarted target now s) = tr_session_id s"
  "tr_machine (reconnected machine s) = tr_machine s" "tr_session_id (reconnected machine s) = tr_session_id s"
  by (simp_all add: completed_def failed_until_def restarted_def reconnected_def)

lemma canonical_last: "canonical rs \<Longrightarrow> x \<in> seqs rs \<Longrightarrow> x \<le> last_high rs"
proof (induction rs rule: rev_induct)
  case (snoc r rs)
  obtain a b where r: "r = (a, b)" by (cases r)
  have "y < a" if "y \<in> seqs rs" for y
    using snoc.prems(1) that by (fastforce simp: r canonical_snoc seqs_def)
  then show ?case using snoc.prems by (fastforce simp: r last_high_def canonical_snoc)
qed simp

lemma transcript_ok_start_cycle [transcript_intros]:
  "transcript_ok t \<Longrightarrow> transcript_ok (snd (start_cycle m i target now t))"
  by (simp add: start_cycle_unfold transcript_ok_update session_ok_get)

lemma in_u64_points: "in_u64 (map (\<lambda>s. (s, s)) xs) \<longleftrightarrow> (\<forall>x \<in> set xs. x \<le> u64_max)"
  by (auto simp: in_u64_def)

lemma seqs_points [simp]: "seqs (map (\<lambda>s. (s, s)) xs) = set xs"
  by (auto simp: seqs_def)

lemma session_ok_ranges:
  "session_ok s \<Longrightarrow> canonical r \<Longrightarrow> in_u64 r \<Longrightarrow> session_ok (s\<lparr>tr_have_ranges := r, tr_local_high := last_high r\<rparr>)"
  by (simp add: session_ok_def)

lemma transcript_ok_hydrate [transcript_intros]:
  assumes "transcript_ok t" "\<forall>x \<in> set stored. x \<le> u64_max"
  shows "transcript_ok (hydrate_from_seqs m i stored t)"
  using assms normalize_ranges [of "map (\<lambda>s. (s, s)) stored"]
  by (simp add: hydrate_from_seqs_def Let_def transcript_ok_update session_ok_get session_ok_ranges in_u64_points)

lemma transcript_ok_conflicts: "transcript_ok t \<Longrightarrow> length cs \<le> SEQ_CONFLICTS_CAP \<Longrightarrow> transcript_ok (t\<lparr>ts_seq_conflicts := cs\<rparr>)"
  by (simp add: transcript_ok_def ts_session_def)

lemma transcript_ok_integrate [transcript_intros]:
  assumes "transcript_ok t" "\<forall>x \<in> set inserted. x \<le> u64_max"
  shows "transcript_ok (integrate_rows m i inserted conflicts t)"
proof -
  let ?s = "get_or_create t m i"
  have "session_ok ?s" "in_u64 (tr_have_ranges ?s)" using session_ok_get(1) [OF assms(1)] by (auto simp: session_ok_def)
  then have "session_ok (?s\<lparr>tr_have_ranges := union_ranges (tr_have_ranges ?s) (map (\<lambda>seq. (seq, seq)) inserted),
      tr_local_high := last_high (union_ranges (tr_have_ranges ?s) (map (\<lambda>seq. (seq, seq)) inserted))\<rparr>)"
    using assms(2) union_ranges [of "tr_have_ranges ?s" "map (\<lambda>seq. (seq, seq)) inserted"]
    by (intro session_ok_ranges) (auto simp: in_u64_points)
  then show ?thesis
    using assms(1) session_ok_get [OF assms(1), of m i]
    by (simp add: integrate_rows_def Let_def transcript_ok_conflicts transcript_ok_update)
qed

lemma transcript_ok_remove [transcript_intros]: "transcript_ok t \<Longrightarrow> transcript_ok (remove_session m i t)"
  by (auto simp: transcript_ok_def remove_session_def ts_session_def)

lemma transcript_ok_begin [transcript_intros]: "transcript_ok t \<Longrightarrow> transcript_ok (apply_sync_begin m i j high now t)"
  using session_ok_get [of t m i]
  by (auto simp: apply_sync_begin_def Let_def session_ok_def in_flight_def intro!: transcript_ok_update)

lemma session_ok_Some:
  assumes "transcript_ok t" "ts_session t m i = Some s"
  shows "session_ok s" "tr_machine s = m" "tr_session_id s = i"
  using assms by (auto simp: transcript_ok_def)

lemma transcript_ok_progress [transcript_intros]:
  assumes "transcript_ok t"
  shows "transcript_ok (note_sync_progress m i now t)"
proof (cases "ts_session t m i")
  case (Some s)
  note s = session_ok_Some [OF assms Some]
  have "session_ok (s\<lparr>tr_sync := (tr_sync s)\<lparr>st_in_flight_since := Some now\<rparr>\<rparr>)" if "in_flight (st_state (tr_sync s))"
    using s(1) that by (simp add: session_ok_def)
  then show ?thesis using assms Some s(2,3) by (simp add: note_sync_progress_def transcript_ok_update)
qed (use assms in \<open>simp add: note_sync_progress_def\<close>)

lemma transcript_ok_end [transcript_intros]: "transcript_ok t \<Longrightarrow> transcript_ok (snd (apply_sync_end m i now t))"
  by (cases "ts_session t m i")
     (simp_all add: apply_sync_end_def Let_def transcript_ok_start_cycle transcript_ok_update session_ok_Some)

lemma transcript_ok_ensure [transcript_intros]:
  assumes "transcript_ok t"
  shows "transcript_ok (snd (ensure_synced m i target now t))"
proof -
  let ?s = "get_or_create t m i"
  note s = session_ok_get [OF assms, of m i]
  have t1: "transcript_ok (ts_update m i ?s t)" using assms s by (simp add: transcript_ok_update)
  have "session_ok (?s\<lparr>tr_sync := (tr_sync ?s)\<lparr>st_target := x\<rparr>\<rparr>)" for x
    using s(1) by (simp add: session_ok_def)
  then show ?thesis
    using assms t1 s by (simp add: ensure_synced_def Let_def transcript_ok_update transcript_ok_start_cycle)
qed

lemma transcript_ok_reconnect [transcript_intros]: "transcript_ok t \<Longrightarrow> transcript_ok (on_reconnect machine t)"
  by (auto simp: transcript_ok_def on_reconnect_def ts_session_def om_get_map)

section \<open>Sweeps\<close>

text \<open>A sweep moves each of the sessions it chose, once, and no other.\<close>

definition tr_key :: "SessionTranscript \<Rightarrow> string \<times> string" where
  "tr_key s = (tr_machine s, tr_session_id s)"

definition stall_next :: "nat \<Rightarrow> nat \<Rightarrow> SessionTranscript \<Rightarrow> SessionTranscript" where
  "stall_next max_attempts now s =
     (if st_attempts (tr_sync s) < max_attempts then restarted (st_target (tr_sync s)) now s
      else failed_until (now + sync_retry_delay_ms (st_attempts (tr_sync s))) s)"

definition stall_sends :: "nat \<Rightarrow> SessionTranscript \<Rightarrow> (string \<times> SyncEffect) list" where
  "stall_sends max_attempts s = (if st_attempts (tr_sync s) < max_attempts
     then [(tr_machine s, SendSyncRequest (tr_session_id s) (tr_have_ranges s))] else [])"

lemma stall_step_known:
  assumes "ts_session t (tr_machine s) (tr_session_id s) = Some s"
  shows "stall_step now (out, t) s =
    (out @ stall_sends (ts_max_attempts t) s, ts_update (tr_machine s) (tr_session_id s) (stall_next (ts_max_attempts t) now s) t)"
  using assms by (simp add: stall_step_def start_cycle_unfold Let_def stall_sends_def stall_next_def)

lemma stall_fold:
  assumes "distinct (map tr_key ss)" "\<forall>s \<in> set ss. ts_session t (tr_machine s) (tr_session_id s) = Some s"
    and "r = foldl (stall_step now) (out, t) ss"
  shows "fst r = out @ concat (map (stall_sends (ts_max_attempts t)) ss)"
    and "ts_session (snd r) m i = (case find (\<lambda>s. tr_key s = (m, i)) ss of
      None \<Rightarrow> ts_session t m i | Some s \<Rightarrow> Some (stall_next (ts_max_attempts t) now s))"
    and "transcript_ok t \<longrightarrow> transcript_ok (snd r)"
proof -
  have "fst r = out @ concat (map (stall_sends (ts_max_attempts t)) ss)
    \<and> ts_session (snd r) m i = (case find (\<lambda>s. tr_key s = (m, i)) ss of
      None \<Rightarrow> ts_session t m i | Some s \<Rightarrow> Some (stall_next (ts_max_attempts t) now s))
    \<and> (transcript_ok t \<longrightarrow> transcript_ok (snd r))"
    using assms
  proof (induction ss arbitrary: out t r)
    case (Cons s ss)
    let ?t = "ts_update (tr_machine s) (tr_session_id s) (stall_next (ts_max_attempts t) now s) t"
    have s: "ts_session t (tr_machine s) (tr_session_id s) = Some s" using Cons.prems(2) by simp
    have other: "tr_key x \<noteq> tr_key s" if "x \<in> set ss" for x
      using Cons.prems(1) that by (metis distinct.simps(2) imageI list.set_map list.simps(9))
    have rest: "\<forall>x \<in> set ss. ts_session ?t (tr_machine x) (tr_session_id x) = Some x"
      using Cons.prems(2) other by (auto simp: tr_key_def)
    have absent: "find (\<lambda>x. tr_key x = (m, i)) ss = None" if "tr_key s = (m, i)"
      using other that by (auto simp: find_None_iff)
    have ok: "transcript_ok ?t" if "transcript_ok t"
      using that session_ok_Some(1) [OF that s] by (intro transcript_ok_update) (auto simp: stall_next_def)
    note IH = Cons.IH [OF _ rest refl, of "out @ stall_sends (ts_max_attempts t) s"]
    show ?case
      using IH Cons.prems(1,3) absent ok
      by (auto simp: stall_step_known [OF s] tr_key_def split: option.splits)
  qed simp
  then show "fst r = out @ concat (map (stall_sends (ts_max_attempts t)) ss)"
    "ts_session (snd r) m i = (case find (\<lambda>s. tr_key s = (m, i)) ss of
      None \<Rightarrow> ts_session t m i | Some s \<Rightarrow> Some (stall_next (ts_max_attempts t) now s))"
    "transcript_ok t \<longrightarrow> transcript_ok (snd r)" by auto
qed

lemma sessions_known:
  assumes "transcript_ok t" "s \<in> set (om_vals (ts_sessions t))"
  shows "ts_session t (tr_machine s) (tr_session_id s) = Some s"
proof -
  from assms(2) obtain k where "(k, s) \<in> set (ts_sessions t)" by (auto simp: om_vals_def)
  then have "om_get (ts_sessions t) k = Some s" using assms(1) by (simp add: transcript_ok_def om_get_in)
  moreover obtain m i where "k = (m, i)" by (cases k)
  ultimately show ?thesis using assms(1) by (auto simp: transcript_ok_def ts_session_def)
qed

lemma sessions_keys: 
  assumes "transcript_ok t"
  shows "map tr_key (om_vals (ts_sessions t)) = map fst (ts_sessions t)"
proof -
  have "tr_key s = k" if "(k, s) \<in> set (ts_sessions t)" for k s
  proof -
    have "om_get (ts_sessions t) k = Some s" using assms that by (simp add: transcript_ok_def om_get_in)
    with assms show ?thesis by (cases k) (auto simp: transcript_ok_def ts_session_def tr_key_def)
  qed
  then show ?thesis by (auto simp: om_vals_def)
qed

lemma sessions_distinct: "transcript_ok t \<Longrightarrow> distinct (map tr_key (filter P (om_vals (ts_sessions t))))"
  by (simp add: sessions_keys transcript_ok_def om_wf_distinct distinct_map_filter)

lemma find_session:
  assumes "transcript_ok t"
  shows "find (\<lambda>s. tr_key s = (m, i)) (filter P (om_vals (ts_sessions t)))
    = (case ts_session t m i of None \<Rightarrow> None | Some s \<Rightarrow> if P s then Some s else None)"
proof -
  have mem: "s \<in> set (om_vals (ts_sessions t)) \<and> tr_key s = (m, i) \<longleftrightarrow> ts_session t m i = Some s" for s
  proof
    assume "s \<in> set (om_vals (ts_sessions t)) \<and> tr_key s = (m, i)"
    then show "ts_session t m i = Some s" using sessions_known [OF assms, of s] by (simp add: tr_key_def)
  next
    assume s: "ts_session t m i = Some s"
    then have "((m, i), s) \<in> set (ts_sessions t)" using assms by (simp add: ts_session_def transcript_ok_def om_get_in)
    then have "s \<in> set (om_vals (ts_sessions t))" by (force simp: om_vals_def)
    with session_ok_Some [OF assms s] show "s \<in> set (om_vals (ts_sessions t)) \<and> tr_key s = (m, i)"
      by (simp add: tr_key_def)
  qed
  show ?thesis
  proof (cases "find (\<lambda>s. tr_key s = (m, i)) (filter P (om_vals (ts_sessions t)))")
    case None
    then show ?thesis using mem by (auto simp: find_None_iff split: option.split)
  next
    case (Some s)
    then have "s \<in> set (om_vals (ts_sessions t))" "P s" "tr_key s = (m, i)" by (auto dest!: find_Some)
    then have "ts_session t m i = Some s" using mem by blast
    with Some \<open>P s\<close> show ?thesis by simp
  qed
qed

lemma stall_sweep:
  assumes "transcript_ok t"
  shows "fst (stall_sweep now t) = concat (map (stall_sends (ts_max_attempts t)) (filter (stalled now) (om_vals (ts_sessions t))))"
    and "ts_session (snd (stall_sweep now t)) m i = map_option
      (\<lambda>s. if stalled now s then stall_next (ts_max_attempts t) now s else s) (ts_session t m i)"
    and "transcript_ok (snd (stall_sweep now t))"
proof -
  have known: "\<forall>s \<in> set (filter (stalled now) (om_vals (ts_sessions t))). ts_session t (tr_machine s) (tr_session_id s) = Some s"
    using sessions_known [OF assms] by simp
  note fold = stall_fold [OF sessions_distinct [OF assms] known, of "stall_sweep now t" now "[]",
      unfolded stall_sweep_def, OF refl, folded stall_sweep_def]
  show "fst (stall_sweep now t) = concat (map (stall_sends (ts_max_attempts t)) (filter (stalled now) (om_vals (ts_sessions t))))"
    "transcript_ok (snd (stall_sweep now t))" using fold(1,3) assms by simp_all
  show "ts_session (snd (stall_sweep now t)) m i = map_option
      (\<lambda>s. if stalled now s then stall_next (ts_max_attempts t) now s else s) (ts_session t m i)"
    using fold(2) [of m i] by (simp add: find_session [OF assms] split: option.splits)
qed

lemma transcript_ok_retry [transcript_intros]:
  assumes "transcript_ok t"
  shows "transcript_ok (snd (retry_sweep now t))"
  unfolding retry_sweep_def
  by (rule foldl_inv [where P = "\<lambda>p. transcript_ok (snd p)"])
     (auto simp: assms case_prod_beta Let_def transcript_ok_start_cycle)

section \<open>Coverage\<close>

lemma covers_target:
  assumes "transcript_ok t" "ts_session t m i = Some s" "target < u64_max"
  shows "missing_ranges (tr_have_ranges s) 1 target = [] \<longleftrightarrow> {1..target} \<subseteq> seqs (tr_have_ranges s)"
  using covers_iff [of "tr_have_ranges s" target 1] session_ok_Some(1) [OF assms(1,2)] assms(3)
  by (simp add: session_ok_def covers_def)

lemma retry_delay_bounds: "sync_retry_delay_ms n \<le> SYNC_RETRY_MAX_MS" "SYNC_RETRY_BASE_MS \<le> sync_retry_delay_ms n"
proof -
  have "1 \<le> (2::nat) ^ min (n - 1) 20" by simp
  moreover have "(2::nat) ^ min (n - 1) 20 \<le> 2 ^ 20" by (rule power_increasing) auto
  ultimately show "SYNC_RETRY_BASE_MS \<le> sync_retry_delay_ms n"
    by (auto simp: sync_retry_delay_ms_def SYNC_RETRY_BASE_MS_def SYNC_RETRY_MAX_MS_def sat_mul_def u64_max_def)
qed (simp add: sync_retry_delay_ms_def)

lemma retry_delay_mono: "a \<le> b \<Longrightarrow> sync_retry_delay_ms a \<le> sync_retry_delay_ms b"
proof -
  assume "a \<le> b"
  then have "(2::nat) ^ min (a - 1) 20 \<le> 2 ^ min (b - 1) 20" by (intro power_increasing) auto
  then have "SYNC_RETRY_BASE_MS * 2 ^ min (a - 1) 20 \<le> SYNC_RETRY_BASE_MS * 2 ^ min (b - 1) 20" by (rule mult_le_mono2)
  then show ?thesis unfolding sync_retry_delay_ms_def sat_mul_def by (intro min.mono order_refl)
qed

section \<open>Reachable states\<close>

text \<open>Everything the runtime calls, in any order; stored seqs are \<open>u64\<close> values.\<close>

inductive transcript_reach :: "TranscriptState \<Rightarrow> bool" where
  start: "transcript_reach (transcript_new n)"
| hydrate: "transcript_reach t \<Longrightarrow> \<forall>x \<in> set stored. x \<le> u64_max \<Longrightarrow> transcript_reach (hydrate_from_seqs m i stored t)"
| rows: "transcript_reach t \<Longrightarrow> \<forall>x \<in> set inserted. x \<le> u64_max \<Longrightarrow> transcript_reach (integrate_rows m i inserted conflicts t)"
| drop_session: "transcript_reach t \<Longrightarrow> transcript_reach (remove_session m i t)"
| sync_begin: "transcript_reach t \<Longrightarrow> transcript_reach (apply_sync_begin m i j high now t)"
| progress: "transcript_reach t \<Longrightarrow> transcript_reach (note_sync_progress m i now t)"
| sync_end: "transcript_reach t \<Longrightarrow> transcript_reach (snd (apply_sync_end m i now t))"
| ensure: "transcript_reach t \<Longrightarrow> transcript_reach (snd (ensure_synced m i target now t))"
| reconnect: "transcript_reach t \<Longrightarrow> transcript_reach (on_reconnect machine t)"
| retry: "transcript_reach t \<Longrightarrow> transcript_reach (snd (retry_sweep now t))"
| stall: "transcript_reach t \<Longrightarrow> transcript_reach (snd (stall_sweep now t))"

lemma transcript_reach_ok: "transcript_reach t \<Longrightarrow> transcript_ok t"
  by (induction rule: transcript_reach.induct) (auto intro: transcript_intros stall_sweep(3))

section \<open>Properties\<close>

text \<open>C28: In every reachable state the coverage of a session is canonical, its highest stored seq is
  the maximum of that coverage, exactly the cycles in flight carry a stall clock, every failed cycle
  carries a retry time, and at most a hundred conflicts are kept.\<close>

theorem transcript_state_consistent:
  assumes "transcript_reach t"
  shows "length (ts_seq_conflicts t) \<le> 100 \<and> (ts_session t m i = Some s \<longrightarrow>
      canonical (tr_have_ranges s) \<and> (\<forall>x \<in> seqs (tr_have_ranges s). x \<le> tr_local_high s)
      \<and> (tr_have_ranges s \<noteq> [] \<longrightarrow> tr_local_high s \<in> seqs (tr_have_ranges s))
      \<and> (in_flight (st_state (tr_sync s)) \<longleftrightarrow> st_in_flight_since (tr_sync s) \<noteq> None)
      \<and> (st_state (tr_sync s) = SsFailed \<longrightarrow> st_next_retry_at (tr_sync s) \<noteq> None))"
proof (intro conjI impI)
  note ok = transcript_reach_ok [OF assms]
  show "length (ts_seq_conflicts t) \<le> 100" using ok by (simp add: transcript_ok_def SEQ_CONFLICTS_CAP_def)
  assume "ts_session t m i = Some s"
  then have s: "session_ok s" using session_ok_Some(1) [OF ok] by blast
  then show "canonical (tr_have_ranges s)" "in_flight (st_state (tr_sync s)) \<longleftrightarrow> st_in_flight_since (tr_sync s) \<noteq> None"
    "st_state (tr_sync s) = SsFailed \<Longrightarrow> st_next_retry_at (tr_sync s) \<noteq> None" by (simp_all add: session_ok_def)
  show "\<forall>x \<in> seqs (tr_have_ranges s). x \<le> tr_local_high s" using s canonical_last by (auto simp: session_ok_def)
  assume ne: "tr_have_ranges s \<noteq> []"
  then have "last (tr_have_ranges s) \<in> set (tr_have_ranges s)" by simp
  with s ne show "tr_local_high s \<in> seqs (tr_have_ranges s)"
    by (fastforce simp: session_ok_def last_high_def canonical_def seqs_def case_prod_beta)
qed

text \<open>C7: What a session covers is exactly what the storage took: hydrating gives the stored seqs,
  and each batch of rows adds the inserted ones and nothing else, to that session alone.\<close>

theorem transcript_coverage_exact:
  assumes "transcript_reach t" "\<forall>x \<in> set rows. x \<le> u64_max"
  shows "seqs (have_ranges_of (hydrate_from_seqs m i rows t) m i) = set rows
    \<and> seqs (have_ranges_of (integrate_rows m i rows conflicts t) m i) = seqs (have_ranges_of t m i) \<union> set rows
    \<and> ((m', i') \<noteq> (m, i) \<longrightarrow> have_ranges_of (integrate_rows m i rows conflicts t) m' i' = have_ranges_of t m' i'
        \<and> have_ranges_of (hydrate_from_seqs m i rows t) m' i' = have_ranges_of t m' i')"
proof -
  have points: "in_u64 (map (\<lambda>s. (s, s)) rows)" using assms(2) by (simp add: in_u64_points)
  have same: "tr_have_ranges (get_or_create t m i) = have_ranges_of t m i"
    by (simp add: get_or_create_def have_ranges_of_def fresh_transcript_def split: option.split)
  have "in_u64 (have_ranges_of t m i)"
    using session_ok_get(1) [OF transcript_reach_ok [OF assms(1)], of m i] by (simp add: session_ok_def same)
  note union = union_ranges(1) [OF this points]
  have frame: "ts_session (t'\<lparr>ts_seq_conflicts := cs\<rparr>) a b = ts_session t' a b" for t' cs a b
    by (simp add: ts_session_def)
  show ?thesis
    using normalize_ranges(3) [OF points] union same
    by (auto simp: have_ranges_of_def hydrate_from_seqs_def integrate_rows_def Let_def frame)
qed

text \<open>A \<open>sync-end\<close> is judged by the coverage alone: everything up to the target stored completes the
  session, a gap asks again at once with the real coverage while attempts are left, and otherwise
  fails it with a retry at most five minutes away.\<close>

lemma sync_end_reconciles:
  assumes "transcript_reach t" "ts_session t m i = Some s"
    and "max (st_target (tr_sync s)) (tr_local_high s) < u64_max"
  shows "\<exists>s'. ts_session (snd (apply_sync_end m i now t)) m i = Some s' \<and> tr_have_ranges s' = tr_have_ranges s
    \<and> (if {1..max (st_target (tr_sync s)) (tr_local_high s)} \<subseteq> seqs (tr_have_ranges s)
       then fst (apply_sync_end m i now t) = [] \<and> st_state (tr_sync s') = SsComplete \<and> st_attempts (tr_sync s') = 0
       else if st_attempts (tr_sync s) < ts_max_attempts t
       then fst (apply_sync_end m i now t) = [SendSyncRequest i (tr_have_ranges s)]
         \<and> st_state (tr_sync s') = SsRequested \<and> st_attempts (tr_sync s') = st_attempts (tr_sync s) + 1
       else fst (apply_sync_end m i now t) = [] \<and> st_state (tr_sync s') = SsFailed
         \<and> (\<exists>at. st_next_retry_at (tr_sync s') = Some at \<and> now + 5000 \<le> at \<and> at \<le> now + 300000))"
  using covers_target [OF transcript_reach_ok [OF assms(1)] assms(2,3)] assms(2)
    retry_delay_bounds [of "st_attempts (tr_sync s)"]
  by (auto simp: apply_sync_end_def Let_def start_cycle_unfold completed_def failed_until_def restarted_def
      SYNC_RETRY_BASE_MS_def SYNC_RETRY_MAX_MS_def)

text \<open>Reconciling toward an announced seq sends one request, carrying the real coverage, exactly
  when something is missing, no cycle is in flight and no backoff is running.\<close>

lemma ensure_synced_sends:
  assumes "transcript_reach t" "ts_session t m i = Some s" "target < u64_max"
  shows "fst (ensure_synced m i target now t) =
    (if \<not> {1..target} \<subseteq> seqs (tr_have_ranges s) \<and> \<not> in_flight (st_state (tr_sync s))
        \<and> \<not> (st_state (tr_sync s) = SsFailed \<and> now < the (st_next_retry_at (tr_sync s)))
     then [SendSyncRequest i (tr_have_ranges s)] else [])"
proof -
  have "st_state (tr_sync s) = SsFailed \<Longrightarrow> st_next_retry_at (tr_sync s) \<noteq> None"
    using session_ok_Some(1) [OF transcript_reach_ok [OF assms(1)] assms(2)] by (simp add: session_ok_def)
  then show ?thesis
    using covers_target [OF transcript_reach_ok [OF assms(1)] assms(2,3)] assms(2)
    by (auto simp: ensure_synced_def Let_def start_cycle_unfold split: option.splits)
qed

text \<open>C38: No cycle is stuck: one that heard nothing for two minutes is restarted by the sweep with the
  real coverage, or failed with a retry at most five minutes later, which the next reconciliation
  past that time takes up while a gap remains.\<close>

theorem stalled_cycle_recovers:
  assumes "transcript_reach t" "ts_session t m i = Some s" "in_flight (st_state (tr_sync s))" "0 < st_target (tr_sync s)"
    and "\<forall>at. st_in_flight_since (tr_sync s) = Some at \<longrightarrow> at + 120000 \<le> now"
    and "target < u64_max" "\<not> {1..target} \<subseteq> seqs (tr_have_ranges s)" "now + 300000 \<le> later"
  shows "(m, SendSyncRequest i (tr_have_ranges s)) \<in> set (fst (stall_sweep now t))
    \<or> fst (ensure_synced m i target later (snd (stall_sweep now t))) = [SendSyncRequest i (tr_have_ranges s)]"
proof -
  note ok = transcript_reach_ok [OF assms(1)]
  note sweep = stall_sweep [OF ok, where now = now]
  have st: "stalled now s"
    using assms(3-5) session_ok_Some(1) [OF ok assms(2)] by (auto simp: stalled_def session_ok_def SYNC_STALL_MS_def)
  show ?thesis
  proof (cases "st_attempts (tr_sync s) < ts_max_attempts t")
    case True
    have "s \<in> set (om_vals (ts_sessions t))"
      using assms(2) ok by (force simp: ts_session_def transcript_ok_def om_get_in om_vals_def)
    with True st session_ok_Some [OF ok assms(2)] show ?thesis by (auto simp: sweep(1) stall_sends_def)
  next
    case False
    let ?s = "failed_until (now + sync_retry_delay_ms (st_attempts (tr_sync s))) s"
    have s': "ts_session (snd (stall_sweep now t)) m i = Some ?s"
      using False st assms(2) by (simp add: sweep(2) stall_next_def)
    have "now + sync_retry_delay_ms (st_attempts (tr_sync s)) \<le> later"
      using assms(8) retry_delay_bounds(1) [of "st_attempts (tr_sync s)"] by (simp add: SYNC_RETRY_MAX_MS_def)
    moreover have "target \<noteq> 0" using assms(7) by (cases target) auto
    ultimately show ?thesis
      using assms(7) s' covers_target [OF sweep(3) s' assms(6)]
      by (auto simp: ensure_synced_def Let_def start_cycle_unfold failed_until_def in_flight_def)
  qed
qed

text \<open>Witnesses: a session that stored seqs 1, 2 and 5 of 6 announced, and the cycle it started at time 0.\<close>

definition sample_rows :: TranscriptState where
  "sample_rows = integrate_rows ''m'' ''s'' [1, 2, 5] [] (transcript_new 1)"

definition sample_cycle :: TranscriptState where
  "sample_cycle = snd (ensure_synced ''m'' ''s'' 6 0 sample_rows)"

definition sample_status :: SessionTranscript where
  "sample_status = \<lparr>tr_machine = ''m'', tr_session_id = ''s'', tr_have_ranges = [(1, 2), (5, 5)], tr_local_high = 5,
     tr_sync = \<lparr>st_state = SsRequested, st_attempts = 1, st_next_retry_at = None, st_active_sync_id = None,
       st_target = 6, st_in_flight_since = Some 0\<rparr>\<rparr>"

lemma sample_rows_reach: "transcript_reach sample_rows"
  unfolding sample_rows_def by (intro transcript_reach.rows transcript_reach.start) (simp add: u64_max_def)

lemma sample_cycle_reach: "transcript_reach sample_cycle"
  unfolding sample_cycle_def by (intro transcript_reach.ensure sample_rows_reach)

lemma sample_cycle_session: "ts_session sample_cycle ''m'' ''s'' = Some sample_status"
  by (simp add: sample_cycle_def sample_rows_def ensure_synced_def integrate_rows_def Let_def start_cycle_unfold
      get_or_create_def transcript_new_def ts_session_def ts_update_def fresh_transcript_def default_sync_status_def
      union_ranges_def normalize_ranges_def norm_step_def sat_add_def u64_max_def last_high_def missing_ranges_def
      restarted_def sample_status_def in_flight_def)

lemma sample_cycle_attempts: "ts_max_attempts sample_cycle = 1"
  by (simp add: sample_cycle_def sample_rows_def ensure_synced_def integrate_rows_def Let_def start_cycle_unfold
      transcript_new_def)

theorem transcript_state_consistent_witness:
  "length (ts_seq_conflicts sample_cycle) \<le> 100 \<and> canonical (tr_have_ranges sample_status)"
  using transcript_state_consistent [OF sample_cycle_reach, of "''m''" "''s''" sample_status] sample_cycle_session by simp

theorem transcript_coverage_exact_witness:
  "seqs (have_ranges_of (integrate_rows ''m'' ''s'' [3, 4] [] sample_cycle) ''m'' ''s'') = seqs [(1, 2), (5, 5)] \<union> {3, 4}"
  using transcript_coverage_exact [OF sample_cycle_reach, of "[3, 4]" "''m''" "''s''"] sample_cycle_session
  by (simp add: u64_max_def have_ranges_of_def sample_status_def)

lemma sample_gap: "\<not> {1..6} \<subseteq> seqs (tr_have_ranges sample_status)"
  by (auto simp: sample_status_def subset_iff)

theorem stalled_cycle_recovers_witness:
  "(''m'', SendSyncRequest ''s'' (tr_have_ranges sample_status)) \<in> set (fst (stall_sweep 120000 sample_cycle))
    \<or> fst (ensure_synced ''m'' ''s'' 6 420000 (snd (stall_sweep 120000 sample_cycle)))
      = [SendSyncRequest ''s'' (tr_have_ranges sample_status)]"
  by (rule stalled_cycle_recovers [OF sample_cycle_reach sample_cycle_session _ _ _ _ sample_gap])
     (simp_all add: sample_status_def in_flight_def u64_max_def)

end
