(* ===== verification/PhoneSync.thy ===== *)
theory PhoneSync
  imports PhoneStore ClientTranscript
begin

text \<open>
  The sync messages as the phone handles them (\<open>crates/client-runtime/src/dispatch.rs\<close>): rows go through the
  transcript store first, and what the store really took goes into the transcript state; a chunk is acked
  only once it is stored. The store is the parameter \<open>store\<close>, an entry's JSON (\<open>to_value\<close>) the parameter
  \<open>to_value\<close>; a step's answer is the list of commands it sends.
\<close>

section \<open>Handlers\<close>

record 'st phone =
  ph_transcript :: TranscriptState
  ph_store :: 'st

text \<open>The seqs stored before with other content: \<open>found\<close> is what the store has in their range.\<close>

definition conflicting :: "nat list \<Rightarrow> TranscriptRow list \<Rightarrow> (nat \<times> json) list \<Rightarrow> nat list" where
  "conflicting inserted found rows =
     map fst (filter (\<lambda>(seq, entry). seq \<notin> set inserted
       \<and> (case map_of (rev (map row_pair found)) seq of None \<Rightarrow> False | Some existing \<Rightarrow> existing \<noteq> entry)) rows)"

definition apply_rows ::
  "'st TranscriptStore \<Rightarrow> string \<Rightarrow> string \<Rightarrow> (nat \<times> json) list \<Rightarrow> 'st phone \<Rightarrow> (string + nat list) \<times> 'st phone" where
  "apply_rows store machine session rows p =
     (if rows = [] then (Inr [], p)
      else case tst_insert_ignore store machine session (map (\<lambda>(seq, entry). \<lparr>rw_seq = seq, rw_entry = entry\<rparr>) rows) (ph_store p) of
        (Inl err, st) \<Rightarrow> (Inl err, p\<lparr>ph_store := st\<rparr>)
      | (Inr inserted, st) \<Rightarrow>
          (let non_inserted = filter (\<lambda>seq. seq \<notin> set inserted) (map fst rows);
               (conflicts, st1) =
                 (if non_inserted = [] then ([], st)
                  else let (found, st1) = tst_read_range store machine session
                             (Min (set non_inserted)) (Max (set non_inserted)) st
                       in (conflicting inserted found rows, st1))
           in (Inr inserted, p\<lparr>ph_transcript := integrate_rows machine session inserted conflicts (ph_transcript p),
                 ph_store := st1\<rparr>)))"

fun sync_effect_to_cmd :: "SyncEffect \<Rightarrow> PhoneToBridge" where
  "sync_effect_to_cmd (SendSyncRequest session_id have_ranges) = SyncRequest session_id have_ranges"
| "sync_effect_to_cmd (SendSyncAck sync_id rg) = SyncAck sync_id [rg]"

definition on_sync_begin :: "string \<Rightarrow> nat \<Rightarrow> string \<Rightarrow> string \<Rightarrow> nat \<Rightarrow> 'st phone \<Rightarrow> 'st phone" where
  "on_sync_begin machine now session_id sync_id seq_high p =
     p\<lparr>ph_transcript := apply_sync_begin machine session_id sync_id seq_high now (ph_transcript p)\<rparr>"

definition on_sync_chunk ::
  "'st TranscriptStore \<Rightarrow> (OutputEntry \<Rightarrow> json) \<Rightarrow> string \<Rightarrow> nat \<Rightarrow> string \<Rightarrow> string \<Rightarrow> SeqRange \<Rightarrow> SyncEntry list
    \<Rightarrow> 'st phone \<Rightarrow> PhoneToBridge list \<times> 'st phone" where
  "on_sync_chunk store to_value machine now session_id sync_id rg entries p =
     (let rows = map (\<lambda>e. (se_seq e, to_value (se_entry e))) entries;
          p1 = p\<lparr>ph_transcript := note_sync_progress machine session_id now (ph_transcript p)\<rparr>
      in case apply_rows store machine session_id rows p1 of
           (Inl err, p2) \<Rightarrow> ([], p2)
         | (Inr inserted, p2) \<Rightarrow> ([SyncAck sync_id [rg]], p2))"

definition on_sync_end :: "string \<Rightarrow> nat \<Rightarrow> string \<Rightarrow> 'st phone \<Rightarrow> PhoneToBridge list \<times> 'st phone" where
  "on_sync_end machine now session_id p =
     (let (effects, t) = apply_sync_end machine session_id now (ph_transcript p)
      in (map sync_effect_to_cmd effects, p\<lparr>ph_transcript := t\<rparr>))"

text \<open>The sync arms of \<open>route\<close>; every other message is for another store.\<close>

definition route_sync ::
  "'st TranscriptStore \<Rightarrow> (OutputEntry \<Rightarrow> json) \<Rightarrow> string \<Rightarrow> nat \<Rightarrow> BridgeToPhone \<Rightarrow> 'st phone \<Rightarrow> PhoneToBridge list \<times> 'st phone" where
  "route_sync store to_value machine now msg p =
     (case msg of
        SyncBegin session_id sync_id seq_high ranges \<Rightarrow> ([], on_sync_begin machine now session_id sync_id seq_high p)
      | SyncChunk session_id sync_id rg entries \<Rightarrow> on_sync_chunk store to_value machine now session_id sync_id rg entries p
      | SyncEnd session_id sync_id delivered \<Rightarrow> on_sync_end machine now session_id p
      | _ \<Rightarrow> ([], p))"

fun hear ::
  "'st TranscriptStore \<Rightarrow> (OutputEntry \<Rightarrow> json) \<Rightarrow> string \<Rightarrow> (nat \<times> BridgeToPhone) list \<Rightarrow> 'st phone
    \<Rightarrow> PhoneToBridge list \<times> 'st phone" where
  "hear store to_value machine [] p = ([], p)"
| "hear store to_value machine ((now, msg) # msgs) p =
     (let (cmds, p1) = route_sync store to_value machine now msg p;
          (cmds', p2) = hear store to_value machine msgs p1
      in (cmds @ cmds', p2))"

section \<open>What the phone covers is what it stores\<close>

definition entry_rows :: "(OutputEntry \<Rightarrow> json) \<Rightarrow> SyncEntry list \<Rightarrow> (nat \<times> json) list" where
  "entry_rows to_value entries = map (\<lambda>e. (se_seq e, to_value (se_entry e))) entries"

lemma fst_entry_rows [simp]: "map fst (entry_rows to_value es) = map se_seq es" "fst ` set (entry_rows to_value es) = se_seq ` set es"
  by (simp_all add: entry_rows_def image_image)

definition phone_ok :: "('st \<Rightarrow> bool) \<Rightarrow> ('st \<Rightarrow> string \<Rightarrow> string \<Rightarrow> nat \<Rightarrow> json option) \<Rightarrow> 'st phone \<Rightarrow> bool" where
  "phone_ok ok held p = (transcript_ok (ph_transcript p) \<and> ok (ph_store p)
     \<and> (\<forall>m i. seqs (have_ranges_of (ph_transcript p) m i) = dom (held (ph_store p) m i)))"

abbreviation status :: "'st phone \<Rightarrow> string \<Rightarrow> string \<Rightarrow> SessionSyncStatus" where
  "status p m i \<equiv> tr_sync (get_or_create (ph_transcript p) m i)"

lemma have_ranges_get: "have_ranges_of t m i = tr_have_ranges (get_or_create t m i)"
  by (simp add: have_ranges_of_def get_or_create_def fresh_transcript_def split: option.split)

lemma get_or_create_update [simp]:
  "get_or_create (ts_update m i s t) m' i' = (if (m', i') = (m, i) then s else get_or_create t m' i')"
  by (simp add: get_or_create_def)

lemma get_or_create_conflicts [simp]: "get_or_create (t\<lparr>ts_seq_conflicts := cs\<rparr>) m i = get_or_create t m i"
  by (simp add: get_or_create_def ts_session_def)

lemma integrate_get:
  "get_or_create (integrate_rows m i inserted conflicts t) m' i' =
     (if (m', i') = (m, i) \<and> inserted \<noteq> []
      then (let r = union_ranges (tr_have_ranges (get_or_create t m i)) (map (\<lambda>seq. (seq, seq)) inserted)
            in (get_or_create t m i)\<lparr>tr_have_ranges := r, tr_local_high := last_high r\<rparr>)
      else get_or_create t m' i')"
  by (simp add: integrate_rows_def Let_def)

lemma integrate_covers:
  assumes "transcript_ok t" "\<forall>x \<in> set inserted. x \<le> u64_max"
  shows "seqs (have_ranges_of (integrate_rows m i inserted conflicts t) m' i') =
    (if (m', i') = (m, i) then seqs (have_ranges_of t m i) \<union> set inserted else seqs (have_ranges_of t m' i'))"
proof -
  have "in_u64 (tr_have_ranges (get_or_create t m i))" using session_ok_get(1) [OF assms(1)] by (simp add: session_ok_def)
  moreover have "in_u64 (map (\<lambda>seq. (seq, seq)) inserted)" using assms(2) by (simp add: in_u64_points)
  ultimately show ?thesis
    using union_ranges(1) [of "tr_have_ranges (get_or_create t m i)" "map (\<lambda>seq. (seq, seq)) inserted"]
    by (simp add: have_ranges_get integrate_get Let_def)
qed

lemma row_map_pairs [simp]: "row_map (map (\<lambda>(seq, entry). \<lparr>rw_seq = seq, rw_entry = entry\<rparr>) rows) = map_of rows"
  by (induction rows) auto

lemma rw_seq_pairs: "map rw_seq (map (\<lambda>(seq, entry). \<lparr>rw_seq = seq, rw_entry = entry\<rparr>) rows) = map fst rows"
  by (induction rows) auto

lemma phone_ok_transcript:
  assumes "phone_ok ok held p" "transcript_ok t" "\<And>m i. have_ranges_of t m i = have_ranges_of (ph_transcript p) m i"
  shows "phone_ok ok held (p\<lparr>ph_transcript := t\<rparr>)"
  using assms by (simp add: phone_ok_def)

text \<open>Progress moves nothing but the stall clock.\<close>

lemma progress_get:
  "tr_have_ranges (get_or_create (note_sync_progress m i now t) m' i') = tr_have_ranges (get_or_create t m' i')"
  "st_target (tr_sync (get_or_create (note_sync_progress m i now t) m' i')) = st_target (tr_sync (get_or_create t m' i'))"
  "st_attempts (tr_sync (get_or_create (note_sync_progress m i now t) m' i')) = st_attempts (tr_sync (get_or_create t m' i'))"
  by (simp_all add: note_sync_progress_def split: option.split)

lemma phone_ok_progress:
  "phone_ok ok held p \<Longrightarrow> phone_ok ok held (p\<lparr>ph_transcript := note_sync_progress m i now (ph_transcript p)\<rparr>)"
  by (rule phone_ok_transcript) (auto simp: have_ranges_get progress_get phone_ok_def intro: transcript_ok_progress)

context transcript_store
begin

lemma apply_rows_stored:
  assumes "phone_ok ok held p" "distinct (map fst rows)" "\<forall>x \<in> fst ` set rows. x \<le> u64_max"
    and "apply_rows store m i rows p = (Inr inserted, p')"
  shows "phone_ok ok held p'"
    and "held (ph_store p') = (held (ph_store p))(m := (held (ph_store p) m)(i := map_of rows ++ held (ph_store p) m i))"
    and "status p' m' i' = status p m' i'"
proof -
  have "phone_ok ok held p'
    \<and> held (ph_store p') = (held (ph_store p))(m := (held (ph_store p) m)(i := map_of rows ++ held (ph_store p) m i))
    \<and> status p' m' i' = status p m' i'"
  proof (cases "rows = []")
    case False
    have okp: "ok (ph_store p)" "transcript_ok (ph_transcript p)" using assms(1) by (simp_all add: phone_ok_def)
    let ?rows = "map (\<lambda>(seq, entry). \<lparr>rw_seq = seq, rw_entry = entry\<rparr>) rows"
    obtain answer st where answer: "tst_insert_ignore store m i ?rows (ph_store p) = (answer, st)" by force
    then have insert: "tst_insert_ignore store m i ?rows (ph_store p) = (Inr inserted, st)"
      using assms(4) False by (cases answer) (auto simp: apply_rows_def Let_def split: prod.splits)
    obtain conflicts where p': "ph_transcript p' = integrate_rows m i inserted conflicts (ph_transcript p)"
      "ph_store p' = st \<or> (\<exists>found a b. tst_read_range store m i a b st = (found, ph_store p'))"
      using assms(4) False insert by (auto simp: apply_rows_def Let_def split: prod.splits if_splits) blast
    have dist: "distinct (map rw_seq ?rows)" unfolding rw_seq_pairs by (rule assms(2))
    note stored = insert_stored [OF okp(1) dist insert]
    have keys: "rw_seq ` set ?rows = fst ` set rows" by (metis list.set_map rw_seq_pairs)
    have st': "ok (ph_store p') \<and> held (ph_store p') = held st" using p'(2) stored read_keeps by blast
    have u64: "\<forall>x \<in> set inserted. x \<le> u64_max" using stored keys assms(3) by auto
    have "dom (held_with ?rows h) = fst ` set rows \<union> dom h" for h
      by (auto simp: held_with_def dom_map_of_conv_image_fst)
    then have "phone_ok ok held p'"
      using assms(1) st' stored keys transcript_ok_integrate [OF okp(2) u64] integrate_covers [OF okp(2) u64]
      by (auto simp: phone_ok_def p'(1))
    moreover have "status p' m' i' = status p m' i'" by (simp add: p'(1) integrate_get Let_def)
    ultimately show ?thesis using st' stored by (simp add: held_with_def)
  qed (use assms in \<open>auto simp: apply_rows_def\<close>)
  then show "phone_ok ok held p'"
    "held (ph_store p') = (held (ph_store p))(m := (held (ph_store p) m)(i := map_of rows ++ held (ph_store p) m i))"
    "status p' m' i' = status p m' i'" by blast+
qed

lemma apply_rows_failed:
  assumes "phone_ok ok held p" "apply_rows store m i rows p = (Inl err, p')"
  shows "phone_ok ok held p' \<and> held (ph_store p') = held (ph_store p) \<and> ph_transcript p' = ph_transcript p"
  using assms insert_failed [of "ph_store p" m i]
  by (auto simp: apply_rows_def phone_ok_def Let_def split: prod.splits sum.splits if_splits)


text \<open>A chunk is stored and acked, or neither.\<close>

lemma chunk_heard:
  assumes "phone_ok ok held p" "distinct (map se_seq es)" "\<forall>e \<in> set es. se_seq e \<le> u64_max"
    and "on_sync_chunk store to_value m now sid i rg es p = (cmds, p')"
  shows "phone_ok ok held p'"
    and "cmds = [] \<and> held (ph_store p') = held (ph_store p)
      \<or> cmds = [SyncAck i [rg]] \<and> held (ph_store p') = (held (ph_store p))(m := (held (ph_store p) m)
          (sid := map_of (entry_rows to_value es) ++ held (ph_store p) m sid))"
    and "st_target (status p' m sid) = st_target (status p m sid)"
    and "st_attempts (status p' m sid) = st_attempts (status p m sid)"
proof -
  define p1 where "p1 = p\<lparr>ph_transcript := note_sync_progress m sid now (ph_transcript p)\<rparr>"
  have p1: "phone_ok ok held p1" unfolding p1_def by (rule phone_ok_progress [OF assms(1)])
  have status: "st_target (status p1 m sid) = st_target (status p m sid)"
    "st_attempts (status p1 m sid) = st_attempts (status p m sid)" "ph_store p1 = ph_store p"
    by (simp_all add: p1_def progress_get)
  obtain answer p2 where rows: "apply_rows store m sid (entry_rows to_value es) p1 = (answer, p2)" by force
  then have cmds: "cmds = (case answer of Inl err \<Rightarrow> [] | Inr inserted \<Rightarrow> [SyncAck i [rg]])" "p' = p2"
    using assms(4) by (auto simp: on_sync_chunk_def entry_rows_def [symmetric] p1_def [symmetric] Let_def split: sum.splits)
  have "phone_ok ok held p' \<and> (cmds = [] \<and> held (ph_store p') = held (ph_store p)
      \<or> cmds = [SyncAck i [rg]] \<and> held (ph_store p') = (held (ph_store p))(m := (held (ph_store p) m)
          (sid := map_of (entry_rows to_value es) ++ held (ph_store p) m sid)))
    \<and> st_target (status p' m sid) = st_target (status p m sid) \<and> st_attempts (status p' m sid) = st_attempts (status p m sid)"
  proof (cases answer)
    case (Inl err)
    then show ?thesis using apply_rows_failed [OF p1, of m sid] rows cmds status by simp
  next
    case (Inr inserted)
    note stored = apply_rows_stored [OF p1 _ _ rows [unfolded Inr]]
    then show ?thesis using assms(2,3) cmds status Inr by simp
  qed
  then show "phone_ok ok held p'"
    "cmds = [] \<and> held (ph_store p') = held (ph_store p)
      \<or> cmds = [SyncAck i [rg]] \<and> held (ph_store p') = (held (ph_store p))(m := (held (ph_store p) m)
          (sid := map_of (entry_rows to_value es) ++ held (ph_store p) m sid))"
    "st_target (status p' m sid) = st_target (status p m sid)"
    "st_attempts (status p' m sid) = st_attempts (status p m sid)" by blast+
qed

end

text \<open>A store whose writes land.\<close>

locale reliable_store = transcript_store +
  assumes insert_lands: "\<exists>inserted st'. tst_insert_ignore store m i rows st = (Inr inserted, st')"
begin

lemma rows_land: "\<exists>inserted p'. apply_rows store m i rows p = (Inr inserted, p')"
proof -
  obtain inserted st where "tst_insert_ignore store m i (map (\<lambda>(seq, entry). \<lparr>rw_seq = seq, rw_entry = entry\<rparr>) rows) (ph_store p)
      = (Inr inserted, st)" using insert_lands by blast
  then show ?thesis by (simp add: apply_rows_def Let_def split: prod.split)
qed

lemma chunk_acked: "fst (on_sync_chunk store to_value m now sid i rg es p) = [SyncAck i [rg]]"
proof -
  obtain inserted p' where "apply_rows store m sid (map (\<lambda>e. (se_seq e, to_value (se_entry e))) es)
      (p\<lparr>ph_transcript := note_sync_progress m sid now (ph_transcript p)\<rparr>) = (Inr inserted, p')"
    using rows_land by blast
  then show ?thesis by (simp add: on_sync_chunk_def Let_def)
qed

text \<open>Chunks of one transcript, in any order and any number of times, are all stored and all acked.\<close>

lemma chunks_heard:
  assumes "phone_ok ok held p"
    and "\<And>now rg. (now, rg) \<in> set ds \<Longrightarrow> distinct (map se_seq (es rg)) \<and> (\<forall>e \<in> set (es rg). se_seq e \<le> u64_max)
      \<and> map_of (entry_rows to_value (es rg)) = stored |` {fst rg..snd rg}"
    and "hear store to_value m (map (\<lambda>(now, rg). (now, SyncChunk sid i rg (es rg))) ds) p = (cmds, p')"
  shows "phone_ok ok held p' \<and> cmds = map (\<lambda>(now, rg). SyncAck i [rg]) ds
    \<and> held (ph_store p') = (held (ph_store p))(m := (held (ph_store p) m)
        (sid := (stored |` seqs (map snd ds)) ++ held (ph_store p) m sid))
    \<and> st_target (status p' m sid) = st_target (status p m sid) \<and> st_attempts (status p' m sid) = st_attempts (status p m sid)"
  using assms
proof (induction ds arbitrary: p cmds)
  case (Cons d ds)
  obtain now rg where d: "d = (now, rg)" by (cases d)
  obtain cmds1 p1 where step: "on_sync_chunk store to_value m now sid i rg (es rg) p = (cmds1, p1)" by force
  obtain cmds2 where rest: "hear store to_value m (map (\<lambda>(now, rg). (now, SyncChunk sid i rg (es rg))) ds) p1 = (cmds2, p')"
    "cmds = cmds1 @ cmds2"
    using Cons.prems(3) step by (auto simp: d route_sync_def Let_def split: prod.splits)
  have es: "distinct (map se_seq (es rg))" "\<forall>e \<in> set (es rg). se_seq e \<le> u64_max"
    "map_of (entry_rows to_value (es rg)) = stored |` {fst rg..snd rg}"
    using Cons.prems(2) [of now rg] by (auto simp: d)
  note chunk = chunk_heard [OF Cons.prems(1) es(1,2) step]
  have acked: "cmds1 = [SyncAck i [rg]]" using chunk_acked [of to_value m now sid i rg "es rg" p] step by simp
  have "phone_ok ok held p' \<and> cmds2 = map (\<lambda>(now, rg). SyncAck i [rg]) ds
    \<and> held (ph_store p') = (held (ph_store p1))(m := (held (ph_store p1) m)
        (sid := (stored |` seqs (map snd ds)) ++ held (ph_store p1) m sid))
    \<and> st_target (status p' m sid) = st_target (status p1 m sid) \<and> st_attempts (status p' m sid) = st_attempts (status p1 m sid)"
  proof (rule Cons.IH [OF chunk(1) _ rest(1)])
    fix now rg assume "(now, rg) \<in> set ds"
    then show "distinct (map se_seq (es rg)) \<and> (\<forall>e \<in> set (es rg). se_seq e \<le> u64_max)
      \<and> map_of (entry_rows to_value (es rg)) = stored |` {fst rg..snd rg}" by (intro Cons.prems(2) [of now]) simp
  qed
  note heard = this
  have more_rows: "(stored |` seqs (map snd ds)) ++ ((stored |` {fst rg..snd rg}) ++ h)
      = (stored |` seqs (map snd (d # ds))) ++ h" for h
    by (auto simp: fun_eq_iff restrict_map_def map_add_def d seqs_def case_prod_beta split: option.split)
  have first: "held (ph_store p1) = (held (ph_store p))(m := (held (ph_store p) m)
        (sid := (stored |` {fst rg..snd rg}) ++ held (ph_store p) m sid))"
    using chunk(2) acked es(3) by simp
  have "held (ph_store p') m' i' = ((held (ph_store p))(m := (held (ph_store p) m)
        (sid := (stored |` seqs (map snd (d # ds))) ++ held (ph_store p) m sid))) m' i'" for m' i'
    using heard more_rows unfolding first by simp
  then have "held (ph_store p') = (held (ph_store p))(m := (held (ph_store p) m)
        (sid := (stored |` seqs (map snd (d # ds))) ++ held (ph_store p) m sid))" by (intro ext) (rule fun_cong)
  with heard chunk(3,4) acked rest(2) show ?case by (simp add: d del: fun_upd_apply)
qed simp

end

interpretation mem: reliable_store memory_store mem_ok mem_held
  by unfold_locales (simp add: memory_store_def mem_insert_ignore_def case_prod_beta)

interpretation cached: reliable_store "cached_store memory_store" "cached_ok mem_ok mem_held" "\<lambda>c. mem_held (ch_inner c)"
proof
  fix m i rows and c :: "MemoryTranscriptStore CachedTranscriptStore"
  obtain inserted st where "tst_insert_ignore memory_store m i rows (ch_inner c) = (Inr inserted, st)"
    using mem.insert_lands by blast
  then show "\<exists>inserted c'. tst_insert_ignore (cached_store memory_store) m i rows c = (Inr inserted, c')"
    by (simp add: cached_store_def cached_insert_ignore_def cached_insert_start_def cached_insert_done_def split: option.split)
qed

section \<open>Properties\<close>

text \<open>C26: The phone acks a chunk only with every entry of it stored and covered, keeping what it already had; a
  write that fails sends no ack and changes neither the stored rows nor the coverage.\<close>

theorem acked_chunks_are_stored:
  assumes "transcript_store store ok held" "phone_ok ok held p" "distinct (map se_seq es)" "\<forall>e \<in> set es. se_seq e \<le> u64_max"
    and "on_sync_chunk store to_value m now sid i rg es p = (cmds, p')"
  shows "(\<forall>m i. seqs (have_ranges_of (ph_transcript p') m i) = dom (held (ph_store p') m i))
    \<and> (cmds = [SyncAck i [rg]] \<and> se_seq ` set es \<subseteq> seqs (have_ranges_of (ph_transcript p') m sid)
          \<and> held (ph_store p') m sid = map_of (map (\<lambda>e. (se_seq e, to_value (se_entry e))) es) ++ held (ph_store p) m sid
        \<or> cmds = [] \<and> held (ph_store p') = held (ph_store p))"
proof -
  note heard = transcript_store.chunk_heard [OF assms]
  have covers: "\<forall>m i. seqs (have_ranges_of (ph_transcript p') m i) = dom (held (ph_store p') m i)"
    using heard(1) by (simp add: phone_ok_def)
  have "se_seq ` set es \<subseteq> seqs (have_ranges_of (ph_transcript p') m sid)"
    if "held (ph_store p') m sid = map_of (entry_rows to_value es) ++ held (ph_store p) m sid"
    unfolding covers [rule_format] that dom_map_add dom_map_of_conv_image_fst fst_entry_rows by simp
  with heard(2) have "cmds = [SyncAck i [rg]] \<and> se_seq ` set es \<subseteq> seqs (have_ranges_of (ph_transcript p') m sid)
      \<and> held (ph_store p') m sid = map_of (entry_rows to_value es) ++ held (ph_store p) m sid
    \<or> cmds = [] \<and> held (ph_store p') = held (ph_store p)" by fastforce
  with covers show ?thesis by (simp add: entry_rows_def)
qed

definition sample_hearing :: "MemoryTranscriptStore CachedTranscriptStore phone" where
  "sample_hearing = \<lparr>ph_transcript = transcript_new 0, ph_store = cached_new []\<rparr>"

lemma sample_hearing_ok: "phone_ok (cached_ok mem_ok mem_held) (\<lambda>c. mem_held (ch_inner c)) sample_hearing"
proof -
  have "have_ranges_of (transcript_new 0) m i = []" for m i by (simp add: have_ranges_of_def ts_session_def transcript_new_def)
  then show ?thesis
    by (simp add: phone_ok_def sample_hearing_def transcript_ok_new cached_ok_def cached_new_def mem_ok_def mem_table_def mem_held_def)
qed

theorem acked_chunks_are_stored_witness:
  "\<exists>cmds p'. on_sync_chunk (cached_store memory_store) (\<lambda>e. e) ''m'' 7 ''s'' ''i'' (1, 2)
      [SyncEntry 1 ''a'', SyncEntry 2 ''b''] sample_hearing = (cmds, p')
    \<and> (cmds = [SyncAck ''i'' [(1, 2)]] \<and> {1, 2} \<subseteq> seqs (have_ranges_of (ph_transcript p') ''m'' ''s'')
      \<or> cmds = [] \<and> mem_held (ch_inner (ph_store p')) = mem_held (ch_inner (ph_store sample_hearing)))"
proof -
  obtain cmds p' where run: "on_sync_chunk (cached_store memory_store) (\<lambda>e. e) ''m'' 7 ''s'' ''i'' (1, 2)
      [SyncEntry 1 ''a'', SyncEntry 2 ''b''] sample_hearing = (cmds, p')" by force
  from acked_chunks_are_stored [OF cached.transcript_store_axioms sample_hearing_ok _ _ run]
  have "cmds = [SyncAck ''i'' [(1, 2)]] \<and> {1, 2} \<subseteq> seqs (have_ranges_of (ph_transcript p') ''m'' ''s'')
      \<or> cmds = [] \<and> mem_held (ch_inner (ph_store p')) = mem_held (ch_inner (ph_store sample_hearing))"
    by (simp add: u64_max_def) blast
  with run show ?thesis by blast
qed

end
