(* ===== verification/SyncRound.thy ===== *)
theory SyncRound
  imports Sync PhoneSync
begin

text \<open>
  Bridge and phone together: a sync round from the phone's request over the chunks and their acks to the
  closing \<open>sync-end\<close>. The engine's two sync commands (\<open>crates/bridge-core/src/engine/phone.rs\<close>) are here; the
  relays deliver the chunks in any order and any number of times.
\<close>

section \<open>The bridge's sync commands\<close>

text \<open>The id of a new sync comes from the system port (\<open>new_id\<close>); the answer goes to the requesting client.\<close>

definition on_sync_command ::
  "entry_json \<Rightarrow> transcript_read \<Rightarrow> (string, nat) omap \<Rightarrow> string \<Rightarrow> string \<Rightarrow> Addressee option \<Rightarrow> PhoneToBridge \<Rightarrow> Out \<Rightarrow> SyncServer
    \<Rightarrow> Out \<times> SyncServer" where
  "on_sync_command json read seq_highs new_id phone requester cmd out s =
     (case cmd of
        SyncRequest session_id have_ranges \<Rightarrow>
          (let seq_high = (case om_get seq_highs session_id of None \<Rightarrow> 0 | Some h \<Rightarrow> h);
               to = (case requester of None \<Rightarrow> to_identity phone | Some r \<Rightarrow> r)
           in request json read new_id session_id to have_ranges seq_high out s)
      | SyncAck sync_id ranges \<Rightarrow> ack sync_id ranges out s
      | _ \<Rightarrow> (out, s))"

definition serve ::
  "entry_json \<Rightarrow> transcript_read \<Rightarrow> (string, nat) omap \<Rightarrow> string \<Rightarrow> string \<Rightarrow> Addressee option \<Rightarrow> PhoneToBridge list
    \<Rightarrow> Out \<times> SyncServer
    \<Rightarrow> Out \<times> SyncServer" where
  "serve json read seq_highs new_id phone requester cmds os =
     foldl (\<lambda>(out, s) cmd. on_sync_command json read seq_highs new_id phone requester cmd out s) os cmds"

definition is_chunk :: "BridgeToPhone \<Rightarrow> bool" where
  "is_chunk msg = (case msg of SyncChunk sid i rg es \<Rightarrow> True | _ \<Rightarrow> False)"

section \<open>Acks, one at a time\<close>

lemma ack_gone: "om_get (by_id s) i = None \<Longrightarrow> ack i ranges out s = (out, s)"
  by (simp add: ack_def)

lemma acks_gone:
  "om_get (by_id s) i = None \<Longrightarrow>
    serve json read highs n phone requester (map (\<lambda>(now, rg). SyncAck i [rg]) ds) (out, s) = (out, s)"
  by (induction ds) (auto simp: serve_def on_sync_command_def ack_gone)

lemma mark_one:
  assumes "distinct (map ck_range cs)"
  shows "mark_chunks [rg] cs = (map (\<lambda>c. if ck_range c = rg then c\<lparr>ck_acked := True\<rparr> else c) cs, rg \<in> ck_range ` set cs)"
  using mark_chunks [OF assms, of "[rg]"] by simp

text \<open>Acks of every chunk still open, in any order and repeated, end the sync once, with all of it delivered.\<close>

lemma acks_finish:
  assumes "om_get (by_id s) i = Some sy" "distinct (map ck_range (sy_chunks sy))" "\<exists>c \<in> set (sy_chunks sy). \<not> ck_acked c"
    and "\<forall>c \<in> set (sy_chunks sy). \<not> ck_acked c \<longrightarrow> ck_range c \<in> snd ` set ds"
    and "serve json read highs n phone requester (map (\<lambda>(now, rg). SyncAck i [rg]) ds) (out, s) = (out', s')"
  shows "messages (effects out') = messages (effects out)
      @ [([sy_to sy], SyncEnd (sy_session_id sy) i (union_ranges (map ck_range (sy_chunks sy)) []))]
    \<and> om_get (by_id s') i = None"
  using assms
proof (induction ds arbitrary: s sy out)
  case (Cons d ds)
  obtain now rg where d: "d = (now, rg)" by (cases d)
  define cs where "cs = map (\<lambda>c. if ck_range c = rg then c\<lparr>ck_acked := True\<rparr> else c) (sy_chunks sy)"
  have ranges: "map ck_range cs = map ck_range (sy_chunks sy)" by (simp add: cs_def)
  have rest: "serve json read highs n phone requester (map (\<lambda>(now, rg). SyncAck i [rg]) ds) (ack i [rg] out s) = (out', s')"
    using Cons.prems(5) by (simp add: d serve_def on_sync_command_def)
  have open_left: "\<forall>c \<in> set cs. \<not> ck_acked c \<longrightarrow> ck_range c \<in> snd ` set ds"
    using Cons.prems(4) by (auto simp: cs_def d)
  have ack: "ack i [rg] out s = (let s1 = set_sync i (sy\<lparr>sy_chunks := cs\<rparr>) s in
      if rg \<notin> ck_range ` set (sy_chunks sy) then (out, s1) else if list_all ck_acked cs then finish i out s1 else touch i out s1)"
    using Cons.prems(1) by (simp add: ack_unfold mark_one [OF Cons.prems(2)] cs_def Let_def)
  show ?case
  proof (cases "rg \<in> ck_range ` set (sy_chunks sy) \<and> list_all ck_acked cs")
    case True
    let ?s = "set_sync i (sy\<lparr>sy_chunks := cs\<rparr>) s"
    have fin: "ack i [rg] out s = finish i out ?s" using True by (simp add: ack Let_def)
    have "acked_ranges cs = map ck_range (sy_chunks sy)"
      using True ranges by (metis acked_ranges_def filter_True list_all_iff)
    then have "messages (effects (fst (finish i out ?s))) = messages (effects out)
        @ [([sy_to sy], SyncEnd (sy_session_id sy) i (union_ranges (map ck_range (sy_chunks sy)) []))]"
      using messages_finish [of ?s i "sy\<lparr>sy_chunks := cs\<rparr>" out] by simp
    moreover have gone: "om_get (by_id (snd (finish i out ?s))) i = None" by (simp add: finish_unfold remove_unfold)
    moreover have "(out', s') = finish i out ?s"
      using rest acks_gone [OF gone, of json read highs n phone requester ds "fst (finish i out ?s)"] by (simp add: fin)
    ultimately show ?thesis by (metis fst_conv snd_conv)
  next
    case False
    obtain sy1 where next_state: "om_get (by_id (snd (ack i [rg] out s))) i = Some sy1"
      "sy_chunks sy1 = cs" "sy_to sy1 = sy_to sy" "sy_session_id sy1 = sy_session_id sy"
      "messages (effects (fst (ack i [rg] out s))) = messages (effects out)"
    proof (cases "rg \<in> ck_range ` set (sy_chunks sy)")
      case True
      then have touched: "ack i [rg] out s = touch i out (set_sync i (sy\<lparr>sy_chunks := cs\<rparr>) s)" using False by (simp add: ack Let_def)
      obtain t where "om_get (by_id (snd (touch i out (set_sync i (sy\<lparr>sy_chunks := cs\<rparr>) s)))) i
          = Some (sy\<lparr>sy_chunks := cs, sy_idle_timer := Some t\<rparr>)"
        using touch_get(1) [of "set_sync i (sy\<lparr>sy_chunks := cs\<rparr>) s" i "sy\<lparr>sy_chunks := cs\<rparr>" out] by auto
      then show thesis by (intro that [of "sy\<lparr>sy_chunks := cs, sy_idle_timer := Some t\<rparr>"]) (simp_all add: touched)
    qed (rule that [of "sy\<lparr>sy_chunks := cs\<rparr>"], simp_all add: ack Let_def)
    have left: "\<exists>c \<in> set cs. \<not> ck_acked c"
      using False Cons.prems(3) by (auto simp: cs_def list_all_iff split: if_splits)
    show ?thesis
      using Cons.IH [OF next_state(1), of "fst (ack i [rg] out s)"] Cons.prems(2) left open_left ranges next_state(2-) rest
      by simp
  qed
qed simp

section \<open>A request, and what it leaves open\<close>

lemma request_opens:
  assumes "\<forall>rg. \<exists>es. read sid rg = Inr es"
    and chunks_def: "chunks = concat (map (cut json (ss_config s) read sid) (missing_ranges covered 1 high))"
    and "request json read i sid to covered high out s = (out', s')"
  shows "chunks = [] \<Longrightarrow> om_get (by_id s') i = None"
    and "chunks \<noteq> [] \<Longrightarrow> \<exists>sy. om_get (by_id s') i = Some sy
      \<and> sy_chunks sy = map (\<lambda>r. \<lparr>ck_range = r, ck_acked = False\<rparr>) chunks \<and> sy_to sy = to \<and> sy_session_id sy = sid"
proof -
  define out1 where "out1 = publish_addressed [to] (SyncBegin sid i high (missing_ranges covered 1 high))
    (fst (replaced sid to out s))"
  define s1 where "s1 = (snd (replaced sid to out s))\<lparr>by_key := om_put (sid, ad_phone to, ad_key to) i
    (by_key (snd (replaced sid to out s)))\<rparr>"
  define sy where "sy = new_sync json read (ss_config s) sid to covered high"
  have req: "send_pass read i out1 (set_sync i sy s1) = (out', s')"
    using assms(3) by (simp add: request_unfold Let_def out1_def s1_def sy_def)
  have get: "om_get (by_id (set_sync i sy s1)) i = Some sy" by simp
  have sy: "unacked_ranges (sy_chunks sy) = chunks" "sy_chunks sy = map (\<lambda>r. \<lparr>ck_range = r, ck_acked = False\<rparr>) chunks"
    "sy_to sy = to" "sy_session_id sy = sid"
    by (simp_all add: sy_def new_sync_unacked chunks_def) (simp add: new_sync_def)
  show "om_get (by_id s') i = None" if "chunks = []"
    using req get sy that by (auto simp: send_pass_unfold Let_def finish_unfold remove_unfold)
  show "\<exists>sy. om_get (by_id s') i = Some sy \<and> sy_chunks sy = map (\<lambda>r. \<lparr>ck_range = r, ck_acked = False\<rparr>) chunks
      \<and> sy_to sy = to \<and> sy_session_id sy = sid" if "chunks \<noteq> []"
    using send_pass_messages(2) [OF get, of read out1] req sy that assms(1) by fastforce
qed

context transcripts_port
begin

text \<open>What the bridge has of a session up to \<open>high\<close>, and any part of it.\<close>

lemma read_part:
  assumes "read sid (1, high) = Inr es" "read sid (a, b) = Inr es'" "1 \<le> a" "b \<le> high"
  shows "map_of (entry_rows to_value es') = map_of (entry_rows to_value es) |` {a..b}"
proof -
  have "es' = filter (\<lambda>e. a \<le> se_seq e \<and> se_seq e \<le> b) es" by (rule read_narrow [OF assms])
  moreover have "map_of (entry_rows to_value (filter (\<lambda>e. a \<le> se_seq e \<and> se_seq e \<le> b) es))
      = map_of (entry_rows to_value es) |` {a..b}"
    by (induction es) (auto simp: entry_rows_def restrict_map_def fun_eq_iff)
  ultimately show ?thesis by simp
qed

end

section \<open>The phone's begin and end\<close>

lemma phone_begin:
  assumes "phone_ok ok held p" "p' = on_sync_begin m now sid i high p"
  shows "phone_ok ok held p'" "ph_store p' = ph_store p" "ts_session (ph_transcript p') m sid \<noteq> None"
    and "st_target (status p' m sid) = max (st_target (status p m sid)) high"
    and "st_attempts (status p' m sid) = st_attempts (status p m sid)"
proof -
  have "have_ranges_of (apply_sync_begin m sid i high now t) m' i' = have_ranges_of t m' i'" for t m' i'
    by (simp add: have_ranges_get apply_sync_begin_def Let_def)
  then show "phone_ok ok held p'"
    unfolding assms(2) on_sync_begin_def using assms(1)
    by (intro phone_ok_transcript [OF assms(1)]) (auto simp: phone_ok_def intro: transcript_ok_begin)
qed (simp_all add: assms(2) on_sync_begin_def apply_sync_begin_def Let_def)

lemma known_chunk:
  assumes "ts_session (ph_transcript p) m i \<noteq> None"
  shows "ts_session (ph_transcript (snd (on_sync_chunk store to_value m' now sid j rg es p))) m i \<noteq> None"
proof -
  have progress: "ts_session (note_sync_progress m' sid now t) m i \<noteq> None" if "ts_session t m i \<noteq> None" for t
    using that by (auto simp: note_sync_progress_def split: option.split)
  have integrate: "ts_session (integrate_rows m' sid ins cs t) m i \<noteq> None" if "ts_session t m i \<noteq> None" for ins cs t
    using that by (auto simp: integrate_rows_def Let_def ts_session_def ts_update_def)
  have "ts_session (ph_transcript (snd (apply_rows store m' sid rows q))) m i \<noteq> None"
    if "ts_session (ph_transcript q) m i \<noteq> None" for rows q
    using that integrate [OF that] by (simp add: apply_rows_def Let_def split: prod.split sum.split)
  note rows = this
  let ?p = "p\<lparr>ph_transcript := note_sync_progress m' sid now (ph_transcript p)\<rparr>"
  have "ts_session (ph_transcript ?p) m i \<noteq> None" using progress [OF assms] by simp
  note rows [OF this]
  moreover have "snd (on_sync_chunk store to_value m' now sid j rg es p)
      = snd (apply_rows store m' sid (map (\<lambda>e. (se_seq e, to_value (se_entry e))) es) ?p)"
    by (simp add: on_sync_chunk_def Let_def split: prod.split sum.split)
  ultimately show ?thesis by simp
qed

lemma known_hear:
  "ts_session (ph_transcript p) m i \<noteq> None
    \<Longrightarrow> ts_session (ph_transcript (snd (hear store to_value m' (map (\<lambda>(now, rg). (now, SyncChunk sid j rg (es rg))) ds) p))) m i \<noteq> None"
proof (induction ds arbitrary: p)
  case (Cons d ds)
  from Cons.IH [OF known_chunk [OF Cons.prems]] show ?case
    by (cases d) (simp add: route_sync_def case_prod_beta Let_def)
qed simp

lemma high_covered:
  assumes "session_ok s" "seqs (tr_have_ranges s) \<subseteq> {..high}"
  shows "tr_local_high s \<le> high"
proof (cases "tr_have_ranges s = []")
  case False
  then have "last (tr_have_ranges s) \<in> set (tr_have_ranges s)" by simp
  with assms False have "tr_local_high s \<in> seqs (tr_have_ranges s)"
    by (fastforce simp: session_ok_def last_high_def canonical_def seqs_def case_prod_beta)
  with assms(2) show ?thesis by auto
qed (use assms(1) in \<open>simp add: session_ok_def last_high_def\<close>)

lemma phone_end:
  assumes "phone_ok ok held p" "ts_session (ph_transcript p) m sid \<noteq> None" "st_target (status p m sid) = high"
    and "dom (held (ph_store p) m sid) \<subseteq> {..high}" "high < u64_max" "on_sync_end m now sid p = (cmds, p')"
  shows "phone_ok ok held p' \<and> ph_store p' = ph_store p
    \<and> (if {1..high} \<subseteq> dom (held (ph_store p) m sid) then cmds = [] \<and> st_state (status p' m sid) = SsComplete
       else if st_attempts (status p m sid) < ts_max_attempts (ph_transcript p)
       then cmds = [SyncRequest sid (have_ranges_of (ph_transcript p) m sid)] \<and> st_state (status p' m sid) = SsRequested
       else cmds = [] \<and> st_state (status p' m sid) = SsFailed)"
proof -
  let ?t = "ph_transcript p"
  obtain s where s: "ts_session ?t m sid = Some s" using assms(2) by blast
  have ok: "transcript_ok ?t" using assms(1) by (simp add: phone_ok_def)
  have "seqs (have_ranges_of ?t m sid) = dom (held (ph_store p) m sid)" using assms(1) by (simp add: phone_ok_def)
  moreover have "have_ranges_of ?t m sid = tr_have_ranges s" using s by (simp add: have_ranges_of_def)
  ultimately have covered: "seqs (tr_have_ranges s) = dom (held (ph_store p) m sid)" "have_ranges_of ?t m sid = tr_have_ranges s"
    by simp_all
  have "tr_local_high s \<le> high" using high_covered [OF session_ok_Some(1) [OF ok s]] covered(1) assms(4) by simp
  then have target: "max (st_target (tr_sync s)) (tr_local_high s) = high" using assms(3) s by simp
  have missing: "missing_ranges (tr_have_ranges s) 1 high = [] \<longleftrightarrow> {1..high} \<subseteq> dom (held (ph_store p) m sid)"
    using covers_target [OF ok s assms(5)] covered(1) by simp
  let ?r = "apply_sync_end m sid now ?t"
  have eval: "cmds = map sync_effect_to_cmd (fst ?r)" "p' = p\<lparr>ph_transcript := snd ?r\<rparr>"
    using assms(6) by (auto simp: on_sync_end_def case_prod_beta)
  have "have_ranges_of (snd ?r) m' i' = have_ranges_of ?t m' i'" for m' i'
    using s by (simp add: apply_sync_end_def Let_def have_ranges_get start_cycle_unfold completed_def failed_until_def restarted_def)
  then have "phone_ok ok held p'"
    unfolding eval(2) by (intro phone_ok_transcript [OF assms(1)]) (auto intro: transcript_ok_end ok)
  moreover have "if {1..high} \<subseteq> dom (held (ph_store p) m sid) then cmds = [] \<and> st_state (status p' m sid) = SsComplete
       else if st_attempts (status p m sid) < ts_max_attempts ?t
       then cmds = [SyncRequest sid (have_ranges_of ?t m sid)] \<and> st_state (status p' m sid) = SsRequested
       else cmds = [] \<and> st_state (status p' m sid) = SsFailed"
    unfolding eval covered(2) using s target missing
    by (auto simp: apply_sync_end_def Let_def start_cycle_unfold completed_def failed_until_def restarted_def)
  ultimately show ?thesis by (simp add: eval(2))
qed

section \<open>The round\<close>

text \<open>The bridge's half: the acks of all chunks of a request, in any order, close it.\<close>

lemma round_bridge:
  assumes "transcripts_port read" "\<forall>rg. \<exists>es. read sid rg = Inr es" "in_u64 covered" "high < u64_max" "0 < sc_chunk_size (ss_config s)"
    and chunks_def: "chunks = concat (map (cut json (ss_config s) read sid) (missing_ranges covered 1 high))"
    and "request json read i sid to covered high out s = (out1, s1)" "snd ` set ds = set chunks"
    and "serve json read highs j phone requester (map (\<lambda>(now, rg). SyncAck i [rg]) ds) (out1, s1) = (out2, s2)"
  shows "\<exists>delivered. messages (effects out2) = messages (effects out)
      @ ([to], SyncBegin sid i high (missing_ranges covered 1 high))
      # map (\<lambda>rg. ([to], SyncChunk sid i rg (projr (read sid rg)))) chunks @ [([to], SyncEnd sid i delivered)]
    \<and> seqs delivered = {1..high} - seqs covered \<and> om_get (by_id s2) i = None"
proof -
  note rc = transcripts_port.request_chunks [OF assms(1,3-5) chunks_def]
  have msgs: "messages (effects out1) = messages (effects out) @ ([to], SyncBegin sid i high (missing_ranges covered 1 high))
      # (if chunks = [] then [([to], SyncEnd sid i [])]
         else map (\<lambda>rg. ([to], SyncChunk sid i rg (projr (read sid rg)))) chunks)"
    using request_messages [OF assms(2) chunks_def, of i to out] assms(7) by simp
  show ?thesis
  proof (cases "chunks = []")
    case True
    have "om_get (by_id s1) i = None" using request_opens(1) [OF assms(2) chunks_def assms(7) True] .
    moreover have "ds = []" using True assms(8) by simp
    ultimately have "out2 = out1" "om_get (by_id s2) i = None" using assms(9) by (auto simp: serve_def)
    with msgs True rc(1) show ?thesis by (intro exI [of _ "[]"]) simp
  next
    case False
    obtain sy where sy: "om_get (by_id s1) i = Some sy" "sy_chunks sy = map (\<lambda>r. \<lparr>ck_range = r, ck_acked = False\<rparr>) chunks"
      "sy_to sy = to" "sy_session_id sy = sid" using request_opens(2) [OF assms(2) chunks_def assms(7) False] by blast
    have ranges: "map ck_range (sy_chunks sy) = chunks" by (simp add: sy(2) comp_def)
    have "distinct chunks" using rc(2,3) by (intro ranges_distinct) auto
    moreover have "\<exists>c \<in> set (sy_chunks sy). \<not> ck_acked c" using False by (cases chunks) (simp_all add: sy(2))
    ultimately have "messages (effects out2) = messages (effects out1)
        @ [([sy_to sy], SyncEnd (sy_session_id sy) i (union_ranges (map ck_range (sy_chunks sy)) []))]
      \<and> om_get (by_id s2) i = None"
      using False assms(8) by (intro acks_finish [OF sy(1) _ _ _ assms(9)]) (auto simp: ranges, auto simp: sy(2))
    moreover have "in_u64 chunks" using rc(3) assms(4) by (fastforce simp: in_u64_def)
    then have "seqs (union_ranges chunks []) = {1..high} - seqs covered" using union_ranges(1) [of chunks "[]"] rc(1) by simp
    ultimately show ?thesis using msgs False sy(3,4) ranges by (intro exI [of _ "union_ranges chunks []"]) simp
  qed
qed

text \<open>The phone's half: with all chunks heard it holds what it had and everything the bridge has.\<close>

lemma round_phone:
  assumes "transcripts_port read" "\<forall>rg. \<exists>es. read sid rg = Inr es" "reliable_store store ok held" "phone_ok ok held p"
    and "high < u64_max" "0 < sc_chunk_size config"
    and chunks_def: "chunks = concat (map (cut json config read sid) (missing_ranges (have_ranges_of (ph_transcript p) m sid) 1 high))"
    and "snd ` set ds = set chunks"
    and "hear store to_value m ((t0, SyncBegin sid i high ranges)
        # map (\<lambda>(now, rg). (now, SyncChunk sid i rg (projr (read sid rg)))) ds) p = (acks, p1)"
  shows "phone_ok ok held p1" "acks = map (\<lambda>(now, rg). SyncAck i [rg]) ds" "ts_session (ph_transcript p1) m sid \<noteq> None"
    and "held (ph_store p1) m sid = map_of (entry_rows to_value (projr (read sid (1, high)))) |` {1..high} ++ held (ph_store p) m sid"
    and "st_target (status p1 m sid) = max (st_target (status p m sid)) high"
    and "st_attempts (status p1 m sid) = st_attempts (status p m sid)"
proof -
  define p0 where "p0 = on_sync_begin m t0 sid i high p"
  note start = phone_begin [OF assms(4) p0_def]
  have heard: "hear store to_value m (map (\<lambda>(now, rg). (now, SyncChunk sid i rg (projr (read sid rg)))) ds) p0 = (acks, p1)"
    using assms(9) by (simp add: route_sync_def p0_def [symmetric] split: prod.splits)
  let ?stored = "map_of (entry_rows to_value (projr (read sid (1, high))))"
  have "in_u64 (have_ranges_of (ph_transcript p) m sid)"
    using session_ok_get(1) [of "ph_transcript p" m sid] assms(4) by (simp add: phone_ok_def session_ok_def have_ranges_get)
  note rc = transcripts_port.request_chunks [OF assms(1) this assms(5,6) chunks_def]
  have each: "distinct (map se_seq (projr (read sid rg))) \<and> (\<forall>e \<in> set (projr (read sid rg)). se_seq e \<le> u64_max)
      \<and> map_of (entry_rows to_value (projr (read sid rg))) = ?stored |` {fst rg..snd rg}" if "(now, rg) \<in> set ds" for now rg
  proof -
    obtain es es' where es: "read sid (1, high) = Inr es" "read sid rg = Inr es'" using assms(2) by blast
    have rg: "rg \<in> set chunks" using that assms(8) by force
    then have le: "fst rg \<le> snd rg" "snd rg \<le> high" using rc(3) by (auto simp: case_prod_beta)
    with rg have "fst rg \<in> seqs chunks" unfolding seqs_def by (intro UN_I [of rg]) (simp_all add: case_prod_beta)
    with rc(1) le(2) have b: "1 \<le> fst rg" "snd rg \<le> high" by simp_all
    have "map_of (entry_rows to_value es') = map_of (entry_rows to_value es) |` {fst rg..snd rg}"
      using transcripts_port.read_part [OF assms(1) es(1), of "fst rg" "snd rg" es'] es(2) b by simp
    moreover have "\<forall>e \<in> set es'. se_seq e \<le> u64_max"
    proof
      fix e assume "e \<in> set es'"
      from transcripts_port.read_within [OF assms(1) es(2) this] b assms(5) show "se_seq e \<le> u64_max" by linarith
    qed
    ultimately show ?thesis using transcripts_port.read_distinct [OF assms(1) es(2)] es by simp
  qed
  note all = reliable_store.chunks_heard [OF assms(3) start(1) each heard]
  show "phone_ok ok held p1" "acks = map (\<lambda>(now, rg). SyncAck i [rg]) ds"
    "st_target (status p1 m sid) = max (st_target (status p m sid)) high" "st_attempts (status p1 m sid) = st_attempts (status p m sid)"
    using all start(4,5) by (simp_all only: simp_thms)
  show "ts_session (ph_transcript p1) m sid \<noteq> None"
    using known_hear [OF start(3), of store to_value m sid i "\<lambda>rg. projr (read sid rg)" ds] heard by simp
  have "seqs (map snd ds) = seqs chunks" using assms(8) by (simp add: seqs_def)
  moreover have "seqs (have_ranges_of (ph_transcript p) m sid) = dom (held (ph_store p) m sid)" using assms(4) by (simp add: phone_ok_def)
  ultimately have "held (ph_store p1) m sid = ?stored |` ({1..high} - dom (held (ph_store p) m sid)) ++ held (ph_store p) m sid"
    using all start(2) rc(1) by simp
  then show "held (ph_store p1) m sid = ?stored |` {1..high} ++ held (ph_store p) m sid"
    by (auto simp: fun_eq_iff map_add_def restrict_map_def split: option.split)
qed

lemma delivered_ranges:
  assumes "snd ` set msgs = (\<lambda>rg. SyncChunk sid i rg (es rg)) ` set chunks"
  obtains ds where "msgs = map (\<lambda>(now, rg). (now, SyncChunk sid i rg (es rg))) ds" "snd ` set ds = set chunks"
proof -
  define rg_of where "rg_of msg = (case msg of SyncChunk sid i rg es \<Rightarrow> rg | _ \<Rightarrow> (0, 0))" for msg
  define ds where "ds = map (\<lambda>(now, msg). (now, rg_of msg)) msgs"
  have each: "snd d = SyncChunk sid i (rg_of (snd d)) (es (rg_of (snd d)))" if "d \<in> set msgs" for d
  proof -
    have "snd d \<in> (\<lambda>rg. SyncChunk sid i rg (es rg)) ` set chunks" unfolding assms [symmetric] using that by (rule imageI)
    then show ?thesis by (auto simp: rg_of_def)
  qed
  have "map (\<lambda>(now, rg). (now, SyncChunk sid i rg (es rg))) ds = msgs"
    unfolding ds_def map_map by (rule map_idI) (use each in \<open>simp add: case_prod_beta prod_eq_iff\<close>)
  moreover have "snd ` set ds = rg_of ` (snd ` set msgs)" by (simp add: ds_def image_image case_prod_beta)
  then have "snd ` set ds = set chunks" unfolding assms by (simp add: image_image rg_of_def)
  ultimately show thesis by (intro that [of ds]) (rule sym, assumption)
qed

section \<open>Properties\<close>

text \<open>C1: A sync round delivers everything. The phone asks with what it covers; of the answer it hears the begin
  and then the chunks in any order, repeated at will; its acks reach the bridge; the bridge closes with one
  \<open>sync-end\<close>, which the phone hears. The phone then stores what it had and all the bridge has up to the announced
  seq, its coverage is exactly that, and the cycle is complete unless the bridge itself lacks a seq the phone lacks
  too: then the phone asks again, or gives up for now.\<close>

theorem sync_round_delivers:
  assumes "transcripts_port read" "\<forall>rg. \<exists>es. read sid rg = Inr es" "reliable_store store ok held" "phone_ok ok held p"
    and "om_get highs sid = Some high" "high < u64_max" "0 < sc_chunk_size (ss_config s)"
    and "st_target (status p m sid) \<le> high" "dom (held (ph_store p) m sid) \<subseteq> {..high}"
    and "on_sync_command json read highs i phone (Some to) (SyncRequest sid (have_ranges_of (ph_transcript p) m sid)) out s = (out1, s1)"
    and "messages (effects out1) = messages (effects out) @ ([to], first) # sent"
    and "snd ` set chunks = {msg \<in> snd ` set sent. is_chunk msg}"
    and "hear store to_value m ((t0, first) # chunks) p = (acks, p1)"
    and "serve json read highs j phone (Some to) acks (out1, s1) = (out2, s2)"
    and "route_sync store to_value m t1 (snd (last (messages (effects out2)))) p1 = (cmds, p2)"
  shows "(\<exists>delivered. messages (effects out2) = messages (effects out) @ ([to], first) # filter (\<lambda>(to, msg). is_chunk msg) sent
          @ [([to], SyncEnd sid i delivered)] \<and> seqs delivered = {1..high} - dom (held (ph_store p) m sid))
    \<and> om_get (by_id s2) i = None
    \<and> held (ph_store p2) m sid = map_of (map (\<lambda>e. (se_seq e, to_value (se_entry e))) (projr (read sid (1, high)))) |` {1..high}
        ++ held (ph_store p) m sid
    \<and> seqs (have_ranges_of (ph_transcript p2) m sid) = dom (held (ph_store p2) m sid)
    \<and> (if {1..high} \<subseteq> dom (held (ph_store p2) m sid) then cmds = [] \<and> st_state (status p2 m sid) = SsComplete
       else cmds = [SyncRequest sid (have_ranges_of (ph_transcript p1) m sid)] \<and> st_state (status p2 m sid) = SsRequested
         \<or> cmds = [] \<and> st_state (status p2 m sid) = SsFailed)"
proof -
  define covered where "covered = have_ranges_of (ph_transcript p) m sid"
  define ranges where "ranges = concat (map (cut json (ss_config s) read sid) (missing_ranges covered 1 high))"
  have req: "request json read i sid to covered high out s = (out1, s1)"
    using assms(5,10) by (simp add: on_sync_command_def covered_def)
  have cov: "seqs covered = dom (held (ph_store p) m sid)" "in_u64 covered"
    using session_ok_get(1) [of "ph_transcript p" m sid] assms(4)
    by (simp_all add: phone_ok_def session_ok_def covered_def have_ranges_get)
  have first: "first = SyncBegin sid i high (missing_ranges covered 1 high)"
    and sent: "sent = (if ranges = [] then [([to], SyncEnd sid i [])]
        else map (\<lambda>rg. ([to], SyncChunk sid i rg (projr (read sid rg)))) ranges)"
    using assms(11) request_messages [OF assms(2) ranges_def, of i to out] req by simp_all
  have "snd ` set chunks = (\<lambda>rg. SyncChunk sid i rg (projr (read sid rg))) ` set ranges"
    unfolding assms(12) sent by (auto simp: is_chunk_def image_image)
  then obtain ds where ds: "chunks = map (\<lambda>(now, rg). (now, SyncChunk sid i rg (projr (read sid rg)))) ds" "snd ` set ds = set ranges"
    by (rule delivered_ranges)
  note phone = round_phone [OF assms(1-4,6,7) ranges_def [unfolded covered_def] ds(2) assms(13) [unfolded first ds(1) covered_def]]
  obtain delivered where bridge: "messages (effects out2) = messages (effects out) @ ([to], first)
      # map (\<lambda>rg. ([to], SyncChunk sid i rg (projr (read sid rg)))) ranges @ [([to], SyncEnd sid i delivered)]"
    "seqs delivered = {1..high} - dom (held (ph_store p) m sid)" "om_get (by_id s2) i = None"
    using round_bridge [OF assms(1,2) cov(2) assms(6,7) ranges_def req ds(2) assms(14) [unfolded phone(2)]] cov(1) first by auto
  have ended: "on_sync_end m t1 sid p1 = (cmds, p2)" using assms(15) by (simp add: bridge(1) route_sync_def)
  have high: "st_target (status p1 m sid) = high" "dom (held (ph_store p1) m sid) \<subseteq> {..high}"
    using phone(4,5) assms(8,9) by (auto simp: restrict_map_def split: if_splits)
  note fin = phone_end [OF phone(1,3) high assms(6) ended]
  have "filter (\<lambda>(to, msg). is_chunk msg) sent = map (\<lambda>rg. ([to], SyncChunk sid i rg (projr (read sid rg)))) ranges"
    by (simp add: sent is_chunk_def filter_map comp_def)
  with bridge have "\<exists>delivered. messages (effects out2) = messages (effects out) @ ([to], first) # filter (\<lambda>(to, msg). is_chunk msg) sent
          @ [([to], SyncEnd sid i delivered)] \<and> seqs delivered = {1..high} - dom (held (ph_store p) m sid)" by auto
  moreover have "seqs (have_ranges_of (ph_transcript p2) m sid) = dom (held (ph_store p2) m sid)" using fin by (simp add: phone_ok_def)
  ultimately show ?thesis using fin bridge(3) phone(4) by (simp add: entry_rows_def split: if_splits)
qed

text \<open>A round over a cached store: three one-entry chunks, heard out of order and one of them twice.\<close>

definition round_store :: MemoryTranscripts where
  "round_store = \<lparr>mt_files = [(''s'', [SyncEntry 1 ''a'', SyncEntry 2 ''b'', SyncEntry 3 ''c''])], mt_failing = False\<rparr>"

definition round_server :: SyncServer where
  "round_server = sync_server_new (default_sync_config\<lparr>sc_chunk_size := 1\<rparr>)"

definition round_asked :: "Out \<times> SyncServer" where
  "round_asked = on_sync_command sample_json (mt_read round_store) [(''s'', 3)] ''i'' ''p'' (Some sample_client)
     (SyncRequest ''s'' []) empty_out round_server"

definition round_chunk :: "nat \<Rightarrow> string \<Rightarrow> BridgeToPhone" where
  "round_chunk seq entry = SyncChunk ''s'' ''i'' (seq, seq) [SyncEntry seq entry]"

definition round_chunks :: "(nat \<times> BridgeToPhone) list" where
  "round_chunks = [(8, round_chunk 3 ''c''), (9, round_chunk 1 ''a''), (10, round_chunk 2 ''b''), (11, round_chunk 1 ''a'')]"

definition round_heard :: "PhoneToBridge list \<times> MemoryTranscriptStore CachedTranscriptStore phone" where
  "round_heard = hear (cached_store memory_store) (\<lambda>e. e) ''m'' ((7, SyncBegin ''s'' ''i'' 3 [(1, 3)]) # round_chunks) sample_hearing"

definition round_served :: "Out \<times> SyncServer" where
  "round_served = serve sample_json (mt_read round_store) [(''s'', 3)] ''j'' ''p'' (Some sample_client) (fst round_heard) round_asked"

definition round_ended :: "PhoneToBridge list \<times> MemoryTranscriptStore CachedTranscriptStore phone" where
  "round_ended = route_sync (cached_store memory_store) (\<lambda>e. e) ''m'' 12 (snd (last (messages (effects (fst round_served))))) (snd round_heard)"

lemma round_port: "transcripts_port (mt_read round_store)"
  by (rule mt_read_port) (simp add: mt_ok_def mt_entries_def round_store_def in_seq_order_Cons)

lemma round_cut:
  "concat (map (cut sample_json (ss_config round_server) (mt_read round_store) ''s'') (missing_ranges [] 1 3)) = [(1, 1), (2, 2), (3, 3)]"
  by (simp add: missing_ranges_def normalize_ranges_def cut_def mt_read_def mt_entries_def round_store_def round_server_def
      sync_server_new_def entry_size_def sample_json_def default_sync_config_def chunk_ranges_def chunk_loop.simps sat_add_def u64_max_def)

lemma round_sent:
  "messages (effects (fst round_asked)) = messages (effects empty_out) @ ([sample_client], SyncBegin ''s'' ''i'' 3 [(1, 3)])
    # [([sample_client], round_chunk 1 ''a''), ([sample_client], round_chunk 2 ''b''), ([sample_client], round_chunk 3 ''c'')]"
proof -
  have "\<forall>rg. \<exists>es. mt_read round_store ''s'' rg = Inr es" by (simp add: mt_read_def)
  from request_messages [OF this round_cut [symmetric], of "''i''" sample_client empty_out] show ?thesis
    by (simp add: round_asked_def on_sync_command_def round_chunk_def missing_ranges_def normalize_ranges_def mt_read_def mt_entries_def
        round_store_def sat_add_def u64_max_def)
qed

lemma round_start:
  "have_ranges_of (ph_transcript sample_hearing) ''m'' ''s'' = []" "st_target (status sample_hearing ''m'' ''s'') = 0"
  "mem_held (ch_inner (ph_store sample_hearing)) ''m'' ''s'' = Map.empty"
  by (simp_all add: sample_hearing_def transcript_new_def have_ranges_of_def get_or_create_def ts_session_def fresh_transcript_def
      default_sync_status_def cached_new_def mem_held_def mem_table_def)

theorem sync_round_delivers_witness:
  "fst round_ended = [] \<and> st_state (status (snd round_ended) ''m'' ''s'') = SsComplete
    \<and> mem_held (ch_inner (ph_store (snd round_ended))) ''m'' ''s'' = [1 \<mapsto> ''a'', 2 \<mapsto> ''b'', 3 \<mapsto> ''c'']"
proof -
  let ?held = "\<lambda>c. mem_held (ch_inner c)"
  have readable: "\<forall>rg. \<exists>es. mt_read round_store ''s'' rg = Inr es" by (simp add: mt_read_def)
  have asked: "on_sync_command sample_json (mt_read round_store) [(''s'', 3)] ''i'' ''p'' (Some sample_client)
      (SyncRequest ''s'' (have_ranges_of (ph_transcript sample_hearing) ''m'' ''s'')) empty_out round_server
    = (fst round_asked, snd round_asked)" by (simp add: round_asked_def round_start)
  have heard: "hear (cached_store memory_store) (\<lambda>e. e) ''m'' ((7, SyncBegin ''s'' ''i'' 3 [(1, 3)]) # round_chunks) sample_hearing
    = (fst round_heard, snd round_heard)" by (simp add: round_heard_def)
  have served: "serve sample_json (mt_read round_store) [(''s'', 3)] ''j'' ''p'' (Some sample_client) (fst round_heard)
      (fst round_asked, snd round_asked) = (fst round_served, snd round_served)" by (simp add: round_served_def)
  have ended: "route_sync (cached_store memory_store) (\<lambda>e. e) ''m'' 12 (snd (last (messages (effects (fst round_served))))) (snd round_heard)
    = (fst round_ended, snd round_ended)" by (simp add: round_ended_def)
  have chunks: "snd ` set round_chunks = {msg \<in> snd ` set [([sample_client], round_chunk 1 ''a''), ([sample_client], round_chunk 2 ''b''),
      ([sample_client], round_chunk 3 ''c'')]. is_chunk msg}"
    by (auto simp: round_chunks_def round_chunk_def is_chunk_def)
  have stored: "map_of (map (\<lambda>e. (se_seq e, se_entry e)) (projr (mt_read round_store ''s'' (1, 3)))) |` {1..3} ++ ?held (ph_store sample_hearing) ''m'' ''s''
      = [1 \<mapsto> ''a'', 2 \<mapsto> ''b'', 3 \<mapsto> ''c'']"
    by (auto simp: round_start mt_read_def mt_entries_def round_store_def restrict_map_def fun_eq_iff)
  have "?held (ph_store (snd round_ended)) ''m'' ''s'' = [1 \<mapsto> ''a'', 2 \<mapsto> ''b'', 3 \<mapsto> ''c'']
    \<and> (if {1..3} \<subseteq> dom (?held (ph_store (snd round_ended)) ''m'' ''s'')
       then fst round_ended = [] \<and> st_state (status (snd round_ended) ''m'' ''s'') = SsComplete
       else fst round_ended = [SyncRequest ''s'' (have_ranges_of (ph_transcript (snd round_heard)) ''m'' ''s'')]
           \<and> st_state (status (snd round_ended) ''m'' ''s'') = SsRequested
         \<or> fst round_ended = [] \<and> st_state (status (snd round_ended) ''m'' ''s'') = SsFailed)"
    using sync_round_delivers [OF round_port readable cached.reliable_store_axioms sample_hearing_ok _ _ _ _ _ asked round_sent chunks
        heard served ended] stored
    by (simp add: round_start u64_max_def round_server_def sync_server_new_def)
  moreover have "{1..3::nat} \<subseteq> dom [1 \<mapsto> ''a'', 2 \<mapsto> ''b'', 3 \<mapsto> ''c'']" by auto
  ultimately show ?thesis by simp
qed

end
