(* ===== verification/PhoneLive.thy ===== *)
theory PhoneLive
  imports Live
begin

text \<open>
  \<open>crates/client-core/src/stores/live_text.rs\<close>: the replies the phone shows while they are written. A row grows
  by the piece that continues it; a gap freezes it; a piece from offset 0 is the part so far and replaces it.
  Together with the bridge's half (\<open>Live\<close>): what a row shows is always a beginning of what the bridge passed on.
  The set of completed parts (a \<open>HashSet\<close>) is a set; offsets are natural numbers.
\<close>

section \<open>State\<close>

datatype LiveChange = LiveChange (lc_key: string) (lc_text: "string option")

record Row =
  lr_key :: string
  lr_text :: string
  lr_len :: nat
  lr_frozen :: bool

record SessionLive =
  sv_rows :: "Row list"
  sv_done :: "string set"

definition empty_session_live :: SessionLive where
  "empty_session_live = \<lparr>sv_rows = [], sv_done = {}\<rparr>"

type_synonym LiveTextState = "(string \<times> string, SessionLive) omap"

definition live_of :: "LiveTextState \<Rightarrow> string \<Rightarrow> string \<Rightarrow> SessionLive" where
  "live_of st machine session_id = (case om_get st (machine, session_id) of None \<Rightarrow> empty_session_live | Some live \<Rightarrow> live)"

section \<open>Operations\<close>

text \<open>What a piece makes of its row: the row, and whether it changed what is shown.\<close>

definition grow_row :: "PartialMsg \<Rightarrow> Row \<Rightarrow> bool \<times> Row" where
  "grow_row msg row =
     (if pm_offset msg = 0
      then (True, row\<lparr>lr_text := pm_text msg, lr_len := utf16_len (pm_text msg), lr_frozen := False\<rparr>)
      else if lr_frozen row \<or> pm_offset msg \<noteq> lr_len row then (False, row\<lparr>lr_frozen := True\<rparr>)
      else (True, row\<lparr>lr_text := lr_text row @ pm_text msg, lr_len := lr_len row + utf16_len (pm_text msg)\<rparr>))"

definition live_apply :: "string \<Rightarrow> PartialMsg \<Rightarrow> LiveTextState \<Rightarrow> LiveChange option \<times> LiveTextState" where
  "live_apply machine msg st =
     (if pm_entry_type msg \<noteq> PkText \<or> pm_subagent msg \<noteq> None then (None, st)
      else
        (let live = live_of st machine (pm_session_id msg);
             put = (\<lambda>live. om_put (machine, pm_session_id msg) live st)
         in if pm_key msg \<in> sv_done live then (None, put live)
            else
              (let rows = (case position (\<lambda>r. lr_key r = pm_key msg) (sv_rows live) of
                             Some i \<Rightarrow> sv_rows live
                           | None \<Rightarrow> sv_rows live @ [\<lparr>lr_key = pm_key msg, lr_text = [], lr_len = 0, lr_frozen = False\<rparr>]);
                   i = the (position (\<lambda>r. lr_key r = pm_key msg) rows);
                   (shown, row) = grow_row msg (rows ! i)
               in (if shown then Some (LiveChange (lr_key row) (Some (lr_text row))) else None,
                   put (live\<lparr>sv_rows := rows[i := row]\<rparr>)))))"

definition live_complete :: "string \<Rightarrow> string \<Rightarrow> string \<Rightarrow> LiveTextState \<Rightarrow> LiveChange option \<times> LiveTextState" where
  "live_complete machine session_id key st =
     (let live = live_of st machine session_id;
          live = live\<lparr>sv_done := insert key (sv_done live)\<rparr>
      in case position (\<lambda>r. lr_key r = key) (sv_rows live) of
           None \<Rightarrow> (None, om_put (machine, session_id) live st)
         | Some i \<Rightarrow> (Some (LiveChange key None),
             om_put (machine, session_id) (live\<lparr>sv_rows := take i (sv_rows live) @ drop (Suc i) (sv_rows live)\<rparr>) st))"

definition end_turn :: "string \<Rightarrow> string \<Rightarrow> LiveTextState \<Rightarrow> LiveChange list \<times> LiveTextState" where
  "end_turn machine session_id st =
     (case om_get st (machine, session_id) of
        None \<Rightarrow> ([], st)
      | Some live \<Rightarrow> (map (\<lambda>r. LiveChange (lr_key r) None) (sv_rows live), om_del (machine, session_id) st))"

datatype live_event =
    Piece string PartialMsg
  | Completed string string string \<comment> \<open>machine, session id, key\<close>
  | TurnEnded string string

definition live_step :: "live_event \<Rightarrow> LiveTextState \<Rightarrow> LiveChange list \<times> LiveTextState" where
  "live_step ev st =
     (case ev of
        Piece m msg \<Rightarrow> (let (c, st) = live_apply m msg st in (case c of None \<Rightarrow> [] | Some c \<Rightarrow> [c], st))
      | Completed m s key \<Rightarrow> (let (c, st) = live_complete m s key st in (case c of None \<Rightarrow> [] | Some c \<Rightarrow> [c], st))
      | TurnEnded m s \<Rightarrow> end_turn m s st)"

fun live_run :: "live_event list \<Rightarrow> LiveTextState \<Rightarrow> LiveTextState" where
  "live_run [] st = st"
| "live_run (ev # evs) st = live_run evs (snd (live_step ev st))"

section \<open>Rows are beginnings\<close>

text \<open>The first \<open>k\<close> pieces the bridge passed on.\<close>

definition sent_so_far :: "(nat \<times> string) list \<Rightarrow> nat \<Rightarrow> string" where
  "sent_so_far outs k = concat (map snd (take k outs))"

text \<open>What may reach the phone of a part: each piece at its offset, and the part so far at offset 0.\<close>

definition genuine :: "(nat \<times> string) list \<Rightarrow> PartialMsg \<Rightarrow> bool" where
  "genuine outs msg = ((pm_offset msg, pm_text msg) \<in> set outs \<or> pm_offset msg = 0 \<and> (\<exists>k \<le> length outs. pm_text msg = sent_so_far outs k))"

definition row_ok :: "(nat \<times> string) list \<Rightarrow> Row \<Rightarrow> bool" where
  "row_ok outs row = (lr_len row = utf16_len (lr_text row) \<and> (\<exists>k \<le> length outs. lr_text row = sent_so_far outs k))"

lemma sent_so_far_Suc: "k < length outs \<Longrightarrow> sent_so_far outs (Suc k) = sent_so_far outs k @ snd (outs ! k)"
  by (simp add: sent_so_far_def take_Suc_conv_app_nth)

lemma consecutive_offsets: "consecutive n outs \<Longrightarrow> j < length outs \<Longrightarrow> fst (outs ! j) = n + utf16_len (sent_so_far outs j)"
proof (induction outs arbitrary: n j)
  case (Cons out outs)
  obtain i t where out: "out = (i, t)" by (cases out)
  show ?case
  proof (cases j)
    case (Suc j')
    with Cons.IH [of "n + utf16_len t" j'] Cons.prems out show ?thesis by (simp add: sent_so_far_def)
  qed (use Cons.prems out in \<open>simp add: sent_so_far_def\<close>)
qed simp

lemma offsets_increase:
  assumes "\<forall>out \<in> set outs. 0 < utf16_len (snd out)" "j < k" "k \<le> length outs"
  shows "utf16_len (sent_so_far outs j) < utf16_len (sent_so_far outs k)"
  using assms(2,3)
proof (induction k)
  case (Suc k)
  then have k: "k < length outs" by simp
  then have pos: "0 < utf16_len (snd (outs ! k))" using assms(1) by simp
  show ?case
  proof (cases "j = k")
    case False
    with Suc have "utf16_len (sent_so_far outs j) < utf16_len (sent_so_far outs k)" by simp
    with sent_so_far_Suc [OF k] show ?thesis by simp
  qed (use sent_so_far_Suc [OF k] pos in simp)
qed simp

lemma piece_at:
  assumes "consecutive 0 outs" "\<forall>out \<in> set outs. 0 < utf16_len (snd out)" "(i, t) \<in> set outs"
    and "k \<le> length outs" "i = utf16_len (sent_so_far outs k)"
  shows "k < length outs \<and> sent_so_far outs (Suc k) = sent_so_far outs k @ t"
proof -
  obtain j where j: "j < length outs" "outs ! j = (i, t)" using assms(3) by (auto simp: in_set_conv_nth)
  have "utf16_len (sent_so_far outs j) = utf16_len (sent_so_far outs k)"
    using consecutive_offsets [OF assms(1) j(1)] j(2) assms(5) by simp
  then have "j = k"
    using offsets_increase [OF assms(2), of j k] offsets_increase [OF assms(2), of k j] j(1) assms(4)
    by (cases j k rule: linorder_cases) auto
  with j sent_so_far_Suc [of k outs] show ?thesis by simp
qed

lemma grow_row_ok:
  assumes "consecutive 0 outs" "\<forall>out \<in> set outs. 0 < utf16_len (snd out)" "genuine outs msg" "row_ok outs row"
  shows "row_ok outs (snd (grow_row msg row)) \<and> lr_key (snd (grow_row msg row)) = lr_key row"
proof (cases "pm_offset msg = 0 \<and> (\<exists>k \<le> length outs. pm_text msg = sent_so_far outs k)")
  case True
  then show ?thesis by (simp add: grow_row_def row_ok_def)
next
  case False
  then have piece: "(pm_offset msg, pm_text msg) \<in> set outs" using assms(3) by (auto simp: genuine_def)
  show ?thesis
  proof (cases "pm_offset msg = 0")
    case True
    have "sent_so_far outs (Suc 0) = pm_text msg \<and> 0 < length outs"
      using piece_at [OF assms(1,2) piece, of 0] True by (simp add: sent_so_far_def)
    then have "\<exists>k \<le> length outs. pm_text msg = sent_so_far outs k" by (intro exI [of _ "Suc 0"]) (simp add: Suc_le_eq)
    with True False show ?thesis by simp
  next
    case nonzero: False
    obtain k where k: "k \<le> length outs" "lr_text row = sent_so_far outs k" "lr_len row = utf16_len (sent_so_far outs k)"
      using assms(4) by (auto simp: row_ok_def)
    show ?thesis
    proof (cases "lr_frozen row \<or> pm_offset msg \<noteq> lr_len row")
      case False
      then have "k < length outs \<and> sent_so_far outs (Suc k) = sent_so_far outs k @ pm_text msg"
        using piece_at [OF assms(1,2) piece k(1)] k(3) by simp
      then have "\<exists>j \<le> length outs. sent_so_far outs k @ pm_text msg = sent_so_far outs j" by (intro exI [of _ "Suc k"]) simp
      with False nonzero k show ?thesis by (simp add: grow_row_def row_ok_def)
    qed (use nonzero assms(4) in \<open>simp add: grow_row_def row_ok_def\<close>)
  qed
qed

definition rows_ok :: "(nat \<times> string) list \<Rightarrow> string \<Rightarrow> string \<Rightarrow> string \<Rightarrow> LiveTextState \<Rightarrow> bool" where
  "rows_ok outs m sid key st = (\<forall>row \<in> set (sv_rows (live_of st m sid)). lr_key row = key \<longrightarrow> row_ok outs row)"

definition event_ok :: "(nat \<times> string) list \<Rightarrow> string \<Rightarrow> string \<Rightarrow> string \<Rightarrow> live_event \<Rightarrow> bool" where
  "event_ok outs m sid key ev =
     (case ev of Piece m' msg \<Rightarrow> m' = m \<and> pm_session_id msg = sid \<and> pm_key msg = key \<longrightarrow> genuine outs msg | _ \<Rightarrow> True)"

lemma live_of_put [simp]: "live_of (om_put (m, s) live st) m' s' = (if (m', s') = (m, s) then live else live_of st m' s')"
  by (simp add: live_of_def)

lemma live_of_del [simp]: "live_of (om_del (m, s) st) m' s' = (if (m', s') = (m, s) then empty_session_live else live_of st m' s')"
  by (simp add: live_of_def)

lemma row_ok_fresh: "row_ok outs \<lparr>lr_key = k, lr_text = [], lr_len = 0, lr_frozen = False\<rparr>"
  by (auto simp: row_ok_def sent_so_far_def intro!: exI [of _ 0])

text \<open>Where a piece lands: a row of its key, the one found or a new one.\<close>

lemma live_apply_lands:
  assumes "live_apply m msg st = (c, st')" "pm_entry_type msg = PkText" "pm_subagent msg = None"
    and "pm_key msg \<notin> sv_done (live_of st m (pm_session_id msg))"
  obtains rows i where "rows = sv_rows (live_of st m (pm_session_id msg))
      \<or> rows = sv_rows (live_of st m (pm_session_id msg)) @ [\<lparr>lr_key = pm_key msg, lr_text = [], lr_len = 0, lr_frozen = False\<rparr>]"
    and "i < length rows" "lr_key (rows ! i) = pm_key msg"
    and "st' = om_put (m, pm_session_id msg) ((live_of st m (pm_session_id msg))\<lparr>sv_rows := rows[i := snd (grow_row msg (rows ! i))]\<rparr>) st"
    and "c = (if fst (grow_row msg (rows ! i)) then Some (LiveChange (lr_key (snd (grow_row msg (rows ! i)))) (Some (lr_text (snd (grow_row msg (rows ! i))))))
      else None)"
proof -
  let ?live = "live_of st m (pm_session_id msg)"
  define rows where "rows = (case position (\<lambda>r. lr_key r = pm_key msg) (sv_rows ?live) of Some i \<Rightarrow> sv_rows ?live
    | None \<Rightarrow> sv_rows ?live @ [\<lparr>lr_key = pm_key msg, lr_text = [], lr_len = 0, lr_frozen = False\<rparr>])"
  have "position (\<lambda>r. lr_key r = pm_key msg) rows \<noteq> None"
  proof (cases "position (\<lambda>r. lr_key r = pm_key msg) (sv_rows ?live)")
    case None
    then have "\<exists>r \<in> set rows. lr_key r = pm_key msg" by (simp add: rows_def)
    then show ?thesis unfolding position_None by blast
  qed (simp add: rows_def)
  then obtain i where i: "position (\<lambda>r. lr_key r = pm_key msg) rows = Some i" by blast
  note at = position_Some [OF i]
  have "rows = sv_rows ?live \<or> rows = sv_rows ?live @ [\<lparr>lr_key = pm_key msg, lr_text = [], lr_len = 0, lr_frozen = False\<rparr>]"
    by (simp add: rows_def split: option.split)
  moreover have "live_apply m msg st = (if fst (grow_row msg (rows ! i)) then Some (LiveChange (lr_key (snd (grow_row msg (rows ! i))))
        (Some (lr_text (snd (grow_row msg (rows ! i)))))) else None,
      om_put (m, pm_session_id msg) (?live\<lparr>sv_rows := rows[i := snd (grow_row msg (rows ! i))]\<rparr>) st)"
    using assms(2-4) i by (simp add: live_apply_def rows_def [symmetric] Let_def case_prod_beta)
  ultimately show thesis using assms(1) at by (intro that [of rows i]) auto
qed

lemma piece_rows_ok:
  assumes "consecutive 0 outs" "\<forall>out \<in> set outs. 0 < utf16_len (snd out)" "event_ok outs m sid key (Piece m' msg)"
    and "rows_ok outs m sid key st" "live_apply m' msg st = (c, st')"
  shows "rows_ok outs m sid key st'"
proof (cases "pm_entry_type msg = PkText \<and> pm_subagent msg = None \<and> pm_key msg \<notin> sv_done (live_of st m' (pm_session_id msg))")
  case True
  then have shown: "pm_entry_type msg = PkText" "pm_subagent msg = None" "pm_key msg \<notin> sv_done (live_of st m' (pm_session_id msg))" by auto
  show ?thesis
  proof (rule live_apply_lands [OF assms(5) shown])
    fix rows i
    assume rows: "rows = sv_rows (live_of st m' (pm_session_id msg))
      \<or> rows = sv_rows (live_of st m' (pm_session_id msg)) @ [\<lparr>lr_key = pm_key msg, lr_text = [], lr_len = 0, lr_frozen = False\<rparr>]"
      and i: "i < length rows" "lr_key (rows ! i) = pm_key msg"
      and st': "st' = om_put (m', pm_session_id msg)
        ((live_of st m' (pm_session_id msg))\<lparr>sv_rows := rows[i := snd (grow_row msg (rows ! i))]\<rparr>) st"
    show ?thesis
    proof (cases "m' = m \<and> pm_session_id msg = sid")
      case here: True
      have all: "\<forall>row \<in> set rows. lr_key row = key \<longrightarrow> row_ok outs row"
        using rows assms(4) here row_ok_fresh by (auto simp: rows_ok_def)
      have key: "lr_key (snd (grow_row msg (rows ! i))) = pm_key msg" using i(2) by (simp add: grow_row_def)
      have "row_ok outs (snd (grow_row msg (rows ! i)))" if "pm_key msg = key"
        using grow_row_ok [OF assms(1,2)] assms(3) here that all i by (simp add: event_ok_def)
      then have "\<forall>row \<in> set (rows[i := snd (grow_row msg (rows ! i))]). lr_key row = key \<longrightarrow> row_ok outs row"
        using all key by (auto dest!: set_update_subset_insert [THEN subsetD])
      with here show ?thesis by (simp add: rows_ok_def st')
    next
      case False
      then show ?thesis using assms(4) by (auto simp: rows_ok_def st')
    qed
  qed
next
  case False
  then show ?thesis
    using assms(4,5) by (auto simp: live_apply_def Let_def rows_ok_def split: if_splits)
qed

lemma step_rows_ok:
  assumes "consecutive 0 outs" "\<forall>out \<in> set outs. 0 < utf16_len (snd out)" "event_ok outs m sid key ev" "rows_ok outs m sid key st"
  shows "rows_ok outs m sid key (snd (live_step ev st))"
proof (cases ev)
  case (Piece m' msg)
  obtain c st' where "live_apply m' msg st = (c, st')" by force
  with piece_rows_ok [OF assms(1,2) assms(3) [unfolded Piece] assms(4) this] show ?thesis by (simp add: Piece live_step_def)
next
  case (Completed m' s k)
  have "row \<in> set (sv_rows live)" if "row \<in> set (take i (sv_rows live) @ drop (Suc i) (sv_rows live))" for row i live
    using that by (auto dest: in_set_takeD in_set_dropD)
  with assms(4) show ?thesis
    by (auto simp: Completed live_step_def live_complete_def rows_ok_def Let_def split: option.split)
next
  case (TurnEnded m' s)
  with assms(4) show ?thesis by (auto simp: live_step_def end_turn_def rows_ok_def empty_session_live_def split: option.split)
qed

lemma run_rows_ok:
  assumes "consecutive 0 outs" "\<forall>out \<in> set outs. 0 < utf16_len (snd out)" "\<forall>ev \<in> set evs. event_ok outs m sid key ev"
    and "rows_ok outs m sid key st"
  shows "rows_ok outs m sid key (live_run evs st)"
  using assms(3,4)
proof (induction evs arbitrary: st)
  case (Cons ev evs)
  then show ?case using step_rows_ok [OF assms(1,2)] by simp
qed simp

section \<open>Properties\<close>

text \<open>C25: Whatever reaches the phone of a reply the bridge streams, pieces lost, repeated or out of order, parts sent again
  from their beginning, parts completed and turns ended in between: a live row shows a beginning of what the
  reply shows in the end, and counts its length as the bridge does.\<close>

theorem live_row_is_a_beginning:
  assumes "admit_all strip pieces (live_part_new kind subagent) = (outs, p)" "\<forall>out \<in> set outs. 0 < utf16_len (snd out)"
    and "\<forall>ev \<in> set evs. event_ok outs m sid key ev"
    and "row \<in> set (sv_rows (live_of (live_run evs []) m sid))" "lr_key row = key"
  shows "(\<exists>rest. passed_on strip (continued 0 pieces) = lr_text row @ rest) \<and> lr_len row = utf16_len (lr_text row)"
proof -
  have "\<not> lp_stopped (live_part_new kind subagent)" by (simp add: live_part_new_def)
  from admit_all_tracks [OF tracks_fresh this, of strip pieces]
  have outs: "concat (map snd outs) = passed_on strip (continued 0 pieces)" "consecutive 0 outs" by (simp_all add: assms(1))
  have "rows_ok outs m sid key []" by (simp add: rows_ok_def live_of_def empty_session_live_def)
  from run_rows_ok [OF outs(2) assms(2,3) this] assms(4,5) have "row_ok outs row" by (simp add: rows_ok_def)
  then obtain k where k: "lr_text row = sent_so_far outs k" "lr_len row = utf16_len (lr_text row)" by (auto simp: row_ok_def)
  have "concat (map snd outs) = lr_text row @ concat (map snd (drop k outs))"
    unfolding k(1) sent_so_far_def by (metis append_take_drop_id concat_append map_append)
  with k(2) outs(1) show ?thesis by metis
qed

text \<open>A reply in three pieces: the second is lost, the third freezes the row, and the catch-up shows it whole.\<close>

definition sample_piece :: "nat \<Rightarrow> string \<Rightarrow> live_event" where
  "sample_piece i t = Piece ''m'' \<lparr>pm_session_id = ''s'', pm_key = ''k'', pm_entry_type = PkText, pm_subagent = None, pm_offset = i, pm_text = t\<rparr>"

definition sample_arrivals :: "live_event list" where
  "sample_arrivals = [sample_piece 0 ''ab'', sample_piece 4 ''e'', sample_piece 0 ''abcde'']"

theorem live_row_is_a_beginning_witness:
  "\<exists>row rest. set (sv_rows (live_of (live_run sample_arrivals []) ''m'' ''s'')) = {row} \<and> lr_text row = ''abcde''
    \<and> passed_on False ''abcde'' = lr_text row @ rest"
proof -
  let ?pieces = "[(0, ''ab''), (2, ''cd''), (4, ''e'')]" and ?row = "\<lparr>lr_key = ''k'', lr_text = ''abcde'', lr_len = 5, lr_frozen = False\<rparr>"
  have run: "admit_all False ?pieces (live_part_new PkText None) = (?pieces, snd (admit_all False ?pieces (live_part_new PkText None)))"
    by (simp add: admit_def Let_def utf16_len_def utf16_units_def live_part_new_def keep_def CATCH_UP_CAP_def)
  have rows: "sv_rows (live_of (live_run sample_arrivals []) ''m'' ''s'') = [?row]"
    by (simp add: sample_arrivals_def sample_piece_def live_step_def live_apply_def live_of_def empty_session_live_def grow_row_def
        utf16_len_def utf16_units_def Let_def)
  have sent: "\<exists>k \<le> length ?pieces. ''abcde'' = sent_so_far ?pieces k" by (intro exI [of _ 3]) (simp add: sent_so_far_def)
  have "\<forall>ev \<in> set sample_arrivals. event_ok ?pieces ''m'' ''s'' ''k'' ev"
    using sent by (simp add: sample_arrivals_def sample_piece_def event_ok_def genuine_def del: list.size)
  from live_row_is_a_beginning [OF run _ this, of ?row] rows
  have "\<exists>rest. passed_on False (continued 0 ?pieces) = lr_text ?row @ rest"
    by (simp add: utf16_len_def utf16_units_def)
  moreover have "continued 0 ?pieces = ''abcde''" by (simp add: utf16_len_def utf16_units_def)
  ultimately have "\<exists>rest. passed_on False ''abcde'' = lr_text ?row @ rest" by (simp only:)
  with rows show ?thesis by (intro exI [of _ ?row]) (simp add: exI)
qed

end
