(* ===== verification/Ring.thy ===== *)
theory Ring
  imports Prelude "HOL-Library.Word"
begin

text \<open>
  \<open>crates/bridge-runtime/src/terminal/ring.rs\<close>: the newest output of a terminal, addressed by the offset of
  each byte in everything the terminal ever wrote. The buffer wraps; what it stands for is the end of the
  stream. The count of all bytes is a natural number: no terminal writes \<open>2\<^sup>6\<^sup>4\<close> of them. The locale
  \<open>output_log\<close> is what a replay relies on.
\<close>

section \<open>The ring\<close>

definition CAPACITY :: nat where "CAPACITY = 256 * 1024"

record Ring =
  rg_buf :: "8 word list"
  rg_start :: nat
  rg_total :: nat

definition ring_new :: Ring where
  "ring_new = \<lparr>rg_buf = [], rg_start = 0, rg_total = 0\<rparr>"

definition ring_total :: "Ring \<Rightarrow> nat" where
  "ring_total r = rg_total r"

definition oldest :: "Ring \<Rightarrow> nat" where
  "oldest r = rg_total r - length (rg_buf r)"

definition ring_len :: "Ring \<Rightarrow> nat" where
  "ring_len r = length (rg_buf r)"

definition ring_is_empty :: "Ring \<Rightarrow> bool" where
  "ring_is_empty r = (rg_buf r = [])"

definition push_byte :: "Ring \<Rightarrow> 8 word \<Rightarrow> Ring" where
  "push_byte r b =
     (if length (rg_buf r) < CAPACITY then r\<lparr>rg_buf := rg_buf r @ [b]\<rparr>
      else r\<lparr>rg_buf := (rg_buf r)[rg_start r := b], rg_start := (rg_start r + 1) mod CAPACITY\<rparr>)"

definition ring_push :: "8 word list \<Rightarrow> Ring \<Rightarrow> nat \<times> Ring" where
  "ring_push data r =
     (let offset = rg_total r
      in (offset, foldl push_byte (r\<lparr>rg_total := rg_total r + length data\<rparr>) data))"

definition read_from :: "Ring \<Rightarrow> nat \<Rightarrow> nat \<times> 8 word list" where
  "read_from r from =
     (let held = length (rg_buf r); first = oldest r; start = max from first in
      if held = 0 \<or> rg_total r \<le> start then (rg_total r, [])
      else (let skip = start - first
            in (start, map (\<lambda>i. rg_buf r ! ((rg_start r + skip + i) mod held)) [0..<held - skip])))"

text \<open>The terminal's replay (\<open>terminal/mod.rs\<close>): nothing to send when the ring gives no bytes.\<close>

definition replay :: "Ring \<Rightarrow> nat \<Rightarrow> (nat \<times> 8 word list) option" where
  "replay r from =
     (if ring_is_empty r then None
      else (let (offset, data) = read_from r from in if data \<noteq> [] then Some (offset, data) else None))"

section \<open>What it stands for\<close>

definition contents :: "Ring \<Rightarrow> 8 word list" where
  "contents r = rotate (rg_start r) (rg_buf r)"

definition ring_ok :: "Ring \<Rightarrow> bool" where
  "ring_ok r = (length (rg_buf r) \<le> CAPACITY \<and> rg_start r < CAPACITY \<and> (length (rg_buf r) < CAPACITY \<longrightarrow> rg_start r = 0))"

lemma capacity_pos [simp]: "0 < CAPACITY"
  by (simp add: CAPACITY_def)

lemma length_contents [simp]: "length (contents r) = length (rg_buf r)"
  by (simp add: contents_def)

lemma rotate_overwrite:
  assumes "n < length xs"
  shows "rotate ((n + 1) mod length xs) (xs[n := b]) = tl (rotate n xs) @ [b]"
proof (rule nth_equalityI)
  fix i assume "i < length (rotate ((n + 1) mod length xs) (xs[n := b]))"
  then have i: "i < length xs" by simp
  have pos: "((n + 1) mod length xs + i) mod length xs = (n + (i + 1)) mod length xs"
    by (simp add: mod_add_left_eq)
  show "rotate ((n + 1) mod length xs) (xs[n := b]) ! i = (tl (rotate n xs) @ [b]) ! i"
  proof (cases "i + 1 < length xs")
    case True
    have "(n + (i + 1)) mod length xs \<noteq> n"
    proof (cases "n + (i + 1) < length xs")
      case False
      then have "(n + (i + 1)) mod length xs = n + (i + 1) - length xs" using True assms by (simp add: mod_if)
      with True False show ?thesis by linarith
    qed simp
    moreover have "i < length xs - 1" using True by simp
    ultimately show ?thesis using True i pos by (simp add: nth_rotate nth_append nth_tl)
  next
    case False
    with i have len: "i + 1 = length xs" by simp
    have "(n + (i + 1)) mod length xs = n" using assms unfolding len by simp
    moreover have "\<not> i < length xs - 1" "i - (length xs - 1) = 0" using len by simp_all
    ultimately show ?thesis using assms i pos by (simp add: nth_rotate nth_append)
  qed
qed (use assms in simp)

lemma keep_newest_push: "0 < n \<Longrightarrow> keep_newest n (xs @ [b]) = (if length xs < n then xs @ [b] else tl (keep_newest n xs) @ [b])"
  by (auto simp: keep_newest_def tl_drop Suc_diff_le drop_Suc simp flip: drop_Suc)

lemma push_byte:
  assumes "ring_ok r"
  shows "ring_ok (push_byte r b)"
    and "contents (push_byte r b) = (if length (contents r) < CAPACITY then contents r @ [b] else tl (contents r) @ [b])"
    and "rg_total (push_byte r b) = rg_total r"
proof -
  show "ring_ok (push_byte r b)" using assms by (auto simp: ring_ok_def push_byte_def)
  show "contents (push_byte r b) = (if length (contents r) < CAPACITY then contents r @ [b] else tl (contents r) @ [b])"
  proof (cases "length (rg_buf r) < CAPACITY")
    case True
    then show ?thesis using assms by (simp add: contents_def push_byte_def ring_ok_def)
  next
    case False
    then have full: "length (rg_buf r) = CAPACITY" using assms by (simp add: ring_ok_def)
    with assms have "rg_start r < length (rg_buf r)" by (simp add: ring_ok_def)
    from rotate_overwrite [OF this, of b] full show ?thesis by (simp add: contents_def push_byte_def)
  qed
qed (simp add: push_byte_def)

text \<open>The ring of a terminal that has written \<open>xs\<close>.\<close>

definition ring_holds :: "Ring \<Rightarrow> 8 word list \<Rightarrow> bool" where
  "ring_holds r xs = (ring_ok r \<and> contents r = keep_newest CAPACITY xs \<and> rg_total r = length xs)"

lemma ring_holds_new: "ring_holds ring_new []"
  by (simp add: ring_holds_def ring_new_def ring_ok_def contents_def keep_newest_def)

lemma push_bytes:
  assumes "ring_ok r" "contents r = keep_newest CAPACITY xs"
  shows "ring_ok (foldl push_byte r data) \<and> contents (foldl push_byte r data) = keep_newest CAPACITY (xs @ data)
    \<and> rg_total (foldl push_byte r data) = rg_total r"
  using assms
proof (induction data arbitrary: r xs)
  case (Cons b data)
  note step = push_byte [OF Cons.prems(1), of b]
  have "contents (push_byte r b) = keep_newest CAPACITY (xs @ [b])"
    unfolding step(2) keep_newest_push [OF capacity_pos] Cons.prems(2) by (auto simp: keep_newest_def)
  from Cons.IH [OF step(1) this] show ?case by (simp add: step(3))
qed simp

lemma ring_push_holds:
  assumes "ring_holds r xs" "ring_push data r = (offset, r')"
  shows "offset = length xs \<and> ring_holds r' (xs @ data)"
proof -
  let ?r = "r\<lparr>rg_total := rg_total r + length data\<rparr>"
  have "ring_ok ?r" "contents ?r = keep_newest CAPACITY xs"
    using assms(1) by (simp_all add: ring_holds_def ring_ok_def contents_def)
  from push_bytes [OF this, of data] assms show ?thesis by (auto simp: ring_holds_def ring_push_def)
qed

lemma read_from_holds:
  assumes "ring_holds r xs"
  shows "read_from r f = (let first = max f (length xs - CAPACITY) in
    if first < length xs then (first, drop first xs) else (length xs, []))"
proof -
  have len: "length (rg_buf r) = min CAPACITY (length xs)"
    using assms length_contents [of r] by (simp add: ring_holds_def)
  then have first: "oldest r = length xs - CAPACITY" using assms by (simp add: oldest_def ring_holds_def min_def)
  have total: "rg_total r = length xs" using assms by (simp add: ring_holds_def)
  define k where "k = max f (length xs - CAPACITY)"
  have eval: "read_from r f = (if length (rg_buf r) = 0 \<or> length xs \<le> k then (length xs, [])
      else (k, map (\<lambda>i. rg_buf r ! ((rg_start r + (k - (length xs - CAPACITY)) + i) mod length (rg_buf r)))
        [0..<length (rg_buf r) - (k - (length xs - CAPACITY))]))"
    by (simp add: read_from_def first total k_def [symmetric] Let_def)
  have "map (\<lambda>i. rg_buf r ! ((rg_start r + skip + i) mod length (rg_buf r))) [0..<length (rg_buf r) - skip] = drop skip (contents r)" for skip
    by (rule nth_equalityI) (simp_all add: contents_def nth_rotate add.assoc)
  moreover have "drop (k - (length xs - CAPACITY)) (contents r) = drop k xs"
    using assms by (simp add: ring_holds_def keep_newest_def k_def)
  moreover have "length (rg_buf r) \<noteq> 0" if "k < length xs" using len that capacity_pos by auto
  ultimately show ?thesis unfolding eval k_def [symmetric] Let_def by (auto simp: not_le)
qed

section \<open>The contract of an output log\<close>

locale output_log =
  fixes holds :: "'r \<Rightarrow> 'b list \<Rightarrow> bool" and push :: "'b list \<Rightarrow> 'r \<Rightarrow> nat \<times> 'r" and read :: "'r \<Rightarrow> nat \<Rightarrow> nat \<times> 'b list"
  assumes push_law: "holds r xs \<Longrightarrow> push data r = (offset, r') \<Longrightarrow> offset = length xs \<and> holds r' (xs @ data)"
    and read_law: "holds r xs \<Longrightarrow> read r f = (offset, data) \<Longrightarrow>
      offset \<le> length xs \<and> data = drop offset xs \<and> (f \<le> length xs \<longrightarrow> f \<le> offset)"
begin

lemma pushes_hold:
  assumes "holds r xs"
  shows "holds (foldl (\<lambda>r data. snd (push data r)) r chunks) (xs @ concat chunks)"
  using assms
proof (induction chunks arbitrary: r xs)
  case (Cons data chunks)
  have "holds (snd (push data r)) (xs @ data)" using push_law [OF Cons.prems, of data] by (metis prod.collapse)
  from Cons.IH [OF this] show ?case by simp
qed simp

text \<open>Whatever a log is asked for, it answers with a part of the stream that reaches to its end.\<close>

lemma read_slice:
  assumes "holds r xs" "read r f = (offset, data)"
  shows "take (length data) (drop offset xs) = data \<and> offset + length data = length xs"
  using read_law [OF assms] by simp

end

interpretation ring: output_log ring_holds ring_push read_from
proof
  fix r xs data offset r'
  assume "ring_holds r xs" "ring_push data r = (offset, r')"
  then show "offset = length xs \<and> ring_holds r' (xs @ data)" by (rule ring_push_holds)
next
  fix r xs f offset data
  assume "ring_holds r xs" "read_from r f = (offset, data)"
  then show "offset \<le> length xs \<and> data = drop offset xs \<and> (f \<le> length xs \<longrightarrow> f \<le> offset)"
    by (auto simp: read_from_holds Let_def split: if_splits)
qed

section \<open>Properties\<close>

text \<open>The wrapping buffer is the end of the stream: whatever chunks a terminal wrote, a read gives the bytes from
  the asked offset to the end, from the oldest of the last 256 KiB when it asked for older ones, each at its
  true offset, and a push tells the offset its first byte has.\<close>

lemma ring_is_the_newest_output:
  "read_from (foldl (\<lambda>r data. snd (ring_push data r)) ring_new chunks) f =
     (let xs = concat chunks; first = max f (length xs - 262144)
      in if first < length xs then (first, drop first xs) else (length xs, []))
   \<and> fst (ring_push data (foldl (\<lambda>r data. snd (ring_push data r)) ring_new chunks)) = length (concat chunks)"
proof -
  have holds: "ring_holds (foldl (\<lambda>r data. snd (ring_push data r)) ring_new chunks) (concat chunks)"
    using ring.pushes_hold [OF ring_holds_new, of chunks] by simp
  then have "fst (ring_push data (foldl (\<lambda>r data. snd (ring_push data r)) ring_new chunks)) = length (concat chunks)"
    using ring_push_holds [OF holds, of data] by (metis prod.collapse)
  with read_from_holds [OF holds, of f] show ?thesis by (simp add: CAPACITY_def Let_def)
qed

end
