(* ===== verification/WebSignIn.thy ===== *)
theory WebSignIn
  imports Engine
begin

text \<open>
  \<open>crates/bridge-core/src/engine/web.rs\<close>: signing a browser in to the bridge's page by the code it shows. The
  page says which codes it shows; a paired phone sends one back. The codes are the engine's field
  \<open>web_sign_ins\<close>, kept beside the engine here. Only a paired identity's commands reach \<open>on_web_sign_in\<close>
  (\<open>Ingest\<close>). A code is its bytes; what is not ASCII falls out of it.
\<close>

section \<open>Codes\<close>

definition MAX_WEB_SIGN_IN_CODES :: nat where "MAX_WEB_SIGN_IN_CODES = 64"

type_synonym WebSignIns = "(string, nat) omap"

definition is_ascii_alphanumeric :: "char \<Rightarrow> bool" where
  "is_ascii_alphanumeric c = (let b = (of_char c :: nat) in 48 \<le> b \<and> b \<le> 57 \<or> 65 \<le> b \<and> b \<le> 90 \<or> 97 \<le> b \<and> b \<le> 122)"

definition ascii_upper :: "char \<Rightarrow> char" where
  "ascii_upper c = (let b = (of_char c :: nat) in if 97 \<le> b \<and> b \<le> 122 then char_of (b - 32) else c)"

definition normalize_code :: "string \<Rightarrow> string" where
  "normalize_code code =
     (let compact = map ascii_upper (filter is_ascii_alphanumeric code)
      in if length compact = 8 then take 4 compact @ ''-'' @ drop 4 compact else compact)"

section \<open>Handlers\<close>

lemma length_del_in: "(c, e) \<in> set codes \<Longrightarrow> length (om_del c codes) < length codes"
  by (induction codes) (auto simp: om_del_def less_Suc_eq_le length_filter_le)

text \<open>\<open>iter().min_by_key\<close> over the map: the code that lapses first.\<close>

function evict_codes :: "WebSignIns \<Rightarrow> WebSignIns" where
  "evict_codes codes =
     (if MAX_WEB_SIGN_IN_CODES \<le> length codes
      then (case min_by_key snd codes of None \<Rightarrow> codes | Some (c, e) \<Rightarrow> evict_codes (om_del c codes))
      else codes)"
  by auto

termination
  by (relation "measure length") (auto dest: min_by_key_in length_del_in)

declare evict_codes.simps [simp del]

definition on_web_sign_in_pending :: "string \<Rightarrow> nat \<Rightarrow> nat \<Rightarrow> WebSignIns \<Rightarrow> WebSignIns" where
  "on_web_sign_in_pending code expires_ms now codes =
     om_put (normalize_code code) expires_ms (evict_codes (om_retain (\<lambda>_ expires. now < expires) codes))"

definition on_web_sign_in_withdrawn :: "string \<Rightarrow> WebSignIns \<Rightarrow> WebSignIns" where
  "on_web_sign_in_withdrawn code codes = om_del (normalize_code code) codes"

definition on_web_sign_in :: "string \<Rightarrow> string \<Rightarrow> WebSignIns \<Rightarrow> Engine \<Rightarrow> WebSignIns \<times> Engine" where
  "on_web_sign_in sent phone codes e =
     (let code = normalize_code sent;
          live = (case om_get codes code of None \<Rightarrow> False | Some expires \<Rightarrow> en_now e < expires);
          by_whom = (case phone_of phone e of None \<Rightarrow> phone | Some p \<Rightarrow> pp_npub p);
          e = (if live then emit (WebSignedIn code by_whom) e else e)
      in (om_del code codes, publish_to phone (WebSignInResult sent live) e))"

definition on_web_browsers_request :: "Engine \<Rightarrow> Engine" where
  "on_web_browsers_request e = (case en_requester e of None \<Rightarrow> e | Some client \<Rightarrow> emit (WebBrowsers client) e)"

definition on_web_browser_sign_out :: "string \<Rightarrow> Engine \<Rightarrow> Engine" where
  "on_web_browser_sign_out i e = (case en_requester e of None \<Rightarrow> e | Some client \<Rightarrow> emit (WebBrowserSignOut i client) e)"

section \<open>Histories\<close>

text \<open>What the page and the phones do, each at its time, and what the page is showing after it.\<close>

datatype web_event =
    Shown string nat nat \<comment> \<open>code, lapses at, now\<close>
  | Withdrawn string
  | Sent string string nat \<comment> \<open>code as typed, phone, now\<close>

fun web_step :: "web_event \<Rightarrow> WebSignIns \<times> Engine \<Rightarrow> WebSignIns \<times> Engine" where
  "web_step (Shown code expires now) (codes, e) = (on_web_sign_in_pending code expires now codes, e\<lparr>en_now := now\<rparr>)"
| "web_step (Withdrawn code) (codes, e) = (on_web_sign_in_withdrawn code codes, e)"
| "web_step (Sent code phone now) (codes, e) = on_web_sign_in code phone codes (e\<lparr>en_now := now\<rparr>)"

text \<open>The lapse time of the code \<open>c\<close>, when it is shown and was neither withdrawn nor sent since. The newest event is first.\<close>

fun showing :: "web_event list \<Rightarrow> string \<Rightarrow> nat option" where
  "showing [] c = None"
| "showing (Shown code expires now # h) c = (if normalize_code code = c then Some expires else showing h c)"
| "showing (Withdrawn code # h) c = (if normalize_code code = c then None else showing h c)"
| "showing (Sent code phone now # h) c = (if normalize_code code = c then None else showing h c)"

definition web_after :: "Engine \<Rightarrow> web_event list \<Rightarrow> WebSignIns \<times> Engine" where
  "web_after e h = foldr web_step h ([], e)"

definition signed_in :: "Engine \<Rightarrow> (string \<times> string) list" where
  "signed_in e = concat (map (\<lambda>x. case x of WebSignedIn code by_whom \<Rightarrow> [(code, by_whom)] | _ \<Rightarrow> []) (effects (en_out e)))"

section \<open>Lemmas\<close>

lemma evict_codes:
  assumes "om_wf codes"
  shows "om_wf (evict_codes codes) \<and> length (evict_codes codes) < MAX_WEB_SIGN_IN_CODES
    \<and> (\<forall>c e. om_get (evict_codes codes) c = Some e \<longrightarrow> om_get codes c = Some e)"
  using assms
proof (induction codes rule: evict_codes.induct)
  case (1 codes)
  show ?case
  proof (cases "MAX_WEB_SIGN_IN_CODES \<le> length codes")
    case True
    then have "codes \<noteq> []" by (auto simp: MAX_WEB_SIGN_IN_CODES_def)
    then obtain c e where min: "min_by_key snd codes = Some (c, e)" by (metis min_by_key_None not_None_eq surj_pair)
    then have "evict_codes codes = evict_codes (om_del c codes)" using True by (simp add: evict_codes.simps [of codes])
    moreover have "om_get codes k = Some x" if "om_get (om_del c codes) k = Some x" for k x
      using that by (simp split: if_splits)
    ultimately show ?thesis using "1.IH" [OF True min refl] "1.prems" by (metis om_wf_del)
  qed (use "1.prems" in \<open>simp add: evict_codes.simps [of codes]\<close>)
qed

lemma pending_codes:
  assumes "om_wf codes" "codes' = on_web_sign_in_pending code expires now codes"
  shows "om_wf codes'" "length codes' \<le> MAX_WEB_SIGN_IN_CODES" "om_get codes' (normalize_code code) = Some expires"
    and "om_get codes' c = Some e \<Longrightarrow> c \<noteq> normalize_code code \<Longrightarrow> om_get codes c = Some e"
proof -
  let ?kept = "evict_codes (om_retain (\<lambda>_ expires. now < expires) codes)"
  note kept = evict_codes [OF om_wf_retain [OF assms(1)]]
  show "om_wf codes'" "om_get codes' (normalize_code code) = Some expires"
    using kept by (simp_all add: assms(2) on_web_sign_in_pending_def)
  show "length codes' \<le> MAX_WEB_SIGN_IN_CODES"
    using kept [of "\<lambda>_ expires. now < expires"] length_om_put [of "normalize_code code" expires ?kept]
    by (simp add: assms(2) on_web_sign_in_pending_def)
  show "om_get codes c = Some e" if "om_get codes' c = Some e" "c \<noteq> normalize_code code"
    using that kept [of "\<lambda>_ expires. now < expires"] om_get_retain [OF assms(1), of "\<lambda>_ expires. now < expires" c]
    by (auto simp: assms(2) on_web_sign_in_pending_def split: option.splits if_splits)
qed

text \<open>The codes held are codes shown, within the cap.\<close>

lemma codes_are_shown:
  "om_wf (fst (web_after e h)) \<and> length (fst (web_after e h)) \<le> MAX_WEB_SIGN_IN_CODES
    \<and> (\<forall>c x. om_get (fst (web_after e h)) c = Some x \<longrightarrow> showing h c = Some x)"
proof (induction h)
  case (Cons ev h)
  obtain codes e1 where st: "web_after e h = (codes, e1)" by force
  show ?case
  proof (cases ev)
    case (Shown code expires now)
    have "om_wf codes" using Cons.IH st by simp
    note new = pending_codes [OF this refl, of code expires now]
    have "web_after e (ev # h) = (on_web_sign_in_pending code expires now codes, e1\<lparr>en_now := now\<rparr>)"
      using st by (simp add: web_after_def Shown)
    with new Cons.IH st Shown show ?thesis by auto
  next
    case (Withdrawn code)
    with Cons.IH st length_om_del [of "normalize_code code" codes] show ?thesis
      by (auto simp: web_after_def on_web_sign_in_withdrawn_def split: if_splits)
  next
    case (Sent code phone now)
    with Cons.IH st length_om_del [of "normalize_code code" codes] show ?thesis
      by (auto simp: web_after_def on_web_sign_in_def Let_def split: if_splits)
  qed
qed (simp add: web_after_def)

lemma signed_in_emit [simp]:
  "signed_in (emit x e) = signed_in e @ (case x of WebSignedIn code by_whom \<Rightarrow> [(code, by_whom)] | _ \<Rightarrow> [])"
  by (simp add: signed_in_def emit_def push_def)

lemma signed_in_publish [simp]: "signed_in (publish_to phone m e) = signed_in e"
  by (simp add: signed_in_def publish_to_def send_to_def publish_addressed_def push_def)

lemma signed_in_now [simp]: "signed_in (e\<lparr>en_now := now\<rparr>) = signed_in e"
  by (simp add: signed_in_def)

lemma codes_only_step:
  "(\<forall>code phone now. ev \<noteq> Sent code phone now) \<Longrightarrow> signed_in (snd (web_step ev st)) = signed_in (snd st)"
  by (cases st; cases ev) auto

lemma sent_signs_in:
  "signed_in (snd (web_after e (Sent sent phone now # h))) = signed_in (snd (web_after e h))
     @ (case om_get (fst (web_after e h)) (normalize_code sent) of
          None \<Rightarrow> []
        | Some expires \<Rightarrow> (if now < expires
            then [(normalize_code sent, case phone_of phone (snd (web_after e h)) of None \<Rightarrow> phone | Some p \<Rightarrow> pp_npub p)] else []))"
proof -
  obtain codes e1 where st: "web_after e h = (codes, e1)" by force
  have "phone_of phone (e1\<lparr>en_now := now\<rparr>) = phone_of phone e1" by (simp add: phone_of_def)
  then show ?thesis using st by (simp add: web_after_def on_web_sign_in_def Let_def split: option.split)
qed

section \<open>Properties\<close>

text \<open>C24: A browser is signed in only by a phone sending, however it is spelled, a code the page is showing then: shown, not
  lapsed, not withdrawn and not sent since, so that one showing signs in at most once. A code just shown does
  sign in, until it lapses. At most 64 codes are kept.\<close>

theorem web_code_works_once:
  assumes "normalize_code sent = normalize_code code" "now < expires"
  shows "length (fst (web_after e h)) \<le> 64
    \<and> (signed_in (snd (web_after e (ev # h))) = signed_in (snd (web_after e h))
       \<or> (\<exists>typed by_phone at lapses by_whom. ev = Sent typed by_phone at \<and> showing h (normalize_code typed) = Some lapses \<and> at < lapses
            \<and> signed_in (snd (web_after e (ev # h))) = signed_in (snd (web_after e h)) @ [(normalize_code typed, by_whom)]))
    \<and> (\<exists>by_whom. signed_in (snd (web_after e (Sent sent phone now # Shown code expires shown_at # h)))
         = signed_in (snd (web_after e h)) @ [(normalize_code code, by_whom)])"
proof (intro conjI)
  note shown = codes_are_shown [of e h]
  show "length (fst (web_after e h)) \<le> 64" using shown by (simp add: MAX_WEB_SIGN_IN_CODES_def)
  show "signed_in (snd (web_after e (ev # h))) = signed_in (snd (web_after e h))
       \<or> (\<exists>typed by_phone at lapses by_whom. ev = Sent typed by_phone at \<and> showing h (normalize_code typed) = Some lapses \<and> at < lapses
            \<and> signed_in (snd (web_after e (ev # h))) = signed_in (snd (web_after e h)) @ [(normalize_code typed, by_whom)])"
  proof (cases "\<exists>code phone now. ev = Sent code phone now")
    case True
    then obtain typed by_phone t where ev: "ev = Sent typed by_phone t" by blast
    show ?thesis using shown unfolding ev by (auto simp: sent_signs_in split: option.split)
  next
    case False
    then show ?thesis using codes_only_step [of ev "web_after e h"] by (simp add: web_after_def)
  qed
  obtain codes e1 where st: "web_after e h = (codes, e1)" by force
  have next_state: "web_after e (Shown code expires shown_at # h) = (on_web_sign_in_pending code expires shown_at codes, e1\<lparr>en_now := shown_at\<rparr>)"
    using st by (simp add: web_after_def)
  have "om_wf codes" using shown st by simp
  from pending_codes(3) [OF this refl, of code expires shown_at]
  show "\<exists>by_whom. signed_in (snd (web_after e (Sent sent phone now # Shown code expires shown_at # h)))
      = signed_in (snd (web_after e h)) @ [(normalize_code code, by_whom)]"
    using assms st unfolding sent_signs_in next_state by simp
qed

theorem web_code_works_once_witness:
  "\<forall>e. \<exists>by_whom. signed_in (snd (web_after e [Sent ''k7qm 4xpa'' ''p'' 5, Shown ''K7QM-4XPA'' 9 1]))
     = signed_in e @ [(''K7QM-4XPA'', by_whom)]"
proof
  fix e
  have norm: "normalize_code ''k7qm 4xpa'' = ''K7QM-4XPA''" "normalize_code ''K7QM-4XPA'' = ''K7QM-4XPA''" by code_simp+
  have "\<exists>by_whom. signed_in (snd (web_after e [Sent ''k7qm 4xpa'' ''p'' 5, Shown ''K7QM-4XPA'' 9 1]))
      = signed_in (snd (web_after e [])) @ [(normalize_code ''K7QM-4XPA'', by_whom)]"
    using web_code_works_once [of "''k7qm 4xpa''" "''K7QM-4XPA''" 5 9 e "[]"] norm by simp
  then show "\<exists>by_whom. signed_in (snd (web_after e [Sent ''k7qm 4xpa'' ''p'' 5, Shown ''K7QM-4XPA'' 9 1]))
      = signed_in e @ [(''K7QM-4XPA'', by_whom)]" by (simp add: norm web_after_def)
qed

end
