(* ===== verification/PhoneTerminals.thy ===== *)
theory PhoneTerminals
  imports Terminal Ring
begin

text \<open>
  \<open>crates/client-core/src/stores/terminals.rs\<close>: the phone's half of a terminal. The list the heartbeat names, the
  one terminal on screen, the bytes typed and not yet sent, the inputs kept for a resend, and the output that
  is drawn. Base64 (a library) is the pair of parameters \<open>enc\<close> and \<open>dec\<close>. Times, offsets and seqs are natural
  numbers: no run comes near the top of \<open>u64\<close>.
\<close>

section \<open>State\<close>

definition INPUT_KEEP_EVENTS :: nat where "INPUT_KEEP_EVENTS = 256"
definition INPUT_KEEP_BYTES :: nat where "INPUT_KEEP_BYTES = 1048576"
definition INPUT_BATCH_BYTES :: nat where "INPUT_BATCH_BYTES = 256"
definition PAUSE_DIRECT_MS :: nat where "PAUSE_DIRECT_MS = 150"
definition PAUSE_RELAY_MS :: nat where "PAUSE_RELAY_MS = 400"
definition ALT_PAUSE_DIRECT_MS :: nat where "ALT_PAUSE_DIRECT_MS = 20"
definition ALT_PAUSE_RELAY_MS :: nat where "ALT_PAUSE_RELAY_MS = 60"
definition RELAY_INPUTS_PER_SEC :: nat where "RELAY_INPUTS_PER_SEC = 5"
definition RELAY_WINDOW_MS :: nat where "RELAY_WINDOW_MS = 1000"

datatype InputTransport = Direct | Relay

fun pause_ms :: "InputTransport \<Rightarrow> bool \<Rightarrow> nat" where
  "pause_ms Direct False = PAUSE_DIRECT_MS"
| "pause_ms Relay False = PAUSE_RELAY_MS"
| "pause_ms Direct True = ALT_PAUSE_DIRECT_MS"
| "pause_ms Relay True = ALT_PAUSE_RELAY_MS"

definition capped :: "InputTransport \<Rightarrow> bool" where
  "capped transport = (transport = Relay)"

record OpenRefusal =
  rf_reason :: TerminalEndReason
  rf_device :: "string option"
  rf_name :: "string option"

record Ended =
  ed_reason :: TerminalEndReason
  ed_code :: "int option"

record Attached =
  at_machine :: string
  at_term :: "string option"
  at_open_id :: "string option"
  at_shell :: "string option"
  at_writer :: bool
  at_cols :: nat
  at_rows :: nat
  at_expected :: nat
  at_replay_pending :: bool
  at_refusal :: "OpenRefusal option"
  at_ended :: "Ended option"

record InputStep =
  sp_machine :: "string option"
  sp_sends :: "TerminalInputMsg list"
  sp_flush_at_ms :: "nat option"
  sp_waiting :: "8 word list"

definition empty_step :: InputStep where
  "empty_step = \<lparr>sp_machine = None, sp_sends = [], sp_flush_at_ms = None, sp_waiting = []\<rparr>"

record OutputFrame =
  of_offset :: nat
  of_data :: "8 word list"
  of_replay_from :: "nat option"

record InputState =
  in_next_seq :: nat
  in_pending :: "8 word list"
  in_alternate_screen :: bool
  in_since_ms :: nat
  in_last_ms :: nat
  in_sent :: "(nat \<times> 8 word list) list"
  in_sent_bytes :: nat
  in_resend_from :: "nat option"
  in_window_start_ms :: nat
  in_window_count :: nat

definition fresh_input :: "nat \<Rightarrow> InputState" where
  "fresh_input now =
     \<lparr>in_next_seq = 1, in_pending = [], in_alternate_screen = False, in_since_ms = 0, in_last_ms = 0, in_sent = [],
      in_sent_bytes = 0, in_resend_from = None, in_window_start_ms = now, in_window_count = 0\<rparr>"

record TerminalsState =
  tl_lists :: "(string, (string, TerminalInfo) omap) omap"
  tl_names :: "(string, string) omap"
  tl_attached :: "Attached option"
  tl_inputs :: "(string \<times> string, InputState) omap"
  tl_device_id :: string
  tl_open_seq :: nat

definition phone_terminals_new :: TerminalsState where
  "phone_terminals_new = \<lparr>tl_lists = [], tl_names = [], tl_attached = None, tl_inputs = [], tl_device_id = [], tl_open_seq = 0\<rparr>"

section \<open>Input of one terminal\<close>

definition cap_at :: "InputTransport \<Rightarrow> InputState \<Rightarrow> nat option" where
  "cap_at transport s =
     (if capped transport \<and> RELAY_INPUTS_PER_SEC \<le> in_window_count s then Some (sat_add (in_window_start_ms s) RELAY_WINDOW_MS) else None)"

definition deadline :: "InputTransport \<Rightarrow> InputState \<Rightarrow> nat option" where
  "deadline transport s =
     (let due = (if in_pending s = [] then None
                 else Some (sat_add (if in_alternate_screen s then in_since_ms s else in_last_ms s) (pause_ms transport (in_alternate_screen s))))
      in case cap_at transport s of
           None \<Rightarrow> due
         | Some cap \<Rightarrow> (if in_pending s \<noteq> [] \<or> in_resend_from s \<noteq> None then Some (case due of None \<Rightarrow> cap | Some x \<Rightarrow> max x cap) else due))"

text \<open>The loop of \<open>hold\<close>: the oldest go while there are too many events or bytes.\<close>

fun trim_sent :: "(nat \<times> 8 word list) list \<Rightarrow> nat \<Rightarrow> (nat \<times> 8 word list) list \<times> nat" where
  "trim_sent [] bytes = ([], bytes)"
| "trim_sent ((seq, b) # sent) bytes =
     (if INPUT_KEEP_EVENTS < length ((seq, b) # sent) \<or> INPUT_KEEP_BYTES < bytes then trim_sent sent (bytes - length b)
      else ((seq, b) # sent, bytes))"

definition hold_sent :: "nat \<Rightarrow> 8 word list \<Rightarrow> InputState \<Rightarrow> InputState" where
  "hold_sent seq bytes s =
     (if INPUT_KEEP_BYTES < length bytes then s
      else (let (sent, n) = trim_sent (in_sent s @ [(seq, bytes)]) (in_sent_bytes s + length bytes)
            in s\<lparr>in_sent := sent, in_sent_bytes := n\<rparr>))"

definition held_input :: "nat \<Rightarrow> InputState \<Rightarrow> 8 word list option" where
  "held_input seq s = map_option snd (find (\<lambda>p. fst p = seq) (in_sent s))"

definition take_batch :: "InputState \<Rightarrow> 8 word list \<times> InputState" where
  "take_batch s =
     (let n = (if INPUT_BATCH_BYTES < length (in_pending s) then INPUT_BATCH_BYTES else length (in_pending s))
      in (take n (in_pending s), s\<lparr>in_pending := drop n (in_pending s)\<rparr>))"

definition is_action_key :: "8 word \<Rightarrow> bool" where
  "is_action_key b = (unat b < 0x20 \<or> unat b = 0x7f)"

text \<open>One round of the sending loop: the window that ran out starts again, then what goes next.\<close>

definition open_window :: "InputTransport \<Rightarrow> nat \<Rightarrow> InputState \<Rightarrow> InputState" where
  "open_window transport now s =
     (if capped transport \<and> sat_add (in_window_start_ms s) RELAY_WINDOW_MS \<le> now
      then s\<lparr>in_window_start_ms := now, in_window_count := 0\<rparr> else s)"

definition next_input :: "InputState \<Rightarrow> (nat \<times> 8 word list) option \<times> InputState" where
  "next_input s =
     (if in_pending s \<noteq> []
      then (let seq = in_next_seq s; (bytes, s) = take_batch s; s = s\<lparr>in_next_seq := seq + 1\<rparr>; s = hold_sent seq bytes s
            in (Some (seq, bytes), s\<lparr>in_window_count := in_window_count s + 1\<rparr>))
      else case in_resend_from s of
        None \<Rightarrow> (None, s)
      | Some start \<Rightarrow>
          (case held_input start s of
             None \<Rightarrow> (None, s\<lparr>in_resend_from := None\<rparr>)
           | Some bytes \<Rightarrow> (Some (start, bytes), s\<lparr>in_resend_from := Some (start + 1), in_window_count := in_window_count s + 1\<rparr>)))"

definition resends_left :: "InputState \<Rightarrow> nat" where
  "resends_left s = (case in_resend_from s of None \<Rightarrow> 0 | Some start \<Rightarrow> length (filter (\<lambda>p. start \<le> fst p) (in_sent s)))"

lemma batch_pos: "in_pending s \<noteq> [] \<Longrightarrow> length (in_pending (snd (take_batch s))) < length (in_pending s)"
  by (auto simp: take_batch_def Let_def INPUT_BATCH_BYTES_def)

lemma hold_sent_simps [simp]: "in_pending (hold_sent seq bytes s) = in_pending s" "in_next_seq (hold_sent seq bytes s) = in_next_seq s"
  "in_resend_from (hold_sent seq bytes s) = in_resend_from s" "in_window_count (hold_sent seq bytes s) = in_window_count s"
  by (simp_all add: hold_sent_def case_prod_beta)

lemma resend_fewer:
  assumes "(start, b) \<in> set sent"
  shows "length (filter (\<lambda>p. Suc start \<le> fst p) sent) < length (filter (\<lambda>p. start \<le> fst p) sent)"
  using assms
proof (induction sent)
  case (Cons p sent)
  have "length (filter (\<lambda>p. Suc start \<le> fst p) sent) \<le> length (filter (\<lambda>p. start \<le> fst p) sent)"
    by (induction sent) auto
  with Cons show ?case by auto
qed simp

lemma open_window_simps [simp]:
  "in_pending (open_window transport now s) = in_pending s" "in_sent (open_window transport now s) = in_sent s"
  "in_resend_from (open_window transport now s) = in_resend_from s" "in_next_seq (open_window transport now s) = in_next_seq s"
  "in_sent_bytes (open_window transport now s) = in_sent_bytes s"
  by (simp_all add: open_window_def)

lemma next_input_less:
  assumes "next_input s = (Some p, s')"
  shows "length (in_pending s') < length (in_pending s) \<or> length (in_pending s') = length (in_pending s) \<and> resends_left s' < resends_left s"
proof (cases "in_pending s = []")
  case True
  then obtain start bytes where r: "in_resend_from s = Some start" "held_input start s = Some bytes"
    "s' = s\<lparr>in_resend_from := Some (start + 1), in_window_count := in_window_count s + 1\<rparr>"
    using assms by (auto simp: next_input_def split: option.splits)
  then have "\<exists>b. (start, b) \<in> set (in_sent s)" by (auto simp: held_input_def dest!: find_Some)
  with r resend_fewer show ?thesis by (auto simp: resends_left_def)
next
  case False
  with assms batch_pos [OF False] show ?thesis by (auto simp: next_input_def Let_def case_prod_beta)
qed

function send_loop :: "InputTransport \<Rightarrow> nat \<Rightarrow> InputState \<Rightarrow> (nat \<times> 8 word list) list \<Rightarrow> (nat \<times> 8 word list) list \<times> InputState" where
  "send_loop transport now s sends =
     (let s1 = open_window transport now s in
      if cap_at transport s1 \<noteq> None then (sends, s1)
      else case next_input s1 of
        (None, s2) \<Rightarrow> (sends, s2)
      | (Some p, s2) \<Rightarrow> send_loop transport now s2 (sends @ [p]))"
  by auto

termination
proof (relation "measures [\<lambda>(t, n, s, x). length (in_pending s), \<lambda>(t, n, s, x). resends_left s]", goal_cases)
  case (2 transport now s sends s1 pr s2 p)
  have "length (in_pending s1) = length (in_pending s)" "resends_left s1 = resends_left s"
    using 2 by (simp_all add: resends_left_def split: option.split)
  with next_input_less [of s1 p s2] 2 show ?case by auto
qed simp

declare send_loop.simps [simp del]

section \<open>The list\<close>

definition set_device_id :: "string \<Rightarrow> TerminalsState \<Rightarrow> TerminalsState" where
  "set_device_id own st = st\<lparr>tl_device_id := own\<rparr>"

definition terminal_list :: "TerminalsState \<Rightarrow> string \<Rightarrow> TerminalInfo list" where
  "terminal_list st machine =
     sort_key ti_opened (case om_get (tl_lists st) machine of None \<Rightarrow> [] | Some m \<Rightarrow> om_vals m)"

definition terminal_lists :: "TerminalsState \<Rightarrow> (string, TerminalInfo list) omap" where
  "terminal_lists st = map (\<lambda>m. (m, terminal_list st m)) (om_keys (tl_lists st))"

definition is_watching :: "TerminalsState \<Rightarrow> bool" where
  "is_watching st = (tl_attached st \<noteq> None)"

definition watching_machine :: "TerminalsState \<Rightarrow> string option" where
  "watching_machine st = map_option at_machine (tl_attached st)"

definition watching_term :: "TerminalsState \<Rightarrow> string \<Rightarrow> string option" where
  "watching_term st machine =
     (case tl_attached st of None \<Rightarrow> None | Some a \<Rightarrow> (if at_machine a = machine then at_term a else None))"

definition waiting_input :: "TerminalsState \<Rightarrow> 8 word list" where
  "waiting_input st =
     (case tl_attached st of
        None \<Rightarrow> []
      | Some a \<Rightarrow>
          (case at_term a of
             None \<Rightarrow> []
           | Some t \<Rightarrow>
               (case om_get (tl_inputs st) (at_machine a, t) of
                  None \<Rightarrow> []
                | Some s \<Rightarrow> (if in_alternate_screen s then [] else in_pending s))))"

definition is_attached :: "TerminalsState \<Rightarrow> string \<Rightarrow> string \<Rightarrow> bool" where
  "is_attached st machine t =
     (case tl_attached st of None \<Rightarrow> False | Some a \<Rightarrow> at_machine a = machine \<and> at_term a = Some t)"

definition learn_names :: "TerminalInfo list \<Rightarrow> (string, string) omap \<Rightarrow> (string, string) omap" where
  "learn_names terminals names =
     foldl (\<lambda>names t. case ti_name t of None \<Rightarrow> names | Some name \<Rightarrow> om_put (ti_device t) name names) names terminals"

definition apply_list :: "string \<Rightarrow> TerminalInfo list \<Rightarrow> TerminalsState \<Rightarrow> bool \<times> TerminalsState" where
  "apply_list machine terminals st =
     (let st = st\<lparr>tl_names := learn_names terminals (tl_names st)\<rparr>;
          listed = foldl (\<lambda>m t. om_put (ti_term t) t m) [] terminals;
          changed = (om_get (tl_lists st) machine \<noteq> Some listed);
          st = (if changed then st\<lparr>tl_lists := om_put machine listed (tl_lists st)\<rparr> else st);
          gone = (case tl_attached st of
                    None \<Rightarrow> None
                  | Some a \<Rightarrow>
                      (case at_term a of
                         None \<Rightarrow> None
                       | Some t \<Rightarrow> (if at_machine a = machine \<and> \<not> list_ex (\<lambda>i. ti_term i = t) terminals then Some t else None)))
      in case gone of
           Some t \<Rightarrow> (True, st\<lparr>tl_attached := None, tl_inputs := om_del (machine, t) (tl_inputs st)\<rparr>)
         | None \<Rightarrow> (changed, st))"

definition forget_terminals :: "string \<Rightarrow> TerminalsState \<Rightarrow> TerminalsState" where
  "forget_terminals machine st =
     (let st = st\<lparr>tl_lists := om_del machine (tl_lists st), tl_inputs := om_retain (\<lambda>k _. fst k \<noteq> machine) (tl_inputs st)\<rparr>
      in if (case tl_attached st of None \<Rightarrow> False | Some a \<Rightarrow> at_machine a = machine) then st\<lparr>tl_attached := None\<rparr> else st)"

section \<open>Opens, attaches, detaches\<close>

definition begin_open :: "string \<Rightarrow> string option \<Rightarrow> nat \<Rightarrow> nat \<Rightarrow> TerminalsState \<Rightarrow> TerminalOpenMsg \<times> TerminalsState" where
  "begin_open machine session cols rows st =
     (let n = tl_open_seq st + 1; open_id = ''o'' @ decimal n
      in (\<lparr>tom_open_id = open_id, tom_cols = cols, tom_rows = rows, tom_session = session\<rparr>,
          st\<lparr>tl_open_seq := n, tl_attached := Some
            \<lparr>at_machine = machine, at_term = None, at_open_id = Some open_id, at_shell = None, at_writer = True, at_cols = cols,
             at_rows = rows, at_expected = 0, at_replay_pending = False, at_refusal = None, at_ended = None\<rparr>\<rparr>))"

definition ensure_input :: "string \<Rightarrow> string \<Rightarrow> nat \<Rightarrow> TerminalsState \<Rightarrow> InputState \<times> TerminalsState" where
  "ensure_input machine t now st =
     (case om_get (tl_inputs st) (machine, t) of
        Some s \<Rightarrow> (s, st)
      | None \<Rightarrow> (fresh_input now, st\<lparr>tl_inputs := om_put (machine, t) (fresh_input now) (tl_inputs st)\<rparr>))"

text \<open>The replay command is its terminal and the offset asked for.\<close>

definition begin_attach :: "string \<Rightarrow> string \<Rightarrow> TerminalsState \<Rightarrow> (string \<times> nat) \<times> TerminalsState" where
  "begin_attach machine t st =
     (let info = (case om_get (tl_lists st) machine of None \<Rightarrow> None | Some m \<Rightarrow> om_get m t);
          writer = (case info of None \<Rightarrow> False | Some i \<Rightarrow> tl_device_id st \<noteq> [] \<and> ti_writer i = tl_device_id st);
          st = st\<lparr>tl_attached := Some
            \<lparr>at_machine = machine, at_term = Some t, at_open_id = None, at_shell = map_option ti_shell info, at_writer = writer,
             at_cols = (case info of None \<Rightarrow> 80 | Some i \<Rightarrow> ti_cols i), at_rows = (case info of None \<Rightarrow> 24 | Some i \<Rightarrow> ti_rows i),
             at_expected = 0, at_replay_pending = True, at_refusal = None, at_ended = None\<rparr>\<rparr>
      in ((t, 0), snd (ensure_input machine t 0 st)))"

section \<open>Input\<close>

definition input_msg :: "(8 word list \<Rightarrow> string) \<Rightarrow> string \<Rightarrow> nat \<times> 8 word list \<Rightarrow> TerminalInputMsg" where
  "input_msg enc t p = \<lparr>tim_term = t, tim_seq = fst p, tim_data = enc (snd p)\<rparr>"

definition flush_input :: "(8 word list \<Rightarrow> string) \<Rightarrow> InputTransport \<Rightarrow> nat \<Rightarrow> TerminalsState \<Rightarrow> InputStep \<times> TerminalsState" where
  "flush_input enc transport now st =
     (case tl_attached st of
        None \<Rightarrow> (empty_step, st)
      | Some a \<Rightarrow>
          (case at_term a of
             None \<Rightarrow> (empty_step, st)
           | Some t \<Rightarrow>
               (case om_get (tl_inputs st) (at_machine a, t) of
                  None \<Rightarrow> (empty_step, st)
                | Some s \<Rightarrow>
                    (let (sends, s) = send_loop transport now s []
                     in (\<lparr>sp_machine = Some (at_machine a), sp_sends = map (input_msg enc t) sends,
                          sp_flush_at_ms = deadline transport s, sp_waiting = in_pending s\<rparr>,
                         st\<lparr>tl_inputs := om_put (at_machine a, t) s (tl_inputs st)\<rparr>)))))"

definition step_for :: "string \<Rightarrow> InputTransport \<Rightarrow> TerminalsState \<Rightarrow> InputStep" where
  "step_for machine transport st =
     (case tl_attached st of
        None \<Rightarrow> empty_step
      | Some a \<Rightarrow>
          (case at_term a of
             None \<Rightarrow> empty_step
           | Some t \<Rightarrow>
               (case om_get (tl_inputs st) (machine, t) of
                  None \<Rightarrow> empty_step
                | Some s \<Rightarrow> \<lparr>sp_machine = Some machine, sp_sends = [], sp_flush_at_ms = deadline transport s, sp_waiting = in_pending s\<rparr>)))"

definition add_pending :: "8 word list \<Rightarrow> nat \<Rightarrow> InputState \<Rightarrow> InputState" where
  "add_pending bytes now s =
     (let s = (if in_pending s = [] then s\<lparr>in_since_ms := now\<rparr> else s)
      in s\<lparr>in_last_ms := now, in_pending := in_pending s @ bytes\<rparr>)"

definition terminal_input ::
  "(8 word list \<Rightarrow> string) \<Rightarrow> string \<Rightarrow> string \<Rightarrow> 8 word list \<Rightarrow> bool \<Rightarrow> InputTransport \<Rightarrow> nat \<Rightarrow> TerminalsState \<Rightarrow> InputStep \<times> TerminalsState" where
  "terminal_input enc machine t bytes alternate_screen transport now st =
     (if bytes = [] \<or> \<not> is_attached st machine t then (empty_step, st)
      else
        (let (s, st) = ensure_input machine t now st;
             s = (add_pending bytes now s)\<lparr>in_alternate_screen := alternate_screen\<rparr>;
             st = st\<lparr>tl_inputs := om_put (machine, t) s (tl_inputs st)\<rparr>;
             acts = (\<not> alternate_screen \<and> (INPUT_BATCH_BYTES < length (in_pending s) \<or> list_ex is_action_key bytes))
         in if acts then flush_input enc transport now st else (step_for machine transport st, st)))"

definition terminal_paste ::
  "(8 word list \<Rightarrow> string) \<Rightarrow> string \<Rightarrow> string \<Rightarrow> 8 word list \<Rightarrow> InputTransport \<Rightarrow> nat \<Rightarrow> TerminalsState \<Rightarrow> InputStep \<times> TerminalsState" where
  "terminal_paste enc machine t bytes transport now st =
     (if bytes = [] \<or> \<not> is_attached st machine t then (empty_step, st)
      else
        (let (s, st) = ensure_input machine t now st;
             st = st\<lparr>tl_inputs := om_put (machine, t) (add_pending bytes now s) (tl_inputs st)\<rparr>
         in flush_input enc transport now st))"

definition flush_due :: "(8 word list \<Rightarrow> string) \<Rightarrow> InputTransport \<Rightarrow> nat \<Rightarrow> TerminalsState \<Rightarrow> InputStep \<times> TerminalsState" where
  "flush_due enc transport now st = flush_input enc transport now st"

definition detach :: "(8 word list \<Rightarrow> string) \<Rightarrow> nat \<Rightarrow> TerminalsState \<Rightarrow> TerminalInputMsg list \<times> TerminalsState" where
  "detach enc now st = (let (step, st) = flush_input enc Direct now st in (sp_sends step, st\<lparr>tl_attached := None\<rparr>))"

text \<open>Where an input is asked for again: what is held is resent, otherwise the count goes on from there.\<close>

definition resume_at :: "nat \<Rightarrow> InputState \<Rightarrow> InputState" where
  "resume_at seq s =
     (if in_sent s \<noteq> [] \<and> fst (hd (in_sent s)) \<le> seq \<and> seq \<le> fst (last (in_sent s)) then s\<lparr>in_resend_from := Some seq\<rparr>
      else s\<lparr>in_next_seq := seq, in_resend_from := None\<rparr>)"

definition input_from ::
  "(8 word list \<Rightarrow> string) \<Rightarrow> string \<Rightarrow> string \<Rightarrow> nat \<Rightarrow> InputTransport \<Rightarrow> nat \<Rightarrow> TerminalsState \<Rightarrow> InputStep \<times> TerminalsState" where
  "input_from enc machine t seq transport now st =
     (if seq = 0 then (empty_step, st)
      else case om_get (tl_inputs st) (machine, t) of
        None \<Rightarrow> (empty_step, st)
      | Some s \<Rightarrow> flush_input enc transport now (st\<lparr>tl_inputs := om_put (machine, t) (resume_at seq s) (tl_inputs st)\<rparr>))"

section \<open>The bridge's answers\<close>

definition opened :: "string \<Rightarrow> string \<Rightarrow> string \<Rightarrow> string \<Rightarrow> nat \<Rightarrow> TerminalsState \<Rightarrow> bool \<times> TerminalsState" where
  "opened machine open_id t shell now st =
     (case tl_attached st of
        None \<Rightarrow> (False, st)
      | Some a \<Rightarrow>
          (if at_machine a \<noteq> machine \<or> at_open_id a \<noteq> Some open_id then (False, st)
           else (True, st\<lparr>tl_attached := Some (a\<lparr>at_term := Some t, at_open_id := None, at_shell := Some shell, at_writer := True,
                  at_expected := 0, at_replay_pending := False, at_refusal := None, at_ended := None\<rparr>),
                tl_inputs := om_put (machine, t) (fresh_input now) (tl_inputs st)\<rparr>)))"

text \<open>What an output frame does to the terminal on screen.\<close>

definition draw :: "nat \<Rightarrow> 8 word list \<Rightarrow> bool \<Rightarrow> Attached \<Rightarrow> OutputFrame option \<times> Attached" where
  "draw offset bytes is_replay a =
     (if at_expected a < offset \<and> \<not> (at_replay_pending a \<and> is_replay)
      then (if at_replay_pending a then (None, a)
            else (Some \<lparr>of_offset = at_expected a, of_data = [], of_replay_from = Some (at_expected a)\<rparr>, a\<lparr>at_replay_pending := True\<rparr>))
      else
        (let a = (if at_expected a < offset then a\<lparr>at_expected := offset\<rparr> else a);
             skip = at_expected a - offset
         in if length bytes \<le> skip then (None, a)
            else (Some \<lparr>of_offset = offset + skip, of_data = drop skip bytes, of_replay_from = None\<rparr>,
                  a\<lparr>at_expected := offset + length bytes, at_replay_pending := False\<rparr>)))"

definition terminal_output ::
  "(string \<Rightarrow> 8 word list option) \<Rightarrow> string \<Rightarrow> TerminalOutputMsg \<Rightarrow> TerminalsState \<Rightarrow> OutputFrame option \<times> TerminalsState" where
  "terminal_output dec machine msg st =
     (case tl_attached st of
        None \<Rightarrow> (None, st)
      | Some a \<Rightarrow>
          (if at_machine a \<noteq> machine \<or> at_term a \<noteq> Some (to_term msg) then (None, st)
           else case dec (to_data msg) of
             None \<Rightarrow> (None, st)
           | Some bytes \<Rightarrow>
               (let (frame, a) = draw (to_offset msg) bytes (to_replay msg = Some True) a
                in (frame, st\<lparr>tl_attached := Some a\<rparr>))))"

definition exited :: "string \<Rightarrow> TerminalExitedMsg \<Rightarrow> TerminalsState \<Rightarrow> bool \<times> TerminalsState" where
  "exited machine msg st =
     (case te_open_id msg of
        Some open_id \<Rightarrow>
          (case tl_attached st of
             None \<Rightarrow> (False, st)
           | Some a \<Rightarrow>
               (if at_machine a \<noteq> machine \<or> at_open_id a \<noteq> Some open_id then (False, st)
                else (True, st\<lparr>tl_attached := Some (a\<lparr>at_open_id := None, at_writer := False, at_refusal := Some
                       \<lparr>rf_reason = te_reason msg, rf_device = te_device msg,
                        rf_name = (case te_device msg of None \<Rightarrow> None | Some d \<Rightarrow> om_get (tl_names st) d)\<rparr>\<rparr>)\<rparr>)))
      | None \<Rightarrow>
          (case te_term msg of
             None \<Rightarrow> (False, st)
           | Some t \<Rightarrow>
               (let here = is_attached st machine t;
                    st = st\<lparr>tl_attached := (if here then map_option (\<lambda>a. a\<lparr>at_ended := Some \<lparr>ed_reason = te_reason msg, ed_code = te_code msg\<rparr>,
                           at_writer := False, at_replay_pending := False\<rparr>) (tl_attached st) else tl_attached st),
                         tl_inputs := om_del (machine, t) (tl_inputs st)\<rparr>
                in case om_get (tl_lists st) machine of
                     None \<Rightarrow> (here, st)
                   | Some l \<Rightarrow> (here \<or> om_get l t \<noteq> None, st\<lparr>tl_lists := om_put machine (om_del t l) (tl_lists st)\<rparr>))))"

definition terminal_seen :: "string \<Rightarrow> TerminalEventMsg \<Rightarrow> TerminalsState \<Rightarrow> bool \<times> TerminalsState" where
  "terminal_seen machine msg st =
     (let st = (case tv_name msg of None \<Rightarrow> st | Some name \<Rightarrow> st\<lparr>tl_names := om_put (tv_device msg) name (tl_names st)\<rparr>);
          ours = (tl_device_id st \<noteq> [] \<and> tv_device msg = tl_device_id st)
      in case tl_attached st of
           None \<Rightarrow> (False, st)
         | Some a \<Rightarrow>
             (if at_machine a \<noteq> machine \<or> at_term a \<noteq> Some (tv_term msg) then (False, st)
              else case tv_what msg of
                EvTakeover \<Rightarrow> (at_writer a \<noteq> ours, st\<lparr>tl_attached := Some (a\<lparr>at_writer := ours\<rparr>)\<rparr>)
              | EvClosed \<Rightarrow> (at_writer a, st\<lparr>tl_attached := Some (a\<lparr>at_writer := False\<rparr>)\<rparr>)
              | EvExited \<Rightarrow> (at_writer a, st\<lparr>tl_attached := Some (a\<lparr>at_writer := False\<rparr>)\<rparr>)
              | _ \<Rightarrow> (False, st)))"

end
