(* ===== verification/PhoneTerminalRoutes.thy ===== *)
theory PhoneTerminalRoutes
  imports PhoneTerminals
begin

text \<open>
  The terminals in the phone's loop: the bridge's messages (the terminal arms of \<open>route\<close> in
  \<open>crates/client-runtime/src/dispatch.rs\<close>), the user's actions (those of \<open>crates/client-runtime/src/intent.rs\<close>)
  and the flush timer (\<open>crates/client-runtime/src/runtime.rs\<close>). Which machines advertise terminals and which have
  their direct link up are the parameters \<open>advertises\<close> and \<open>link_up\<close>.
\<close>

section \<open>Results of a step\<close>

record TerminalOutputEvent =
  ev_machine :: string
  ev_term :: string
  ev_offset :: nat
  ev_data :: "8 word list"

datatype TerminalFlush = Arm nat | Clear

text \<open>The fields of a dispatch or intent result the terminal arms write.\<close>

record TerminalResult =
  tr_sends :: "(string \<times> PhoneToBridge) list"
  tr_ui_changed :: bool
  tr_terminal_output :: "TerminalOutputEvent list"
  tr_terminal_flush :: "TerminalFlush option"

definition no_result :: TerminalResult where
  "no_result = \<lparr>tr_sends = [], tr_ui_changed = False, tr_terminal_output = [], tr_terminal_flush = None\<rparr>"

definition sending :: "string \<Rightarrow> PhoneToBridge \<Rightarrow> TerminalResult \<Rightarrow> TerminalResult" where
  "sending machine msg r = r\<lparr>tr_sends := tr_sends r @ [(machine, msg)]\<rparr>"

definition terminal_step :: "string \<Rightarrow> InputStep \<Rightarrow> TerminalResult \<Rightarrow> TerminalResult" where
  "terminal_step machine step r =
     (if sp_machine step = None then r
      else (let r = foldl (\<lambda>r msg. sending machine (TerminalInput msg) r) r (sp_sends step)
            in r\<lparr>tr_terminal_flush := Some (case sp_flush_at_ms step of Some at_ms \<Rightarrow> Arm at_ms | None \<Rightarrow> Clear)\<rparr>))"

section \<open>The bridge's messages\<close>

definition route_terminal ::
  "(8 word list \<Rightarrow> string) \<Rightarrow> (string \<Rightarrow> 8 word list option) \<Rightarrow> InputTransport \<Rightarrow> nat \<Rightarrow> string \<Rightarrow> BridgeToPhone
    \<Rightarrow> TerminalsState \<Rightarrow> TerminalResult \<times> TerminalsState" where
  "route_terminal enc dec transport now machine msg st =
     (case msg of
        TerminalOpened open_id t shell \<Rightarrow>
          (let (changed, st) = opened machine open_id t shell now st in (no_result\<lparr>tr_ui_changed := changed\<rparr>, st))
      | TerminalOutput m \<Rightarrow>
          (let (frame, st) = terminal_output dec machine m st
           in case frame of
                None \<Rightarrow> (no_result, st)
              | Some f \<Rightarrow>
                  (let r = (case of_replay_from f of
                              None \<Rightarrow> no_result
                            | Some start \<Rightarrow> sending machine (TerminalReplayCmd (to_term m) start) no_result);
                       r = (if of_data f = [] then r
                            else r\<lparr>tr_terminal_output := tr_terminal_output r
                              @ [\<lparr>ev_machine = machine, ev_term = to_term m, ev_offset = of_offset f, ev_data = of_data f\<rparr>]\<rparr>)
                   in (r, st)))
      | TerminalInputFrom t seq \<Rightarrow>
          (let (step, st) = input_from enc machine t seq transport now st in (terminal_step machine step no_result, st))
      | TerminalExited m \<Rightarrow> (let (changed, st) = exited machine m st in (no_result\<lparr>tr_ui_changed := changed\<rparr>, st))
      | TerminalEvent m \<Rightarrow> (let (changed, st) = terminal_seen machine m st in (no_result\<lparr>tr_ui_changed := changed\<rparr>, st))
      | _ \<Rightarrow> (no_result, st))"

text \<open>The heartbeat's part: no list is an empty one.\<close>

definition route_heartbeat :: "string \<Rightarrow> TerminalInfo list option \<Rightarrow> TerminalsState \<Rightarrow> TerminalResult \<times> TerminalsState" where
  "route_heartbeat machine terminals st =
     (let (changed, st) = apply_list machine (case terminals of None \<Rightarrow> [] | Some l \<Rightarrow> l) st
      in (no_result\<lparr>tr_ui_changed := changed\<rparr>, st))"

section \<open>The user's actions\<close>

datatype TerminalIntent =
    OpenTerminal string "string option" nat nat \<comment> \<open>machine, session, cols, rows\<close>
  | AttachTerminal string string \<comment> \<open>machine, term\<close>
  | DetachTerminal string
  | TypeInput string string "8 word list" bool \<comment> \<open>machine, term, bytes, alternate screen\<close>
  | PasteInput string string "8 word list"
  | ResizeTerminal string string nat nat
  | TakeOverTerminal string string
  | CloseTerminal string string

definition terminal_transport :: "(string \<Rightarrow> bool) \<Rightarrow> string \<Rightarrow> InputTransport" where
  "terminal_transport link_up machine = (if link_up machine then Direct else Relay)"

fun transport_for_intent :: "(string \<Rightarrow> bool) \<Rightarrow> TerminalIntent \<Rightarrow> InputTransport" where
  "transport_for_intent link_up (TypeInput machine t bytes alternate) = terminal_transport link_up machine"
| "transport_for_intent link_up (PasteInput machine t bytes) = terminal_transport link_up machine"
| "transport_for_intent link_up _ = Direct"

fun run_intent ::
  "(8 word list \<Rightarrow> string) \<Rightarrow> (string \<Rightarrow> bool) \<Rightarrow> InputTransport \<Rightarrow> nat \<Rightarrow> TerminalIntent \<Rightarrow> TerminalsState
    \<Rightarrow> TerminalResult \<times> TerminalsState" where
  "run_intent enc advertises transport now (OpenTerminal machine session cols rows) st =
     (if \<not> advertises machine then (no_result, st)
      else (let (cmd, st) = begin_open machine session cols rows st
            in ((sending machine (TerminalOpen cmd) no_result)\<lparr>tr_ui_changed := True\<rparr>, st)))"
| "run_intent enc advertises transport now (AttachTerminal machine t) st =
     (let ((u, start), st) = begin_attach machine t st
      in ((sending machine (TerminalReplayCmd u start) no_result)\<lparr>tr_ui_changed := True\<rparr>, st))"
| "run_intent enc advertises transport now (DetachTerminal machine) st =
     (let (msgs, st) = detach enc now st
      in ((foldl (\<lambda>r msg. sending machine (TerminalInput msg) r) no_result msgs)\<lparr>tr_terminal_flush := Some Clear, tr_ui_changed := True\<rparr>, st))"
| "run_intent enc advertises transport now (TypeInput machine t bytes alternate) st =
     (let waiting = waiting_input st;
          (step, st) = terminal_input enc machine t bytes alternate transport now st;
          r = terminal_step machine step no_result
      in (r\<lparr>tr_ui_changed := (tr_ui_changed r \<or> waiting_input st \<noteq> waiting)\<rparr>, st))"
| "run_intent enc advertises transport now (PasteInput machine t bytes) st =
     (let waiting = waiting_input st;
          (step, st) = terminal_paste enc machine t bytes transport now st;
          r = terminal_step machine step no_result
      in (r\<lparr>tr_ui_changed := (tr_ui_changed r \<or> waiting_input st \<noteq> waiting)\<rparr>, st))"
| "run_intent enc advertises transport now (ResizeTerminal machine t cols rows) st =
     (sending machine (TerminalResizeCmd t cols rows) no_result, st)"
| "run_intent enc advertises transport now (TakeOverTerminal machine t) st =
     (sending machine (TerminalTakeover t) no_result, st)"
| "run_intent enc advertises transport now (CloseTerminal machine t) st =
     (sending machine (TerminalCloseCmd t) no_result, st)"

section \<open>The flush timer\<close>

text \<open>The timer is its delay from now; \<open>None\<close> is a stopped one.\<close>

fun apply_terminal_flush :: "nat \<Rightarrow> TerminalFlush \<Rightarrow> nat option" where
  "apply_terminal_flush now (Arm at_ms) = Some (at_ms - now)"
| "apply_terminal_flush now Clear = None"

definition on_terminal_flush ::
  "(8 word list \<Rightarrow> string) \<Rightarrow> (string \<Rightarrow> bool) \<Rightarrow> nat \<Rightarrow> TerminalsState
    \<Rightarrow> (bool \<times> (string \<times> PhoneToBridge) list \<times> nat option) \<times> TerminalsState" where
  "on_terminal_flush enc link_up now st =
     (let transport = (case watching_machine st of Some m \<Rightarrow> terminal_transport link_up m | None \<Rightarrow> Direct);
          waiting = waiting_input st;
          (step, st) = flush_due enc transport now st;
          redraw = (waiting_input st \<noteq> waiting)
      in case sp_machine step of
           None \<Rightarrow> ((redraw, [], None), st)
         | Some machine \<Rightarrow>
             ((redraw, map (\<lambda>msg. (machine, TerminalInput msg)) (sp_sends step),
               (case sp_flush_at_ms step of
                  None \<Rightarrow> None
                | Some at_ms \<Rightarrow> (if 0 < at_ms - now then Some (at_ms - now) else None))), st))"

section \<open>The terminal on screen\<close>

definition shows_at :: "string \<Rightarrow> string \<Rightarrow> Attached \<Rightarrow> TerminalsState \<Rightarrow> bool" where
  "shows_at machine t a st = (tl_attached st = Some a \<and> at_machine a = machine \<and> at_term a = Some t)"

end
