(* ===== verification/PhoneScreen.thy ===== *)
theory PhoneScreen
  imports PhoneTerminalRoutes
begin

text \<open>
  What the phone draws of a terminal, against what the shell wrote. Output frames are lost, repeated and reordered;
  a gap asks the bridge's ring for a replay. What is drawn is the shell's stream, each byte once and in order, and a
  replay brings the screen up to date.
\<close>

section \<open>Watching\<close>

text \<open>The output the app gets of these frames, and what the phone asks for on the way.\<close>

fun watch ::
  "(8 word list \<Rightarrow> string) \<Rightarrow> (string \<Rightarrow> 8 word list option) \<Rightarrow> string \<Rightarrow> (InputTransport \<times> nat \<times> TerminalOutputMsg) list \<Rightarrow> TerminalsState
    \<Rightarrow> (TerminalOutputEvent list \<times> (string \<times> PhoneToBridge) list) \<times> TerminalsState" where
  "watch enc dec machine [] st = (([], []), st)"
| "watch enc dec machine ((transport, now, msg) # msgs) st =
     (let (r, st) = route_terminal enc dec transport now machine (TerminalOutput msg) st;
          ((events, sends), st) = watch enc dec machine msgs st
      in ((tr_terminal_output r @ events, tr_sends r @ sends), st))"

abbreviation frames :: "(InputTransport \<times> nat \<times> TerminalOutputMsg) list \<Rightarrow> TerminalOutputMsg set" where
  "frames msgs \<equiv> set (map (snd \<circ> snd) msgs)"

text \<open>The bridge's answer to a replay (\<open>crates/bridge-runtime/src/runtime.rs\<close>), of the ring of a terminal.\<close>

definition serve_replay :: "(8 word list \<Rightarrow> string) \<Rightarrow> Ring \<Rightarrow> string \<Rightarrow> nat \<Rightarrow> TerminalOutputMsg option" where
  "serve_replay enc ring t start =
     (case replay ring start of
        None \<Rightarrow> None
      | Some (offset, data) \<Rightarrow> Some \<lparr>to_term = t, to_offset = offset, to_data = enc data, to_replay = Some True\<rparr>)"

definition stream_piece :: "'a list \<Rightarrow> nat \<Rightarrow> 'a list \<Rightarrow> bool" where
  "stream_piece xs offset bytes = (offset + length bytes \<le> length xs \<and> take (length bytes) (drop offset xs) = bytes)"

text \<open>A frame of the terminal that wrote \<open>xs\<close>; the bridge answers no replay with nothing.\<close>

definition true_frame :: "(string \<Rightarrow> 8 word list option) \<Rightarrow> 8 word list \<Rightarrow> TerminalOutputMsg \<Rightarrow> bool" where
  "true_frame dec xs msg =
     (case dec (to_data msg) of
        None \<Rightarrow> True
      | Some bytes \<Rightarrow> stream_piece xs (to_offset msg) bytes \<and> (to_replay msg = Some True \<longrightarrow> bytes \<noteq> []))"

text \<open>Output that continues from \<open>e\<close> to \<open>e'\<close>, except where one of the offsets in \<open>jumps\<close> skips ahead.\<close>

fun tiled :: "nat set \<Rightarrow> nat \<Rightarrow> TerminalOutputEvent list \<Rightarrow> nat \<Rightarrow> bool" where
  "tiled jumps e [] e' = (e' = e)"
| "tiled jumps e (f # fs) e' =
     ((ev_offset f = e \<or> e < ev_offset f \<and> ev_offset f \<in> jumps) \<and> tiled jumps (ev_offset f + length (ev_data f)) fs e')"

lemma slice_drop: "stream_piece xs offset bytes \<Longrightarrow> n \<le> length bytes \<Longrightarrow> stream_piece xs (offset + n) (drop n bytes)"
proof -
  assume *: "stream_piece xs offset bytes" "n \<le> length bytes"
  have "take (length bytes - n) (drop (offset + n) xs) = drop n (take (length bytes) (drop offset xs))"
    using *(2) by (simp add: drop_take add.commute)
  with * show ?thesis by (simp add: stream_piece_def)
qed

lemma draw_frame:
  assumes "draw offset bytes is_replay a = (frame, a')" "stream_piece xs offset bytes" "is_replay \<longrightarrow> bytes \<noteq> []"
  shows "at_machine a' = at_machine a" "at_term a' = at_term a"
    and "case frame of
        None \<Rightarrow> at_expected a' = at_expected a
      | Some f \<Rightarrow> of_data f = [] \<and> at_expected a' = at_expected a
          \<or> of_data f \<noteq> [] \<and> (of_offset f = at_expected a \<or> at_expected a < of_offset f \<and> of_offset f = offset \<and> is_replay)
            \<and> stream_piece xs (of_offset f) (of_data f) \<and> at_expected a' = of_offset f + length (of_data f)"
proof -
  show "at_machine a' = at_machine a" "at_term a' = at_term a"
    using assms(1) by (auto simp: draw_def Let_def split: if_splits)
  consider (gap) "at_expected a < offset" "\<not> (at_replay_pending a \<and> is_replay)" | (jump) "at_expected a < offset" "at_replay_pending a" is_replay
    | (near) "offset \<le> at_expected a" by linarith
  then show "case frame of
        None \<Rightarrow> at_expected a' = at_expected a
      | Some f \<Rightarrow> of_data f = [] \<and> at_expected a' = at_expected a
          \<or> of_data f \<noteq> [] \<and> (of_offset f = at_expected a \<or> at_expected a < of_offset f \<and> of_offset f = offset \<and> is_replay)
            \<and> stream_piece xs (of_offset f) (of_data f) \<and> at_expected a' = of_offset f + length (of_data f)"
  proof cases
    case gap
    with assms(1) show ?thesis by (auto simp: draw_def split: if_splits)
  next
    case jump
    with assms show ?thesis by (auto simp: draw_def Let_def split: if_splits)
  next
    case near
    then have eval: "(frame, a') = (if length bytes \<le> at_expected a - offset then (None, a)
        else (Some \<lparr>of_offset = at_expected a, of_data = drop (at_expected a - offset) bytes, of_replay_from = None\<rparr>,
          a\<lparr>at_expected := offset + length bytes, at_replay_pending := False\<rparr>))"
      using assms(1) by (auto simp: draw_def Let_def split: if_splits)
    have "stream_piece xs (at_expected a) (drop (at_expected a - offset) bytes)" if "\<not> length bytes \<le> at_expected a - offset"
      using slice_drop [OF assms(2), of "at_expected a - offset"] that near by simp
    then show ?thesis using eval near by (auto split: if_splits)
  qed
qed

lemma route_output:
  assumes "shows_at machine t a st" "route_terminal enc dec transport now machine (TerminalOutput m) st = (r, st')"
  shows "if to_term m \<noteq> t then r = no_result \<and> st' = st
    else case dec (to_data m) of
        None \<Rightarrow> r = no_result \<and> st' = st
      | Some bytes \<Rightarrow>
          (case draw (to_offset m) bytes (to_replay m = Some True) a of
             (frame, a') \<Rightarrow> st' = st\<lparr>tl_attached := Some a'\<rparr>
               \<and> tr_sends r = (case frame of Some f \<Rightarrow> (case of_replay_from f of Some start \<Rightarrow> [(machine, TerminalReplayCmd t start)] | None \<Rightarrow> [])
                    | None \<Rightarrow> [])
               \<and> tr_terminal_output r = (case frame of Some f \<Rightarrow> (if of_data f = [] then []
                    else [\<lparr>ev_machine = machine, ev_term = t, ev_offset = of_offset f, ev_data = of_data f\<rparr>]) | None \<Rightarrow> []))"
  using assms by (auto simp: route_terminal_def terminal_output_def shows_at_def no_result_def sending_def Let_def case_prod_beta
      split: option.splits if_splits)

lemma watch_step:
  assumes "shows_at machine t a st" "route_terminal enc dec transport now machine (TerminalOutput m) st = (r, st1)"
    and true: "to_term m = t \<Longrightarrow> true_frame dec xs m"
  obtains a1 where "shows_at machine t a1 st1"
    "tr_terminal_output r = [] \<and> at_expected a1 = at_expected a
     \<or> (\<exists>f. tr_terminal_output r = [f] \<and> ev_term f = t \<and> stream_piece xs (ev_offset f) (ev_data f) \<and> at_expected a1 = ev_offset f + length (ev_data f)
         \<and> (ev_offset f = at_expected a \<or> at_expected a < ev_offset f \<and> ev_offset f = to_offset m \<and> to_replay m = Some True))"
proof (cases "to_term m = t \<and> dec (to_data m) \<noteq> None")
  case False
  then have "r = no_result \<and> st1 = st" using route_output [OF assms(1,2)] by (auto split: if_splits option.splits)
  with assms(1) that show thesis by (auto simp: no_result_def)
next
  case True
  then obtain bytes where b: "to_term m = t" "dec (to_data m) = Some bytes" by auto
  obtain frame a1 where d: "draw (to_offset m) bytes (to_replay m = Some True) a = (frame, a1)" by (metis surj_pair)
  have fr: "stream_piece xs (to_offset m) bytes" "to_replay m = Some True \<longrightarrow> bytes \<noteq> []"
    using true b by (simp_all add: true_frame_def)
  note dr = draw_frame [OF d fr]
  note out = route_output [OF assms(1,2)]
  have "shows_at machine t a1 st1" using out assms(1) dr(1,2) b d by (simp add: shows_at_def)
  then show thesis
  proof (rule that)
    show "tr_terminal_output r = [] \<and> at_expected a1 = at_expected a
     \<or> (\<exists>f. tr_terminal_output r = [f] \<and> ev_term f = t \<and> stream_piece xs (ev_offset f) (ev_data f) \<and> at_expected a1 = ev_offset f + length (ev_data f)
         \<and> (ev_offset f = at_expected a \<or> at_expected a < ev_offset f \<and> ev_offset f = to_offset m \<and> to_replay m = Some True))"
      using out b d dr(3) by (cases frame) (auto split: if_splits)
  qed
qed

lemma tiled_mono: "tiled jumps e fs e' \<Longrightarrow> jumps \<subseteq> jumps' \<Longrightarrow> tiled jumps' e fs e'"
  by (induction fs arbitrary: e) auto

lemma tiled_bounds: "tiled jumps e fs e' \<Longrightarrow> e \<le> e'"
  by (induction fs arbitrary: e) fastforce+

lemma watch_tiles:
  assumes "shows_at machine t a st" "watch enc dec machine msgs st = ((events, sends), st')"
    and "\<forall>m\<in>frames msgs. to_term m = t \<longrightarrow> true_frame dec xs m"
  shows "\<exists>a'. shows_at machine t a' st' \<and> tiled (to_offset ` {m \<in> frames msgs. to_replay m = Some True}) (at_expected a) events (at_expected a')
    \<and> (\<forall>f\<in>set events. ev_term f = t \<and> stream_piece xs (ev_offset f) (ev_data f))"
  using assms
proof (induction msgs arbitrary: st a events sends)
  case Nil
  then show ?case by auto
next
  case (Cons msg msgs)
  obtain transport now m where msg: "msg = (transport, now, m)" by (metis surj_pair)
  obtain r st1 where r: "route_terminal enc dec transport now machine (TerminalOutput m) st = (r, st1)" by fastforce
  obtain evs snds where w: "watch enc dec machine msgs st1 = ((evs, snds), st')" "events = tr_terminal_output r @ evs"
    using Cons.prems(2) r by (auto simp: msg case_prod_beta prod_eq_iff)
  obtain a1 where a1: "shows_at machine t a1 st1" and step: "tr_terminal_output r = [] \<and> at_expected a1 = at_expected a
     \<or> (\<exists>f. tr_terminal_output r = [f] \<and> ev_term f = t \<and> stream_piece xs (ev_offset f) (ev_data f) \<and> at_expected a1 = ev_offset f + length (ev_data f)
         \<and> (ev_offset f = at_expected a \<or> at_expected a < ev_offset f \<and> ev_offset f = to_offset m \<and> to_replay m = Some True))"
    using watch_step [OF Cons.prems(1) r] Cons.prems(3) by (auto simp: msg)
  obtain a' where a': "shows_at machine t a' st'"
    "tiled (to_offset ` {m \<in> frames msgs. to_replay m = Some True}) (at_expected a1) evs (at_expected a')"
    "\<forall>f\<in>set evs. ev_term f = t \<and> stream_piece xs (ev_offset f) (ev_data f)"
    using Cons.IH [OF a1 w(1)] Cons.prems(3) by auto
  have "tiled (to_offset ` {m \<in> frames (msg # msgs). to_replay m = Some True}) (at_expected a1) evs (at_expected a')"
    using a'(2) by (rule tiled_mono) auto
  with a' step show ?case unfolding w(2) by (intro exI [of _ a']) (auto simp: msg)
qed

lemma slice_stream:
  assumes "tiled jumps e fs e'" "\<forall>f\<in>set fs. stream_piece xs (ev_offset f) (ev_data f)" "\<forall>j\<in>jumps. j \<le> e" "e \<le> length xs"
  shows "concat (map ev_data fs) = take (e' - e) (drop e xs) \<and> e' \<le> length xs"
  using assms
proof (induction fs arbitrary: e)
  case (Cons f fs)
  then have f: "ev_offset f = e" "stream_piece xs e (ev_data f)" by auto
  let ?e = "e + length (ev_data f)"
  have "?e \<le> length xs" using f by (simp add: stream_piece_def)
  moreover have "\<forall>j\<in>jumps. j \<le> ?e" using Cons.prems(3) by auto
  ultimately have IH: "concat (map ev_data fs) = take (e' - ?e) (drop ?e xs)" "e' \<le> length xs"
    using Cons.IH [of ?e] Cons.prems f by auto
  have "?e \<le> e'" using Cons.prems(1) f(1) tiled_bounds by auto
  then have "take (e' - e) (drop e xs) = take (length (ev_data f)) (drop e xs) @ take (e' - ?e) (drop ?e xs)"
    using take_add [of "length (ev_data f)" "e' - ?e" "drop e xs"] by (simp add: add.commute)
  then show ?case using f IH by (simp add: stream_piece_def)
qed simp

section \<open>A gap and its replay\<close>

text \<open>While a replay is on its way, frames past the gap change nothing and ask for nothing: should the answer be lost, only a
  frame that reaches the gap itself ends the wait.\<close>

lemma frames_wait:
  assumes "shows_at machine t a st" "at_replay_pending a"
    and "\<forall>m\<in>frames msgs. to_replay m \<noteq> Some True \<and> at_expected a < to_offset m"
  shows "watch enc dec machine msgs st = (([], []), st)"
  using assms(3)
proof (induction msgs)
  case (Cons msg msgs)
  obtain transport now m where msg: "msg = (transport, now, m)" by (metis surj_pair)
  have "route_terminal enc dec transport now machine (TerminalOutput m) st = (no_result, st)"
    using assms(1,2) Cons.prems by (auto simp: msg route_terminal_def terminal_output_def shows_at_def draw_def split: option.split)
  with Cons show ?case by (simp add: msg no_result_def)
qed simp

lemma gap_asks:
  assumes "shows_at machine t a st" "\<not> at_replay_pending a" "to_term m = t" "dec (to_data m) \<noteq> None" "at_expected a < to_offset m"
    and "to_replay m \<noteq> Some True"
  shows "route_terminal enc dec transport now machine (TerminalOutput m) st =
    (no_result\<lparr>tr_sends := [(machine, TerminalReplayCmd t (at_expected a))]\<rparr>, st\<lparr>tl_attached := Some (a\<lparr>at_replay_pending := True\<rparr>)\<rparr>)"
  using assms by (auto simp: route_terminal_def terminal_output_def shows_at_def draw_def sending_def no_result_def)

lemma serve_replay_holds:
  assumes "ring_holds ring xs" "e \<le> length xs"
  shows "serve_replay enc ring t e = (let start = max e (length xs - CAPACITY) in
    if e = length xs then None
    else Some \<lparr>to_term = t, to_offset = start, to_data = enc (drop start xs), to_replay = Some True\<rparr>)"
proof -
  have "length (rg_buf ring) = min CAPACITY (length xs)"
    using assms(1) length_contents [of ring] by (simp add: ring_holds_def)
  then have "ring_is_empty ring = (xs = [])" by (auto simp: ring_is_empty_def min_def CAPACITY_def split: if_splits)
  moreover have "max e (length xs - CAPACITY) < length xs" if "e \<noteq> length xs"
    using that assms(2) by (auto simp: CAPACITY_def)
  moreover have "\<not> length xs \<le> max e (length xs - CAPACITY)" if "e \<noteq> length xs" using calculation(2) [OF that] by linarith
  ultimately show ?thesis using assms(2)
    by (cases "e = length xs") (auto simp: serve_replay_def replay_def read_from_holds [OF assms(1)] Let_def)
qed

lemma answer_drawn:
  assumes "shows_at machine t a st" "at_replay_pending a" "e = at_expected a" "e \<le> start" "bytes \<noteq> []"
    and "dec (enc bytes) = Some bytes"
  shows "route_terminal enc dec transport now machine
      (TerminalOutput \<lparr>to_term = t, to_offset = start, to_data = enc bytes, to_replay = Some True\<rparr>) st =
    (no_result\<lparr>tr_terminal_output := [\<lparr>ev_machine = machine, ev_term = t, ev_offset = start, ev_data = bytes\<rparr>]\<rparr>,
     st\<lparr>tl_attached := Some (a\<lparr>at_expected := start + length bytes, at_replay_pending := False\<rparr>)\<rparr>)"
  using assms by (auto simp: route_terminal_def terminal_output_def shows_at_def draw_def no_result_def Let_def)

section \<open>Properties\<close>

text \<open>C10: Whatever frames of a terminal reach the phone, lost, repeated, late or for another terminal, what the app draws is
  what the shell wrote: every piece stands at its true offset, pieces follow each other with nothing twice and
  nothing out of order, a jump ahead is made only by the answer to a replay, and while none jumps the pieces
  together are the stream from where the screen was.\<close>

theorem screen_shows_stream:
  assumes "shows_at machine t a st" "watch enc dec machine msgs st = ((events, sends), st')"
    and "\<forall>m\<in>frames msgs. to_term m = t \<longrightarrow> true_frame dec xs m" "at_expected a \<le> length xs"
  shows "\<exists>a'. shows_at machine t a' st'
    \<and> tiled (to_offset ` {m \<in> frames msgs. to_replay m = Some True}) (at_expected a) events (at_expected a')
    \<and> (\<forall>f\<in>set events. ev_term f = t \<and> stream_piece xs (ev_offset f) (ev_data f))
    \<and> ((\<forall>m\<in>frames msgs. to_replay m = Some True \<longrightarrow> to_offset m \<le> at_expected a) \<longrightarrow>
        concat (map ev_data events) = take (at_expected a' - at_expected a) (drop (at_expected a) xs))"
proof -
  obtain a' where a': "shows_at machine t a' st'"
    "tiled (to_offset ` {m \<in> frames msgs. to_replay m = Some True}) (at_expected a) events (at_expected a')"
    "\<forall>f\<in>set events. ev_term f = t \<and> stream_piece xs (ev_offset f) (ev_data f)"
    using watch_tiles [OF assms(1-3)] by blast
  moreover have "concat (map ev_data events) = take (at_expected a' - at_expected a) (drop (at_expected a) xs)"
    if "\<forall>m\<in>frames msgs. to_replay m = Some True \<longrightarrow> to_offset m \<le> at_expected a"
    using slice_stream [OF a'(2) _ _ assms(4)] a'(3) that by auto
  ultimately show ?thesis by blast
qed

definition test_screen :: "nat \<Rightarrow> bool \<Rightarrow> TerminalsState" where
  "test_screen e pending = phone_terminals_new\<lparr>tl_attached := Some
     \<lparr>at_machine = ''m'', at_term = Some ''t'', at_open_id = None, at_shell = None, at_writer = True, at_cols = 80, at_rows = 24,
      at_expected = e, at_replay_pending = pending, at_refusal = None, at_ended = None\<rparr>\<rparr>"

definition test_enc :: "8 word list \<Rightarrow> string" where "test_enc = map (char_of \<circ> unat)"
definition test_dec :: "string \<Rightarrow> 8 word list option" where "test_dec s = Some (map (of_nat \<circ> of_char) s)"

definition test_frame :: "nat \<Rightarrow> 8 word list \<Rightarrow> TerminalOutputMsg" where
  "test_frame offset bytes = \<lparr>to_term = ''t'', to_offset = offset, to_data = test_enc bytes, to_replay = None\<rparr>"

theorem screen_shows_stream_witness:
  "concat (map ev_data (fst (fst (watch test_enc test_dec ''m'' [(Direct, 0, test_frame 0 [104, 105]), (Direct, 0, test_frame 1 [105, 33])]
     (test_screen 0 False))))) = [104, 105, 33]"
proof -
  let ?msgs = "[(Direct, 0, test_frame 0 [104, 105]), (Direct, 0, test_frame 1 [105, 33])]"
  obtain events sends st' where w: "watch test_enc test_dec ''m'' ?msgs (test_screen 0 False) = ((events, sends), st')" by (metis surj_pair)
  let ?a = "the (tl_attached (test_screen 0 False))"
  have "shows_at ''m'' ''t'' ?a (test_screen 0 False)" by (simp add: shows_at_def test_screen_def)
  moreover have "\<forall>m\<in>frames ?msgs. to_term m = ''t'' \<longrightarrow> true_frame test_dec [104, 105, 33] m"
    by (simp add: true_frame_def test_frame_def test_dec_def test_enc_def stream_piece_def)
  moreover have "at_expected ?a \<le> length [104, 105, 33 :: 8 word]" by (simp add: test_screen_def)
  ultimately obtain a' where a': "shows_at ''m'' ''t'' a' st'" "concat (map ev_data events) = take (at_expected a') [104, 105, 33]"
    using screen_shows_stream [OF _ w, of "''t''" ?a "[104, 105, 33]"] by (auto simp: test_screen_def test_frame_def)
  have "at_expected a' = 3"
    using w a'(1) by (simp add: shows_at_def test_screen_def test_frame_def route_terminal_def terminal_output_def draw_def
        test_dec_def test_enc_def no_result_def Let_def) auto
  with a' w show ?thesis by simp
qed

text \<open>C11: A gap heals. The frame past it makes the phone ask the bridge, once, for the bytes from where the screen is; whatever
  later frames arrive meanwhile draw nothing and ask for nothing. The answer of the bridge's ring, for everything
  the shell wrote by then, draws the missing bytes, or those still held when older ones have left the ring, and
  brings the screen to the end of the stream.\<close>

theorem gap_heals:
  assumes "shows_at machine t a st" "\<not> at_replay_pending a"
    and "to_term m = t" "dec (to_data m) \<noteq> None" "at_expected a < to_offset m" "to_replay m \<noteq> Some True"
    and "\<forall>m\<in>frames msgs. to_replay m \<noteq> Some True \<and> at_expected a < to_offset m"
    and "concat chunks = xs" "at_expected a < length xs" "\<And>b. dec (enc b) = Some b"
  shows "let start = max (at_expected a) (length xs - 262144);
      ((events, sends), st1) = watch enc dec machine ((transport, now, m) # msgs) st;
      answer = serve_replay enc (foldl (\<lambda>r data. snd (ring_push data r)) ring_new chunks) t (at_expected a);
      (r, st2) = route_terminal enc dec transport' now' machine (TerminalOutput (the answer)) st1
    in events = [] \<and> sends = [(machine, TerminalReplayCmd t (at_expected a))] \<and> answer \<noteq> None
      \<and> tr_terminal_output r = [\<lparr>ev_machine = machine, ev_term = t, ev_offset = start, ev_data = drop start xs\<rparr>]
      \<and> shows_at machine t (a\<lparr>at_expected := length xs\<rparr>) st2"
proof -
  let ?a = "a\<lparr>at_replay_pending := True\<rparr>" and ?start = "max (at_expected a) (length xs - CAPACITY)"
  let ?st = "st\<lparr>tl_attached := Some ?a\<rparr>" and ?ring = "foldl (\<lambda>r data. snd (ring_push data r)) ring_new chunks"
  have on: "shows_at machine t ?a ?st" using assms(1) by (simp add: shows_at_def)
  have asked: "watch enc dec machine ((transport, now, m) # msgs) st = (([], [(machine, TerminalReplayCmd t (at_expected a))]), ?st)"
    using gap_asks [OF assms(1-3) _ assms(5,6), of dec] frames_wait [OF on] assms(4,7) by (simp add: no_result_def)
  have "ring_holds ?ring xs" using ring.pushes_hold [OF ring_holds_new, of chunks] assms(8) by simp
  from serve_replay_holds [OF this, of "at_expected a"] assms(9)
  have answer: "serve_replay enc ?ring t (at_expected a) =
      Some \<lparr>to_term = t, to_offset = ?start, to_data = enc (drop ?start xs), to_replay = Some True\<rparr>"
    by (simp add: Let_def)
  have "?start < length xs" using assms(9) by (auto simp: CAPACITY_def)
  then have "drop ?start xs \<noteq> []" "?start + length (drop ?start xs) = length xs" using drop_eq_Nil [of ?start xs] length_drop [of ?start xs] by linarith+
  with answer_drawn [OF on, of "at_expected a" ?start "drop ?start xs" dec enc transport' now'] assms(2,10)
  have "route_terminal enc dec transport' now' machine
      (TerminalOutput \<lparr>to_term = t, to_offset = ?start, to_data = enc (drop ?start xs), to_replay = Some True\<rparr>) ?st =
    (no_result\<lparr>tr_terminal_output := [\<lparr>ev_machine = machine, ev_term = t, ev_offset = ?start, ev_data = drop ?start xs\<rparr>]\<rparr>,
     ?st\<lparr>tl_attached := Some (?a\<lparr>at_expected := length xs, at_replay_pending := False\<rparr>)\<rparr>)"
    by simp
  moreover have "?a\<lparr>at_expected := length xs, at_replay_pending := False\<rparr> = a\<lparr>at_expected := length xs\<rparr>" using assms(2) by simp
  moreover have "CAPACITY = 262144" by (simp add: CAPACITY_def)
  ultimately show ?thesis using asked answer assms(1) by (simp add: Let_def shows_at_def no_result_def)
qed

lemma test_enc_dec: "test_dec (test_enc b) = Some b"
proof -
  have "of_nat (of_char (char_of (unat x) :: char)) = x" for x :: "8 word"
    using unsigned_less [of x, where 'a = nat] by simp
  then show ?thesis by (simp add: test_dec_def test_enc_def comp_def)
qed

theorem gap_heals_witness:
  "let ((events, sends), st1) = watch test_enc test_dec ''m'' [(Relay, 5, test_frame 2 [33])] (test_screen 0 False)
   in sends = [(''m'', TerminalReplayCmd ''t'' 0)]"
proof -
  let ?st = "test_screen 0 False" and ?m = "test_frame 2 [33]"
  let ?a = "the (tl_attached ?st)"
  have "shows_at ''m'' ''t'' ?a ?st" "\<not> at_replay_pending ?a" "to_term ?m = ''t''" "test_dec (to_data ?m) \<noteq> None"
    "at_expected ?a < to_offset ?m" "to_replay ?m \<noteq> Some True" "at_expected ?a < length [104, 105, 33 :: 8 word]" "at_expected ?a = 0"
    by (simp_all add: shows_at_def test_screen_def test_frame_def test_dec_def)
  with gap_heals [of "''m''" "''t''" ?a ?st ?m test_dec "[]" "[[104, 105], [33]]" "[104, 105, 33]" test_enc Relay 5] test_enc_dec
  show ?thesis by (simp add: Let_def case_prod_beta)
qed

end
