(* ===== verification/PhoneTyping.thy ===== *)
theory PhoneTyping
  imports PhoneTerminalRoutes
begin

text \<open>
  What the phone sends of what was typed. Input waits, is cut into events, numbered, paced by the relay cap, held for a
  resend and sent again when the bridge asks. Behind it stands one log of numbered events: the typed bytes are
  the log's in order and what still waits, and every event ever sent is an event of the log.
\<close>

section \<open>The log behind an input state\<close>

definition log_ok :: "(nat \<times> 8 word list) list \<Rightarrow> InputState \<Rightarrow> bool" where
  "log_ok log s = (1 \<le> in_next_seq s
     \<and> (\<forall>p\<in>set log. 1 \<le> fst p \<and> snd p \<noteq> [] \<and> length (snd p) \<le> INPUT_BATCH_BYTES)
     \<and> in_sent s = keep_newest INPUT_KEEP_EVENTS log
     \<and> in_sent_bytes s = sum_list (map (length \<circ> snd) (in_sent s)))"

definition log_bytes :: "(nat \<times> 8 word list) list \<Rightarrow> 8 word list" where
  "log_bytes log = concat (map snd log)"

text \<open>The places where a count does not go on by one, and those of a log and the number that comes after it.\<close>

fun breaks :: "nat list \<Rightarrow> nat" where
  "breaks (a # b # ns) = (if b = Suc a then 0 else 1) + breaks (b # ns)"
| "breaks _ = 0"

definition count_breaks :: "(nat \<times> 8 word list) list \<Rightarrow> InputState \<Rightarrow> nat" where
  "count_breaks log s = breaks (0 # map fst log @ [in_next_seq s])"

lemma breaks_snoc: "breaks (ns @ [a, b]) = breaks (ns @ [a]) + (if b = Suc a then 0 else 1)"
  by (induction ns rule: breaks.induct) auto

lemma breaks_last: "breaks (ns @ [b]) \<le> breaks (ns @ [a]) + 1"
proof (cases ns rule: rev_cases)
  case (snoc ms c)
  then show ?thesis using breaks_snoc [of ms c a] breaks_snoc [of ms c b] by simp
qed simp


lemma unbroken: "breaks (a # ns) = 0 \<Longrightarrow> ns = [Suc a..<Suc a + length ns]"
proof (induction ns arbitrary: a)
  case (Cons b ns)
  then have b: "b = Suc a" "ns = [Suc b..<Suc b + length ns]" by (auto split: if_splits)
  have "[Suc a..<Suc a + length (b # ns)] = Suc a # [Suc (Suc a)..<Suc (Suc a) + length ns]"
    by (simp add: upt_conv_Cons del: upt_Suc)
  with b show ?case by (metis (full_types))
qed simp

lemma unbroken_log:
  assumes "count_breaks log s = 0"
  shows "map fst log = [1..<Suc (length log)]" "in_next_seq s = Suc (length log)"
proof -
  have "map fst log @ [in_next_seq s] = [Suc 0..<Suc (length log)] @ [Suc (length log)]"
    using unbroken [of 0 "map fst log @ [in_next_seq s]"] assms by (simp add: count_breaks_def)
  then show "map fst log = [1..<Suc (length log)]" "in_next_seq s = Suc (length log)" by (simp_all del: upt_Suc)
qed

lemma count_breaks_cong: "in_next_seq s' = in_next_seq s \<Longrightarrow> count_breaks log s' = count_breaks log s"
  by (simp add: count_breaks_def)

lemma log_bytes_simps [simp]: "log_bytes [] = []" "log_bytes (p # log) = snd p @ log_bytes log"
  "log_bytes (log @ log') = log_bytes log @ log_bytes log'"
  by (simp_all add: log_bytes_def)

lemma batches_fit:
  assumes "\<forall>p\<in>set sent. length (snd p) \<le> INPUT_BATCH_BYTES" "length sent \<le> INPUT_KEEP_EVENTS"
  shows "sum_list (map (length \<circ> snd) sent) \<le> INPUT_KEEP_BYTES"
proof -
  have "sum_list (map (length \<circ> snd) sent) \<le> sum_list (map (\<lambda>_. INPUT_BATCH_BYTES) sent)"
    using assms(1) by (intro sum_list_mono) auto
  also have "\<dots> \<le> 256 * 256" using assms(2) by (simp add: sum_list_triv INPUT_BATCH_BYTES_def INPUT_KEEP_EVENTS_def)
  finally show ?thesis by (simp add: INPUT_KEEP_BYTES_def)
qed

lemma trim_sent_newest:
  assumes "\<forall>p\<in>set sent. length (snd p) \<le> INPUT_BATCH_BYTES"
  shows "trim_sent sent (sum_list (map (length \<circ> snd) sent)) =
    (keep_newest INPUT_KEEP_EVENTS sent, sum_list (map (length \<circ> snd) (keep_newest INPUT_KEEP_EVENTS sent)))"
  using assms
proof (induction sent)
  case (Cons p sent)
  show ?case
  proof (cases "length (p # sent) \<le> INPUT_KEEP_EVENTS")
    case True
    with batches_fit [OF Cons.prems] have "\<not> INPUT_KEEP_BYTES < sum_list (map (length \<circ> snd) (p # sent))" by linarith
    with True show ?thesis by (cases p) (simp add: keep_newest_def comp_def)
  next
    case False
    then have "keep_newest INPUT_KEEP_EVENTS (p # sent) = keep_newest INPUT_KEEP_EVENTS sent"
      by (simp add: keep_newest_def Suc_diff_le)
    with False Cons show ?thesis by (cases p) (auto simp: not_le)
  qed
qed (simp add: keep_newest_def)

lemma log_ok_fresh: "log_ok [] (fresh_input now)"
  by (simp add: log_ok_def fresh_input_def keep_newest_def)

lemma count_breaks_fresh: "count_breaks [] (fresh_input now) = 0" "in_pending (fresh_input now) = []"
  by (simp_all add: count_breaks_def fresh_input_def)

text \<open>Only these fields matter.\<close>

lemma log_ok_cong:
  "in_next_seq s' = in_next_seq s \<Longrightarrow> in_sent s' = in_sent s \<Longrightarrow> in_sent_bytes s' = in_sent_bytes s \<Longrightarrow> log_ok log s' = log_ok log s"
  by (simp add: log_ok_def)

lemma keep_newest_again: "keep_newest n (keep_newest n xs @ [x]) = keep_newest n (xs @ [x])"
  by (cases "length xs < n") (auto simp: keep_newest_def Suc_diff_le not_less simp flip: drop_Suc)

lemma hold_log:
  assumes "log_ok log s" "bytes \<noteq> []" "length bytes \<le> INPUT_BATCH_BYTES"
  shows "log_ok (log @ [(in_next_seq s, bytes)]) (hold_sent (in_next_seq s) bytes (s\<lparr>in_pending := rest, in_next_seq := in_next_seq s + 1\<rparr>))"
proof -
  let ?q = "in_next_seq s" and ?log = "log @ [(in_next_seq s, bytes)]"
  have held: "\<forall>p\<in>set (in_sent s @ [(?q, bytes)]). length (snd p) \<le> INPUT_BATCH_BYTES"
    using assms set_keep_newest [of INPUT_KEEP_EVENTS log] by (auto simp: log_ok_def)
  have "trim_sent (in_sent s @ [(?q, bytes)]) (in_sent_bytes s + length bytes) =
      (keep_newest INPUT_KEEP_EVENTS ?log, sum_list (map (length \<circ> snd) (keep_newest INPUT_KEEP_EVENTS ?log)))"
    using trim_sent_newest [OF held] assms(1) keep_newest_again [of INPUT_KEEP_EVENTS log "(?q, bytes)"] by (simp add: log_ok_def)
  moreover have "\<not> INPUT_KEEP_BYTES < length bytes" using assms(3) by (simp add: INPUT_KEEP_BYTES_def INPUT_BATCH_BYTES_def)
  ultimately show ?thesis using assms by (auto simp: log_ok_def hold_sent_def sorted_wrt_append less_SucI)
qed

lemma next_input_new:
  assumes "log_ok log s" "in_pending s \<noteq> []" "next_input s = (p, s')"
  obtains bytes where "p = Some (in_next_seq s, bytes)" "log_ok (log @ [(in_next_seq s, bytes)]) s'" "bytes @ in_pending s' = in_pending s"
    "count_breaks (log @ [(in_next_seq s, bytes)]) s' = count_breaks log s"
proof -
  define n where "n = (if INPUT_BATCH_BYTES < length (in_pending s) then INPUT_BATCH_BYTES else length (in_pending s))"
  let ?b = "take n (in_pending s)"
  let ?s = "hold_sent (in_next_seq s) ?b (s\<lparr>in_pending := drop n (in_pending s), in_next_seq := in_next_seq s + 1\<rparr>)"
  have eval: "p = Some (in_next_seq s, ?b)" "s' = ?s\<lparr>in_window_count := in_window_count ?s + 1\<rparr>"
    using assms(2,3) by (auto simp: next_input_def take_batch_def n_def Let_def)
  have "?b \<noteq> []" "length ?b \<le> INPUT_BATCH_BYTES" using assms(2) by (auto simp: n_def INPUT_BATCH_BYTES_def)
  from hold_log [OF assms(1) this, of "drop n (in_pending s)"] eval(2) have "log_ok (log @ [(in_next_seq s, ?b)]) s'"
    by (simp cong: log_ok_cong add: log_ok_def)
  moreover have "count_breaks (log @ [(in_next_seq s, ?b)]) s' = count_breaks log s"
    using eval(2) breaks_snoc [of "0 # map fst log"] by (simp add: count_breaks_def)
  ultimately show thesis using eval that by simp
qed

lemma next_input_again:
  assumes "log_ok log s" "in_pending s = []" "next_input s = (p, s')"
  shows "log_ok log s'" "in_pending s' = []" "\<And>x. p = Some x \<Longrightarrow> x \<in> set log" "count_breaks log s' = count_breaks log s"
proof -
  show "log_ok log s'" "in_pending s' = []" using assms by (auto simp: next_input_def log_ok_def split: option.splits)
  show "count_breaks log s' = count_breaks log s"
    using assms by (intro count_breaks_cong) (auto simp: next_input_def split: option.splits)
  fix x assume "p = Some x"
  then obtain bytes where "held_input (fst x) s = Some bytes" "snd x = bytes"
    using assms by (auto simp: next_input_def split: option.splits)
  then have "x \<in> set (in_sent s)" by (cases x) (auto simp: held_input_def dest!: find_Some)
  then show "x \<in> set log" using assms(1) set_keep_newest [of INPUT_KEEP_EVENTS log] by (auto simp: log_ok_def)
qed

text \<open>A flush: what is new goes first and joins the log, what is sent again is of the log.\<close>

lemma send_loop_log:
  assumes "log_ok log s" "send_loop transport now s sends = (sends', s')"
  shows "\<exists>new again. sends' = sends @ new @ again \<and> set again \<subseteq> set (log @ new) \<and> log_ok (log @ new) s'
    \<and> log_bytes new @ in_pending s' = in_pending s \<and> count_breaks (log @ new) s' = count_breaks log s"
  using assms
proof (induction transport now s sends arbitrary: log rule: send_loop.induct)
  case (1 transport now s sends)
  define s1 where "s1 = open_window transport now s"
  have ok1: "log_ok log s1" "in_pending s1 = in_pending s" "count_breaks log s1 = count_breaks log s"
    using "1.prems"(1) log_ok_cong [of s1 s] count_breaks_cong [of s1 s] by (simp_all add: s1_def)
  show ?case
  proof (cases "cap_at transport s1 = None")
    case False
    then have "sends' = sends" "s' = s1" using "1.prems"(2) by (simp_all add: send_loop.simps [of transport now s] s1_def [symmetric] Let_def)
    with ok1 show ?thesis by (intro exI [of _ "[]"]) simp
  next
    case True
    obtain p s2 where n: "next_input s1 = (p, s2)" by fastforce
    show ?thesis
    proof (cases p)
      case None
      then have "sends' = sends" "s' = s2" "in_pending s1 = []"
        using "1.prems"(2) True n next_input_new [OF ok1(1) _ n]
        by (auto simp: send_loop.simps [of transport now s] s1_def [symmetric] Let_def)
      with next_input_again [OF ok1(1) _ n] ok1(2,3) show ?thesis by (intro exI [of _ "[]"]) simp
    next
      case (Some x)
      then have rest: "send_loop transport now s2 (sends @ [x]) = (sends', s')"
        using "1.prems"(2) True n by (simp add: send_loop.simps [of transport now s] s1_def [symmetric] Let_def)
      note IH = "1.IH" [OF s1_def _ n [symmetric] Some _ rest]
      show ?thesis
      proof (cases "in_pending s1 = []")
        case True
        note again = next_input_again [OF ok1(1) True n]
        obtain new again where "sends' = (sends @ [x]) @ new @ again" "set again \<subseteq> set (log @ new)" "log_ok (log @ new) s'"
          "log_bytes new @ in_pending s' = []" "count_breaks (log @ new) s' = count_breaks log s2"
          using IH [of log] again(1,2) \<open>cap_at transport s1 = None\<close> by auto
        moreover have "new = []" using calculation(3,4) by (cases new) (auto simp: log_ok_def)
        ultimately show ?thesis using again(3) [OF Some] again(4) ok1(2,3) True by (intro exI [of _ "[]"] exI [of _ "x # again"]) auto
      next
        case False
        obtain bytes where b: "p = Some (in_next_seq s1, bytes)" "log_ok (log @ [(in_next_seq s1, bytes)]) s2" "bytes @ in_pending s2 = in_pending s1"
          "count_breaks (log @ [(in_next_seq s1, bytes)]) s2 = count_breaks log s1"
          using next_input_new [OF ok1(1) False n] by blast
        obtain new again where "sends' = (sends @ [x]) @ new @ again" "set again \<subseteq> set ((log @ [x]) @ new)" "log_ok ((log @ [x]) @ new) s'"
          "log_bytes new @ in_pending s' = in_pending s2" "count_breaks ((log @ [x]) @ new) s' = count_breaks (log @ [x]) s2"
          using IH [of "log @ [x]"] b Some \<open>cap_at transport s1 = None\<close> by auto
        with b Some ok1(2,3) show ?thesis by (intro exI [of _ "x # new"] exI [of _ again]) auto
      qed
    qed
  qed
qed

section \<open>Through the store and the loop\<close>

abbreviation key_event :: "(8 word list \<Rightarrow> string) \<Rightarrow> string \<Rightarrow> string \<Rightarrow> nat \<times> 8 word list \<Rightarrow> string \<times> PhoneToBridge" where
  "key_event enc machine t p \<equiv> (machine, TerminalInput (input_msg enc t p))"

text \<open>The terminal on screen with its log, whose count broke off at most \<open>n\<close> times.\<close>

definition typing_ok :: "string \<Rightarrow> string \<Rightarrow> nat \<Rightarrow> (nat \<times> 8 word list) list \<Rightarrow> 8 word list \<Rightarrow> TerminalsState \<Rightarrow> bool" where
  "typing_ok machine t n log keys st = (\<exists>a s. shows_at machine t a st \<and> om_get (tl_inputs st) (machine, t) = Some s
     \<and> log_ok log s \<and> log_bytes log @ in_pending s = keys \<and> count_breaks log s \<le> n)"

text \<open>A step that sends new events and repeats old ones.\<close>

definition sends_log ::
  "(8 word list \<Rightarrow> string) \<Rightarrow> string \<Rightarrow> string \<Rightarrow> nat \<Rightarrow> (nat \<times> 8 word list) list \<Rightarrow> 8 word list \<Rightarrow> (string \<times> PhoneToBridge) list \<Rightarrow> TerminalsState \<Rightarrow> bool" where
  "sends_log enc machine t n log keys sends st' = (\<exists>new again. typing_ok machine t n (log @ new) keys st'
     \<and> sends = map (key_event enc machine t) (new @ again) \<and> set again \<subseteq> set (log @ new))"

lemma sends_log_none: "typing_ok machine t n log keys st \<Longrightarrow> sends_log enc machine t n log keys [] st"
  unfolding sends_log_def by (intro exI [of _ "[]"]) simp

lemma flush_log:
  assumes "typing_ok machine t n log keys st" "flush_input enc transport now st = (step, st')"
  shows "sp_machine step = Some machine \<and> sends_log enc machine t n log keys (map (\<lambda>m. (machine, TerminalInput m)) (sp_sends step)) st'"
proof -
  obtain a s where s: "shows_at machine t a st" "om_get (tl_inputs st) (machine, t) = Some s" "log_ok log s"
    "log_bytes log @ in_pending s = keys" "count_breaks log s \<le> n"
    using assms(1) by (auto simp: typing_ok_def)
  obtain sends s' where l: "send_loop transport now s [] = (sends, s')" by fastforce
  obtain new again where n: "sends = new @ again" "set again \<subseteq> set (log @ new)" "log_ok (log @ new) s'" "log_bytes new @ in_pending s' = in_pending s"
    "count_breaks (log @ new) s' \<le> n"
    using send_loop_log [OF s(3) l] s(5) by auto
  have eval: "sp_machine step = Some machine" "sp_sends step = map (input_msg enc t) sends"
    "st' = st\<lparr>tl_inputs := om_put (machine, t) s' (tl_inputs st)\<rparr>"
    using assms(2) s(1,2) l by (auto simp: flush_input_def shows_at_def)
  have "typing_ok machine t n (log @ new) keys st'"
    using s(1,4) n(3-5) eval(3) by (auto simp: typing_ok_def shows_at_def)
  with eval n(1,2) show ?thesis unfolding sends_log_def by (intro conjI exI [of _ new] exI [of _ again]) auto
qed

lemma step_sends: "sp_machine step = Some m \<Longrightarrow> tr_sends (terminal_step machine step r) = tr_sends r @ map (\<lambda>m. (machine, TerminalInput m)) (sp_sends step)"
proof -
  have "tr_sends (foldl (\<lambda>r msg. sending machine (TerminalInput msg) r) r msgs) = tr_sends r @ map (\<lambda>m. (machine, TerminalInput m)) msgs" for msgs
    by (induction msgs arbitrary: r) (simp_all add: sending_def)
  then show "sp_machine step = Some m \<Longrightarrow> ?thesis" by (simp add: terminal_step_def)
qed

lemma step_sends_none: "sp_machine step = None \<Longrightarrow> terminal_step machine step r = r"
  by (simp add: terminal_step_def)

lemma pend_log:
  assumes "log_ok log s"
  shows "log_ok log (add_pending bytes now s)" "in_pending (add_pending bytes now s) = in_pending s @ bytes"
    "count_breaks log ((add_pending bytes now s)\<lparr>in_alternate_screen := alternate\<rparr>) = count_breaks log s"
    "count_breaks log (add_pending bytes now s) = count_breaks log s"
  using assms log_ok_cong [of "add_pending bytes now s" s] by (simp_all add: add_pending_def count_breaks_def Let_def)

lemma type_log:
  assumes "typing_ok machine t n log keys st" "run_intent enc advertises transport now (TypeInput machine t bytes alternate) st = (r, st')"
  shows "sends_log enc machine t n log (keys @ bytes) (tr_sends r) st'"
proof (cases "bytes = []")
  case True
  with assms show ?thesis using sends_log_none
    by (auto simp: terminal_input_def terminal_step_def empty_step_def no_result_def)
next
  case False
  obtain a s where s: "shows_at machine t a st" "om_get (tl_inputs st) (machine, t) = Some s" "log_ok log s"
    "log_bytes log @ in_pending s = keys" "count_breaks log s \<le> n"
    using assms(1) by (auto simp: typing_ok_def)
  have on: "is_attached st machine t" using s(1) by (simp add: is_attached_def shows_at_def)
  let ?s = "(add_pending bytes now s)\<lparr>in_alternate_screen := alternate\<rparr>"
  let ?st = "st\<lparr>tl_inputs := om_put (machine, t) ?s (tl_inputs st)\<rparr>"
  have ok: "typing_ok machine t n log (keys @ bytes) ?st"
    using s pend_log [OF s(3), where bytes = bytes and now = now] log_ok_cong [of ?s "add_pending bytes now s"] by (auto simp: typing_ok_def shows_at_def)
  obtain step st1 where i: "terminal_input enc machine t bytes alternate transport now st = (step, st1)" by fastforce
  have "ensure_input machine t now st = (s, st)" using s(2) by (simp add: ensure_input_def)
  with False on have "\<exists>acts. terminal_input enc machine t bytes alternate transport now st =
      (if acts then flush_input enc transport now ?st else (step_for machine transport ?st, ?st))"
    unfolding terminal_input_def Let_def by (simp only: prod.case if_False de_Morgan_conj not_not simp_thms) blast
  with i consider (flush) "flush_input enc transport now ?st = (step, st1)" | (wait) "step = step_for machine transport ?st" "st1 = ?st"
    by (metis prod.inject)
  then have "sends_log enc machine t n log (keys @ bytes) (tr_sends (terminal_step machine step no_result)) st1"
  proof cases
    case flush
    with flush_log [OF ok flush] show ?thesis by (simp add: step_sends no_result_def)
  next
    case wait
    have "tr_sends (terminal_step machine step no_result) = []"
      using wait(1) s(1) by (simp add: step_for_def terminal_step_def shows_at_def no_result_def)
    with wait(2) sends_log_none [OF ok] show ?thesis by simp
  qed
  then show ?thesis using assms(2) i by (auto simp: Let_def)
qed

lemma paste_log:
  assumes "typing_ok machine t n log keys st" "run_intent enc advertises transport now (PasteInput machine t bytes) st = (r, st')"
  shows "sends_log enc machine t n log (keys @ bytes) (tr_sends r) st'"
proof (cases "bytes = []")
  case True
  with assms show ?thesis using sends_log_none
    by (auto simp: terminal_paste_def terminal_step_def empty_step_def no_result_def)
next
  case False
  obtain a s where s: "shows_at machine t a st" "om_get (tl_inputs st) (machine, t) = Some s" "log_ok log s"
    "log_bytes log @ in_pending s = keys" "count_breaks log s \<le> n"
    using assms(1) by (auto simp: typing_ok_def)
  have on: "is_attached st machine t" using s(1) by (simp add: is_attached_def shows_at_def)
  let ?st = "st\<lparr>tl_inputs := om_put (machine, t) (add_pending bytes now s) (tl_inputs st)\<rparr>"
  have ok: "typing_ok machine t n log (keys @ bytes) ?st" using s pend_log [OF s(3), where bytes = bytes and now = now] by (auto simp: typing_ok_def shows_at_def)
  obtain step st1 where i: "terminal_paste enc machine t bytes transport now st = (step, st1)" by fastforce
  then have "flush_input enc transport now ?st = (step, st1)"
    using False on s(2) by (auto simp: terminal_paste_def ensure_input_def Let_def split: if_splits)
  from flush_log [OF ok this] have "sends_log enc machine t n log (keys @ bytes) (tr_sends (terminal_step machine step no_result)) st1"
    by (simp add: step_sends no_result_def)
  then show ?thesis using assms(2) i by (auto simp: Let_def)
qed

lemma timer_log:
  assumes "typing_ok machine t n log keys st" "on_terminal_flush enc link_up now st = ((redraw, sends, timer), st')"
  shows "sends_log enc machine t n log keys sends st'"
proof -
  define transport where "transport = (case watching_machine st of Some m \<Rightarrow> terminal_transport link_up m | None \<Rightarrow> Direct)"
  obtain step st1 where f: "flush_input enc transport now st = (step, st1)" by fastforce
  note log = flush_log [OF assms(1) f]
  then have "sends = map (\<lambda>m. (machine, TerminalInput m)) (sp_sends step)" "st' = st1"
    using assms(2) f by (simp_all add: on_terminal_flush_def flush_due_def Let_def transport_def [symmetric])
  with log show ?thesis by simp
qed

text \<open>A request moves the count when it names a number that is neither held nor the next one: the count then goes on
  from there, back over numbers that were sent when it is older than what is held.\<close>

definition moves_count :: "nat \<Rightarrow> InputState \<Rightarrow> bool" where
  "moves_count seq s = (seq \<noteq> 0 \<and> seq \<noteq> in_next_seq s
     \<and> \<not> (in_sent s \<noteq> [] \<and> fst (hd (in_sent s)) \<le> seq \<and> seq \<le> fst (last (in_sent s))))"

definition moved_by :: "nat \<Rightarrow> string \<Rightarrow> string \<Rightarrow> TerminalsState \<Rightarrow> nat" where
  "moved_by seq machine t st =
     (case om_get (tl_inputs st) (machine, t) of None \<Rightarrow> 0 | Some s \<Rightarrow> if moves_count seq s then 1 else 0)"

lemma resume_log:
  assumes "log_ok log s" "seq \<noteq> 0"
  shows "log_ok log (resume_at seq s)" "count_breaks log (resume_at seq s) \<le> count_breaks log s + (if moves_count seq s then 1 else 0)"
proof -
  show "log_ok log (resume_at seq s)" using assms by (auto simp: resume_at_def log_ok_def)
  show "count_breaks log (resume_at seq s) \<le> count_breaks log s + (if moves_count seq s then 1 else 0)"
  proof (cases "moves_count seq s")
    case True
    then show ?thesis using breaks_last [of "0 # map fst log"] by (simp add: count_breaks_def)
  next
    case False
    with assms(2) show ?thesis by (auto simp: resume_at_def moves_count_def count_breaks_def)
  qed
qed

lemma typing_ok_weaken: "typing_ok machine t n log keys st \<Longrightarrow> n \<le> n' \<Longrightarrow> typing_ok machine t n' log keys st"
  unfolding typing_ok_def by (blast intro: order_trans)

lemma asked_log:
  assumes "typing_ok machine t n log keys st"
    and "route_terminal enc dec transport now machine (TerminalInputFrom t seq) st = (r, st')"
  shows "sends_log enc machine t (n + moved_by seq machine t st) log keys (tr_sends r) st'"
proof (cases "seq = 0")
  case True
  with assms typing_ok_weaken [OF assms(1)] show ?thesis using sends_log_none
    by (auto simp: route_terminal_def input_from_def terminal_step_def empty_step_def no_result_def)
next
  case False
  obtain a s where s: "shows_at machine t a st" "om_get (tl_inputs st) (machine, t) = Some s" "log_ok log s"
    "log_bytes log @ in_pending s = keys" "count_breaks log s \<le> n"
    using assms(1) by (auto simp: typing_ok_def)
  let ?n = "n + moved_by seq machine t st"
  let ?st = "st\<lparr>tl_inputs := om_put (machine, t) (resume_at seq s) (tl_inputs st)\<rparr>"
  have "in_pending (resume_at seq s) = in_pending s" by (simp add: resume_at_def)
  moreover have "count_breaks log (resume_at seq s) \<le> ?n" using resume_log(2) [OF s(3) False] s(2,5) by (simp add: moved_by_def)
  ultimately have ok: "typing_ok machine t ?n log keys ?st" using s resume_log(1) [OF s(3) False] by (auto simp: typing_ok_def shows_at_def)
  obtain step st1 where f: "flush_input enc transport now ?st = (step, st1)" by fastforce
  with flush_log [OF ok f] assms(2) s(2) False show ?thesis
    by (auto simp: route_terminal_def input_from_def step_sends no_result_def)
qed

text \<open>While the count is unbroken, a request within the last 256 numbers, or for the next, does not move it; an older one
  does, back to a number that went out before.\<close>

lemma unbroken_held:
  assumes "log_ok log s" "count_breaks log s = 0"
  shows "map fst (in_sent s) = [Suc (length log - 256)..<Suc (length log)]"
  using assms unbroken_log(1) [OF assms(2)]
  by (simp add: log_ok_def keep_newest_def INPUT_KEEP_EVENTS_def del: upt_Suc flip: drop_map)


lemma late_request_reuses_number:
  assumes "log_ok log s" "count_breaks log s = 0" "1 \<le> seq" "seq + 255 < length log"
  shows "moves_count seq s \<and> in_next_seq (resume_at seq s) = seq \<and> seq \<in> fst ` set log"
proof -
  note held = unbroken_held [OF assms(1,2)] and log = unbroken_log [OF assms(2)]
  have ne: "in_sent s \<noteq> []" using arg_cong [OF held, of length] assms(4) by (auto simp del: upt_Suc)
  have "fst (hd (in_sent s)) = Suc (length log - 256)" using hd_map [OF ne, of fst] assms(4) unfolding held by (simp add: hd_upt del: upt_Suc)
  moreover have "seq \<in> set (map fst log)" unfolding log(1) using assms(3,4) by simp
  ultimately show ?thesis using assms(3,4) log(2) by (auto simp: moves_count_def resume_at_def)
qed

section \<open>Pace\<close>

text \<open>Where the loop of a flush ends: at the cap, in a window that is still open, or with nothing left to send.\<close>

lemma send_loop_end:
  assumes "send_loop transport now s sends = (sends', s')"
  shows "cap_at transport s' \<noteq> None \<and> now < sat_add (in_window_start_ms s') RELAY_WINDOW_MS \<or> in_pending s' = [] \<and> in_resend_from s' = None"
  using assms
proof (induction transport now s sends rule: send_loop.induct)
  case (1 transport now s sends)
  define s1 where "s1 = open_window transport now s"
  obtain p s2 where n: "next_input s1 = (p, s2)" by fastforce
  note loop = "1.prems" [unfolded send_loop.simps [of transport now s] s1_def [symmetric] Let_def n prod.case]
  consider (cap) "cap_at transport s1 \<noteq> None" | (none) "cap_at transport s1 = None" "p = None" | (go) x where "cap_at transport s1 = None" "p = Some x"
    by (cases p) auto
  then show ?case
  proof cases
    case cap
    then have "now < sat_add (in_window_start_ms s1) RELAY_WINDOW_MS"
      by (auto simp: s1_def open_window_def cap_at_def RELAY_INPUTS_PER_SEC_def split: if_splits)
    with cap loop show ?thesis by auto
  next
    case none
    then have "in_pending s2 = []" "in_resend_from s2 = None"
      using n by (auto simp: next_input_def Let_def case_prod_beta split: if_splits option.splits)
    with none loop show ?thesis by auto
  next
    case go
    with loop have "send_loop transport now s2 (sends @ [x]) = (sends', s')" by simp
    with go(1) show ?thesis by (intro "1.IH" [OF s1_def _ n [symmetric] go(2)]) simp_all
  qed
qed

lemma hold_window [simp]: "in_window_start_ms (hold_sent seq bytes s) = in_window_start_ms s"
  by (simp add: hold_sent_def case_prod_beta)

lemma next_input_window:
  "next_input s = (Some x, s') \<Longrightarrow> in_window_count s' = in_window_count s + 1 \<and> in_window_start_ms s' = in_window_start_ms s"
  by (auto simp: next_input_def take_batch_def Let_def case_prod_beta split: if_splits option.splits)

lemma send_loop_rate:
  assumes "send_loop Relay now s sends = (sends', s')" "now < u64_max"
  shows "length sends' \<le> length sends + (RELAY_INPUTS_PER_SEC - in_window_count (open_window Relay now s))"
  using assms
proof (induction Relay now s sends rule: send_loop.induct)
  case (1 now s sends)
  define s1 where "s1 = open_window Relay now s"
  obtain p s2 where n: "next_input s1 = (p, s2)" by fastforce
  note loop = "1.prems"(1) [unfolded send_loop.simps [of Relay now s] s1_def [symmetric] Let_def n prod.case]
  show ?case
  proof (cases "cap_at Relay s1 = None \<and> p \<noteq> None")
    case False
    with loop show ?thesis by (auto split: if_splits option.splits)
  next
    case True
    then obtain x where x: "p = Some x" by auto
    with loop True have "send_loop Relay now s2 (sends @ [x]) = (sends', s')" by simp
    then have IH: "length sends' \<le> length (sends @ [x]) + (RELAY_INPUTS_PER_SEC - in_window_count (open_window Relay now s2))"
      using True "1.prems"(2) by (intro "1.hyps" [OF s1_def _ n [symmetric] x]) simp_all
    have "\<not> sat_add (in_window_start_ms s1) RELAY_WINDOW_MS \<le> now"
      using "1.prems"(2) by (auto simp: s1_def open_window_def capped_def sat_add_def RELAY_WINDOW_MS_def)
    then have "in_window_count (open_window Relay now s2) = in_window_count s1 + 1"
      using next_input_window n x by (auto simp: open_window_def)
    moreover have "in_window_count s1 < RELAY_INPUTS_PER_SEC" using True by (auto simp: cap_at_def capped_def split: if_splits)
    ultimately show ?thesis using IH by (simp add: s1_def [symmetric])
  qed
qed

text \<open>A flush of a window with room, or of a transport with no cap, sends at least one event's worth of what waits.\<close>

lemma send_loop_shrinks:
  assumes "send_loop transport now s sends = (sends', s')" "in_pending s \<noteq> []" "cap_at transport (open_window transport now s) = None" "log_ok log s"
  shows "length (in_pending s') < length (in_pending s)"
proof -
  define s1 where "s1 = open_window transport now s"
  have s1: "log_ok log s1" "in_pending s1 = in_pending s" using assms(4) log_ok_cong [of s1 s] by (simp_all add: s1_def)
  obtain p s2 where n: "next_input s1 = (p, s2)" by fastforce
  obtain bytes where b: "p = Some (in_next_seq s1, bytes)" "log_ok (log @ [(in_next_seq s1, bytes)]) s2" "bytes @ in_pending s2 = in_pending s1"
    using next_input_new [OF s1(1) _ n] s1(2) assms(2) by auto
  have "send_loop transport now s2 (sends @ [(in_next_seq s1, bytes)]) = (sends', s')"
    using assms(1,3) n b(1) by (simp add: send_loop.simps [of transport now s] s1_def [symmetric])
  from send_loop_log [OF b(2) this] have "length (in_pending s') \<le> length (in_pending s2)" by (metis le_add2 length_append)
  moreover have "0 < length bytes" using b(2) by (auto simp: log_ok_def)
  moreover have "length bytes + length (in_pending s2) = length (in_pending s)" using b(3) s1(2) by (metis length_append)
  ultimately show ?thesis by linarith
qed

section \<open>Runs\<close>

text \<open>A terminal on screen that is typed into: keys, pastes, the timer, the bridge's requests for its inputs, whatever number
  they name, and output, in any order; with the number of requests that moved the count, the keys typed and what was sent.\<close>

inductive typing_run ::
  "(8 word list \<Rightarrow> string) \<Rightarrow> (string \<Rightarrow> 8 word list option) \<Rightarrow> string \<Rightarrow> string \<Rightarrow> TerminalsState
    \<Rightarrow> nat \<Rightarrow> 8 word list \<Rightarrow> (string \<times> PhoneToBridge) list \<Rightarrow> TerminalsState \<Rightarrow> bool"
  for enc dec machine t st0 where
  start: "typing_run enc dec machine t st0 0 [] [] st0"
| types: "typing_run enc dec machine t st0 n keys sent st \<Longrightarrow>
    run_intent enc advertises transport now (TypeInput machine t bytes alternate) st = (r, st') \<Longrightarrow>
    typing_run enc dec machine t st0 n (keys @ bytes) (sent @ tr_sends r) st'"
| pastes: "typing_run enc dec machine t st0 n keys sent st \<Longrightarrow>
    run_intent enc advertises transport now (PasteInput machine t bytes) st = (r, st') \<Longrightarrow>
    typing_run enc dec machine t st0 n (keys @ bytes) (sent @ tr_sends r) st'"
| fires: "typing_run enc dec machine t st0 n keys sent st \<Longrightarrow>
    on_terminal_flush enc link_up now st = ((redraw, sends, timer), st') \<Longrightarrow>
    typing_run enc dec machine t st0 n keys (sent @ sends) st'"
| asked: "typing_run enc dec machine t st0 n keys sent st \<Longrightarrow>
    route_terminal enc dec transport now machine (TerminalInputFrom t seq) st = (r, st') \<Longrightarrow>
    typing_run enc dec machine t st0 (n + moved_by seq machine t st) keys (sent @ tr_sends r) st'"
| draws: "typing_run enc dec machine t st0 n keys sent st \<Longrightarrow>
    route_terminal enc dec transport now machine (TerminalOutput m) st = (r, st') \<Longrightarrow>
    typing_run enc dec machine t st0 n keys sent st'"

lemma output_typing:
  assumes "typing_ok machine t n log keys st" "route_terminal enc dec transport now machine (TerminalOutput m) st = (r, st')"
  shows "typing_ok machine t n log keys st'"
proof -
  have "at_machine (snd (draw offset bytes is_replay a)) = at_machine a \<and> at_term (snd (draw offset bytes is_replay a)) = at_term a"
    for offset bytes is_replay a by (simp add: draw_def Let_def)
  then have "tl_inputs st' = tl_inputs st \<and> (\<exists>a'. shows_at machine t a' st')" if "shows_at machine t a st" for a
    using assms(2) that by (auto simp: route_terminal_def terminal_output_def shows_at_def Let_def case_prod_beta split: option.splits if_splits)
  with assms(1) show ?thesis by (auto simp: typing_ok_def)
qed

lemma sends_log_run:
  assumes "set sent = key_event enc machine t ` set log" "sends_log enc machine t n log keys sends st"
  shows "\<exists>log. typing_ok machine t n log keys st \<and> set (sent @ sends) = key_event enc machine t ` set log"
proof -
  obtain new again where n: "typing_ok machine t n (log @ new) keys st" "sends = map (key_event enc machine t) (new @ again)" "set again \<subseteq> set (log @ new)"
    using assms(2) by (auto simp: sends_log_def)
  moreover have "set (sent @ sends) = key_event enc machine t ` set (log @ new)" using assms(1) n(2,3) by auto
  ultimately show ?thesis by blast
qed

lemma run_log:
  assumes "typing_run enc dec machine t st0 n keys sent st" "typing_ok machine t 0 [] [] st0"
  shows "\<exists>log. typing_ok machine t n log keys st \<and> set sent = key_event enc machine t ` set log"
  using assms
proof (induction rule: typing_run.induct)
  case (types n keys sent st advertises transport now bytes alternate r st')
  then obtain log where "typing_ok machine t n log keys st" "set sent = key_event enc machine t ` set log" by blast
  then show ?case using type_log [OF _ types.hyps(2)] by (intro sends_log_run)
next
  case (pastes n keys sent st advertises transport now bytes r st')
  then obtain log where "typing_ok machine t n log keys st" "set sent = key_event enc machine t ` set log" by blast
  then show ?case using paste_log [OF _ pastes.hyps(2)] by (intro sends_log_run)
next
  case (fires n keys sent st link_up now redraw sends timer st')
  then obtain log where "typing_ok machine t n log keys st" "set sent = key_event enc machine t ` set log" by blast
  then show ?case using timer_log [OF _ fires.hyps(2)] by (intro sends_log_run)
next
  case (asked n keys sent st seq transport now r st')
  then obtain log where "typing_ok machine t n log keys st" "set sent = key_event enc machine t ` set log" by blast
  then show ?case using asked_log [OF _ asked.hyps(2)] by (intro sends_log_run)
next
  case (draws n keys sent st transport now m r st')
  then obtain log where "typing_ok machine t n log keys st" "set sent = key_event enc machine t ` set log" by blast
  then show ?case using output_typing [OF _ draws.hyps(2)] by (intro exI [of _ log]) simp
qed auto

lemma opened_typing:
  assumes "opened machine open_id t shell now st = (True, st0)"
  shows "typing_ok machine t 0 [] [] st0"
  using assms log_ok_fresh [of now] count_breaks_fresh [of now]
  by (auto simp: opened_def typing_ok_def shows_at_def split: option.splits if_splits)

section \<open>The timer\<close>

definition waiting_at :: "string \<Rightarrow> string \<Rightarrow> TerminalsState \<Rightarrow> 8 word list" where
  "waiting_at machine t st = (case om_get (tl_inputs st) (machine, t) of Some s \<Rightarrow> in_pending s | None \<Rightarrow> [])"

lemma fired:
  assumes "shows_at machine t a st" "om_get (tl_inputs st) (machine, t) = Some s"
    and "send_loop (terminal_transport link_up machine) now s [] = (out, s')"
  shows "on_terminal_flush enc link_up now st =
    ((waiting_input (st\<lparr>tl_inputs := om_put (machine, t) s' (tl_inputs st)\<rparr>) \<noteq> waiting_input st,
      map (key_event enc machine t) out,
      (case deadline (terminal_transport link_up machine) s' of
         None \<Rightarrow> None
       | Some at_ms \<Rightarrow> (if 0 < at_ms - now then Some (at_ms - now) else None))),
     st\<lparr>tl_inputs := om_put (machine, t) s' (tl_inputs st)\<rparr>)"
  using assms by (auto simp: on_terminal_flush_def flush_due_def flush_input_def watching_machine_def shows_at_def Let_def)

lemma direct_uncapped: "cap_at Direct s = None"
  by (simp add: cap_at_def capped_def)

lemma later_window_open:
  assumes "deadline Relay s = Some at_ms" "in_pending s \<noteq> []" "cap_at Relay s \<noteq> None" "at_ms \<le> now"
  shows "cap_at Relay (open_window Relay now s) = None"
  using assms by (auto simp: deadline_def cap_at_def open_window_def capped_def RELAY_INPUTS_PER_SEC_def Let_def split: if_splits)

lemma clock_simps [simp]:
  "in_last_ms (hold_sent seq bytes s) = in_last_ms s" "in_since_ms (hold_sent seq bytes s) = in_since_ms s"
  "in_last_ms (open_window transport now s) = in_last_ms s" "in_since_ms (open_window transport now s) = in_since_ms s"
  by (simp_all add: hold_sent_def open_window_def case_prod_beta)

lemma next_input_clock:
  "next_input s = (p, s') \<Longrightarrow> in_last_ms s' = in_last_ms s \<and> in_since_ms s' = in_since_ms s \<and> in_window_start_ms s' = in_window_start_ms s"
  by (auto simp: next_input_def take_batch_def Let_def case_prod_beta split: if_splits option.splits)

lemma send_loop_clock:
  assumes "send_loop transport now s sends = (sends', s')"
  shows "in_last_ms s' = in_last_ms s \<and> in_since_ms s' = in_since_ms s \<and> in_window_start_ms s' \<in> {in_window_start_ms s, now}"
  using assms
proof (induction transport now s sends rule: send_loop.induct)
  case (1 transport now s sends)
  define s1 where "s1 = open_window transport now s"
  have s1: "in_last_ms s1 = in_last_ms s" "in_since_ms s1 = in_since_ms s" "in_window_start_ms s1 \<in> {in_window_start_ms s, now}"
    by (simp_all add: s1_def) (simp add: open_window_def)
  obtain p s2 where n: "next_input s1 = (p, s2)" by fastforce
  note loop = "1.prems" [unfolded send_loop.simps [of transport now s] s1_def [symmetric] Let_def n prod.case]
  show ?case
  proof (cases "cap_at transport s1 = None \<and> p \<noteq> None")
    case False
    with loop s1 next_input_clock [OF n] show ?thesis by (auto split: if_splits option.splits)
  next
    case True
    then obtain x where x: "p = Some x" by auto
    with loop True have "send_loop transport now s2 (sends @ [x]) = (sends', s')" by simp
    then have "in_last_ms s' = in_last_ms s2 \<and> in_since_ms s' = in_since_ms s2 \<and> in_window_start_ms s' \<in> {in_window_start_ms s2, now}"
      using True by (intro "1.IH" [OF s1_def _ n [symmetric] x]) simp_all
    with s1 next_input_clock [OF n] show ?thesis by auto
  qed
qed

lemma deadline_bound:
  assumes "deadline transport s = Some at_ms" "in_window_start_ms s \<le> now" "in_last_ms s \<le> now" "in_since_ms s \<le> now"
  shows "at_ms \<le> now + 1000"
proof -
  have pause: "pause_ms tr alternate \<le> 1000" for tr alternate
    by (cases tr; cases alternate) (simp_all add: PAUSE_DIRECT_MS_def PAUSE_RELAY_MS_def ALT_PAUSE_DIRECT_MS_def ALT_PAUSE_RELAY_MS_def)
  have "sat_add x y \<le> now + 1000" if "x \<le> now" "y \<le> 1000" for x y using sat_add_le_sum [of x y] that by linarith
  with assms pause show ?thesis
    by (auto simp: deadline_def cap_at_def RELAY_WINDOW_MS_def Let_def split: if_splits)
qed

text \<open>A flush that leaves keys waiting was stopped by the cap of an open window, and the deadline lies after it.\<close>

lemma left_waiting:
  assumes "send_loop transport now s sends = (sends', s')" "in_pending s' \<noteq> []"
  obtains at_ms where "transport = Relay" "cap_at Relay s' \<noteq> None" "deadline Relay s' = Some at_ms" "now < at_ms"
proof -
  have cap: "cap_at transport s' \<noteq> None" "now < sat_add (in_window_start_ms s') RELAY_WINDOW_MS"
    using send_loop_end [OF assms(1)] assms(2) by auto
  then have tr: "transport = Relay" using direct_uncapped by (cases transport) auto
  with cap have "cap_at Relay s' = Some (sat_add (in_window_start_ms s') RELAY_WINDOW_MS)" by (auto simp: cap_at_def split: if_splits)
  with assms(2) have "deadline Relay s' = Some (max (sat_add (if in_alternate_screen s' then in_since_ms s' else in_last_ms s')
      (pause_ms Relay (in_alternate_screen s'))) (sat_add (in_window_start_ms s') RELAY_WINDOW_MS))"
    by (simp add: deadline_def Let_def)
  with cap tr that show thesis by (simp add: less_max_iff_disj)
qed

section \<open>Properties\<close>


definition asked_open :: TerminalsState where
  "asked_open = snd (begin_open ''m'' None 80 24 phone_terminals_new)"

definition shown :: TerminalsState where
  "shown = snd (opened ''m'' ''o1'' ''t'' ''sh'' 0 asked_open)"

definition num_enc :: "8 word list \<Rightarrow> string" where "num_enc = concat \<circ> map (decimal \<circ> unat)"

lemma decimal_one: "decimal (Suc 0) = ''1''"
  by code_simp

lemma asked_open_opened: "opened ''m'' ''o1'' ''t'' ''sh'' 0 asked_open = (True, shown)"
  by (simp add: opened_def asked_open_def shown_def begin_open_def Let_def phone_terminals_new_def decimal_one)


text \<open>C12: Nothing typed is left waiting. When the flush timer fires, everything goes over a direct link; over relays at most five
  events go, and when keys are left the timer is armed again, at most a second ahead, and when it fires, however
  late, fewer keys are left.\<close>

theorem waiting_keys_go_out:
  assumes "opened machine open_id t shell now0 st0 = (True, st1)" "typing_run enc dec machine t st1 n keys sent st"
    and "om_get (tl_inputs st) (machine, t) = Some s" "in_window_start_ms s \<le> now" "in_last_ms s \<le> now" "in_since_ms s \<le> now"
    and "on_terminal_flush enc link_up now st = ((redraw, sends, timer), st')" "now < u64_max"
  shows "(link_up machine \<longrightarrow> waiting_at machine t st' = []) \<and> (\<not> link_up machine \<longrightarrow> length sends \<le> 5)
    \<and> (waiting_at machine t st' \<noteq> [] \<longrightarrow> (\<exists>d. timer = Some d \<and> 0 < d \<and> d \<le> 1000
        \<and> (\<forall>now' \<ge> now + d. length (waiting_at machine t (snd (on_terminal_flush enc link_up now' st'))) < length (waiting_at machine t st'))))"
proof -
  obtain log where "typing_ok machine t n log keys st" using run_log [OF assms(2) opened_typing [OF assms(1)]] by blast
  then obtain a where a: "shows_at machine t a st" "log_ok log s" using assms(3) by (auto simp: typing_ok_def)
  let ?tr = "terminal_transport link_up machine"
  obtain out s' where l: "send_loop ?tr now s [] = (out, s')" by fastforce
  obtain log' where log': "log_ok log' s'" using send_loop_log [OF a(2) l] by blast
  note fire = fired [OF a(1) assms(3) l, of enc]
  then have st': "st' = st\<lparr>tl_inputs := om_put (machine, t) s' (tl_inputs st)\<rparr>" "length sends = length out" using assms(7) by auto
  then have w: "waiting_at machine t st' = in_pending s'" by (simp add: waiting_at_def)
  have "length sends \<le> 5" if "\<not> link_up machine"
    using send_loop_rate [of now s "[]" out s'] l that st'(2) assms(8) by (simp add: terminal_transport_def RELAY_INPUTS_PER_SEC_def)
  moreover have "waiting_at machine t st' = []" if "link_up machine"
    using send_loop_end [OF l] that direct_uncapped w by (simp add: terminal_transport_def)
  moreover have "\<exists>d. timer = Some d \<and> 0 < d \<and> d \<le> 1000
        \<and> (\<forall>now' \<ge> now + d. length (waiting_at machine t (snd (on_terminal_flush enc link_up now' st'))) < length (waiting_at machine t st'))"
    if left: "waiting_at machine t st' \<noteq> []"
  proof -
    obtain at_ms where at_ms: "?tr = Relay" "cap_at Relay s' \<noteq> None" "deadline Relay s' = Some at_ms" "now < at_ms"
      using left_waiting [OF l] left w by metis
    then have "timer = Some (at_ms - now)" using fire assms(7) by simp
    moreover have "at_ms \<le> now + 1000"
      using deadline_bound [OF at_ms(3)] send_loop_clock [OF l] assms(4-6) by auto
    moreover have "length (waiting_at machine t (snd (on_terminal_flush enc link_up now' st'))) < length (waiting_at machine t st')"
      if "now + (at_ms - now) \<le> now'" for now'
    proof -
      obtain out2 s2 where l2: "send_loop ?tr now' s' [] = (out2, s2)" by fastforce
      have "length (in_pending s2) < length (in_pending s')"
        using send_loop_shrinks [OF l2 _ _ log'] later_window_open [OF at_ms(3) _ at_ms(2), of now'] left w at_ms(1,4) that by simp
      moreover have on: "shows_at machine t a st'" "om_get (tl_inputs st') (machine, t) = Some s'" using a(1) st'(1) by (simp_all add: shows_at_def)
      ultimately show ?thesis using fired [OF on l2, of enc] w by (simp add: waiting_at_def)
    qed
    ultimately show ?thesis using at_ms(4) by (intro exI [of _ "at_ms - now"]) simp
  qed
  ultimately show ?thesis by blast
qed

theorem waiting_keys_go_out_witness:
  "length (fst (snd (fst (on_terminal_flush num_enc (\<lambda>_. False) 7 shown)))) \<le> 5"
proof -
  obtain redraw sends timer st' where f: "on_terminal_flush num_enc (\<lambda>_. False) 7 shown = ((redraw, sends, timer), st')" by (metis surj_pair)
  have "om_get (tl_inputs shown) (''m'', ''t'') = Some (fresh_input 0)" "in_window_start_ms (fresh_input 0) \<le> 7"
    "in_last_ms (fresh_input 0) \<le> 7" "in_since_ms (fresh_input 0) \<le> 7" "7 < u64_max"
    by (simp_all add: shown_def asked_open_def opened_def begin_open_def fresh_input_def u64_max_def phone_terminals_new_def decimal_one Let_def)
  from waiting_keys_go_out [OF asked_open_opened typing_run.start [where dec = Map.empty] this(1-4) f this(5)] f show ?thesis by simp
qed

text \<open>C13: A late request of one machine carries off the keys of another. When a bridge asks for inputs of a terminal that is no
  longer on screen, what waits for the terminal on screen is flushed and sent to the bridge that asked, not to the
  machine whose terminal it is; over a direct link all of it goes there, and nothing of the asked terminal does.\<close>

theorem late_request_misroutes_keys:
  assumes "shows_at machine t a st" "om_get (tl_inputs st) (machine, t) = Some s" "log_ok log s" "in_pending s \<noteq> []"
    and "other \<noteq> machine" "om_get (tl_inputs st) (other, u) \<noteq> None" "seq \<noteq> 0"
    and "route_terminal enc dec Direct now other (TerminalInputFrom u seq) st = (r, st')"
  shows "\<exists>new again. tr_sends r = map (\<lambda>p. (other, TerminalInput (input_msg enc t p))) (new @ again)
    \<and> concat (map snd new) = in_pending s \<and> waiting_at machine t st' = []"
proof -
  obtain s2 where s2: "om_get (tl_inputs st) (other, u) = Some s2" using assms(6) by auto
  let ?st = "st\<lparr>tl_inputs := om_put (other, u) (resume_at seq s2) (tl_inputs st)\<rparr>"
  obtain out s' where l: "send_loop Direct now s [] = (out, s')" by fastforce
  obtain new again where n: "out = new @ again" "log_bytes new @ in_pending s' = in_pending s"
    using send_loop_log [OF assms(3) l] by auto
  have "in_pending s' = []" using send_loop_end [OF l] direct_uncapped by simp
  moreover have "flush_input enc Direct now ?st = (\<lparr>sp_machine = Some machine, sp_sends = map (input_msg enc t) out,
      sp_flush_at_ms = deadline Direct s', sp_waiting = in_pending s'\<rparr>, ?st\<lparr>tl_inputs := om_put (machine, t) s' (tl_inputs ?st)\<rparr>)"
    using assms(1,2,5) l by (simp add: flush_input_def shows_at_def)
  ultimately have "tr_sends r = map (\<lambda>p. (other, TerminalInput (input_msg enc t p))) out" "waiting_at machine t st' = []"
    using assms(7,8) s2 by (auto simp: route_terminal_def input_from_def step_sends no_result_def waiting_at_def comp_def)
  with n \<open>in_pending s' = []\<close> show ?thesis by (auto simp: log_bytes_def)
qed

definition two_machines :: TerminalsState where
  "two_machines = shown\<lparr>tl_inputs := om_put (''m'', ''t'') ((fresh_input 0)\<lparr>in_pending := [112, 119]\<rparr>)
     (om_put (''x'', ''u'') (fresh_input 0) (tl_inputs shown))\<rparr>"

theorem late_request_misroutes_keys_witness:
  "\<exists>new again. tr_sends (fst (route_terminal num_enc Map.empty Direct 9 ''x'' (TerminalInputFrom ''u'' 1) two_machines)) =
     map (\<lambda>p. (''x'', TerminalInput (input_msg num_enc ''t'' p))) (new @ again) \<and> concat (map snd new) = [112, 119]"
proof -
  obtain r st' where r: "route_terminal num_enc Map.empty Direct 9 ''x'' (TerminalInputFrom ''u'' 1) two_machines = (r, st')" by fastforce
  let ?s = "(fresh_input 0)\<lparr>in_pending := [112, 119]\<rparr>"
  have "shows_at ''m'' ''t'' (the (tl_attached shown)) two_machines" "om_get (tl_inputs two_machines) (''m'', ''t'') = Some ?s"
    "log_ok [] ?s" "in_pending ?s \<noteq> []" "''x'' \<noteq> ''m''" "om_get (tl_inputs two_machines) (''x'', ''u'') \<noteq> None" "(1 :: nat) \<noteq> 0"
    by (simp_all add: shows_at_def two_machines_def shown_def asked_open_def opened_def begin_open_def phone_terminals_new_def
        decimal_one log_ok_def fresh_input_def keep_newest_def Let_def)
  from late_request_misroutes_keys [OF this r] r show ?thesis by auto
qed

end
