(* ===== verification/TerminalRound.thy ===== *)
theory TerminalRound
  imports Typing PhoneTyping "HOL-Library.Sublist"
begin

text \<open>
  A terminal end to end: the phone that cuts, numbers, paces and resends what was typed, the network that loses, repeats
  and reorders, and the bridge that puts it in order. What the shell reads is what the user typed.
\<close>

section \<open>The phone's log as the bridge's script\<close>






section \<open>Property\<close>











end
