(* ===== verification/PhoneKeys.thy ===== *)
theory PhoneKeys
  imports Engine
begin

text \<open>
  \<open>crates/client-core/src/stores/session_key.rs\<close>: the phone's session keys, the one it grants and the one before it,
  and which of them each machine was granted and confirmed. Key generation is an argument (the fresh keypair), reading a
  secret back and the stored JSON are parameters. The machines store is its fields these functions read and write.
\<close>

section \<open>Keys\<close>

definition GRANT_LIFETIME_SECS :: nat where "GRANT_LIFETIME_SECS = SESSION_KEY_MAX_LIFETIME_SECS - 3600"
definition RENEW_BEFORE_SECS :: nat where "RENEW_BEFORE_SECS = 10 * 24 * 3600"
definition USE_MARGIN_SECS :: nat where "USE_MARGIN_SECS = 600"
definition REGRANT_EVERY_MS :: nat where "REGRANT_EVERY_MS = 10 * 60 * 1000"

record Keypair =
  kp_secret_hex :: string
  kp_pubkey_hex :: string

record SessionKey =
  sk_keypair :: Keypair
  sk_expires_at :: nat

definition fresh_key :: "Keypair \<Rightarrow> nat \<Rightarrow> SessionKey" where
  "fresh_key kp now_ms = \<lparr>sk_keypair = kp, sk_expires_at = now_ms div 1000 + GRANT_LIFETIME_SECS\<rparr>"

definition key_pubkey :: "SessionKey \<Rightarrow> string" where
  "key_pubkey k = kp_pubkey_hex (sk_keypair k)"

definition live_key :: "nat \<Rightarrow> SessionKey \<Rightarrow> bool" where
  "live_key secs k = (secs < sk_expires_at k)"

record SessionKeyRing =
  kr_current :: SessionKey
  kr_previous :: "SessionKey option"
  kr_first_pubkey_hex :: string

record StoredKey =
  st_secret_hex :: string
  st_expires_at :: nat

record StoredRing =
  st_current :: StoredKey
  st_previous :: "StoredKey option"
  st_first_pubkey_hex :: "string option"

definition stored_key :: "SessionKey \<Rightarrow> StoredKey" where
  "stored_key k = \<lparr>st_secret_hex = kp_secret_hex (sk_keypair k), st_expires_at = sk_expires_at k\<rparr>"

definition read_key :: "(string \<Rightarrow> Keypair option) \<Rightarrow> StoredKey \<Rightarrow> SessionKey option" where
  "read_key from_secret s = map_option (\<lambda>kp. \<lparr>sk_keypair = kp, sk_expires_at = st_expires_at s\<rparr>) (from_secret (st_secret_hex s))"

section \<open>The ring\<close>

definition ring_single :: "SessionKey \<Rightarrow> SessionKeyRing" where
  "ring_single current = \<lparr>kr_current = current, kr_previous = None, kr_first_pubkey_hex = key_pubkey current\<rparr>"

definition rotate_if_due :: "Keypair \<Rightarrow> nat \<Rightarrow> SessionKeyRing \<Rightarrow> bool \<times> SessionKeyRing" where
  "rotate_if_due kp now_ms r =
     (let now = now_ms div 1000 in
      if now + RENEW_BEFORE_SECS \<le> sk_expires_at (kr_current r) then (False, r)
      else (True, r\<lparr>kr_current := fresh_key kp now_ms,
              kr_previous := (if live_key now (kr_current r) then Some (kr_current r) else None)\<rparr>))"

definition read_ring :: "(string \<Rightarrow> Keypair option) \<Rightarrow> StoredRing \<Rightarrow> SessionKeyRing option" where
  "read_ring from_secret s =
     (case read_key from_secret (st_current s) of
        None \<Rightarrow> None
      | Some current \<Rightarrow>
          (let previous = (case st_previous s of None \<Rightarrow> None | Some p \<Rightarrow> read_key from_secret p);
               first = (case st_first_pubkey_hex s of
                          Some f \<Rightarrow> f
                        | None \<Rightarrow> (case previous of None \<Rightarrow> key_pubkey current | Some p \<Rightarrow> key_pubkey p))
           in Some \<lparr>kr_current = current, kr_previous = previous, kr_first_pubkey_hex = first\<rparr>))"

definition ring_load ::
  "(string \<Rightarrow> StoredRing option) \<Rightarrow> (string \<Rightarrow> Keypair option) \<Rightarrow> Keypair \<Rightarrow> string option \<Rightarrow> nat \<Rightarrow> SessionKeyRing \<times> bool" where
  "ring_load from_json from_secret kp stored now_ms =
     (case (case stored of None \<Rightarrow> None | Some s \<Rightarrow> (case from_json s of None \<Rightarrow> None | Some p \<Rightarrow> read_ring from_secret p)) of
        Some ring \<Rightarrow> (let (rotated, ring) = rotate_if_due kp now_ms ring in (ring, rotated))
      | None \<Rightarrow> (ring_single (fresh_key kp now_ms), True))"

definition ring_stored :: "SessionKeyRing \<Rightarrow> StoredRing" where
  "ring_stored r = \<lparr>st_current = stored_key (kr_current r), st_previous = map_option stored_key (kr_previous r),
     st_first_pubkey_hex = Some (kr_first_pubkey_hex r)\<rparr>"

definition ring_encode :: "(StoredRing \<Rightarrow> string) \<Rightarrow> SessionKeyRing \<Rightarrow> string" where
  "ring_encode to_json r = to_json (ring_stored r)"

definition ring_device_id :: "Env \<Rightarrow> SessionKeyRing \<Rightarrow> string" where
  "ring_device_id env r = device_id env (kr_first_pubkey_hex r)"

definition live_keys :: "SessionKeyRing \<Rightarrow> nat \<Rightarrow> SessionKey list" where
  "live_keys r now_ms =
     filter (live_key (now_ms div 1000)) (kr_current r # (case kr_previous r of None \<Rightarrow> [] | Some p \<Rightarrow> [p]))"

definition ring_key :: "SessionKeyRing \<Rightarrow> string \<Rightarrow> nat \<Rightarrow> SessionKey option" where
  "ring_key r pubkey now_ms = find (\<lambda>k. key_pubkey k = pubkey) (live_keys r now_ms)"

definition recipient_tags :: "Env \<Rightarrow> SessionKeyRing \<Rightarrow> string \<Rightarrow> string \<Rightarrow> nat \<Rightarrow> string list" where
  "recipient_tags env r bridge identity now_ms =
     map (recipient_tag env bridge) (map key_pubkey (live_keys r now_ms) @ [identity])"

section \<open>Grants\<close>

record SessionGrant =
  gr_pubkey_hex :: string
  gr_expires_at :: nat
  gr_sent_at :: nat

datatype Recipient = ToSessionKey string | ToIdentity

text \<open>Of a machine: what it advertises, when it was last heard, the grant it confirmed and the one last sent.\<close>

record MachineKeys =
  mk_capabilities :: "string list"
  mk_last_heartbeat_at :: "nat option"
  mk_session_grant :: "SessionGrant option"
  mk_session_grant_sent :: "SessionGrant option"

type_synonym machines = "(string, MachineKeys) omap"

definition drop_unused_previous :: "machines \<Rightarrow> nat \<Rightarrow> SessionKeyRing \<Rightarrow> bool \<times> SessionKeyRing" where
  "drop_unused_previous ms now_ms r =
     (let now = now_ms div 1000 in
      case kr_previous r of
        None \<Rightarrow> (False, r)
      | Some previous \<Rightarrow>
          (let used = (live_key now previous
                 \<and> list_ex (\<lambda>m. case mk_session_grant m of
                        None \<Rightarrow> False
                      | Some g \<Rightarrow> gr_pubkey_hex g = key_pubkey previous \<and> now < gr_expires_at g) (om_vals ms))
           in if used then (False, r) else (True, r\<lparr>kr_previous := None\<rparr>)))"

definition session_key_of :: "machines \<Rightarrow> string \<Rightarrow> nat \<Rightarrow> string option" where
  "session_key_of ms machine now_ms =
     (case om_get ms machine of
        None \<Rightarrow> None
      | Some m \<Rightarrow>
          (case mk_session_grant m of
             None \<Rightarrow> None
           | Some g \<Rightarrow> (if now_ms div 1000 + USE_MARGIN_SECS < gr_expires_at g then Some (gr_pubkey_hex g) else None)))"

definition confirmed_session_key :: "machines \<Rightarrow> string \<Rightarrow> string option" where
  "confirmed_session_key ms machine =
     (case om_get ms machine of None \<Rightarrow> None | Some m \<Rightarrow> map_option gr_pubkey_hex (mk_session_grant m))"

definition SESSION_KEYS :: string where "SESSION_KEYS = ''session-keys''"

definition wants_session_grant :: "machines \<Rightarrow> string \<Rightarrow> SessionKey \<Rightarrow> nat \<Rightarrow> bool" where
  "wants_session_grant ms machine current now_ms =
     (case om_get ms machine of
        None \<Rightarrow> False
      | Some m \<Rightarrow>
          (let unheard = (mk_last_heartbeat_at m = None \<and> mk_capabilities m = [])
           in (unheard \<or> SESSION_KEYS \<in> set (mk_capabilities m))
              \<and> \<not> (case mk_session_grant m of
                     None \<Rightarrow> False
                   | Some g \<Rightarrow> gr_pubkey_hex g = key_pubkey current \<and> now_ms div 1000 + RENEW_BEFORE_SECS \<le> gr_expires_at g)))"

definition session_grant_sent_at :: "machines \<Rightarrow> string \<Rightarrow> nat option" where
  "session_grant_sent_at ms machine =
     (case om_get ms machine of
        None \<Rightarrow> None
      | Some m \<Rightarrow>
          (case map gr_sent_at (somes [mk_session_grant m, mk_session_grant_sent m]) of
             [] \<Rightarrow> None
           | t # ts \<Rightarrow> Some (foldl max t ts)))"

definition note_session_grant_sent :: "string \<Rightarrow> SessionGrant \<Rightarrow> machines \<Rightarrow> bool \<times> machines" where
  "note_session_grant_sent machine grant ms =
     (case om_get ms machine of
        None \<Rightarrow> (False, ms)
      | Some m \<Rightarrow> (True, om_put machine (m\<lparr>mk_session_grant_sent := Some grant\<rparr>) ms))"

definition note_heard_via :: "string \<Rightarrow> Recipient \<Rightarrow> nat \<Rightarrow> machines \<Rightarrow> bool \<times> machines" where
  "note_heard_via machine recipient created_at ms =
     (case om_get ms machine of
        None \<Rightarrow> (False, ms)
      | Some m \<Rightarrow>
          (case recipient of
             ToSessionKey key \<Rightarrow>
               (case mk_session_grant_sent m of
                  None \<Rightarrow> (False, ms)
                | Some g \<Rightarrow>
                    (if gr_pubkey_hex g \<noteq> key then (False, ms)
                     else (True, om_put machine (m\<lparr>mk_session_grant := mk_session_grant_sent m, mk_session_grant_sent := None\<rparr>) ms)))
           | ToIdentity \<Rightarrow>
               (case mk_session_grant m of
                  None \<Rightarrow> (False, ms)
                | Some g \<Rightarrow>
                    (if gr_sent_at g < created_at then (True, om_put machine (m\<lparr>mk_session_grant := None\<rparr>) ms) else (False, ms)))))"

section \<open>The keys as the wire names them\<close>

text \<open>\<open>PhoneKeys\<close> of \<open>crates/client-runtime/src/signer.rs\<close>; the identity's \<open>npub\<close>, which only a pairing shows, is left out.\<close>

record PhoneKeys =
  pk_identity_pubkey_hex :: string
  pk_session_pubkey_hex :: string
  pk_session_expires_at :: nat
  pk_device_label :: "string option"

definition phone_keys_new :: "string \<Rightarrow> SessionKey \<Rightarrow> string option \<Rightarrow> PhoneKeys" where
  "phone_keys_new identity k label =
     \<lparr>pk_identity_pubkey_hex = identity, pk_session_pubkey_hex = key_pubkey k, pk_session_expires_at = sk_expires_at k, pk_device_label = label\<rparr>"

definition grant_for :: "PhoneKeys \<Rightarrow> string \<Rightarrow> string option \<Rightarrow> SessionKeyGrant" where
  "grant_for keys bridge replaces =
     \<lparr>sg_pubkey_hex = pk_session_pubkey_hex keys, sg_bridge_pubkey_hex = bridge, sg_expires_at = pk_session_expires_at keys,
      sg_replaces = (if replaces = Some (pk_session_pubkey_hex keys) then None else replaces), sg_label = pk_device_label keys\<rparr>"

definition grant_sent :: "PhoneKeys \<Rightarrow> nat \<Rightarrow> SessionGrant" where
  "grant_sent keys now_ms =
     \<lparr>gr_pubkey_hex = pk_session_pubkey_hex keys, gr_expires_at = pk_session_expires_at keys, gr_sent_at = now_ms div 1000\<rparr>"

section \<open>The ring and the grants together\<close>

definition ring_keys :: "SessionKeyRing \<Rightarrow> SessionKey list" where
  "ring_keys r = kr_current r # (case kr_previous r of None \<Rightarrow> [] | Some p \<Rightarrow> [p])"

text \<open>A grant names a key of the ring: if the ring has the key, the grant runs to its expiry.\<close>

definition grant_matches :: "SessionKeyRing \<Rightarrow> SessionGrant \<Rightarrow> bool" where
  "grant_matches r g = (\<forall>k \<in> set (ring_keys r).
     key_pubkey k = gr_pubkey_hex g \<longrightarrow> sk_expires_at k = gr_expires_at g)"

definition grant_held :: "SessionKeyRing \<Rightarrow> nat \<Rightarrow> SessionGrant \<Rightarrow> bool" where
  "grant_held r now_ms g = (now_ms div 1000 < gr_expires_at g \<longrightarrow>
     (\<exists>k. ring_key r (gr_pubkey_hex g) now_ms = Some k \<and> sk_expires_at k = gr_expires_at g))"

definition ring_spaced :: "SessionKeyRing \<Rightarrow> bool" where
  "ring_spaced r = (case kr_previous r of
       None \<Rightarrow> True
     | Some p \<Rightarrow> key_pubkey p \<noteq> key_pubkey (kr_current r) \<and> sk_expires_at p + GRANT_LIFETIME_SECS < sk_expires_at (kr_current r) + RENEW_BEFORE_SECS)"

definition keys_ok :: "SessionKeyRing \<Rightarrow> machines \<Rightarrow> nat \<Rightarrow> bool" where
  "keys_ok r ms now_ms = (ring_spaced r \<and> sk_expires_at (kr_current r) \<le> now_ms div 1000 + GRANT_LIFETIME_SECS \<and> (\<forall>machine m. om_get ms machine = Some m \<longrightarrow>
     (\<forall>g. mk_session_grant m = Some g \<longrightarrow> grant_matches r g \<and> grant_held r now_ms g)
     \<and> (\<forall>g. mk_session_grant_sent m = Some g \<longrightarrow> grant_matches r g)))"

text \<open>A fresh key is one that no key of the ring and no grant is.\<close>

definition unused_key :: "Keypair \<Rightarrow> SessionKeyRing \<Rightarrow> machines \<Rightarrow> bool" where
  "unused_key kp r ms = (kp_pubkey_hex kp \<noteq> key_pubkey (kr_current r)
     \<and> (\<forall>machine m g. om_get ms machine = Some m \<longrightarrow> mk_session_grant m = Some g \<or> mk_session_grant_sent m = Some g
          \<longrightarrow> gr_pubkey_hex g \<noteq> kp_pubkey_hex kp))"

lemma ring_keys_current [simp]: "kr_current r \<in> set (ring_keys r)"
  by (simp add: ring_keys_def)

lemma ring_key_Some:
  "ring_key r pubkey now = Some k \<Longrightarrow> k \<in> set (ring_keys r) \<and> key_pubkey k = pubkey \<and> live_key (now div 1000) k"
  by (auto simp: ring_key_def live_keys_def ring_keys_def split: option.splits if_splits)

lemma ring_key_held:
  assumes "ring_spaced r" "k \<in> set (ring_keys r)" "live_key (now div 1000) k"
  shows "ring_key r (key_pubkey k) now = Some k"
  using assms by (auto simp: ring_key_def live_keys_def ring_keys_def ring_spaced_def split: option.splits if_splits)

lemma grant_heldI:
  "ring_spaced r \<Longrightarrow> k \<in> set (ring_keys r) \<Longrightarrow> key_pubkey k = gr_pubkey_hex g \<Longrightarrow> sk_expires_at k = gr_expires_at g \<Longrightarrow> grant_held r now g"
  using ring_key_held [of r k now] by (auto simp: grant_held_def live_key_def)

lemma grant_held_key:
  assumes "grant_held r now g" "now div 1000 < gr_expires_at g"
  obtains k where "k \<in> set (ring_keys r)" "key_pubkey k = gr_pubkey_hex g" "sk_expires_at k = gr_expires_at g"
  using assms by (auto simp: grant_held_def dest: ring_key_Some)

lemma keys_okD:
  assumes "keys_ok r ms now" "om_get ms machine = Some m"
  shows "mk_session_grant m = Some g \<Longrightarrow> grant_matches r g \<and> grant_held r now g" "mk_session_grant_sent m = Some g \<Longrightarrow> grant_matches r g"
    "ring_spaced r" "sk_expires_at (kr_current r) \<le> now div 1000 + GRANT_LIFETIME_SECS"
  using assms by (auto simp: keys_ok_def)

lemma keys_okI:
  assumes "ring_spaced r" "sk_expires_at (kr_current r) \<le> now div 1000 + GRANT_LIFETIME_SECS"
    and "\<And>machine m g. om_get ms machine = Some m \<Longrightarrow> mk_session_grant m = Some g \<Longrightarrow> grant_matches r g \<and> grant_held r now g"
    and "\<And>machine m g. om_get ms machine = Some m \<Longrightarrow> mk_session_grant_sent m = Some g \<Longrightarrow> grant_matches r g"
  shows "keys_ok r ms now"
  using assms by (auto simp: keys_ok_def)

lemma keys_ok_later:
  assumes "keys_ok r ms t" "t \<le> now"
  shows "keys_ok r ms now"
proof -
  have "grant_held r now g" if "grant_held r t g" "ring_spaced r" for g
  proof (cases "now div 1000 < gr_expires_at g")
    case True
    then have "t div 1000 < gr_expires_at g" using div_le_mono [OF assms(2), of 1000] by linarith
    from grant_held_key [OF that(1) this] that(2) show ?thesis by (blast intro: grant_heldI)
  qed (simp add: grant_held_def)
  with assms(1) div_le_mono [OF assms(2), of 1000] show ?thesis by (fastforce simp: keys_ok_def)
qed

lemma om_vals_in: "om_get ms machine = Some m \<Longrightarrow> m \<in> set (om_vals ms)"
  by (drule map_of_SomeD) (force simp: om_vals_def)

text \<open>A rotation drops only a key that has lapsed: the one before last ran out before the last was due.\<close>

lemma keys_ok_rotate:
  assumes ok: "keys_ok r ms now" and unused: "unused_key kp r ms" and r': "rotate_if_due kp now r = (changed, r')"
  shows "keys_ok r' ms now \<and> kr_first_pubkey_hex r' = kr_first_pubkey_hex r"
proof (cases "now div 1000 + RENEW_BEFORE_SECS \<le> sk_expires_at (kr_current r)")
  case True
  with ok r' show ?thesis by (simp add: rotate_if_due_def Let_def)
next
  case False
  let ?now = "now div 1000" and ?old = "kr_current r"
  have eval: "r' = r\<lparr>kr_current := fresh_key kp now, kr_previous := (if live_key ?now ?old then Some ?old else None)\<rparr>"
    using r' False by (simp add: rotate_if_due_def Let_def)
  then have keys: "set (ring_keys r') = insert (fresh_key kp now) (if live_key ?now ?old then {?old} else {})"
    by (simp add: ring_keys_def)
  have spaced: "ring_spaced r'" using eval False unused
    by (auto simp: ring_spaced_def fresh_key_def key_pubkey_def unused_key_def)
  have fresh: "gr_pubkey_hex g \<noteq> key_pubkey (fresh_key kp now)"
    if "om_get ms machine = Some m" "mk_session_grant m = Some g \<or> mk_session_grant_sent m = Some g" for machine m g
    using unused that unfolding unused_key_def fresh_key_def key_pubkey_def by simp blast
  have matches: "grant_matches r' g" if "om_get ms machine = Some m" "mk_session_grant m = Some g \<or> mk_session_grant_sent m = Some g" for machine m g
    using fresh [OF that] keys_okD [OF ok that(1)] that(2) by (auto simp: grant_matches_def keys split: if_splits)
  have "grant_held r' now g" if g: "om_get ms machine = Some m" "mk_session_grant m = Some g" for machine m g
  proof (cases "?now < gr_expires_at g")
    case True
    then obtain k where k: "k \<in> set (ring_keys r)" "key_pubkey k = gr_pubkey_hex g" "sk_expires_at k = gr_expires_at g"
      using grant_held_key keys_okD(1) [OF ok g] by blast
    have "k = ?old"
    proof (rule ccontr)
      assume "k \<noteq> ?old"
      then have "kr_previous r = Some k" using k(1) by (auto simp: ring_keys_def split: option.splits)
      then have "sk_expires_at k + GRANT_LIFETIME_SECS < sk_expires_at ?old + RENEW_BEFORE_SECS"
        using keys_okD(3) [OF ok g(1)] by (simp add: ring_spaced_def)
      then show False using True False k(3)
        by (simp add: GRANT_LIFETIME_SECS_def RENEW_BEFORE_SECS_def SESSION_KEY_MAX_LIFETIME_SECS_def)
    qed
    then have "k \<in> set (ring_keys r')" using k(3) True by (simp add: keys live_key_def)
    then show ?thesis using grant_heldI [OF spaced _ k(2,3)] by simp
  qed (simp add: grant_held_def)
  then have "keys_ok r' ms now" using matches eval by (intro keys_okI [OF spaced]) (blast | simp add: fresh_key_def)+
  with eval show ?thesis by simp
qed

lemma keys_ok_drop:
  assumes ok: "keys_ok r ms now" and r': "drop_unused_previous ms now r = (changed, r')"
  shows "keys_ok r' ms now \<and> kr_first_pubkey_hex r' = kr_first_pubkey_hex r \<and> kr_current r' = kr_current r"
proof (cases "r' = r")
  case True
  with ok show ?thesis by simp
next
  case False
  then obtain p where p: "kr_previous r = Some p" "r' = r\<lparr>kr_previous := None\<rparr>"
    and unused: "\<And>m g. m \<in> set (om_vals ms) \<Longrightarrow> mk_session_grant m = Some g \<Longrightarrow> live_key (now div 1000) p \<Longrightarrow>
      gr_pubkey_hex g = key_pubkey p \<Longrightarrow> \<not> now div 1000 < gr_expires_at g"
    using r' by (fastforce simp: drop_unused_previous_def Let_def list_ex_iff split: option.splits if_splits)
  have spaced: "ring_spaced r'" using p(2) by (simp add: ring_spaced_def)
  have keys: "set (ring_keys r) = insert p (set (ring_keys r'))" using p by (auto simp: ring_keys_def)
  have matches: "grant_matches r g \<Longrightarrow> grant_matches r' g" for g by (simp add: grant_matches_def keys)
  have "grant_held r' now g" if g: "om_get ms machine = Some m" "mk_session_grant m = Some g" for machine m g
  proof (cases "now div 1000 < gr_expires_at g")
    case True
    then obtain k where k: "k \<in> set (ring_keys r)" "key_pubkey k = gr_pubkey_hex g" "sk_expires_at k = gr_expires_at g"
      using grant_held_key keys_okD(1) [OF ok g] by blast
    then have "k \<noteq> p" using unused [OF om_vals_in [OF g(1)] g(2)] True by (auto simp: live_key_def)
    then show ?thesis using grant_heldI [OF spaced _ k(2,3)] k(1) keys by simp
  qed (simp add: grant_held_def)
  moreover have "sk_expires_at (kr_current r') \<le> now div 1000 + GRANT_LIFETIME_SECS" using ok p(2) by (simp add: keys_ok_def)
  ultimately have "keys_ok r' ms now" using matches keys_okD [OF ok] by (intro keys_okI [OF spaced]) blast+
  with p(2) show ?thesis by simp
qed

text \<open>The previous key goes as soon as no confirmed grant names it, also while a bridge may hold it by a grant that is not
  confirmed yet.\<close>

lemma unconfirmed_previous_dropped:
  "kr_previous r = Some p \<Longrightarrow> list_all (\<lambda>m. mk_session_grant m = None) (om_vals ms) \<Longrightarrow>
     drop_unused_previous ms now r = (True, r\<lparr>kr_previous := None\<rparr>)"
  by (auto simp: drop_unused_previous_def list_all_iff list_ex_iff)

lemma keys_ok_sent:
  assumes "keys_ok r ms now" "pk_session_pubkey_hex keys = key_pubkey (kr_current r)" "pk_session_expires_at keys = sk_expires_at (kr_current r)"
  shows "keys_ok r (snd (note_session_grant_sent machine (grant_sent keys now') ms)) now"
proof -
  have "grant_matches r (grant_sent keys now')"
    using assms by (auto simp: grant_matches_def grant_sent_def ring_keys_def keys_ok_def ring_spaced_def split: option.splits)
  with assms(1) show ?thesis by (auto simp: keys_ok_def note_session_grant_sent_def split: option.splits)
qed

lemma keys_ok_heard:
  assumes "keys_ok r ms now" "note_heard_via machine recipient created_at ms = (changed, ms')"
    and "\<And>key. recipient = ToSessionKey key \<Longrightarrow> ring_key r key now \<noteq> None"
  shows "keys_ok r ms' now"
proof -
  have "grant_held r now g" if "recipient = ToSessionKey (gr_pubkey_hex g)" "grant_matches r g" for g
    using assms(3) [OF that(1)] that(2) by (auto simp: grant_held_def grant_matches_def dest: ring_key_Some)
  then show ?thesis using assms(1,2)
    by (auto simp: note_heard_via_def keys_ok_def split: option.splits Recipient.splits if_splits)
qed

text \<open>A ring whose secrets can be read back is read back as it was stored.\<close>

lemma read_ring_stored:
  assumes "list_all (\<lambda>k. from_secret (kp_secret_hex (sk_keypair k)) = Some (sk_keypair k)) (ring_keys r)"
  shows "read_ring from_secret (ring_stored r) = Some r"
  using assms by (auto simp: read_ring_def ring_stored_def stored_key_def read_key_def ring_keys_def Let_def split: option.splits)

end
