(* ===== verification/GrantLoop.thy ===== *)
theory GrantLoop
  imports PhoneKeys BridgeState
begin

text \<open>
  \<open>crates/client-runtime/src/runtime/grant.rs\<close> and the key handling of \<open>runtime.rs\<close>: a session key is granted before
  anything else is said. Commands and copies to the identity wait for the grant to be confirmed, for the time it has, or
  for its failure. What goes to the identity's signer is the list \<open>gl_jobs\<close>, in order; the store flushes and
  subscriptions that follow a change, and the time of the last command kept for presence, are left out.
\<close>

section \<open>State\<close>

definition HELD_EVENTS_MAX :: nat where "HELD_EVENTS_MAX = 256"
definition SESSION_LIST_KIND :: nat where "SESSION_LIST_KIND = 30515"

datatype Cipher = KeyCipher Keypair | IdentityCipher

text \<open>Who is told of a publish's outcome: the caller, or the grant wait of a machine.\<close>

datatype Reply = ReplyTo nat | GrantReply string nat

record NostrEvent =
  ne_pubkey :: string
  ne_kind :: nat
  ne_created_at :: int
  ne_content :: string

record HeldCommand =
  hc_msg :: PhoneToBridge
  hc_reply :: "Reply option"
  hc_outbox_id :: "string option"
  hc_quiet :: bool

record GrantWait =
  gw_seq :: nat
  gw_timer :: bool
  gw_commands :: "HeldCommand list"
  gw_events :: "NostrEvent list"

datatype SignerJob =
    CommandJob string HeldCommand Cipher nat \<comment> \<open>machine, command, cipher, time\<close>
  | DecryptJob NostrEvent

record GrantLoop =
  gl_ring :: SessionKeyRing
  gl_keys :: PhoneKeys
  gl_machines :: machines
  gl_attempts :: "(string, nat) omap"
  gl_waits :: "(string, GrantWait) omap"
  gl_seq :: nat
  gl_jobs :: "SignerJob list"

section \<open>Sending\<close>

definition cipher_for :: "nat \<Rightarrow> string \<Rightarrow> GrantLoop \<Rightarrow> Cipher" where
  "cipher_for now machine l =
     (case session_key_of (gl_machines l) machine now of
        None \<Rightarrow> IdentityCipher
      | Some k \<Rightarrow> (case ring_key (gl_ring l) k now of None \<Rightarrow> IdentityCipher | Some key \<Rightarrow> KeyCipher (sk_keypair key)))"

definition put_job :: "SignerJob \<Rightarrow> GrantLoop \<Rightarrow> GrantLoop" where
  "put_job job l = l\<lparr>gl_jobs := gl_jobs l @ [job]\<rparr>"

text \<open>The grant itself passes \<open>hold_for_grant\<close>, so publishing it is one job.\<close>

definition grant_if_due :: "nat \<Rightarrow> string \<Rightarrow> GrantLoop \<Rightarrow> GrantLoop" where
  "grant_if_due now machine l =
     (if om_get (gl_waits l) machine \<noteq> None
       \<or> \<not> wants_session_grant (gl_machines l) machine (kr_current (gl_ring l)) now
       \<or> (case om_get (gl_attempts l) machine of None \<Rightarrow> False | Some t \<Rightarrow> now - t < REGRANT_EVERY_MS)
      then l
      else
        (let l = l\<lparr>gl_attempts := om_put machine now (gl_attempts l),
                   gl_machines := snd (note_session_grant_sent machine (grant_sent (gl_keys l) now) (gl_machines l))\<rparr>;
             grant = SessionKey (grant_for (gl_keys l) machine (confirmed_session_key (gl_machines l) machine));
             cipher = cipher_for now machine l
         in if cipher \<noteq> IdentityCipher
            then put_job (CommandJob machine \<lparr>hc_msg = grant, hc_reply = None, hc_outbox_id = None, hc_quiet = False\<rparr> cipher now) l
            else
              (let seq = gl_seq l + 1;
                   l = l\<lparr>gl_seq := seq,
                         gl_waits := om_put machine \<lparr>gw_seq = seq, gw_timer = False, gw_commands = [], gw_events = []\<rparr> (gl_waits l)\<rparr>
               in put_job (CommandJob machine \<lparr>hc_msg = grant, hc_reply = Some (GrantReply machine seq), hc_outbox_id = None,
                    hc_quiet = False\<rparr> cipher now) l)))"

fun passes_grant :: "PhoneToBridge \<Rightarrow> bool" where
  "passes_grant (PairRequest m) = True"
| "passes_grant (SessionKey g) = True"
| "passes_grant _ = False"

definition hold_for_grant :: "nat \<Rightarrow> string \<Rightarrow> Cipher \<Rightarrow> HeldCommand \<Rightarrow> GrantLoop \<Rightarrow> HeldCommand option \<times> GrantLoop" where
  "hold_for_grant now machine cipher c l =
     (if cipher \<noteq> IdentityCipher \<or> passes_grant (hc_msg c) then (Some c, l)
      else
        (let l = grant_if_due now machine l
         in case om_get (gl_waits l) machine of
              Some wait \<Rightarrow> (None, l\<lparr>gl_waits := om_put machine (wait\<lparr>gw_commands := gw_commands wait @ [c]\<rparr>) (gl_waits l)\<rparr>)
            | None \<Rightarrow> (Some c, l)))"

definition sign_and_publish :: "nat \<Rightarrow> string \<Rightarrow> HeldCommand \<Rightarrow> GrantLoop \<Rightarrow> GrantLoop" where
  "sign_and_publish now machine c l =
     (let cipher = (case hc_msg c of PairRequest m \<Rightarrow> IdentityCipher | _ \<Rightarrow> cipher_for now machine l)
      in case hold_for_grant now machine cipher c l of
           (Some c, l) \<Rightarrow> put_job (CommandJob machine c cipher now) l
         | (None, l) \<Rightarrow> l)"

section \<open>The end of a wait\<close>

definition answered :: "bool \<Rightarrow> HeldCommand \<Rightarrow> bool" where
  "answered confirmed c = (confirmed \<and> hc_msg c = RefreshSessions \<and> hc_reply c = None \<and> hc_outbox_id c = None)"

definition superseded :: "NostrEvent list \<Rightarrow> NostrEvent \<Rightarrow> bool" where
  "superseded events e =
     (let lists = map ne_created_at (filter (\<lambda>e. ne_kind e = SESSION_LIST_KIND) events);
          newest_list = (case lists of [] \<Rightarrow> None | t # ts \<Rightarrow> Some (foldl max t ts))
      in ne_kind e = LIVE_KIND \<or> ne_kind e = SESSION_LIST_KIND \<and> Some (ne_created_at e) \<noteq> newest_list)"

definition end_grant_wait :: "nat \<Rightarrow> string \<Rightarrow> bool \<Rightarrow> GrantLoop \<Rightarrow> GrantLoop" where
  "end_grant_wait now machine confirmed l =
     (case om_get (gl_waits l) machine of
        None \<Rightarrow> l
      | Some wait \<Rightarrow>
          (let l = l\<lparr>gl_waits := om_del machine (gl_waits l)\<rparr>
           in if om_get (gl_machines l) machine = None then l
              else
                (let l = foldl (\<lambda>l c. if answered confirmed c then l else sign_and_publish now machine c l) l (gw_commands wait)
                 in if confirmed then l
                    else foldl (\<lambda>l e. if superseded (gw_events wait) e then l else put_job (DecryptJob e) l) l (gw_events wait))))"

definition on_grant_published :: "nat \<Rightarrow> string \<Rightarrow> nat \<Rightarrow> bool \<Rightarrow> GrantLoop \<Rightarrow> GrantLoop" where
  "on_grant_published now machine seq delivered l =
     (case om_get (gl_waits l) machine of
        None \<Rightarrow> l
      | Some wait \<Rightarrow>
          (if gw_seq wait \<noteq> seq then l
           else if \<not> delivered then end_grant_wait now machine False l
           else l\<lparr>gl_waits := om_put machine (wait\<lparr>gw_timer := True\<rparr>) (gl_waits l)\<rparr>))"

definition on_grant_wait_over :: "nat \<Rightarrow> string \<Rightarrow> nat \<Rightarrow> GrantLoop \<Rightarrow> GrantLoop" where
  "on_grant_wait_over now machine seq l =
     (case om_get (gl_waits l) machine of
        None \<Rightarrow> l
      | Some wait \<Rightarrow> (if gw_seq wait = seq then end_grant_wait now machine False l else l))"

section \<open>What is heard\<close>

text \<open>A copy encrypted to the identity, before anything decrypts it.\<close>

definition on_identity_copy :: "nat \<Rightarrow> NostrEvent \<Rightarrow> GrantLoop \<Rightarrow> GrantLoop" where
  "on_identity_copy now event l =
     (let machine = ne_pubkey event;
          written = nat (ne_created_at event);
          (lost, ms) = note_heard_via machine ToIdentity written (gl_machines l);
          l = l\<lparr>gl_machines := ms\<rparr>;
          l = (if lost then l\<lparr>gl_attempts := om_del machine (gl_attempts l)\<rparr> else l);
          before = session_grant_sent_at (gl_machines l) machine;
          l = grant_if_due now machine l;
          since = (case before of Some t \<Rightarrow> Some t | None \<Rightarrow> session_grant_sent_at (gl_machines l) machine)
      in if (case since of None \<Rightarrow> False | Some sent \<Rightarrow> written < sent) then l
         else case om_get (gl_waits l) machine of
           Some wait \<Rightarrow>
             (let events = (if HELD_EVENTS_MAX \<le> length (gw_events wait) then tl (gw_events wait) else gw_events wait)
              in l\<lparr>gl_waits := om_put machine (wait\<lparr>gw_events := events @ [event]\<rparr>) (gl_waits l)\<rparr>)
         | None \<Rightarrow> put_job (DecryptJob event) l)"

text \<open>The ring changed: it is stored, and the keys on the wire are its current one's.\<close>

definition session_ring_changed :: "GrantLoop \<Rightarrow> GrantLoop" where
  "session_ring_changed l =
     (if pk_session_pubkey_hex (gl_keys l) \<noteq> key_pubkey (kr_current (gl_ring l))
      then l\<lparr>gl_keys := phone_keys_new (pk_identity_pubkey_hex (gl_keys l)) (kr_current (gl_ring l)) (pk_device_label (gl_keys l)),
             gl_attempts := []\<rparr>
      else l)"

definition rotate_session_key_if_due :: "Keypair \<Rightarrow> nat \<Rightarrow> GrantLoop \<Rightarrow> GrantLoop" where
  "rotate_session_key_if_due kp now l =
     (let (changed, ring) = rotate_if_due kp now (gl_ring l)
      in if \<not> changed then l
         else session_ring_changed (l\<lparr>gl_ring := snd (drop_unused_previous (gl_machines l) now ring)\<rparr>))"

definition grant_session_key_if_due :: "Keypair \<Rightarrow> nat \<Rightarrow> string \<Rightarrow> GrantLoop \<Rightarrow> GrantLoop" where
  "grant_session_key_if_due kp now machine l = grant_if_due now machine (rotate_session_key_if_due kp now l)"

text \<open>The key's part of handling a message that was decrypted. What the message itself makes the stores do and send comes
  before the last step (\<open>sends\<close>).\<close>

definition on_message_keys ::
  "Keypair \<Rightarrow> nat \<Rightarrow> string \<Rightarrow> Recipient \<Rightarrow> nat \<Rightarrow> bool \<Rightarrow> HeldCommand list \<Rightarrow> GrantLoop \<Rightarrow> GrantLoop" where
  "on_message_keys kp now machine via created_at pair_ack sends l =
     (let l = (if via = ToIdentity \<and> pair_ack then l\<lparr>gl_attempts := om_put machine now (gl_attempts l)\<rparr> else l);
          (noted, ms) = note_heard_via machine via created_at (gl_machines l);
          l = l\<lparr>gl_machines := ms\<rparr>;
          l = (if noted
               then (let (dropped, ring) = drop_unused_previous ms now (gl_ring l)
                     in if dropped then session_ring_changed (l\<lparr>gl_ring := ring\<rparr>) else l)
               else l);
          l = (if via \<noteq> ToIdentity then end_grant_wait now machine True l else l);
          l = foldl (\<lambda>l c. sign_and_publish now machine c l) l sends
      in grant_session_key_if_due kp now machine l)"

section \<open>Invariant\<close>

definition loop_ok :: "nat \<Rightarrow> string \<Rightarrow> Keypair set \<Rightarrow> GrantLoop \<Rightarrow> bool" where
  "loop_ok now first fresh l = (keys_ok (gl_ring l) (gl_machines l) now \<and> kr_first_pubkey_hex (gl_ring l) = first
     \<and> pk_session_pubkey_hex (gl_keys l) = key_pubkey (kr_current (gl_ring l)) \<and> pk_session_expires_at (gl_keys l) = sk_expires_at (kr_current (gl_ring l))
     \<and> (\<forall>kp\<in>fresh. unused_key kp (gl_ring l) (gl_machines l)))"

text \<open>Only the ring, the keys and the machines matter.\<close>

lemma loop_ok_cong:
  "gl_ring l' = gl_ring l \<Longrightarrow> gl_keys l' = gl_keys l \<Longrightarrow> gl_machines l' = gl_machines l \<Longrightarrow> loop_ok now first fresh l' = loop_ok now first fresh l"
  by (simp add: loop_ok_def)

lemma put_job_simps [simp]:
  "gl_ring (put_job j l) = gl_ring l" "gl_keys (put_job j l) = gl_keys l" "gl_machines (put_job j l) = gl_machines l"
  "gl_waits (put_job j l) = gl_waits l" "gl_attempts (put_job j l) = gl_attempts l" "gl_jobs (put_job j l) = gl_jobs l @ [j]"
  by (simp_all add: put_job_def)

lemma loop_ok_put_job [simp]: "loop_ok now first fresh (put_job j l) = loop_ok now first fresh l"
  by (simp add: loop_ok_def)

lemma loop_ok_sent:
  assumes "loop_ok now first fresh l"
  shows "loop_ok now first fresh (l\<lparr>gl_machines := snd (note_session_grant_sent machine (grant_sent (gl_keys l) now') (gl_machines l))\<rparr>)"
proof -
  have "unused_key kp (gl_ring l) (snd (note_session_grant_sent machine (grant_sent (gl_keys l) now') (gl_machines l)))" if "kp \<in> fresh" for kp
    using assms that by (auto simp: loop_ok_def unused_key_def note_session_grant_sent_def grant_sent_def split: option.splits if_splits)
  with assms keys_ok_sent show ?thesis by (auto simp: loop_ok_def)
qed

lemma grant_if_due_frame: "gl_ring (grant_if_due now machine l) = gl_ring l" "gl_keys (grant_if_due now machine l) = gl_keys l"
  "gl_machines (grant_if_due now machine l) \<in> {gl_machines l, snd (note_session_grant_sent machine (grant_sent (gl_keys l) now) (gl_machines l))}"
  by (simp_all add: grant_if_due_def Let_def)

lemma loop_ok_grant [intro]: "loop_ok now first fresh l \<Longrightarrow> loop_ok now first fresh (grant_if_due now machine l)"
  using grant_if_due_frame [of now machine l] loop_ok_sent [of now first fresh l machine now]
  by (elim insertE emptyE) (simp_all add: loop_ok_def)

lemma loop_ok_publish [intro]: "loop_ok now first fresh l \<Longrightarrow> loop_ok now first fresh (sign_and_publish now machine c l)"
proof -
  assume ok: "loop_ok now first fresh l"
  have "loop_ok now first fresh (snd (hold_for_grant now machine cipher c l))" for cipher
    using ok loop_ok_grant [OF ok, of machine] by (auto simp: hold_for_grant_def Let_def loop_ok_def split: option.split)
  then show ?thesis by (auto simp: sign_and_publish_def Let_def split: prod.split option.split) (metis snd_conv)+
qed

lemma loop_ok_foldl: "(\<And>x l. loop_ok now first fresh l \<Longrightarrow> loop_ok now first fresh (f l x)) \<Longrightarrow> loop_ok now first fresh l \<Longrightarrow> loop_ok now first fresh (foldl f l xs)"
  by (induction xs arbitrary: l) auto

lemma loop_ok_end [intro]: "loop_ok now first fresh l \<Longrightarrow> loop_ok now first fresh (end_grant_wait now machine confirmed l)"
proof -
  assume ok: "loop_ok now first fresh l"
  then have "loop_ok now first fresh (l\<lparr>gl_waits := ws\<rparr>)" for ws by (simp add: loop_ok_def)
  then show ?thesis using ok
    by (auto simp: end_grant_wait_def Let_def intro!: loop_ok_foldl split: option.split)
qed

lemma loop_ok_heard:
  assumes "loop_ok now first fresh l" "note_heard_via machine via created_at (gl_machines l) = (noted, ms)"
    and "\<And>key. via = ToSessionKey key \<Longrightarrow> ring_key (gl_ring l) key now \<noteq> None"
  shows "loop_ok now first fresh (l\<lparr>gl_machines := ms\<rparr>)"
proof -
  have "unused_key kp (gl_ring l) ms" if "unused_key kp (gl_ring l) (gl_machines l)" for kp
    using assms(2) that by (auto simp: note_heard_via_def unused_key_def split: option.splits Recipient.splits if_splits)
  with assms keys_ok_heard [OF _ assms(2,3)] show ?thesis by (auto simp: loop_ok_def)
qed

lemma loop_ok_ring_changed:
  assumes "keys_ok (gl_ring l) (gl_machines l) now" "kr_first_pubkey_hex (gl_ring l) = first" "\<forall>kp\<in>fresh. unused_key kp (gl_ring l) (gl_machines l)"
    and "pk_session_pubkey_hex (gl_keys l) = key_pubkey (kr_current (gl_ring l)) \<Longrightarrow> pk_session_expires_at (gl_keys l) = sk_expires_at (kr_current (gl_ring l))"
  shows "loop_ok now first fresh (session_ring_changed l)"
  using assms by (simp add: session_ring_changed_def loop_ok_def phone_keys_new_def)

lemma loop_ok_drop:
  assumes "loop_ok now first fresh l" "drop_unused_previous (gl_machines l) now (gl_ring l) = (dropped, ring)"
  shows "loop_ok now first fresh (session_ring_changed (l\<lparr>gl_ring := ring\<rparr>))"
  using assms keys_ok_drop [OF _ assms(2)] by (intro loop_ok_ring_changed) (auto simp: loop_ok_def unused_key_def)

lemma loop_ok_rotate:
  assumes "loop_ok now first {kp} l"
  shows "loop_ok now first {} (rotate_session_key_if_due kp now l)"
proof -
  obtain changed ring where r: "rotate_if_due kp now (gl_ring l) = (changed, ring)" by fastforce
  obtain dropped ring' where d: "drop_unused_previous (gl_machines l) now ring = (dropped, ring')" by fastforce
  have ok: "keys_ok (gl_ring l) (gl_machines l) now" "unused_key kp (gl_ring l) (gl_machines l)" using assms by (simp_all add: loop_ok_def)
  note rot = keys_ok_rotate [OF ok r]
  have ring': "keys_ok ring' (gl_machines l) now" "kr_current ring' = kr_current ring"
    "kr_first_pubkey_hex ring' = first" using keys_ok_drop [OF _ d] rot assms by (auto simp: loop_ok_def)
  have "kr_current ring = fresh_key kp now" if changed using r that by (auto simp: rotate_if_due_def Let_def split: if_splits)
  then have "key_pubkey (kr_current ring') \<noteq> key_pubkey (kr_current (gl_ring l))" if changed
    using ok(2) that ring'(2) by (auto simp: unused_key_def fresh_key_def key_pubkey_def)
  moreover have "loop_ok now first {} l" using assms by (simp add: loop_ok_def)
  ultimately show ?thesis using assms ring'(1,3) r d
    by (auto simp: rotate_session_key_if_due_def intro!: loop_ok_ring_changed) (auto simp: loop_ok_def)
qed

lemma loop_ok_message:
  assumes ok: "loop_ok now first {kp} l" and held: "\<And>key. via = ToSessionKey key \<Longrightarrow> ring_key (gl_ring l) key now \<noteq> None"
  shows "loop_ok now first {} (on_message_keys kp now machine via created_at pair_ack sends l)"
proof -
  obtain noted ms where n: "note_heard_via machine via created_at (gl_machines l) = (noted, ms)" by fastforce
  define l0 where "l0 = (if via = ToIdentity \<and> pair_ack then l\<lparr>gl_attempts := om_put machine now (gl_attempts l)\<rparr> else l)"
  have l0: "gl_ring l0 = gl_ring l" "gl_machines l0 = gl_machines l" "loop_ok now first {kp} l0"
    using ok by (simp_all add: l0_def loop_ok_def)
  define l1 where "l1 = l0\<lparr>gl_machines := ms\<rparr>"
  have l1: "loop_ok now first {kp} l1" "gl_machines l1 = ms"
    using loop_ok_heard [OF l0(3)] n l0 held by (simp_all add: l1_def)
  define l2 where "l2 = (if noted then (let (dropped, ring) = drop_unused_previous ms now (gl_ring l1)
      in if dropped then session_ring_changed (l1\<lparr>gl_ring := ring\<rparr>) else l1) else l1)"
  have l2: "loop_ok now first {kp} l2"
    using l1 loop_ok_drop [OF l1(1)] by (auto simp: l2_def split: prod.split)
  define l3 where "l3 = (if via \<noteq> ToIdentity then end_grant_wait now machine True l2 else l2)"
  have "loop_ok now first {kp} (foldl (\<lambda>l c. sign_and_publish now machine c l) l3 sends)"
    using l2 by (intro loop_ok_foldl) (auto simp: l3_def)
  then have "loop_ok now first {} (grant_session_key_if_due kp now machine (foldl (\<lambda>l c. sign_and_publish now machine c l) l3 sends))"
    unfolding grant_session_key_if_due_def by (intro loop_ok_grant loop_ok_rotate)
  then show ?thesis
    unfolding on_message_keys_def Let_def l0_def [symmetric] n l0(2) prod.case l1_def [symmetric] l2_def [unfolded Let_def, symmetric] l3_def [symmetric]
    by simp
qed

lemma loop_ok_copy: "loop_ok now first {} l \<Longrightarrow> loop_ok now first {} (on_identity_copy now event l)"
proof -
  assume ok: "loop_ok now first {} l"
  let ?m = "ne_pubkey event"
  obtain lost ms where n: "note_heard_via ?m ToIdentity (nat (ne_created_at event)) (gl_machines l) = (lost, ms)" by fastforce
  have l1: "loop_ok now first {} (l\<lparr>gl_machines := ms\<rparr>)" by (rule loop_ok_heard [OF ok n]) simp
  define l2 where "l2 = (if lost then l\<lparr>gl_machines := ms, gl_attempts := om_del ?m (gl_attempts l)\<rparr> else l\<lparr>gl_machines := ms\<rparr>)"
  have "loop_ok now first {} l2" using l1 by (simp add: l2_def loop_ok_def)
  then have "loop_ok now first {} (grant_if_due now ?m l2)" by blast
  then have l3: "loop_ok now first {} (grant_if_due now ?m l2)"
    "loop_ok now first {} ((grant_if_due now ?m l2)\<lparr>gl_waits := ws\<rparr>)" for ws by (simp_all add: loop_ok_def)
  have "on_identity_copy now event l \<in> insert (grant_if_due now ?m l2) (insert (put_job (DecryptJob event) (grant_if_due now ?m l2))
      (range (\<lambda>ws. (grant_if_due now ?m l2)\<lparr>gl_waits := ws\<rparr>)))"
    by (cases lost) (auto simp: on_identity_copy_def n l2_def Let_def split: option.split)
  with l3 show ?thesis by auto
qed

section \<open>Runs\<close>

text \<open>A start of the app with nothing stored, and one on the stored ring; the machines are stored too, waits are not.\<close>

definition loop_start :: "string \<Rightarrow> string option \<Rightarrow> Keypair \<Rightarrow> nat \<Rightarrow> GrantLoop" where
  "loop_start identity label kp now =
     (let ring = ring_single (fresh_key kp now)
      in \<lparr>gl_ring = ring, gl_keys = phone_keys_new identity (kr_current ring) label, gl_machines = [], gl_attempts = [], gl_waits = [],
          gl_seq = 0, gl_jobs = []\<rparr>)"

definition loop_restart :: "(string \<Rightarrow> StoredRing option) \<Rightarrow> (string \<Rightarrow> Keypair option) \<Rightarrow> Keypair \<Rightarrow> string \<Rightarrow> nat \<Rightarrow> GrantLoop \<Rightarrow> GrantLoop" where
  "loop_restart from_json from_secret kp stored now l =
     (let (ring, changed) = ring_load from_json from_secret kp (Some stored) now
      in l\<lparr>gl_ring := ring, gl_keys := phone_keys_new (pk_identity_pubkey_hex (gl_keys l)) (kr_current ring) (pk_device_label (gl_keys l)),
          gl_attempts := [], gl_waits := [], gl_seq := 0, gl_jobs := []\<rparr>)"

text \<open>The loop over time: commands, publish outcomes, waits that run out, copies and messages, rotations with a fresh key,
  machines that are paired, listed and removed. A message counts as encrypted to a session key only if a live key of the
  ring decrypted it.\<close>

inductive loop_run :: "nat \<Rightarrow> GrantLoop \<Rightarrow> nat \<Rightarrow> GrantLoop \<Rightarrow> bool" for t0 l0 where
  start: "loop_run t0 l0 t0 l0"
| later: "loop_run t0 l0 t l \<Longrightarrow> t \<le> t' \<Longrightarrow> loop_run t0 l0 t' l"
| sends: "loop_run t0 l0 t l \<Longrightarrow> loop_run t0 l0 t (sign_and_publish t machine c l)"
| published: "loop_run t0 l0 t l \<Longrightarrow> loop_run t0 l0 t (on_grant_published t machine seq delivered l)"
| lapses: "loop_run t0 l0 t l \<Longrightarrow> loop_run t0 l0 t (on_grant_wait_over t machine seq l)"
| copy: "loop_run t0 l0 t l \<Longrightarrow> loop_run t0 l0 t (on_identity_copy t event l)"
| hears: "loop_run t0 l0 t l \<Longrightarrow> unused_key kp (gl_ring l) (gl_machines l) \<Longrightarrow>
    (case via of ToSessionKey key \<Rightarrow> ring_key (gl_ring l) key t \<noteq> None | ToIdentity \<Rightarrow> True) \<Longrightarrow>
    loop_run t0 l0 t (on_message_keys kp t machine via created_at pair_ack sends l)"
| rotates: "loop_run t0 l0 t l \<Longrightarrow> unused_key kp (gl_ring l) (gl_machines l) \<Longrightarrow>
    loop_run t0 l0 t (grant_session_key_if_due kp t machine l)"
| restarts: "loop_run t0 l0 t l \<Longrightarrow> unused_key kp (gl_ring l) (gl_machines l) \<Longrightarrow>
    from_json (ring_encode to_json (gl_ring l)) = Some (ring_stored (gl_ring l)) \<Longrightarrow>
    list_all (\<lambda>k. from_secret (kp_secret_hex (sk_keypair k)) = Some (sk_keypair k)) (ring_keys (gl_ring l)) \<Longrightarrow>
    loop_run t0 l0 t (loop_restart from_json from_secret kp (ring_encode to_json (gl_ring l)) t l)"
| pairs: "loop_run t0 l0 t l \<Longrightarrow> om_get (gl_machines l) machine = None \<Longrightarrow>
    loop_run t0 l0 t (l\<lparr>gl_machines := snd (note_session_grant_sent machine (grant_sent (gl_keys l) t)
      (om_put machine \<lparr>mk_capabilities = [], mk_last_heartbeat_at = None, mk_session_grant = None, mk_session_grant_sent = None\<rparr> (gl_machines l)))\<rparr>)"
| listed: "loop_run t0 l0 t l \<Longrightarrow> om_get (gl_machines l) machine = Some m \<Longrightarrow>
    loop_run t0 l0 t (l\<lparr>gl_machines := om_put machine (m\<lparr>mk_capabilities := caps, mk_last_heartbeat_at := Some t\<rparr>) (gl_machines l)\<rparr>)"
| removed: "loop_run t0 l0 t l \<Longrightarrow> loop_run t0 l0 t (l\<lparr>gl_machines := om_del machine (gl_machines l)\<rparr>)"

lemma loop_ok_fresh: "loop_ok now first {} l \<Longrightarrow> unused_key kp (gl_ring l) (gl_machines l) \<Longrightarrow> loop_ok now first {kp} l"
  by (simp add: loop_ok_def)

lemma loop_ok_run:
  assumes "loop_run t0 l0 t l" "loop_ok t0 first {} l0"
  shows "loop_ok t first {} l"
  using assms
proof (induction rule: loop_run.induct)
  case (later t l t')
  then show ?case using keys_ok_later by (auto simp: loop_ok_def)
next
  case (published t l machine seq delivered)
  then have "loop_ok t first {} (l\<lparr>gl_waits := ws\<rparr>)" for ws by (simp add: loop_ok_def)
  with published show ?case by (auto simp: on_grant_published_def split: option.split)
next
  case (lapses t l machine seq)
  then show ?case by (auto simp: on_grant_wait_over_def split: option.split)
next
  case (hears t l kp via machine created_at pair_ack sends)
  then show ?case by (intro loop_ok_message loop_ok_fresh) (auto split: Recipient.splits)
next
  case (rotates t l kp machine)
  then show ?case using loop_ok_rotate [OF loop_ok_fresh] by (auto simp: grant_session_key_if_due_def)
next
  case (restarts t l kp from_json to_json from_secret)
  have "ring_load from_json from_secret kp (Some (ring_encode to_json (gl_ring l))) t = prod.swap (rotate_if_due kp t (gl_ring l))"
    using read_ring_stored [OF restarts.hyps(4)] restarts.hyps(3) by (simp add: ring_load_def case_prod_beta prod_eq_iff)
  moreover have "keys_ok (snd (rotate_if_due kp t (gl_ring l))) (gl_machines l) t \<and> kr_first_pubkey_hex (snd (rotate_if_due kp t (gl_ring l))) = first"
    using keys_ok_rotate [of "gl_ring l" "gl_machines l" t kp] restarts by (metis loop_ok_def prod.collapse)
  ultimately show ?case by (simp add: loop_restart_def loop_ok_def phone_keys_new_def case_prod_beta)
next
  case (pairs t l machine)
  let ?m = "\<lparr>mk_capabilities = [], mk_last_heartbeat_at = None, mk_session_grant = None, mk_session_grant_sent = None\<rparr>"
  have "loop_ok t first {} (l\<lparr>gl_machines := om_put machine ?m (gl_machines l)\<rparr>)"
    using pairs by (auto simp: loop_ok_def keys_ok_def split: if_splits)
  from loop_ok_sent [OF this, of machine t] show ?case by simp
next
  case (listed t l machine m caps)
  then show ?case by (fastforce simp: loop_ok_def keys_ok_def split: if_splits)
next
  case (removed t l machine)
  then show ?case by (auto simp: loop_ok_def keys_ok_def split: if_splits)
qed (auto intro: loop_ok_copy)

lemma loop_ok_start: "loop_ok now (kp_pubkey_hex kp) {} (loop_start identity label kp now)"
  by (simp add: loop_ok_def loop_start_def keys_ok_def ring_spaced_def ring_single_def phone_keys_new_def fresh_key_def key_pubkey_def Let_def)

section \<open>How long the current key lasts\<close>

definition lasts :: "nat \<Rightarrow> GrantLoop \<Rightarrow> bool" where
  "lasts until l = (until \<le> sk_expires_at (kr_current (gl_ring l)))"

lemma publish_ring: "gl_ring (sign_and_publish now machine c l) = gl_ring l"
proof -
  have "gl_ring (snd (hold_for_grant now machine cipher c l)) = gl_ring l" for cipher
    using grant_if_due_frame(1) by (simp add: hold_for_grant_def Let_def split: option.split)
  then show ?thesis by (auto simp: sign_and_publish_def Let_def split: prod.split option.split) (metis snd_conv)+
qed

lemma publish_all_ring: "gl_ring (foldl (\<lambda>l c. if P c then l else sign_and_publish now machine c l) l cs) = gl_ring l"
  by (induction cs arbitrary: l) (simp_all add: publish_ring)

lemma end_ring: "gl_ring (end_grant_wait now machine confirmed l) = gl_ring l"
proof -
  have "gl_ring (foldl (\<lambda>l e. if P e then l else put_job (DecryptJob e) l) l' es) = gl_ring l'" for P es l'
    by (induction es arbitrary: l') simp_all
  then show ?thesis by (simp add: end_grant_wait_def publish_all_ring Let_def split: option.split)
qed

lemma copy_ring: "gl_ring (on_identity_copy now event l) = gl_ring l"
  by (auto simp: on_identity_copy_def grant_if_due_frame(1) Let_def split: prod.split option.split)

lemma drop_current: "kr_current (snd (drop_unused_previous ms now ring)) = kr_current ring"
  by (simp add: drop_unused_previous_def Let_def split: option.split)

lemma changed_ring: "gl_ring (session_ring_changed l) = gl_ring l"
  by (simp add: session_ring_changed_def)

lemma rotate_current: "kr_current (gl_ring (rotate_session_key_if_due kp now l)) = kr_current (snd (rotate_if_due kp now (gl_ring l)))"
  by (auto simp: rotate_session_key_if_due_def changed_ring drop_current case_prod_beta rotate_if_due_def Let_def)

lemma rotate_lasts:
  assumes "until \<le> sk_expires_at (kr_current ring)" "until \<le> now div 1000 + GRANT_LIFETIME_SECS"
  shows "until \<le> sk_expires_at (kr_current (snd (rotate_if_due kp now ring)))"
  using assms by (simp add: rotate_if_due_def fresh_key_def Let_def)

lemma message_current: "\<exists>l'. kr_current (gl_ring l') = kr_current (gl_ring l)
    \<and> gl_ring (on_message_keys kp now machine via created_at pair_ack sends l) = gl_ring (rotate_session_key_if_due kp now l')"
proof -
  obtain noted ms where n: "note_heard_via machine via created_at (gl_machines l) = (noted, ms)" by fastforce
  define l0 where "l0 = (if via = ToIdentity \<and> pair_ack then l\<lparr>gl_attempts := om_put machine now (gl_attempts l)\<rparr> else l)"
  have l0: "gl_ring l0 = gl_ring l" "gl_machines l0 = gl_machines l" by (simp_all add: l0_def)
  define l2 where "l2 = (if noted then (let (dropped, ring) = drop_unused_previous ms now (gl_ring (l0\<lparr>gl_machines := ms\<rparr>))
      in if dropped then session_ring_changed (l0\<lparr>gl_machines := ms, gl_ring := ring\<rparr>) else l0\<lparr>gl_machines := ms\<rparr>) else l0\<lparr>gl_machines := ms\<rparr>)"
  have l2: "kr_current (gl_ring l2) = kr_current (gl_ring l)"
    using drop_current [of ms now "gl_ring l"] l0 by (simp add: l2_def changed_ring case_prod_beta)
  define l3 where "l3 = (if via \<noteq> ToIdentity then end_grant_wait now machine True l2 else l2)"
  define l4 where "l4 = foldl (\<lambda>l c. sign_and_publish now machine c l) l3 sends"
  have "gl_ring l4 = gl_ring l2" using publish_all_ring [of "\<lambda>_. False" now machine l3 sends] by (simp add: l4_def l3_def end_ring)
  moreover have "on_message_keys kp now machine via created_at pair_ack sends l = grant_session_key_if_due kp now machine l4"
    unfolding on_message_keys_def Let_def l0_def [symmetric] l0(2) n prod.case l2_def [unfolded Let_def, symmetric] l3_def [symmetric] l4_def ..
  ultimately show ?thesis using l2 grant_if_due_frame(1) by (intro exI [of _ l4]) (simp add: grant_session_key_if_due_def)
qed

text \<open>A key that lasts until some time within a month is only ever followed by one that lasts as long.\<close>

lemma lasts_run:
  assumes "loop_run s l0 t l" "lasts until l0" "until \<le> s div 1000 + GRANT_LIFETIME_SECS"
  shows "s \<le> t \<and> lasts until l"
  using assms
proof (induction rule: loop_run.induct)
  case (sends t l machine c)
  then show ?case by (simp add: lasts_def publish_ring)
next
  case (published t l machine seq delivered)
  then show ?case by (auto simp: lasts_def on_grant_published_def end_ring split: option.split)
next
  case (lapses t l machine seq)
  then show ?case by (auto simp: lasts_def on_grant_wait_over_def end_ring split: option.split)
next
  case (copy t l event)
  then show ?case by (simp add: lasts_def copy_ring)
next
  case (hears t l kp via machine created_at pair_ack sends)
  then have "until \<le> t div 1000 + GRANT_LIFETIME_SECS" using div_le_mono [of s t 1000] by simp
  with hears message_current [of l kp t machine via created_at pair_ack sends] show ?case
    using rotate_lasts by (auto simp: lasts_def rotate_current)
next
  case (rotates t l kp machine)
  then have "until \<le> t div 1000 + GRANT_LIFETIME_SECS" using div_le_mono [of s t 1000] by simp
  with rotates rotate_lasts show ?case by (auto simp: lasts_def grant_session_key_if_due_def grant_if_due_frame(1) rotate_current)
next
  case (restarts t l kp from_json to_json from_secret)
  then have "until \<le> t div 1000 + GRANT_LIFETIME_SECS" using div_le_mono [of s t 1000] by simp
  moreover have "ring_load from_json from_secret kp (Some (ring_encode to_json (gl_ring l))) t = prod.swap (rotate_if_due kp t (gl_ring l))"
    using read_ring_stored [OF restarts.hyps(4)] restarts.hyps(3) by (simp add: ring_load_def case_prod_beta prod_eq_iff)
  ultimately show ?case using restarts rotate_lasts by (simp add: lasts_def loop_restart_def case_prod_beta)
qed (simp_all add: lasts_def)

section \<open>Properties\<close>

text \<open>C14: The phone holds every key it is known by. Whatever was granted, confirmed, lost, rotated and stored over any time,
  the key commands to a machine go out under is a live key of the ring, so a confirmed machine is never spoken to with
  the identity by mistake, and the device the bridges know this install as never changes.\<close>

theorem confirmed_key_is_held:
  assumes "loop_run t0 (loop_start identity label kp t0) t l"
  shows "(case session_key_of (gl_machines l) machine t of
       None \<Rightarrow> cipher_for t machine l = IdentityCipher
     | Some k \<Rightarrow> \<exists>key. ring_key (gl_ring l) k t = Some key \<and> key_pubkey key = k \<and> cipher_for t machine l = KeyCipher (sk_keypair key))
   \<and> ring_device_id env (gl_ring l) = device_id env (kp_pubkey_hex kp)"
proof -
  have ok: "loop_ok t (kp_pubkey_hex kp) {} l" by (rule loop_ok_run [OF assms loop_ok_start])
  have "\<exists>key. ring_key (gl_ring l) k t = Some key \<and> key_pubkey key = k" if k: "session_key_of (gl_machines l) machine t = Some k" for k
  proof -
    obtain m g where m: "om_get (gl_machines l) machine = Some m" "mk_session_grant m = Some g" "gr_pubkey_hex g = k" "t div 1000 < gr_expires_at g"
      using k by (fastforce simp: session_key_of_def split: option.splits if_splits)
    then have "grant_held (gl_ring l) t g" using ok keys_okD(1) by (auto simp: loop_ok_def)
    with m(3,4) show ?thesis using ring_key_Some by (auto simp: grant_held_def)
  qed
  moreover have "kr_first_pubkey_hex (gl_ring l) = kp_pubkey_hex kp" using ok by (simp add: loop_ok_def)
  ultimately show ?thesis by (auto simp: cipher_for_def ring_device_id_def split: option.split)
qed

text \<open>C40: Grants are in time while the key's age is looked at. The phone replaces its key with ten days left, and looks whether it
  must at every start, at every intent and after every message it decrypts (\<open>s\<close> is any such time). Whatever
  happens after that, restarts and rotations included, a grant the loop makes by any path is not refused for its expiry
  by the bridge it names, as long as the bridge's clock has not reached ten days after that look and is at
  most an hour and five minutes behind the phone's. Grants made for a copy to the identity or a waiting command do not
  look themselves; one made long after the last look can be refused (\<open>unchecked_grant_refused\<close>).\<close>

theorem grants_are_in_time:
  assumes "loop_run t0 (loop_start identity label kp0 t0) s l0" "unused_key kp (gl_ring l0) (gl_machines l0)"
    and "loop_run s (rotate_session_key_if_due kp s l0) t l"
    and "gl_keys l' = gl_keys l" "gl_jobs (grant_if_due t machine l') = gl_jobs l' @ [CommandJob machine c cipher t]"
    and "en_pubkey_hex e = machine" "now_secs e < s div 1000 + 864000" "t div 1000 \<le> now_secs e + 3900"
  shows "\<exists>g. hc_msg c = SessionKey g \<and> grant_refusal env phone g e \<in> {None, Some NotAKey, Some KeyInUse}"
proof -
  let ?l = "rotate_session_key_if_due kp s l0"
  have "loop_ok s (kp_pubkey_hex kp0) {} l0" by (rule loop_ok_run [OF assms(1) loop_ok_start])
  then have "loop_ok s (kp_pubkey_hex kp0) {} ?l" using loop_ok_rotate loop_ok_fresh assms(2) by blast
  then have ok: "loop_ok t (kp_pubkey_hex kp0) {} l" using loop_ok_run assms(3) by blast
  have "lasts (s div 1000 + RENEW_BEFORE_SECS) ?l"
    by (simp add: lasts_def rotate_current rotate_if_due_def fresh_key_def GRANT_LIFETIME_SECS_def RENEW_BEFORE_SECS_def SESSION_KEY_MAX_LIFETIME_SECS_def Let_def)
  then have "lasts (s div 1000 + RENEW_BEFORE_SECS) l"
    using lasts_run [OF assms(3)] by (simp add: GRANT_LIFETIME_SECS_def RENEW_BEFORE_SECS_def SESSION_KEY_MAX_LIFETIME_SECS_def)
  then have lo: "s div 1000 + RENEW_BEFORE_SECS \<le> pk_session_expires_at (gl_keys l)" using ok by (simp add: loop_ok_def lasts_def)
  have hi: "pk_session_expires_at (gl_keys l) \<le> t div 1000 + GRANT_LIFETIME_SECS" using ok by (simp add: loop_ok_def keys_ok_def)
  have "\<exists>replaces. hc_msg c = SessionKey (grant_for (gl_keys l) machine replaces)"
    using assms(4,5) by (auto simp: grant_if_due_def Let_def split: if_splits)
  then show ?thesis using assms(6-8) lo hi
    by (auto simp: grant_refusal_def grant_for_def GRANT_LIFETIME_SECS_def RENEW_BEFORE_SECS_def SESSION_KEY_MAX_LIFETIME_SECS_def SKEW_SECS_def)
qed

text \<open>A phone paired at its start speaks to the new machine with the identity until the grant is confirmed.\<close>

definition sample_pair :: Keypair where
  "sample_pair = \<lparr>kp_secret_hex = ''s'', kp_pubkey_hex = ''p''\<rparr>"

definition paired_loop :: GrantLoop where
  "paired_loop = (let l = loop_start ''me'' None sample_pair 0 in
     l\<lparr>gl_machines := snd (note_session_grant_sent ''m'' (grant_sent (gl_keys l) 0)
       (om_put ''m'' \<lparr>mk_capabilities = [], mk_last_heartbeat_at = None, mk_session_grant = None, mk_session_grant_sent = None\<rparr> (gl_machines l)))\<rparr>)"

lemma paired_run: "loop_run 0 (loop_start ''me'' None sample_pair 0) 0 paired_loop"
  unfolding paired_loop_def Let_def by (rule loop_run.pairs [OF loop_run.start]) (simp add: loop_start_def Let_def)

lemma paired_loop_simps:
  "gl_jobs paired_loop = []" "gl_waits paired_loop = []" "gl_attempts paired_loop = []" "gl_seq paired_loop = 0"
  "gl_keys paired_loop = phone_keys_new ''me'' (fresh_key sample_pair 0) None" "gl_ring paired_loop = ring_single (fresh_key sample_pair 0)"
  by (simp_all add: paired_loop_def loop_start_def ring_single_def Let_def)

definition first_grant :: HeldCommand where
  "first_grant = \<lparr>hc_msg = SessionKey (grant_for (phone_keys_new ''me'' (fresh_key sample_pair 0) None) ''m'' None),
     hc_reply = Some (GrantReply ''m'' 1), hc_outbox_id = None, hc_quiet = False\<rparr>"

lemma paired_machine: "gl_machines paired_loop = [(''m'', \<lparr>mk_capabilities = [], mk_last_heartbeat_at = None, mk_session_grant = None,
    mk_session_grant_sent = Some (grant_sent (phone_keys_new ''me'' (fresh_key sample_pair 0) None) 0)\<rparr>)]"
  by (simp add: paired_loop_def loop_start_def ring_single_def note_session_grant_sent_def Let_def)

lemma paired_grant: "gl_jobs (grant_if_due now ''m'' paired_loop) = [CommandJob ''m'' first_grant IdentityCipher now]"
  by (simp add: grant_if_due_def paired_loop_simps paired_machine wants_session_grant_def note_session_grant_sent_def cipher_for_def
      session_key_of_def confirmed_session_key_def first_grant_def Let_def)

text \<open>Where nothing looked at the key's age for 31 days, a copy of the machine to the identity is answered with a grant that
  its bridge, whose clock is the phone's, refuses as expired.\<close>

lemma unchecked_grant_refused:
  assumes "now = 31 * 86400 * 1000" "ne_pubkey event = ''m''"
  shows "loop_run 0 (loop_start ''me'' None sample_pair 0) now paired_loop
    \<and> CommandJob ''m'' first_grant IdentityCipher now \<in> set (gl_jobs (on_identity_copy now event paired_loop))
    \<and> (\<exists>g. hc_msg first_grant = SessionKey g
        \<and> grant_refusal sample_env ''me'' g (engine_new ''m'' ''npub'' ''laptop'' [] 600000 60000 default_terminal_config now) = Some AlreadyExpired)"
proof -
  have heard: "note_heard_via ''m'' ToIdentity written (gl_machines paired_loop) = (False, gl_machines paired_loop)" for written
    by (simp add: note_heard_via_def paired_machine)
  have "paired_loop\<lparr>gl_machines := gl_machines paired_loop\<rparr> = paired_loop" by simp
  then have "CommandJob ''m'' first_grant IdentityCipher now \<in> set (gl_jobs (on_identity_copy now event paired_loop))"
    using assms(2) by (simp add: on_identity_copy_def heard paired_grant Let_def split: option.split)
  moreover have "loop_run 0 (loop_start ''me'' None sample_pair 0) now paired_loop" by (rule loop_run.later [OF paired_run]) simp
  ultimately show ?thesis using assms(1)
    by (simp add: first_grant_def grant_for_def phone_keys_new_def fresh_key_def grant_refusal_def engine_new_def now_secs_def sample_env_def
        GRANT_LIFETIME_SECS_def SESSION_KEY_MAX_LIFETIME_SECS_def)
qed

text \<open>The first grant; the bridge's clock is a minute ahead of the phone's.\<close>

theorem grants_are_in_time_witness:
  "\<exists>g. hc_msg first_grant = SessionKey g
    \<and> grant_refusal sample_env ''me'' g (engine_new ''m'' ''npub'' ''laptop'' [] 600000 60000 default_terminal_config 60000) \<in> {None, Some NotAKey, Some KeyInUse}"
proof (rule grants_are_in_time [OF paired_run])
  let ?kp = "\<lparr>kp_secret_hex = ''n'', kp_pubkey_hex = ''q''\<rparr>"
  show "unused_key ?kp (gl_ring paired_loop) (gl_machines paired_loop)"
    by (auto simp: unused_key_def paired_loop_simps paired_machine ring_single_def fresh_key_def key_pubkey_def
        grant_sent_def phone_keys_new_def sample_pair_def split: if_splits)
  have "rotate_session_key_if_due ?kp 0 paired_loop = paired_loop"
    by (simp add: rotate_session_key_if_due_def rotate_if_due_def paired_loop_simps ring_single_def fresh_key_def GRANT_LIFETIME_SECS_def
        RENEW_BEFORE_SECS_def SESSION_KEY_MAX_LIFETIME_SECS_def)
  then show "loop_run 0 (rotate_session_key_if_due ?kp 0 paired_loop) 0 paired_loop" by (simp add: loop_run.start)
  show "gl_jobs (grant_if_due 0 ''m'' paired_loop) = gl_jobs paired_loop @ [CommandJob ''m'' first_grant IdentityCipher 0]"
    by (simp add: paired_grant paired_loop_simps)
qed (simp_all add: engine_new_def now_secs_def)

theorem confirmed_key_is_held_witness:
  "cipher_for 0 ''m'' paired_loop = IdentityCipher \<and> ring_device_id sample_env (gl_ring paired_loop) = device_id sample_env ''p''"
proof -
  have "session_key_of (gl_machines paired_loop) ''m'' 0 = None"
    by (simp add: session_key_of_def paired_loop_def note_session_grant_sent_def loop_start_def Let_def)
  with confirmed_key_is_held [OF paired_run, of "''m''" sample_env] show ?thesis by (simp add: sample_pair_def)
qed

end
