(* ===== verification/GrantWaits.thy ===== *)
theory GrantWaits
  imports GrantLoop "HOL-Library.Sublist" "HOL-Library.Multiset"
begin

text \<open>
  Commands that wait for a grant: none goes twice, none overtakes another, and what is dropped is named: the bare
  refreshes that wait when a key is confirmed, and what waits for a machine that was removed. A wait stands only while
  no confirmed key could be used, so nothing is sent past it.
\<close>

section \<open>What was sent and what waits\<close>

fun job_to :: "string \<Rightarrow> SignerJob \<Rightarrow> HeldCommand option" where
  "job_to machine (CommandJob m c cipher now) = (if m = machine then Some c else None)"
| "job_to machine (DecryptJob e) = None"

definition sent_to :: "string \<Rightarrow> GrantLoop \<Rightarrow> HeldCommand list" where
  "sent_to machine l = somes (map (job_to machine) (gl_jobs l))"

definition held_for :: "string \<Rightarrow> GrantLoop \<Rightarrow> HeldCommand list" where
  "held_for machine l = (case om_get (gl_waits l) machine of Some w \<Rightarrow> gw_commands w | None \<Rightarrow> [])"

text \<open>Commands that may wait: not the grant or a pairing itself. A bare refresh nobody waits for is answered by a confirmed grant.\<close>

definition may_wait :: "HeldCommand \<Rightarrow> bool" where
  "may_wait c = (\<not> passes_grant (hc_msg c))"

definition bare_refresh :: "HeldCommand \<Rightarrow> bool" where
  "bare_refresh c = (hc_msg c = RefreshSessions \<and> hc_reply c = None \<and> hc_outbox_id c = None)"

definition flow :: "string \<Rightarrow> GrantLoop \<Rightarrow> HeldCommand list" where
  "flow machine l = filter may_wait (sent_to machine l @ held_for machine l)"

text \<open>What is dropped of the commands that wait for \<open>m\<close> when the wait of \<open>u\<close> ends.\<close>

definition lost :: "string \<Rightarrow> string \<Rightarrow> bool \<Rightarrow> GrantLoop \<Rightarrow> HeldCommand list" where
  "lost m u confirmed l =
     (if u \<noteq> m then []
      else if om_get (gl_machines l) m = None then filter may_wait (held_for m l)
      else if confirmed then filter bare_refresh (held_for m l) else [])"

text \<open>What is left of a list, in its order, when some of its elements are dropped.\<close>

definition loses :: "'a list \<Rightarrow> 'a list \<Rightarrow> 'a list \<Rightarrow> bool" where
  "loses xs ys ds = (subseq ys xs \<and> mset xs = mset ys + mset ds)"

lemma loses_refl [simp]: "loses xs xs []"
  by (simp add: loses_def)

lemma loses_trans: "loses xs ys ds \<Longrightarrow> loses ys zs ds' \<Longrightarrow> loses xs zs (ds @ ds')"
  by (auto simp: loses_def intro: subseq_order.order_trans)

lemma loses_append: "loses xs ys ds \<Longrightarrow> loses (xs @ zs) (ys @ zs) ds"
  by (simp add: loses_def)

lemma loses_prepend: "loses xs ys ds \<Longrightarrow> loses (zs @ xs) (zs @ ys) ds"
  by (simp add: loses_def subseq_append')

lemma loses_end: "loses (xs @ ds) xs ds"
  by (simp add: loses_def subseq_rev_drop_many)

lemma loses_filter: "loses xs (filter (Not \<circ> P) xs) (filter P xs)"
proof -
  have "mset xs = mset (filter (Not \<circ> P) xs) + mset (filter P xs)" by (induction xs) simp_all
  then show ?thesis by (simp add: loses_def)
qed

definition waits_ok :: "nat \<Rightarrow> GrantLoop \<Rightarrow> bool" where
  "waits_ok now l = (\<forall>machine w. om_get (gl_waits l) machine = Some w \<longrightarrow> session_key_of (gl_machines l) machine now = None)"

lemma sent_put_job: "sent_to machine (put_job j l) = sent_to machine l @ (case job_to machine j of Some c \<Rightarrow> [c] | None \<Rightarrow> [])"
  by (simp add: sent_to_def split: option.split)

lemma held_put_job [simp]: "held_for machine (put_job j l) = held_for machine l"
  by (simp add: held_for_def)

lemma flow_put_decrypt [simp]: "flow machine (put_job (DecryptJob e) l) = flow machine l"
  by (simp add: flow_def sent_put_job)

lemma flow_cong: "gl_jobs l' = gl_jobs l \<Longrightarrow> gl_waits l' = gl_waits l \<Longrightarrow> flow machine l' = flow machine l"
  by (simp add: flow_def sent_to_def held_for_def)

lemma cipher_no_key: "session_key_of (gl_machines l) machine now = None \<Longrightarrow> cipher_for now machine l = IdentityCipher"
  by (simp add: cipher_for_def)

lemma cipher_key:
  assumes "loop_ok now first fresh l" "cipher_for now machine l = IdentityCipher"
  shows "session_key_of (gl_machines l) machine now = None"
proof (rule ccontr)
  assume "session_key_of (gl_machines l) machine now \<noteq> None"
  then obtain m g where m: "om_get (gl_machines l) machine = Some m" "mk_session_grant m = Some g" "now div 1000 < gr_expires_at g"
    "session_key_of (gl_machines l) machine now = Some (gr_pubkey_hex g)"
    by (fastforce simp: session_key_of_def split: option.splits if_splits)
  then have "grant_held (gl_ring l) now g" using assms(1) keys_okD(1) by (auto simp: loop_ok_def)
  with m(3,4) assms(2) show False by (auto simp: grant_held_def cipher_for_def)
qed

lemma session_key_sent [simp]: "session_key_of (snd (note_session_grant_sent u g ms)) machine now = session_key_of ms machine now"
  by (simp add: session_key_of_def note_session_grant_sent_def split: option.split)

lemma session_key_later: "session_key_of ms machine t = None \<Longrightarrow> t \<le> t' \<Longrightarrow> session_key_of ms machine t' = None"
  using div_le_mono [of t t' 1000] by (auto simp: session_key_of_def split: option.splits if_splits)

section \<open>Steps\<close>

text \<open>A grant adds a job of its own and an empty wait.\<close>

lemma grant_flow:
  assumes ok: "loop_ok now first fresh l" and w: "waits_ok now l"
  shows "flow machine (grant_if_due now u l) = flow machine l" "waits_ok now (grant_if_due now u l)"
    "session_key_of (gl_machines (grant_if_due now u l)) machine now = session_key_of (gl_machines l) machine now"
proof -
  define l1 where "l1 = l\<lparr>gl_attempts := om_put u now (gl_attempts l),
    gl_machines := snd (note_session_grant_sent u (grant_sent (gl_keys l) now) (gl_machines l))\<rparr>"
  define grant where "grant = SessionKey (grant_for (gl_keys l1) u (confirmed_session_key (gl_machines l1) u))"
  let ?w = "\<lparr>gw_seq = gl_seq l1 + 1, gw_timer = False, gw_commands = [], gw_events = []\<rparr>"
  have ok1: "loop_ok now first fresh l1" using loop_ok_sent [OF ok, of u now] by (simp add: l1_def loop_ok_def)
  have fl: "flow machine l1 = flow machine l" by (rule flow_cong) (simp_all add: l1_def)
  consider (none) "grant_if_due now u l = l"
    | (key) cipher c where "grant_if_due now u l = put_job (CommandJob u c cipher now) l1" "hc_msg c = grant"
    | (wait) c where "cipher_for now u l1 = IdentityCipher" "om_get (gl_waits l) u = None" "hc_msg c = grant"
        "grant_if_due now u l = put_job (CommandJob u c IdentityCipher now) (l1\<lparr>gl_seq := gl_seq l1 + 1, gl_waits := om_put u ?w (gl_waits l1)\<rparr>)"
  proof (cases "om_get (gl_waits l) u \<noteq> None \<or> \<not> wants_session_grant (gl_machines l) u (kr_current (gl_ring l)) now
      \<or> (case om_get (gl_attempts l) u of None \<Rightarrow> False | Some t \<Rightarrow> now - t < REGRANT_EVERY_MS)")
    case True
    then have "grant_if_due now u l = l" unfolding grant_if_due_def by (rule if_P)
    then show ?thesis by (rule none)
  next
    case False
    then have eval: "grant_if_due now u l = (if cipher_for now u l1 \<noteq> IdentityCipher
        then put_job (CommandJob u \<lparr>hc_msg = grant, hc_reply = None, hc_outbox_id = None, hc_quiet = False\<rparr> (cipher_for now u l1) now) l1
        else put_job (CommandJob u \<lparr>hc_msg = grant, hc_reply = Some (GrantReply u (gl_seq l1 + 1)), hc_outbox_id = None, hc_quiet = False\<rparr>
          (cipher_for now u l1) now) (l1\<lparr>gl_seq := gl_seq l1 + 1, gl_waits := om_put u ?w (gl_waits l1)\<rparr>))"
      unfolding grant_if_due_def Let_def l1_def [symmetric] grant_def by (simp only: if_False refl)
    show ?thesis
    proof (cases "cipher_for now u l1 = IdentityCipher")
      case True
      with eval False show ?thesis by (intro wait [of "\<lparr>hc_msg = grant, hc_reply = Some (GrantReply u (gl_seq l1 + 1)), hc_outbox_id = None, hc_quiet = False\<rparr>"]) auto
    next
      case False
      with eval show ?thesis by (intro key [of "\<lparr>hc_msg = grant, hc_reply = None, hc_outbox_id = None, hc_quiet = False\<rparr>"]) auto
    qed
  qed
  note cases = this
  have grant_job: "filter may_wait (case job_to machine (CommandJob u c cipher now) of Some c \<Rightarrow> [c] | None \<Rightarrow> []) = []"
    if "hc_msg c = grant" for c cipher using that by (simp add: may_wait_def grant_def)
  have keys: "session_key_of (gl_machines l1) m now = session_key_of (gl_machines l) m now" for m by (simp add: l1_def)
  from cases show "session_key_of (gl_machines (grant_if_due now u l)) machine now = session_key_of (gl_machines l) machine now"
    by cases (simp_all add: keys)
  from cases show "flow machine (grant_if_due now u l) = flow machine l"
  proof cases
    case (key cipher c)
    then show ?thesis using fl grant_job [OF key(2), of cipher] by (simp add: flow_def sent_put_job)
  next
    case (wait c)
    have "held_for machine (l1\<lparr>gl_seq := gl_seq l1 + 1, gl_waits := om_put u ?w (gl_waits l1)\<rparr>) = held_for machine l1"
      using wait(2) by (auto simp: held_for_def l1_def)
    moreover have "sent_to machine (l1\<lparr>gl_seq := gl_seq l1 + 1, gl_waits := om_put u ?w (gl_waits l1)\<rparr>) = sent_to machine l1" by (simp add: sent_to_def)
    ultimately show ?thesis using wait(4) fl grant_job [OF wait(3), of IdentityCipher] by (simp add: flow_def sent_put_job)
  qed simp
  from cases show "waits_ok now (grant_if_due now u l)"
  proof cases
    case (wait c)
    with cipher_key [OF ok1 wait(1)] w keys show ?thesis by (auto simp: waits_ok_def l1_def split: if_splits)
  qed (use w keys in \<open>auto simp: waits_ok_def l1_def\<close>)
qed

lemma waits_ok_put_job [simp]: "waits_ok now (put_job j l) = waits_ok now l"
  by (simp add: waits_ok_def)

lemma publish_flow:
  assumes ok: "loop_ok now first fresh l" and w: "waits_ok now l"
  shows "flow machine (sign_and_publish now u c l) = flow machine l @ (if u = machine then filter may_wait [c] else [])
    \<and> waits_ok now (sign_and_publish now u c l)"
proof -
  define cipher where "cipher = (case hc_msg c of PairRequest m \<Rightarrow> IdentityCipher | _ \<Rightarrow> cipher_for now u l)"
  have pub: "sign_and_publish now u c l = (case hold_for_grant now u cipher c l of
      (Some c, l) \<Rightarrow> put_job (CommandJob u c cipher now) l | (None, l) \<Rightarrow> l)"
    unfolding sign_and_publish_def Let_def cipher_def [symmetric] ..
  consider (pass) "passes_grant (hc_msg c)" | (key) "\<not> passes_grant (hc_msg c)" "cipher \<noteq> IdentityCipher"
    | (hold) "\<not> passes_grant (hc_msg c)" "cipher = IdentityCipher" by blast
  then show ?thesis
  proof cases
    case pass
    then have "sign_and_publish now u c l = put_job (CommandJob u c cipher now) l" by (simp add: pub hold_for_grant_def)
    with pass w show ?thesis by (simp add: flow_def sent_put_job may_wait_def)
  next
    case key
    then have "cipher_for now u l \<noteq> IdentityCipher" by (auto simp: cipher_def split: PhoneToBridge.splits)
    then have "om_get (gl_waits l) u = None" using cipher_no_key w unfolding waits_ok_def by (metis option.exhaust)
    then have "held_for u l = []" by (simp add: held_for_def)
    moreover have "sign_and_publish now u c l = put_job (CommandJob u c cipher now) l" using key by (simp add: pub hold_for_grant_def)
    ultimately show ?thesis using w by (auto simp: flow_def sent_put_job)
  next
    case hold
    define l1 where "l1 = grant_if_due now u l"
    note l1 = grant_flow [OF ok w, where u = u, folded l1_def]
    show ?thesis
    proof (cases "om_get (gl_waits l1) u")
      case None
      then have "sign_and_publish now u c l = put_job (CommandJob u c cipher now) l1" "held_for u l1 = []"
        using hold by (simp_all add: pub hold_for_grant_def l1_def [symmetric] held_for_def)
      then show ?thesis using l1(1) [of machine, symmetric] l1(2) by (auto simp: flow_def sent_put_job)
    next
      case (Some wait)
      define l2 where "l2 = l1\<lparr>gl_waits := om_put u (wait\<lparr>gw_commands := gw_commands wait @ [c]\<rparr>) (gl_waits l1)\<rparr>"
      have "sign_and_publish now u c l = l2" using hold Some by (simp add: pub hold_for_grant_def l1_def [symmetric] l2_def)
      moreover have "held_for machine l2 = held_for machine l1 @ (if u = machine then [c] else [])" using Some by (auto simp: held_for_def l2_def)
      moreover have "sent_to machine l2 = sent_to machine l1" by (simp add: sent_to_def l2_def)
      moreover have "waits_ok now l2" using l1(2) Some by (auto simp: waits_ok_def l2_def)
      ultimately show ?thesis using l1(1) [of machine, symmetric] by (simp add: flow_def)
    qed
  qed
qed

lemma publish_all_flow:
  assumes "loop_ok now first fresh l" "waits_ok now l"
  shows "flow machine (foldl (\<lambda>l c. if P c then l else sign_and_publish now u c l) l cs) =
      flow machine l @ (if u = machine then filter may_wait (filter (Not \<circ> P) cs) else [])
    \<and> waits_ok now (foldl (\<lambda>l c. if P c then l else sign_and_publish now u c l) l cs)"
  using assms
proof (induction cs arbitrary: l)
  case (Cons c cs)
  show ?case
  proof (cases "P c")
    case True
    with Cons show ?thesis by simp
  next
    case False
    have "loop_ok now first fresh (sign_and_publish now u c l)" using Cons.prems(1) by blast
    then show ?thesis using Cons.IH [of "sign_and_publish now u c l"] publish_flow [OF Cons.prems, of machine u c] False by simp
  qed
qed simp

lemma decrypt_all_flow:
  "flow machine (foldl (\<lambda>l e. if P e then l else put_job (DecryptJob e) l) l es) = flow machine l
   \<and> waits_ok now (foldl (\<lambda>l e. if P e then l else put_job (DecryptJob e) l) l es) = waits_ok now l
   \<and> gl_waits (foldl (\<lambda>l e. if P e then l else put_job (DecryptJob e) l) l es) = gl_waits l"
  by (induction es arbitrary: l) simp_all

lemma answered_bare: "answered confirmed c = (confirmed \<and> bare_refresh c)"
  by (auto simp: answered_def bare_refresh_def)

lemma end_flow:
  assumes ok: "loop_ok now first fresh l" and w: "waits_ok now (l\<lparr>gl_waits := om_del u (gl_waits l)\<rparr>)"
  shows "loses (flow machine l) (flow machine (end_grant_wait now u confirmed l)) (lost machine u confirmed l)
    \<and> waits_ok now (end_grant_wait now u confirmed l)"
proof (cases "om_get (gl_waits l) u")
  case None
  then have "waits_ok now l" using w by (auto simp: waits_ok_def split: if_splits)
  moreover have "lost machine u confirmed l = []" using None by (auto simp: lost_def held_for_def)
  ultimately show ?thesis using None by (simp add: end_grant_wait_def)
next
  case (Some wait)
  define l1 where "l1 = l\<lparr>gl_waits := om_del u (gl_waits l)\<rparr>"
  have ok1: "loop_ok now first fresh l1" using ok by (simp add: l1_def loop_ok_def)
  have flow1: "flow machine l = flow machine l1 @ (if u = machine then filter may_wait (gw_commands wait) else [])"
    using Some by (auto simp: flow_def sent_to_def held_for_def l1_def)
  have w1: "waits_ok now l1" using w by (simp add: l1_def)
  have held: "held_for u l = gw_commands wait" using Some by (simp add: held_for_def)
  show ?thesis
  proof (cases "om_get (gl_machines l) u = None")
    case True
    then have "end_grant_wait now u confirmed l = l1" using Some by (auto simp: end_grant_wait_def l1_def Let_def)
    with flow1 w1 True held show ?thesis by (auto simp: lost_def loses_end)
  next
    case False
    then have gm: "om_get (gl_machines l1) u \<noteq> None" by (simp add: l1_def)
    define l2 where "l2 = foldl (\<lambda>l c. if answered confirmed c then l else sign_and_publish now u c l) l1 (gw_commands wait)"
    let ?cs = "filter may_wait (gw_commands wait)"
    have "loses ?cs (filter may_wait (filter (Not \<circ> answered confirmed) (gw_commands wait)))
        (if confirmed then filter bare_refresh (gw_commands wait) else [])"
    proof -
      have "(may_wait c \<and> bare_refresh c) = bare_refresh c" for c by (auto simp: bare_refresh_def may_wait_def)
      then have "filter bare_refresh ?cs = filter bare_refresh (gw_commands wait)" by simp
      moreover have "filter may_wait (filter (Not \<circ> bare_refresh) (gw_commands wait)) = filter (Not \<circ> bare_refresh) ?cs"
        by (simp add: conj_commute)
      ultimately show ?thesis using loses_filter [of ?cs bare_refresh] by (cases confirmed) (simp_all add: answered_bare comp_def)
    qed
    then have l2: "loses (flow machine l) (flow machine l2) (lost machine u confirmed l)" "waits_ok now l2"
      using publish_all_flow [OF ok1 w1, of machine "answered confirmed" u "gw_commands wait"] flow1 held False
      by (auto simp: l2_def lost_def intro: loses_prepend)
    have "end_grant_wait now u confirmed l = (if confirmed then l2
        else foldl (\<lambda>l e. if superseded (gw_events wait) e then l else put_job (DecryptJob e) l) l2 (gw_events wait))"
      using gm unfolding end_grant_wait_def Some option.case Let_def l1_def [symmetric] by (auto simp: l2_def)
    with l2 show ?thesis using decrypt_all_flow [of machine "superseded (gw_events wait)" l2 "gw_events wait" now] by (cases confirmed) simp_all
  qed
qed

lemma waits_ok_del: "waits_ok now l \<Longrightarrow> waits_ok now (l\<lparr>gl_waits := om_del u (gl_waits l)\<rparr>)"
  by (simp add: waits_ok_def)

lemma waits_ok_waits: "waits_ok now l \<Longrightarrow> om_get (gl_waits l) u = Some w \<Longrightarrow> waits_ok now (l\<lparr>gl_waits := om_put u w' (gl_waits l)\<rparr>)"
  by (auto simp: waits_ok_def)

lemma heard_keys:
  assumes "note_heard_via u via created_at ms = (noted, ms')"
  shows "machine \<noteq> u \<or> via = ToIdentity \<Longrightarrow> session_key_of ms machine now = None \<Longrightarrow> session_key_of ms' machine now = None"
    and "om_get ms' machine = None \<longleftrightarrow> om_get ms machine = None"
  using assms by (auto simp: note_heard_via_def session_key_of_def split: option.splits Recipient.splits if_splits)

lemma ring_changed_frame [simp]: "gl_jobs (session_ring_changed l) = gl_jobs l" "gl_waits (session_ring_changed l) = gl_waits l"
  "gl_machines (session_ring_changed l) = gl_machines l"
  by (simp_all add: session_ring_changed_def)

lemma rotate_frame [simp]: "gl_jobs (rotate_session_key_if_due kp now l) = gl_jobs l" "gl_waits (rotate_session_key_if_due kp now l) = gl_waits l"
  "gl_machines (rotate_session_key_if_due kp now l) = gl_machines l"
  by (simp_all add: rotate_session_key_if_due_def case_prod_beta Let_def)

lemma waits_ok_cong: "gl_waits l' = gl_waits l \<Longrightarrow> gl_machines l' = gl_machines l \<Longrightarrow> waits_ok now l' = waits_ok now l"
  by (simp add: waits_ok_def)

lemma rotate_flow:
  assumes "loop_ok now first {kp} l" "waits_ok now l"
  shows "flow machine (grant_session_key_if_due kp now u l) = flow machine l \<and> waits_ok now (grant_session_key_if_due kp now u l)"
proof -
  let ?l = "rotate_session_key_if_due kp now l"
  have "loop_ok now first {} ?l" "waits_ok now ?l" using loop_ok_rotate [OF assms(1)] assms(2) waits_ok_cong [of ?l l] by simp_all
  from grant_flow [OF this] flow_cong [of ?l l] show ?thesis by (simp add: grant_session_key_if_due_def)
qed

lemma message_flow:
  assumes ok: "loop_ok now first {kp} l" and held: "\<And>key. via = ToSessionKey key \<Longrightarrow> ring_key (gl_ring l) key now \<noteq> None"
    and w: "waits_ok now l"
  shows "loses (flow machine l @ (if u = machine then filter may_wait sends else []))
      (flow machine (on_message_keys kp now u via created_at pair_ack sends l)) (if via \<noteq> ToIdentity then lost machine u True l else [])
    \<and> waits_ok now (on_message_keys kp now u via created_at pair_ack sends l)"
proof -
  obtain noted ms where n: "note_heard_via u via created_at (gl_machines l) = (noted, ms)" by fastforce
  define l0 where "l0 = (if via = ToIdentity \<and> pair_ack then l\<lparr>gl_attempts := om_put u now (gl_attempts l)\<rparr> else l)"
  have l0: "gl_ring l0 = gl_ring l" "gl_machines l0 = gl_machines l" "loop_ok now first {kp} l0" "gl_jobs l0 = gl_jobs l" "gl_waits l0 = gl_waits l"
    using ok by (simp_all add: l0_def loop_ok_def)
  define l1 where "l1 = l0\<lparr>gl_machines := ms\<rparr>"
  have l1: "loop_ok now first {kp} l1" "gl_machines l1 = ms" "gl_jobs l1 = gl_jobs l" "gl_waits l1 = gl_waits l"
    using loop_ok_heard [OF l0(3)] n l0 held by (simp_all add: l1_def)
  define l2 where "l2 = (if noted then (let (dropped, ring) = drop_unused_previous ms now (gl_ring l1)
      in if dropped then session_ring_changed (l1\<lparr>gl_ring := ring\<rparr>) else l1) else l1)"
  have l2: "loop_ok now first {kp} l2" using l1 loop_ok_drop [OF l1(1)] by (auto simp: l2_def split: prod.split)
  have l2': "gl_jobs l2 = gl_jobs l" "gl_waits l2 = gl_waits l" "gl_machines l2 = ms" using l1 by (auto simp: l2_def split: prod.split)
  define l3 where "l3 = (if via \<noteq> ToIdentity then end_grant_wait now u True l2 else l2)"
  have l3: "loop_ok now first {kp} l3" using l2 by (auto simp: l3_def)
  have flow2: "flow machine l2 = flow machine l" by (rule flow_cong) (simp_all add: l2')
  have same: "lost machine u True l2 = lost machine u True l" using heard_keys(2) [OF n, of machine] by (simp add: lost_def held_for_def l2')
  have l3': "loses (flow machine l) (flow machine l3) (if via \<noteq> ToIdentity then lost machine u True l else []) \<and> waits_ok now l3"
  proof (cases "via = ToIdentity")
    case True
    then have "waits_ok now l2" using w heard_keys(1) [OF n] by (simp add: waits_ok_def l2')
    with True flow2 show ?thesis by (simp add: l3_def)
  next
    case False
    have "waits_ok now (l2\<lparr>gl_waits := om_del u (gl_waits l2)\<rparr>)" using w heard_keys(1) [OF n] by (auto simp: waits_ok_def l2')
    from end_flow [OF l2 this, of machine True] False flow2 same show ?thesis by (simp add: l3_def)
  qed
  then have l4: "flow machine (foldl (\<lambda>l c. sign_and_publish now u c l) l3 sends) = flow machine l3 @ (if u = machine then filter may_wait sends else [])"
    "waits_ok now (foldl (\<lambda>l c. sign_and_publish now u c l) l3 sends)"
    using publish_all_flow [OF l3, of machine "\<lambda>_. False" u sends] by (simp_all add: comp_def)
  then have l5: "loses (flow machine l @ (if u = machine then filter may_wait sends else []))
      (flow machine (foldl (\<lambda>l c. sign_and_publish now u c l) l3 sends)) (if via \<noteq> ToIdentity then lost machine u True l else [])"
    using l3' loses_append by metis
  have "loop_ok now first {kp} (foldl (\<lambda>l c. sign_and_publish now u c l) l3 sends)" using l3 by (intro loop_ok_foldl) auto
  from rotate_flow [OF this l4(2), of machine u] l5 show ?thesis
    unfolding on_message_keys_def Let_def l0_def [symmetric] n l0(2) prod.case l1_def [symmetric] l2_def [unfolded Let_def, symmetric] l3_def [symmetric]
    by simp
qed

lemma copy_flow:
  assumes ok: "loop_ok now first {} l" and w: "waits_ok now l"
  shows "flow machine (on_identity_copy now event l) = flow machine l \<and> waits_ok now (on_identity_copy now event l)"
proof -
  let ?u = "ne_pubkey event"
  obtain lost ms where n: "note_heard_via ?u ToIdentity (nat (ne_created_at event)) (gl_machines l) = (lost, ms)" by fastforce
  define l2 where "l2 = (if lost then (l\<lparr>gl_machines := ms\<rparr>)\<lparr>gl_attempts := om_del ?u (gl_attempts (l\<lparr>gl_machines := ms\<rparr>))\<rparr>
    else l\<lparr>gl_machines := ms\<rparr>)"
  have "loop_ok now first {} (l\<lparr>gl_machines := ms\<rparr>)" by (rule loop_ok_heard [OF ok n]) simp
  then have ok2: "loop_ok now first {} l2" by (simp add: l2_def loop_ok_def)
  have w2: "waits_ok now l2" using w heard_keys(1) [OF n] by (simp add: waits_ok_def l2_def)
  define l3 where "l3 = grant_if_due now ?u l2"
  have l3: "flow machine l3 = flow machine l" "waits_ok now l3"
    using grant_flow [OF ok2 w2] flow_cong [of l2 l machine] by (simp_all add: l3_def) (simp add: l2_def)
  have held: "flow machine (l3\<lparr>gl_waits := om_put ?u (wait\<lparr>gw_events := events\<rparr>) (gl_waits l3)\<rparr>) = flow machine l3
      \<and> waits_ok now (l3\<lparr>gl_waits := om_put ?u (wait\<lparr>gw_events := events\<rparr>) (gl_waits l3)\<rparr>)" if "om_get (gl_waits l3) ?u = Some wait" for wait events
    using that waits_ok_waits [OF l3(2) that] by (auto simp: flow_def sent_to_def held_for_def)
  have "on_identity_copy now event l = l3 \<or> on_identity_copy now event l = put_job (DecryptJob event) l3
    \<or> (\<exists>wait events. om_get (gl_waits l3) ?u = Some wait
        \<and> on_identity_copy now event l = l3\<lparr>gl_waits := om_put ?u (wait\<lparr>gw_events := events\<rparr>) (gl_waits l3)\<rparr>)"
    unfolding on_identity_copy_def Let_def n prod.case l2_def [symmetric] l3_def [symmetric] by (auto split: option.split)
  then show ?thesis using l3 held by auto
qed

text \<open>Within the time between two grants to a machine, a wait that ends lets everything go.\<close>

lemma throttled_publish:
  assumes "om_get (gl_attempts l) u = Some a" "now - a < REGRANT_EVERY_MS" "om_get (gl_waits l) u = None"
  shows "gl_attempts (sign_and_publish now u c l) = gl_attempts l \<and> gl_waits (sign_and_publish now u c l) = gl_waits l"
proof -
  have "grant_if_due now u l = l" using assms(1,2) by (simp add: grant_if_due_def)
  then have "snd (hold_for_grant now u cipher c l) = l \<and> fst (hold_for_grant now u cipher c l) = Some c" for cipher
    using assms(3) by (simp add: hold_for_grant_def)
  then have "hold_for_grant now u cipher c l = (Some c, l)" for cipher by (metis prod.collapse)
  then show ?thesis by (simp add: sign_and_publish_def Let_def)
qed

lemma throttled_publish_all:
  assumes "om_get (gl_attempts l) u = Some a" "now - a < REGRANT_EVERY_MS" "om_get (gl_waits l) u = None"
  shows "om_get (gl_waits (foldl (\<lambda>l c. if P c then l else sign_and_publish now u c l) l cs)) u = None"
  using assms
proof (induction cs arbitrary: l)
  case (Cons c cs)
  then show ?case using throttled_publish [OF Cons.prems, of c] by simp
qed simp

lemma end_lets_go:
  assumes "om_get (gl_attempts l) u = Some a" "now - a < REGRANT_EVERY_MS"
  shows "held_for u (end_grant_wait now u confirmed l) = []"
proof (cases "om_get (gl_waits l) u")
  case (Some wait)
  let ?l = "l\<lparr>gl_waits := om_del u (gl_waits l)\<rparr>"
  have "om_get (gl_waits (foldl (\<lambda>l c. if answered confirmed c then l else sign_and_publish now u c l) ?l (gw_commands wait))) u = None"
    using assms by (intro throttled_publish_all) auto
  moreover have "held_for u (foldl (\<lambda>l e. if P e then l else put_job (DecryptJob e) l) l' es) = held_for u l'" for P es l'
    by (induction es arbitrary: l') auto
  ultimately show ?thesis using Some by (auto simp: end_grant_wait_def Let_def held_for_def)
qed (simp add: end_grant_wait_def held_for_def)

section \<open>Runs\<close>

text \<open>The loop between two starts of the app, with the commands given for \<open>m\<close> in order, what was dropped of them, and
  whether \<open>m\<close> was removed. Removing a machine leaves its wait; the wait drops what it holds when it ends.\<close>

definition waits_for :: "string \<Rightarrow> nat \<Rightarrow> GrantLoop \<Rightarrow> bool" where
  "waits_for u seq l = (case om_get (gl_waits l) u of Some w \<Rightarrow> gw_seq w = seq | None \<Rightarrow> False)"

inductive flow_run :: "string \<Rightarrow> nat \<Rightarrow> GrantLoop \<Rightarrow> nat \<Rightarrow> HeldCommand list \<Rightarrow> HeldCommand list \<Rightarrow> bool \<Rightarrow> GrantLoop \<Rightarrow> bool"
  for m t0 l0 where
  f_start: "flow_run m t0 l0 t0 [] [] False l0"
| f_later: "flow_run m t0 l0 t cs ds gone l \<Longrightarrow> t \<le> t' \<Longrightarrow> flow_run m t0 l0 t' cs ds gone l"
| f_sends: "flow_run m t0 l0 t cs ds gone l \<Longrightarrow>
    flow_run m t0 l0 t (cs @ (if u = m then [c] else [])) ds gone (sign_and_publish t u c l)"
| f_published: "flow_run m t0 l0 t cs ds gone l \<Longrightarrow>
    flow_run m t0 l0 t cs (ds @ (if waits_for u seq l \<and> \<not> delivered then lost m u False l else [])) gone
      (on_grant_published t u seq delivered l)"
| f_lapses: "flow_run m t0 l0 t cs ds gone l \<Longrightarrow>
    flow_run m t0 l0 t cs (ds @ (if waits_for u seq l then lost m u False l else [])) gone (on_grant_wait_over t u seq l)"
| f_copy: "flow_run m t0 l0 t cs ds gone l \<Longrightarrow> flow_run m t0 l0 t cs ds gone (on_identity_copy t event l)"
| f_hears: "flow_run m t0 l0 t cs ds gone l \<Longrightarrow> unused_key kp (gl_ring l) (gl_machines l) \<Longrightarrow>
    (case via of ToSessionKey key \<Rightarrow> ring_key (gl_ring l) key t \<noteq> None | ToIdentity \<Rightarrow> True) \<Longrightarrow>
    flow_run m t0 l0 t (cs @ (if u = m then sends else [])) (ds @ (if via \<noteq> ToIdentity then lost m u True l else [])) gone
      (on_message_keys kp t u via created_at pair_ack sends l)"
| f_rotates: "flow_run m t0 l0 t cs ds gone l \<Longrightarrow> unused_key kp (gl_ring l) (gl_machines l) \<Longrightarrow>
    flow_run m t0 l0 t cs ds gone (grant_session_key_if_due kp t u l)"
| f_pairs: "flow_run m t0 l0 t cs ds gone l \<Longrightarrow> om_get (gl_machines l) u = None \<Longrightarrow>
    flow_run m t0 l0 t cs ds gone (l\<lparr>gl_machines := snd (note_session_grant_sent u (grant_sent (gl_keys l) t)
      (om_put u \<lparr>mk_capabilities = [], mk_last_heartbeat_at = None, mk_session_grant = None, mk_session_grant_sent = None\<rparr> (gl_machines l)))\<rparr>)"
| f_listed: "flow_run m t0 l0 t cs ds gone l \<Longrightarrow> om_get (gl_machines l) u = Some k \<Longrightarrow>
    flow_run m t0 l0 t cs ds gone
      (l\<lparr>gl_machines := om_put u (k\<lparr>mk_capabilities := caps, mk_last_heartbeat_at := Some t\<rparr>) (gl_machines l)\<rparr>)"
| f_removed: "flow_run m t0 l0 t cs ds gone l \<Longrightarrow>
    flow_run m t0 l0 t cs ds (gone \<or> u = m) (l\<lparr>gl_machines := om_del u (gl_machines l)\<rparr>)"

lemma grant_known: "om_get (gl_machines l) m \<noteq> None \<Longrightarrow> om_get (gl_machines (grant_if_due now u l)) m \<noteq> None"
  using grant_if_due_frame(3) [of now u l] by (auto simp: note_session_grant_sent_def split: option.splits)

lemma publish_known: "om_get (gl_machines l) m \<noteq> None \<Longrightarrow> om_get (gl_machines (sign_and_publish now u c l)) m \<noteq> None"
proof -
  assume known: "om_get (gl_machines l) m \<noteq> None"
  have "om_get (gl_machines (snd (hold_for_grant now u cipher c l))) m \<noteq> None" for cipher
    using known grant_known [OF known, of now u] by (auto simp: hold_for_grant_def Let_def split: option.split)
  then show ?thesis unfolding sign_and_publish_def Let_def by (auto split: prod.split option.split) (metis option.distinct(1) snd_conv)+
qed

lemma end_known: "om_get (gl_machines l) m \<noteq> None \<Longrightarrow> om_get (gl_machines (end_grant_wait now u confirmed l)) m \<noteq> None"
proof -
  assume known: "om_get (gl_machines l) m \<noteq> None"
  have pub: "om_get (gl_machines (foldl (\<lambda>l c. if P c then l else sign_and_publish now u c l) l' cs)) m \<noteq> None"
    if "om_get (gl_machines l') m \<noteq> None" for P cs l'
    using that by (induction cs arbitrary: l') (use publish_known in auto)
  have dec: "gl_machines (foldl (\<lambda>l e. if P e then l else put_job (DecryptJob e) l) l' es) = gl_machines l'" for P es l'
    by (induction es arbitrary: l') auto
  show ?thesis
    using known pub [of "l\<lparr>gl_waits := om_del u (gl_waits l)\<rparr>"] by (auto simp: end_grant_wait_def Let_def dec split: option.split)
qed

lemma copy_known: "om_get (gl_machines l) m \<noteq> None \<Longrightarrow> om_get (gl_machines (on_identity_copy now event l)) m \<noteq> None"
proof -
  assume known: "om_get (gl_machines l) m \<noteq> None"
  obtain lost ms where n: "note_heard_via (ne_pubkey event) ToIdentity (nat (ne_created_at event)) (gl_machines l) = (lost, ms)" by fastforce
  define l2 where "l2 = (if lost then (l\<lparr>gl_machines := ms\<rparr>)\<lparr>gl_attempts := om_del (ne_pubkey event) (gl_attempts (l\<lparr>gl_machines := ms\<rparr>))\<rparr>
    else l\<lparr>gl_machines := ms\<rparr>)"
  have "gl_machines l2 = ms" by (simp add: l2_def)
  then have "om_get (gl_machines (grant_if_due now (ne_pubkey event) l2)) m \<noteq> None"
    using heard_keys(2) [OF n] known by (intro grant_known) simp
  then show ?thesis unfolding on_identity_copy_def Let_def n prod.case l2_def [symmetric] by (auto split: option.split)
qed

lemma message_known:
  assumes known: "om_get (gl_machines l) m \<noteq> None"
  shows "om_get (gl_machines (on_message_keys kp now u via created_at pair_ack sends l)) m \<noteq> None"
proof -
  obtain noted ms where n: "note_heard_via u via created_at (gl_machines l) = (noted, ms)" by fastforce
  have ms: "om_get ms m \<noteq> None" using heard_keys(2) [OF n] known by simp
  define l0 where "l0 = (if via = ToIdentity \<and> pair_ack then l\<lparr>gl_attempts := om_put u now (gl_attempts l)\<rparr> else l)"
  have l0: "gl_machines l0 = gl_machines l" by (simp add: l0_def)
  define l2 where "l2 = (if noted then (let (dropped, ring) = drop_unused_previous ms now (gl_ring (l0\<lparr>gl_machines := ms\<rparr>))
      in if dropped then session_ring_changed (l0\<lparr>gl_machines := ms, gl_ring := ring\<rparr>) else l0\<lparr>gl_machines := ms\<rparr>) else l0\<lparr>gl_machines := ms\<rparr>)"
  have l2: "gl_machines l2 = ms" by (simp add: l2_def case_prod_beta)
  define l3 where "l3 = (if via \<noteq> ToIdentity then end_grant_wait now u True l2 else l2)"
  have "om_get (gl_machines l3) m \<noteq> None" using ms l2 end_known [of l2 m] by (simp add: l3_def)
  then have "om_get (gl_machines (foldl (\<lambda>l c. sign_and_publish now u c l) l3 sends)) m \<noteq> None"
    by (induction sends arbitrary: l3) (use publish_known in auto)
  then have "om_get (gl_machines (grant_session_key_if_due kp now u (foldl (\<lambda>l c. sign_and_publish now u c l) l3 sends))) m \<noteq> None"
    unfolding grant_session_key_if_due_def by (intro grant_known) simp
  then show ?thesis
    unfolding on_message_keys_def Let_def l0_def [symmetric] l0 n prod.case l2_def [unfolded Let_def, symmetric] l3_def [symmetric] .
qed

text \<open>Steps that only touch the machines' records.\<close>

lemma machines_flow:
  assumes "waits_ok t l" "\<And>u. session_key_of (gl_machines l) u t = None \<Longrightarrow> session_key_of ms u t = None"
  shows "flow m (l\<lparr>gl_machines := ms\<rparr>) = flow m l" "waits_ok t (l\<lparr>gl_machines := ms\<rparr>)"
  using assms by (auto simp: waits_ok_def intro: flow_cong)

definition flow_ok :: "string \<Rightarrow> string \<Rightarrow> nat \<Rightarrow> HeldCommand list \<Rightarrow> HeldCommand list \<Rightarrow> bool \<Rightarrow> GrantLoop \<Rightarrow> bool" where
  "flow_ok first m t cs ds gone l = (loop_ok t first {} l \<and> waits_ok t l \<and> loses cs (flow m l) ds
     \<and> (gone \<or> om_get (gl_machines l) m \<noteq> None \<and> (\<forall>c\<in>set ds. bare_refresh c)))"

lemma flow_okI:
  assumes "flow_ok first m t cs ds gone l" "loop_ok t first {} l'" "waits_ok t l'" "loses (flow m l @ cs') (flow m l') ds'"
    and "om_get (gl_machines l) m \<noteq> None \<Longrightarrow> om_get (gl_machines l') m \<noteq> None \<and> (\<forall>c\<in>set ds'. bare_refresh c)"
  shows "flow_ok first m t (cs @ cs') (ds @ ds') gone l'"
  using assms loses_trans [OF loses_append assms(4)] by (auto simp: flow_ok_def)

lemma lost_bare: "om_get (gl_machines l) m \<noteq> None \<Longrightarrow> \<forall>c\<in>set (lost m u confirmed l). bare_refresh c"
  by (auto simp: lost_def)

lemma end_ok:
  assumes "flow_ok first m t cs ds gone l"
  shows "flow_ok first m t cs (ds @ lost m u False l) gone (end_grant_wait t u False l)"
proof -
  have l: "loop_ok t first {} l" "waits_ok t l" using assms by (simp_all add: flow_ok_def)
  show ?thesis
    using flow_okI [OF assms, of "end_grant_wait t u False l" "[]" "lost m u False l"] l end_flow [OF l(1) waits_ok_del [OF l(2)], where machine = m]
      end_known [of l m t u False] lost_bare [of l m u False] by auto
qed

lemma flow_run_ok:
  assumes "flow_run m t0 l0 t cs ds gone l" "loop_ok t0 first {} l0" "gl_waits l0 = []" "om_get (gl_machines l0) m \<noteq> None"
  shows "flow_ok first m t (filter may_wait (sent_to m l0 @ cs)) ds gone l"
  using assms
proof (induction rule: flow_run.induct)
  case f_start
  then show ?case by (simp add: flow_ok_def waits_ok_def flow_def held_for_def)
next
  case (f_later t cs ds gone l t')
  then have ok: "flow_ok first m t (filter may_wait (sent_to m l0 @ cs)) ds gone l" by blast
  then have "loop_ok t' first {} l" using keys_ok_later f_later.hyps(2) by (auto simp: flow_ok_def loop_ok_def)
  moreover have "waits_ok t' l" using ok f_later.hyps(2) session_key_later by (auto simp: flow_ok_def waits_ok_def)
  ultimately show ?case using ok by (simp add: flow_ok_def)
next
  case (f_sends t cs ds gone l u c)
  then have ok: "flow_ok first m t (filter may_wait (sent_to m l0 @ cs)) ds gone l" by blast
  then have l: "loop_ok t first {} l" "waits_ok t l" by (simp_all add: flow_ok_def)
  show ?case using flow_okI [OF ok, of "sign_and_publish t u c l" "filter may_wait (if u = m then [c] else [])" "[]"]
      publish_flow [OF l, of m u c] publish_known [of l m t u c] l loop_ok_publish [OF l(1), of u c] by auto
next
  case (f_published t cs ds gone l u seq delivered)
  then have ok: "flow_ok first m t (filter may_wait (sent_to m l0 @ cs)) ds gone l" by blast
  show ?case
  proof (cases "waits_for u seq l")
    case True
    then obtain w where w: "om_get (gl_waits l) u = Some w" "gw_seq w = seq" by (auto simp: waits_for_def split: option.splits)
    let ?l = "l\<lparr>gl_waits := om_put u (w\<lparr>gw_timer := True\<rparr>) (gl_waits l)\<rparr>"
    have "flow m ?l = flow m l" using w by (auto simp: flow_def sent_to_def held_for_def)
    then have "flow_ok first m t (filter may_wait (sent_to m l0 @ cs)) ds gone ?l"
      using ok waits_ok_waits [of t l u w] w by (simp add: flow_ok_def loop_ok_def)
    with end_ok [OF ok, of u] True w show ?thesis by (simp add: on_grant_published_def)
  next
    case False
    then have "on_grant_published t u seq delivered l = l" by (auto simp: on_grant_published_def waits_for_def split: option.splits)
    with ok False show ?thesis by simp
  qed
next
  case (f_lapses t cs ds gone l u seq)
  then have ok: "flow_ok first m t (filter may_wait (sent_to m l0 @ cs)) ds gone l" by blast
  have "on_grant_wait_over t u seq l = (if waits_for u seq l then end_grant_wait t u False l else l)"
    by (simp add: on_grant_wait_over_def waits_for_def split: option.split)
  with ok end_ok [OF ok, of u] show ?case by simp
next
  case (f_copy t cs ds gone l event)
  then have ok: "flow_ok first m t (filter may_wait (sent_to m l0 @ cs)) ds gone l" by blast
  then have l: "loop_ok t first {} l" "waits_ok t l" by (simp_all add: flow_ok_def)
  show ?case using flow_okI [OF ok, of "on_identity_copy t event l" "[]" "[]"] copy_flow [OF l] loop_ok_copy [OF l(1)] copy_known [of l m t event] by auto
next
  case (f_hears t cs ds gone l kp via u sends created_at pair_ack)
  then have ok: "flow_ok first m t (filter may_wait (sent_to m l0 @ cs)) ds gone l" by blast
  have held: "\<And>key. via = ToSessionKey key \<Longrightarrow> ring_key (gl_ring l) key t \<noteq> None" using f_hears.hyps(3) by auto
  have l: "loop_ok t first {kp} l" "waits_ok t l" using ok f_hears.hyps(2) loop_ok_fresh by (auto simp: flow_ok_def)
  let ?l = "on_message_keys kp t u via created_at pair_ack sends l" and ?ds = "if via \<noteq> ToIdentity then lost m u True l else []"
  have "flow_ok first m t (filter may_wait (sent_to m l0 @ cs) @ filter may_wait (if u = m then sends else [])) (ds @ ?ds) gone ?l"
  proof (rule flow_okI [OF ok])
    show "loop_ok t first {} ?l" by (rule loop_ok_message [OF l(1) held])
    have flow: "loses (flow m l @ (if u = m then filter may_wait sends else [])) (flow m ?l) ?ds \<and> waits_ok t ?l"
      by (rule message_flow [OF l(1) held l(2)])
    then show "waits_ok t ?l" by blast
    from flow show "loses (flow m l @ filter may_wait (if u = m then sends else [])) (flow m ?l) ?ds" by (simp only: if_distrib [of "filter may_wait"] filter.simps)
    show "om_get (gl_machines ?l) m \<noteq> None \<and> (\<forall>c\<in>set ?ds. bare_refresh c)" if "om_get (gl_machines l) m \<noteq> None"
      using message_known [OF that] lost_bare [OF that, of u True] by auto
  qed
  then show ?case by simp
next
  case (f_rotates t cs ds gone l kp u)
  then have ok: "flow_ok first m t (filter may_wait (sent_to m l0 @ cs)) ds gone l" by blast
  have l: "loop_ok t first {kp} l" "waits_ok t l" using ok f_rotates.hyps(2) loop_ok_fresh by (auto simp: flow_ok_def)
  have "loop_ok t first {} (grant_session_key_if_due kp t u l)" unfolding grant_session_key_if_due_def by (intro loop_ok_grant loop_ok_rotate l)
  moreover have "om_get (gl_machines (grant_session_key_if_due kp t u l)) m \<noteq> None" if "om_get (gl_machines l) m \<noteq> None"
    unfolding grant_session_key_if_due_def using that by (intro grant_known) simp
  ultimately show ?case using flow_okI [OF ok, of "grant_session_key_if_due kp t u l" "[]" "[]"] rotate_flow [OF l, of m u] by auto
next
  case (f_pairs t cs ds gone l u)
  let ?ms = "om_put u \<lparr>mk_capabilities = [], mk_last_heartbeat_at = None, mk_session_grant = None, mk_session_grant_sent = None\<rparr> (gl_machines l)"
  from f_pairs have ok: "flow_ok first m t (filter may_wait (sent_to m l0 @ cs)) ds gone l" by blast
  then have l: "loop_ok t first {} l" "waits_ok t l" by (simp_all add: flow_ok_def)
  have "loop_ok t first {} (l\<lparr>gl_machines := ?ms\<rparr>)" using l f_pairs.hyps(2) by (auto simp: loop_ok_def keys_ok_def split: if_splits)
  from loop_ok_sent [OF this, of u t] have ok': "loop_ok t first {} (l\<lparr>gl_machines := snd (note_session_grant_sent u (grant_sent (gl_keys l) t) ?ms)\<rparr>)" by simp
  have key: "session_key_of (snd (note_session_grant_sent u (grant_sent (gl_keys l) t) ?ms)) v t = None"
    if "session_key_of (gl_machines l) v t = None" for v
    unfolding session_key_sent using that by (simp add: session_key_of_def)
  have "om_get (snd (note_session_grant_sent u (grant_sent (gl_keys l) t) ?ms)) m \<noteq> None" if "om_get (gl_machines l) m \<noteq> None"
    using that by (simp add: note_session_grant_sent_def)
  with flow_okI [OF ok ok', of "[]" "[]"] machines_flow(1) [OF l(2) key, of m] machines_flow(2) [OF l(2) key] show ?case by auto
next
  case (f_listed t cs ds gone l u k caps)
  let ?ms = "om_put u (k\<lparr>mk_capabilities := caps, mk_last_heartbeat_at := Some t\<rparr>) (gl_machines l)"
  from f_listed have ok: "flow_ok first m t (filter may_wait (sent_to m l0 @ cs)) ds gone l" by blast
  then have l: "loop_ok t first {} l" "waits_ok t l" by (simp_all add: flow_ok_def)
  have ok': "loop_ok t first {} (l\<lparr>gl_machines := ?ms\<rparr>)" using l(1) f_listed.hyps(2) by (fastforce simp: loop_ok_def keys_ok_def split: if_splits)
  have key: "session_key_of ?ms v t = None" if "session_key_of (gl_machines l) v t = None" for v
    using that f_listed.hyps(2) by (auto simp: session_key_of_def split: option.splits)
  show ?case using flow_okI [OF ok ok', of "[]" "[]"] machines_flow(1) [OF l(2) key, of m] machines_flow(2) [OF l(2) key] by auto
next
  case (f_removed t cs ds gone l u)
  then have ok: "flow_ok first m t (filter may_wait (sent_to m l0 @ cs)) ds gone l" by blast
  then have l: "loop_ok t first {} l" "waits_ok t l" by (simp_all add: flow_ok_def)
  have ok': "loop_ok t first {} (l\<lparr>gl_machines := om_del u (gl_machines l)\<rparr>)" using l(1) by (auto simp: loop_ok_def keys_ok_def split: if_splits)
  have key: "session_key_of (om_del u (gl_machines l)) v t = None" if "session_key_of (gl_machines l) v t = None" for v
    using that by (simp add: session_key_of_def)
  show ?case using ok ok' machines_flow(1) [OF l(2) key, of m] machines_flow(2) [OF l(2) key] by (auto simp: flow_ok_def)
qed

section \<open>Property\<close>

text \<open>C15: Commands wait for the grant and go in order, each once. From a moment nothing waits and up to the end of the
  app, however grants are sent, confirmed, refused, run out and repeated and machines are paired and removed, what
  went to the signer for a machine followed by what still waits is what was given for it, in order, less what was
  dropped (\<open>ds\<close>). Dropped are the bare refreshes that wait when a message under a session key ends the wait, and
  nothing when a wait runs out or its grant fails; only when the machine was removed does the end of its wait drop all
  that waits. And when a wait runs out within the time between two grants, nothing waits any more.\<close>

theorem held_commands_go_once:
  assumes "loop_run t00 (loop_start identity label kp t00) t0 l0" "gl_waits l0 = []" "om_get (gl_machines l0) m \<noteq> None"
    and "flow_run m t0 l0 t cs ds gone l"
  shows "subseq (filter may_wait (sent_to m l @ held_for m l)) (filter may_wait (sent_to m l0 @ cs))
    \<and> mset (filter may_wait (sent_to m l0 @ cs)) = mset (filter may_wait (sent_to m l @ held_for m l)) + mset ds
    \<and> (\<not> gone \<longrightarrow> (\<forall>c\<in>set ds. bare_refresh c))
    \<and> (\<forall>w a. om_get (gl_waits l) m = Some w \<longrightarrow> om_get (gl_attempts l) m = Some a \<longrightarrow> t - a < 600000 \<longrightarrow>
        held_for m (on_grant_wait_over t m (gw_seq w) l) = [])"
proof -
  have "flow_ok (kp_pubkey_hex kp) m t (filter may_wait (sent_to m l0 @ cs)) ds gone l"
    by (rule flow_run_ok [OF assms(4) loop_ok_run [OF assms(1) loop_ok_start] assms(2,3)])
  then have "loses (filter may_wait (sent_to m l0 @ cs)) (filter may_wait (sent_to m l @ held_for m l)) ds" "\<not> gone \<Longrightarrow> \<forall>c\<in>set ds. bare_refresh c"
    unfolding flow_ok_def flow_def by blast+
  moreover have "held_for m (on_grant_wait_over t m (gw_seq w) l) = []"
    if "om_get (gl_waits l) m = Some w" "om_get (gl_attempts l) m = Some a" "t - a < 600000" for w a
    using end_lets_go [OF that(2), of t False] that by (simp add: on_grant_wait_over_def REGRANT_EVERY_MS_def)
  ultimately show ?thesis unfolding loses_def by blast
qed

definition sample_prompt :: HeldCommand where
  "sample_prompt = \<lparr>hc_msg = OtherCommand ''input'', hc_reply = None, hc_outbox_id = Some ''o'', hc_quiet = False\<rparr>"

text \<open>A prompt and a bare refresh wait for the first grant, which does not go out: both are sent then.\<close>

definition sample_refresh :: HeldCommand where
  "sample_refresh = \<lparr>hc_msg = RefreshSessions, hc_reply = None, hc_outbox_id = None, hc_quiet = False\<rparr>"

definition both_given :: GrantLoop where
  "both_given = sign_and_publish 0 ''m'' sample_refresh (sign_and_publish 0 ''m'' sample_prompt paired_loop)"

theorem held_commands_go_once_witness:
  "subseq (filter may_wait (sent_to ''m'' (on_grant_published 0 ''m'' 1 False both_given) @ held_for ''m'' (on_grant_published 0 ''m'' 1 False both_given)))
     [sample_prompt, sample_refresh]
   \<and> mset [sample_prompt, sample_refresh] =
       mset (filter may_wait (sent_to ''m'' (on_grant_published 0 ''m'' 1 False both_given) @ held_for ''m'' (on_grant_published 0 ''m'' 1 False both_given)))"
proof -
  have start: "gl_waits paired_loop = []" "om_get (gl_machines paired_loop) ''m'' \<noteq> None" "sent_to ''m'' paired_loop = []"
    by (simp_all add: paired_loop_def loop_start_def note_session_grant_sent_def sent_to_def Let_def)
  have given: "flow_run ''m'' 0 paired_loop 0 (([] @ (if ''m'' = ''m'' then [sample_prompt] else [])) @ (if ''m'' = ''m'' then [sample_refresh] else [])) [] False both_given"
    unfolding both_given_def by (intro flow_run.f_sends flow_run.f_start)
  have "om_get (gl_machines (sign_and_publish 0 ''m'' c l)) ''m'' \<noteq> None" if "om_get (gl_machines l) ''m'' \<noteq> None" for c l
    by (rule publish_known [OF that])
  then have "om_get (gl_machines both_given) ''m'' \<noteq> None" unfolding both_given_def using start(2) by blast
  then have "lost ''m'' ''m'' False both_given = []" by (auto simp: lost_def)
  then have "(if waits_for ''m'' 1 both_given \<and> \<not> False then lost ''m'' ''m'' False both_given else []) = []" by auto
  with flow_run.f_published [OF given, of "''m''" 1 False]
  have run: "flow_run ''m'' 0 paired_loop 0 [sample_prompt, sample_refresh] [] False (on_grant_published 0 ''m'' 1 False both_given)" by (simp only: append_Nil append.simps refl if_True)
  have given_all: "filter may_wait (sent_to ''m'' paired_loop @ [sample_prompt, sample_refresh]) = [sample_prompt, sample_refresh]"
    by (simp add: start(3) may_wait_def sample_prompt_def sample_refresh_def)
  from held_commands_go_once [OF paired_run start(1,2) run] show ?thesis
    unfolding given_all by (simp only: mset.simps(1) add_0_right simp_thms)
qed

end
