(* ===== verification/Spec2Isabelle.thy ===== *)
theory Spec2Isabelle
  imports Connection Outbox Chunking Typing PairingRound SyncRound PhoneLive Ring WebSignIn PhoneScreen TerminalRound GrantWaits
begin

text \<open>
  CodeDeck+: a verification development of the core logic.

  \<^bold>\<open>The program.\<close> CodeDeck+ lets a phone drive coding agents and shells that run on a computer. The computer
  runs a \<^emph>\<open>bridge\<close>; phone and bridge exchange encrypted messages as Nostr events through relays that may
  lose, repeat, delay and reorder them, or over a direct socket. The logic of either side is pure:
  the bridge's \<open>Engine\<close> (\<open>crates/bridge-core\<close>) takes one input with the time and returns
  effects, the phone's stores (\<open>crates/client-core\<close>) are reducers from a state and an event to a state
  and effects. \<open>crates/protocol\<close> holds the wire data and what both sides compute alike. The runtimes
  (\<open>crates/bridge-runtime\<close>, \<open>crates/client-runtime\<close>) perform the effects. This development models the pure
  logic, function by function; an effect is a value.

  \<^bold>\<open>Conventions.\<close> Rust's structs are records, its enums datatypes, its maps association lists with
  strictly increasing keys (\<open>om_get\<close>, \<open>om_put\<close>, \<open>om_del\<close> of \<open>Prelude\<close>; a \<open>HashMap\<close> is one of the orders the
  source may iterate in), its \<open>Option\<close> and \<open>Result\<close> \<open>option\<close> and \<open>sum\<close>. A \<open>u64\<close> is a natural number with the saturating
  operations of the source written out (\<open>sat_add\<close>, \<open>u64_max\<close>) where the code saturates. Strings are
  their UTF-8 bytes. What the sources only call is a parameter: the JSON encoder and decoder, NIP-44
  decryption, SHA-256, \<open>npub\<close> encoding and the random token. Each theorem that relies on such a parameter
  names what it relies on as a hypothesis, and its witness runs it with a concrete function.

  \<^bold>\<open>Shared by both sides.\<close>
  \<^item> \<open>Ranges\<close> (\<open>protocol/src/ranges.rs\<close>): sets of sequence numbers as inclusive ranges. Each operation is
    the set operation it is named after, normalising is unique, and the locale \<open>range_algebra\<close> is the
    contract through which both sync components use it. \<open>missing_ranges\<close> is exact below the top of \<open>u64\<close> only.
  \<^item> \<open>Chunking\<close> (\<open>protocol/src/chunking.rs\<close>): framing of a long message into envelopes that each fit the
    encryption's bound, and the assembler. The fragments of a message in any order give it back once; the
    assembler's memory is bounded over every run (\<open>assembler_reach\<close>).
  \<^item> \<open>Protocol\<close> (\<open>commands.rs\<close>, \<open>events.rs\<close>, \<open>recipients.rs\<close>): the wire data of the modelled components.

  \<^bold>\<open>The bridge.\<close>
  \<^item> \<open>Io\<close> (\<open>io.rs\<close>, \<open>out.rs\<close>): effects and the buffer with its timer book. The locale \<open>timer_book\<close> is
    what every component relies on: a timer is known exactly from its setting to its cancelling or firing.
  \<^item> \<open>Transcripts\<close> (\<open>ports.rs\<close>): the in-memory store; the locale \<open>transcripts_port\<close> is the port's contract,
    interpreted on it.
  \<^item> \<open>Sync\<close> (\<open>sync.rs\<close>): answers to sync requests. What a request announces is exactly what the phone
    misses, chunks fit their budget, timeouts end, \<open>sync-end\<close> names exactly the acknowledged chunks, and in
    every reachable server (\<open>sync_reach\<close>) timers and syncs correspond.
  \<^item> \<open>Live\<close> (\<open>live.rs\<close>): the streamed text passed on is, however it is cut, the reply up to its
    session-meta comment.
  \<^item> \<open>Ingest\<close> (\<open>ingest.rs\<close>): a command is run once, replayed in any way and across restarts, while fewer than
    a thousand others took a slot of the dedup set.
  \<^item> \<open>Engine\<close>, \<open>Bridge\<close> (\<open>engine/mod.rs\<close>, \<open>engine/phone.rs\<close>, \<open>engine/session_keys.rs\<close>): the engine's state,
    its dispatch of inputs, commands and timers, and the addressing of each publish. \<open>SessionKeys\<close>: a session
    key names one client of one identity; copies go to exactly the clients entitled to them.
  \<^item> \<open>Terminal\<close> (\<open>engine/terminal.rs\<close>): every handler. \<open>TerminalState\<close> ties open terminals to their timers and
    bounds, \<open>BridgeState\<close> lifts that to every input of the engine (\<open>engine_reach\<close>), \<open>TerminalAccess\<close> shows who
    may have a terminal, and \<open>Typing\<close> that a shell is typed each device's keys in order, once, none skipped.
  \<^item> \<open>Ring\<close> (\<open>bridge-runtime/src/terminal/ring.rs\<close>): the wrapping buffer is the end of the terminal's output; the
    locale \<open>output_log\<close> is what a replay relies on.
  \<^item> \<open>WebSignIn\<close> (\<open>engine/web.rs\<close>): a browser is signed in only by a code that is shown, once, in time.
  \<^item> \<open>Pairing\<close> (\<open>pairing.rs\<close>, \<open>engine/pairing.rs\<close>), \<open>PairingTrust\<close>: pairing takes the open window's token.

  \<^bold>\<open>The phone.\<close>
  \<^item> \<open>ClientTranscript\<close> (\<open>stores/transcript.rs\<close>): coverage is exactly the rows held; a cycle completes, is
    repeated or fails by the coverage; a silent one recovers.
  \<^item> \<open>Connection\<close> (\<open>connection.rs\<close>, the timer handling of \<open>client-runtime/src/runtime.rs\<close>): the reducer is
    never stuck; a host that keeps its timer is part of the step relation \<open>host_reach\<close>.
  \<^item> \<open>Outbox\<close> (\<open>stores/outbox.rs\<close>): the life cycle of what the user sends (\<open>outbox_step\<close>) and why an item may be
    gone, its sweep, its bound and its storage.
  \<^item> \<open>PhonePairing\<close> (\<open>stores/pairing.rs\<close>): reading a pairing link back, or refusing one with more than five relays, and
    the attempt's state machine.
    \<open>PairingRound\<close> composes it with the bridge's half.
  \<^item> \<open>PhoneStore\<close> (\<open>client-runtime/src/ports.rs\<close>): the transcript store's port, its in-memory implementation and the
    cache, each method cut where it awaits. The locale \<open>transcript_store\<close> is the port's contract; the cache answers
    fair callers (\<open>op_fair\<close>) as the store does, and two lemmas show where it would not. \<open>PhoneSync\<close> (\<open>dispatch.rs\<close>): a chunk is acked only when
    stored (locale \<open>reliable_store\<close>). \<open>SyncRound\<close>: a whole round of both sides, chunks in any order and repeated,
    leaves the phone with all the bridge has.
  \<^item> \<open>PhoneKeys\<close> (\<open>stores/session_key.rs\<close>, \<open>client-runtime/src/signer.rs\<close>): the ring of session keys and the grants of
    each machine. \<open>GrantLoop\<close>, \<open>GrantWaits\<close> (\<open>client-runtime/src/runtime/grant.rs\<close>, \<open>runtime.rs\<close>): a key is granted before
    anything is said. Over every run (\<open>loop_run\<close>, \<open>flow_run\<close>) a confirmed key is held, commands that wait for a
    grant go once and in order, what is dropped of them is named, and a bridge does not refuse a grant for its time within
    ten days of the phone's last look at its key's age; a lemma shows one it does refuse.
  \<^item> \<open>PhoneLive\<close> (\<open>stores/live_text.rs\<close>): a row shows a beginning of what the bridge passed on.
  \<^item> \<open>PhoneTerminals\<close> (\<open>stores/terminals.rs\<close>): the terminal on screen, its input and its output, every operation.
    \<open>PhoneTerminalRoutes\<close> (\<open>dispatch.rs\<close>, \<open>intent.rs\<close>, \<open>runtime.rs\<close> of \<open>client-runtime\<close>): its messages, user actions and
    flush timer. \<open>PhoneScreen\<close>: what is drawn is the shell's output, and a gap heals by the ring's answer.
    \<open>PhoneTyping\<close>: one log of numbered events stands behind all that is sent (\<open>typing_run\<close>), whose count a request for
    a number no longer held moves (\<open>moves_count\<close>); the relay cap and the timer that empties what waits, and the request
    that carries keys to the wrong machine. \<open>TerminalRound\<close> joins it with \<open>Typing\<close>: while no request moves the count,
    the shell reads what the user typed.

  \<^bold>\<open>Loops.\<close> There is no fuel: every loop is a total function, by structural recursion or with its measure
  (\<open>chunk_loop\<close>, \<open>search\<close>, \<open>split_parts\<close>, \<open>evict_loop\<close>, \<open>flush_loop\<close>, \<open>evict_codes\<close>, \<open>send_loop\<close>).

  \<^bold>\<open>Not modelled.\<close> Sessions, the agent host, settings, accounts and MCP servers of the engine: an environment step
  (\<open>elsewhere_ok\<close>) lets them change their own part of the engine at any point, so the engine's invariants hold
  beside whatever they do. The bridge's sync server and its web sign-in keep their state beside the engine's
  record; their handlers are modelled whole and proved on it. The rest of the runtimes, the transport and the
  applications are I/O; the phone's remaining stores (machines, settings, prompts, drafts) and its presentation
  are independent of the modelled ones. The rounding of the reconnect jitter, a floating-point product, is left out.
\<close>

end
